(* ===== verification/Prelude.thy ===== *)
theory Prelude
  imports Main "HOL-Library.Word" "HOL-Library.Monad_Syntax"
begin

text \<open>
  Shared vocabulary of the development: the machine integer types of the Rust sources, the
  modelling of panics, slices of byte arrays, big-endian fields, and the generic list and word
  facts the component theories use.

  A Rust function that may panic (an \<open>assert!\<close>, a slice index out of range, an explicit
  \<open>panic!\<close>) is a function into \<open>'a option\<close>, with \<open>None\<close> for the panic; a
  \<open>Result\<close> is a sum type with \<open>Inl\<close> for \<open>Err\<close>.  \<open>usize\<close> values that count
  elements of a buffer are natural numbers: they are bounded by the buffer in memory, and every
  subtraction of them in the model is proved not to truncate where its result is used.
\<close>

section \<open>Types\<close>

unbundle bit_operations_syntax

type_synonym u8 = "8 word"
type_synonym u16 = "16 word"
type_synonym u32 = "32 word"
type_synonym u64 = "64 word"
type_synonym usize = nat
type_synonym bytes = "8 word list"

named_theorems rust_simps \<open>unfolding of panics, slices and byte fields\<close>

section \<open>Panics\<close>

definition assert_that :: "bool \<Rightarrow> unit option" where
  "assert_that b = (if b then Some () else None)"

lemma assert_that_simps [simp]: "assert_that True = Some ()" "assert_that False = None"
  by (simp_all add: assert_that_def)

lemma assert_that_eq_Some [simp]: "assert_that b = Some u \<longleftrightarrow> b"
  by (simp add: assert_that_def)

lemma bind_assert [simp]: "(assert_that b \<bind> (\<lambda>_. m)) = (if b then m else None)"
  by (simp add: assert_that_def)

section \<open>Slices\<close>

text \<open>\<open>&xs[a..b]\<close> panics unless \<open>a \<le> b \<le> xs.len()\<close>.\<close>

definition slice :: "'a list \<Rightarrow> nat \<Rightarrow> nat \<Rightarrow> 'a list option" where
  "slice xs a b = (if a \<le> b \<and> b \<le> length xs then Some (take (b - a) (drop a xs)) else None)"

text \<open>\<open>overwrite xs k d\<close> is \<open>xs\<close> with the cells from \<open>k\<close> on replaced by \<open>d\<close>: the effect of
  \<open>xs[k..k + d.len()].copy_from_slice(d)\<close>, which panics when the range does not fit.\<close>

definition overwrite :: "'a list \<Rightarrow> nat \<Rightarrow> 'a list \<Rightarrow> 'a list" where
  "overwrite xs k d = take k xs @ d @ drop (k + length d) xs"

definition copy_at :: "'a list \<Rightarrow> nat \<Rightarrow> 'a list \<Rightarrow> 'a list option" where
  "copy_at xs k d = (if k + length d \<le> length xs then Some (overwrite xs k d) else None)"

lemma slice_Some [rust_simps]:
  "a \<le> b \<Longrightarrow> b \<le> length xs \<Longrightarrow> slice xs a b = Some (take (b - a) (drop a xs))"
  by (simp add: slice_def)

lemma slice_eq_Some:
  "slice xs a b = Some ys \<longleftrightarrow> a \<le> b \<and> b \<le> length xs \<and> ys = take (b - a) (drop a xs)"
  by (auto simp: slice_def)

lemma copy_at_Some [rust_simps]:
  "k + length d \<le> length xs \<Longrightarrow> copy_at xs k d = Some (overwrite xs k d)"
  by (simp add: copy_at_def)

lemma length_overwrite [simp]:
  "k + length d \<le> length xs \<Longrightarrow> length (overwrite xs k d) = length xs"
  by (simp add: overwrite_def)

lemma nth_overwrite:
  assumes "k + length d \<le> length xs" "i < length xs"
  shows "overwrite xs k d ! i = (if k \<le> i \<and> i < k + length d then d ! (i - k) else xs ! i)"
  using assms by (auto simp: overwrite_def nth_append min_def not_less less_diff_conv2)

lemma overwrite_Nil [simp]: "overwrite xs k [] = xs"
  by (simp add: overwrite_def)

lemma overwrite_take_drop [simp]: "overwrite xs k (take n (drop k xs)) = xs"
proof -
  have "drop (k + min (length xs - k) n) xs = drop n (drop k xs)"
    by (simp add: min_def add.commute)
  then have "take n (drop k xs) @ drop (k + min (length xs - k) n) xs = drop k xs"
    by (simp only: append_take_drop_id)
  then show ?thesis by (simp add: overwrite_def)
qed

lemma take_overwrite [simp]: "k \<le> length xs \<Longrightarrow> n \<le> k \<Longrightarrow> take n (overwrite xs k d) = take n xs"
  by (simp add: overwrite_def min_def)

text \<open>Two writes next to each other are one write of the concatenation.\<close>

lemma overwrite_overwrite:
  "k + length d + length e \<le> length xs \<Longrightarrow>
   overwrite (overwrite xs k d) (k + length d) e = overwrite xs k (d @ e)"
  by (simp add: overwrite_def ac_simps)

text \<open>A write in the storage of a ring that does not cross the end of the storage is a write at
  the corresponding position of the rotated (logical) order.\<close>

lemma rotate_overwrite:
  assumes r: "r < length xs" and k: "k + length d \<le> length xs"
    and w: "(r + k) mod length xs + length d \<le> length xs"
  shows "rotate r (overwrite xs ((r + k) mod length xs) d) = overwrite (rotate r xs) k d"
proof (rule nth_equalityI)
  show "length (rotate r (overwrite xs ((r + k) mod length xs) d)) =
        length (overwrite (rotate r xs) k d)"
    using k w by simp
next
  fix i
  assume "i < length (rotate r (overwrite xs ((r + k) mod length xs) d))"
  then have i: "i < length xs" using w by simp
  let ?n = "length xs" and ?s = "(r + k) mod length xs"
  have m: "\<And>x. x < 2 * ?n \<Longrightarrow> x mod ?n = (if x < ?n then x else x - ?n)"
    by (simp add: mod_if)
  have s: "?s = (if r + k < ?n then r + k else r + k - ?n)"
  proof (cases "length d = 0")
    case True
    then show ?thesis using r k m[of "r + k"] by (cases "k = ?n") auto
  next
    case False
    then show ?thesis using r k m[of "r + k"] by auto
  qed
  have j: "(r + i) mod ?n = (if r + i < ?n then r + i else r + i - ?n)"
    using r i m[of "r + i"] by auto
  have jn: "(r + i) mod ?n < ?n" using r by (intro mod_less_divisor) linarith
  have "rotate r (overwrite xs ?s d) ! i = overwrite xs ?s d ! ((r + i) mod ?n)"
    using i w by (simp add: nth_rotate)
  also have "\<dots> = (if ?s \<le> (r + i) mod ?n \<and> (r + i) mod ?n < ?s + length d
      then d ! ((r + i) mod ?n - ?s) else xs ! ((r + i) mod ?n))"
    using w jn by (simp add: nth_overwrite)
  also have "\<dots> = (if k \<le> i \<and> i < k + length d then d ! (i - k) else rotate r xs ! i)"
  proof -
    have c: "(?s \<le> (r + i) mod ?n \<and> (r + i) mod ?n < ?s + length d) =
             (k \<le> i \<and> i < k + length d)"
      using s j r i k w by (auto split: if_splits)
    have "k \<le> i \<and> i < k + length d \<Longrightarrow> (r + i) mod ?n - ?s = i - k"
      using s j r i k w by (auto split: if_splits)
    then show ?thesis using c i by (simp add: nth_rotate)
  qed
  also have "\<dots> = overwrite (rotate r xs) k d ! i"
    using i k by (simp add: nth_overwrite)
  finally show "rotate r (overwrite xs ?s d) ! i = overwrite (rotate r xs) k d ! i" .
qed

text \<open>A read of the storage that does not cross its end is a read of the logical order.\<close>

lemma take_drop_rotate:
  assumes r: "r < length xs" and k: "k + n \<le> length xs"
    and w: "(r + k) mod length xs + n \<le> length xs"
  shows "take n (drop ((r + k) mod length xs) xs) = take n (drop k (rotate r xs))"
proof (rule nth_equalityI)
  show "length (take n (drop ((r + k) mod length xs) xs)) = length (take n (drop k (rotate r xs)))"
    using k w by simp
next
  fix i
  assume "i < length (take n (drop ((r + k) mod length xs) xs))"
  then have i: "i < n" by simp
  have nz: "0 < length xs" using r by linarith
  have "(r + k) mod length xs + i < length xs" using w i by linarith
  then have "((r + k) mod length xs + i) mod length xs = (r + k) mod length xs + i"
    by (rule mod_less)
  then have "(r + (k + i)) mod length xs = (r + k) mod length xs + i"
    by (metis add.assoc mod_add_left_eq)
  then show "take n (drop ((r + k) mod length xs) xs) ! i = take n (drop k (rotate r xs)) ! i"
    using i k w by (simp add: nth_rotate)
qed

section \<open>Big-endian fields\<close>

definition be16 :: "u16 \<Rightarrow> bytes" where
  "be16 w = [ucast (drop_bit 8 w), ucast w]"

definition be32 :: "u32 \<Rightarrow> bytes" where
  "be32 w = [ucast (drop_bit 24 w), ucast (drop_bit 16 w), ucast (drop_bit 8 w), ucast w]"

definition of_be16 :: "u8 \<Rightarrow> u8 \<Rightarrow> u16" where
  "of_be16 a b = push_bit 8 (ucast a) OR ucast b"

definition of_be32 :: "u8 \<Rightarrow> u8 \<Rightarrow> u8 \<Rightarrow> u8 \<Rightarrow> u32" where
  "of_be32 a b c d = push_bit 24 (ucast a) OR push_bit 16 (ucast b) OR push_bit 8 (ucast c) OR ucast d"

lemma length_be [simp]: "length (be16 w) = 2" "length (be32 v) = 4"
  by (simp_all add: be16_def be32_def)

lemma of_be16_be16 [simp]: "of_be16 (ucast (drop_bit 8 w)) (ucast w) = w"
  by (rule bit_word_eqI)
    (auto simp: of_be16_def bit_simps Suc_le_eq)

lemma bit_of_be32:
  "bit (of_be32 a b c d) n \<longleftrightarrow> (n < 8 \<and> bit d n) \<or> (8 \<le> n \<and> n < 16 \<and> bit c (n - 8)) \<or>
     (16 \<le> n \<and> n < 24 \<and> bit b (n - 16)) \<or> (24 \<le> n \<and> n < 32 \<and> bit a (n - 24))"
  by (auto simp: of_be32_def bit_simps dest: bit_imp_le_length)

lemma of_be32_be32 [simp]:
  "of_be32 (ucast (drop_bit 24 w)) (ucast (drop_bit 16 w)) (ucast (drop_bit 8 w)) (ucast w) = w"
proof (rule bit_word_eqI)
  fix n :: nat
  assume "n < LENGTH(32)"
  then consider "n < 8" | "8 \<le> n" "n < 16" | "16 \<le> n" "n < 24" | "24 \<le> n" "n < 32"
    by fastforce
  then show "bit (of_be32 (ucast (drop_bit 24 w)) (ucast (drop_bit 16 w)) (ucast (drop_bit 8 w))
      (ucast w)) n = bit w n"
    by cases (auto simp: bit_of_be32 bit_simps)
qed

end
