(* ===== verification/Ring_Buffer.thy ===== *)
theory Ring_Buffer
  imports Prelude
begin

text \<open>
  The ring buffer of \<open>vendor/smoltcp/src/storage/ring_buffer.rs\<close>, the byte store of every TCP
  socket: its struct, every operation of its discrete, continuous and random-access interfaces,
  the invariant that ties \<open>read_at\<close> and \<open>length\<close> to the storage, and the refinement of each
  operation to an operation on the list of queued elements.

  A closure over \<open>&mut [T]\<close> is a function from the slice to the slice it leaves behind, the
  size it returns and its result; \<open>closure_ok\<close> says what the type of such a closure and the
  documented panic condition demand of it.
\<close>

section \<open>State and queries\<close>

record 'a ring_buffer =
  storage :: "'a list"
  read_at :: nat
  rlength :: nat

datatype full = Full
datatype empty = Empty

definition rb_new :: "'a list \<Rightarrow> 'a ring_buffer" where
  "rb_new st = \<lparr>storage = st, read_at = 0, rlength = 0\<rparr>"

definition rb_clear :: "'a ring_buffer \<Rightarrow> 'a ring_buffer" where
  "rb_clear rb = rb\<lparr>read_at := 0, rlength := 0\<rparr>"

definition rb_capacity :: "'a ring_buffer \<Rightarrow> nat" where
  "rb_capacity rb = length (storage rb)"

definition rb_reset :: "('a \<Rightarrow> 'a) \<Rightarrow> 'a ring_buffer \<Rightarrow> 'a ring_buffer" where
  "rb_reset reset_elem rb = (rb_clear rb)\<lparr>storage := map reset_elem (storage rb)\<rparr>"

definition rb_len :: "'a ring_buffer \<Rightarrow> nat" where
  "rb_len rb = rlength rb"

definition rb_window :: "'a ring_buffer \<Rightarrow> nat" where
  "rb_window rb = rb_capacity rb - rb_len rb"

definition rb_get_idx :: "'a ring_buffer \<Rightarrow> nat \<Rightarrow> nat" where
  "rb_get_idx rb idx =
     (let len = rb_capacity rb in if len > 0 then (read_at rb + idx) mod len else 0)"

text \<open>The unchecked variant divides by zero, which panics, on an empty storage.\<close>

definition rb_get_idx_unchecked :: "'a ring_buffer \<Rightarrow> nat \<Rightarrow> nat option" where
  "rb_get_idx_unchecked rb idx =
     (if rb_capacity rb = 0 then None else Some ((read_at rb + idx) mod rb_capacity rb))"

definition rb_contiguous_window :: "'a ring_buffer \<Rightarrow> nat" where
  "rb_contiguous_window rb =
     min (rb_window rb) (rb_capacity rb - rb_get_idx rb (rlength rb))"

definition rb_is_empty :: "'a ring_buffer \<Rightarrow> bool" where
  "rb_is_empty rb \<longleftrightarrow> rb_len rb = 0"

definition rb_is_full :: "'a ring_buffer \<Rightarrow> bool" where
  "rb_is_full rb \<longleftrightarrow> rb_window rb = 0"

section \<open>Single elements\<close>

definition enqueue_one_with ::
  "'a ring_buffer \<Rightarrow> ('a \<Rightarrow> 'a \<times> ('e + 'r)) \<Rightarrow> ('a ring_buffer \<times> (full + ('e + 'r))) option" where
  "enqueue_one_with rb f =
     (if rb_is_full rb then Some (rb, Inl Full)
      else do {
        index \<leftarrow> rb_get_idx_unchecked rb (rlength rb);
        assert_that (index < length (storage rb));
        let (x, res) = f (storage rb ! index);
        let rb' = rb\<lparr>storage := (storage rb)[index := x]\<rparr>;
        Some (case res of Inl _ \<Rightarrow> rb' | Inr _ \<Rightarrow> rb'\<lparr>rlength := rlength rb + 1\<rparr>, Inr res)
      })"

definition dequeue_one_with ::
  "'a ring_buffer \<Rightarrow> ('a \<Rightarrow> 'a \<times> ('e + 'r)) \<Rightarrow> ('a ring_buffer \<times> (empty + ('e + 'r))) option" where
  "dequeue_one_with rb f =
     (if rb_is_empty rb then Some (rb, Inl Empty)
      else do {
        next_at \<leftarrow> rb_get_idx_unchecked rb 1;
        assert_that (read_at rb < length (storage rb));
        let (x, res) = f (storage rb ! read_at rb);
        let rb' = rb\<lparr>storage := (storage rb)[read_at rb := x]\<rparr>;
        Some (case res of Inl _ \<Rightarrow> rb'
              | Inr _ \<Rightarrow> rb'\<lparr>rlength := rlength rb - 1, read_at := next_at\<rparr>, Inr res)
      })"

text \<open>\<open>enqueue_one\<close> and \<open>dequeue_one\<close> hand out a reference to the element; the value \<open>v\<close> is what
  the caller stores through the reference.\<close>

definition enqueue_one :: "'a ring_buffer \<Rightarrow> 'a \<Rightarrow> ('a ring_buffer \<times> (full + 'a)) option" where
  "enqueue_one rb v = do {
     (rb', r) \<leftarrow> enqueue_one_with rb (\<lambda>_. (v, Inr v :: full + 'a));
     Some (rb', case r of Inl e \<Rightarrow> Inl e | Inr (Inl e) \<Rightarrow> Inl e | Inr (Inr x) \<Rightarrow> Inr x) }"

definition dequeue_one :: "'a ring_buffer \<Rightarrow> ('a ring_buffer \<times> (empty + 'a)) option" where
  "dequeue_one rb = do {
     (rb', r) \<leftarrow> dequeue_one_with rb (\<lambda>x. (x, Inr x :: empty + 'a));
     Some (rb', case r of Inl e \<Rightarrow> Inl e | Inr (Inl e) \<Rightarrow> Inl e | Inr (Inr x) \<Rightarrow> Inr x) }"

section \<open>Slices of elements\<close>

definition enqueue_many_with ::
  "'a ring_buffer \<Rightarrow> ('a list \<Rightarrow> 'a list \<times> nat \<times> 'r) \<Rightarrow> ('a ring_buffer \<times> nat \<times> 'r) option" where
  "enqueue_many_with rb0 f = do {
     let rb = (if rlength rb0 = 0 then rb0\<lparr>read_at := 0\<rparr> else rb0);
     let write_at = rb_get_idx rb (rlength rb);
     let max_size = rb_contiguous_window rb;
     buf \<leftarrow> slice (storage rb) write_at (write_at + max_size);
     let (buf', size, result) = f buf;
     assert_that (size \<le> max_size);
     Some (rb\<lparr>storage := overwrite (storage rb) write_at buf', rlength := rlength rb + size\<rparr>,
           size, result) }"

definition enqueue_many :: "'a ring_buffer \<Rightarrow> nat \<Rightarrow> ('a ring_buffer \<times> 'a list) option" where
  "enqueue_many rb n = do {
     (rb', _, r) \<leftarrow> enqueue_many_with rb
       (\<lambda>buf. let size = min n (length buf) in (buf, size, take size buf));
     Some (rb', r) }"

definition enqueue_slice :: "'a ring_buffer \<Rightarrow> 'a list \<Rightarrow> ('a ring_buffer \<times> nat) option" where
  "enqueue_slice rb data = do {
     (rb1, size_1, data1) \<leftarrow> enqueue_many_with rb
       (\<lambda>buf. let size = min (length buf) (length data)
              in (overwrite buf 0 (take size data), size, drop size data));
     (rb2, size_2, _) \<leftarrow> enqueue_many_with rb1
       (\<lambda>buf. let size = min (length buf) (length data1)
              in (overwrite buf 0 (take size data1), size, ()));
     Some (rb2, size_1 + size_2) }"

definition dequeue_many_with ::
  "'a ring_buffer \<Rightarrow> ('a list \<Rightarrow> 'a list \<times> nat \<times> 'r) \<Rightarrow> ('a ring_buffer \<times> nat \<times> 'r) option" where
  "dequeue_many_with rb f = do {
     let capacity = rb_capacity rb;
     let max_size = min (rb_len rb) (capacity - read_at rb);
     buf \<leftarrow> slice (storage rb) (read_at rb) (read_at rb + max_size);
     let (buf', size, result) = f buf;
     assert_that (size \<le> max_size);
     Some (rb\<lparr>storage := overwrite (storage rb) (read_at rb) buf',
              read_at := (if capacity > 0 then (read_at rb + size) mod capacity else 0),
              rlength := rlength rb - size\<rparr>, size, result) }"

definition dequeue_many :: "'a ring_buffer \<Rightarrow> nat \<Rightarrow> ('a ring_buffer \<times> 'a list) option" where
  "dequeue_many rb n = do {
     (rb', _, r) \<leftarrow> dequeue_many_with rb
       (\<lambda>buf. let size = min n (length buf) in (buf, size, take size buf));
     Some (rb', r) }"

text \<open>\<open>dequeue_slice\<close> fills the caller's slice; the model returns the slice after the call.\<close>

definition dequeue_slice ::
  "'a ring_buffer \<Rightarrow> 'a list \<Rightarrow> ('a ring_buffer \<times> 'a list \<times> nat) option" where
  "dequeue_slice rb data = do {
     (rb1, size_1, out1) \<leftarrow> dequeue_many_with rb
       (\<lambda>buf. let size = min (length buf) (length data) in (buf, size, take size buf));
     let data1 = drop size_1 data;
     (rb2, size_2, out2) \<leftarrow> dequeue_many_with rb1
       (\<lambda>buf. let size = min (length buf) (length data1) in (buf, size, take size buf));
     Some (rb2, out1 @ out2 @ drop size_2 data1, size_1 + size_2) }"

section \<open>Random access\<close>

text \<open>\<open>get_unallocated\<close> returns a mutable slice of the storage; the model returns its position and
  length, so that a write through it is a write to the storage.\<close>

definition get_unallocated :: "'a ring_buffer \<Rightarrow> nat \<Rightarrow> nat \<Rightarrow> (nat \<times> nat) option" where
  "get_unallocated rb offset size0 =
     (let start_at = rb_get_idx rb (rlength rb + offset) in
      if offset > rb_window rb then Some (0, 0)
      else
        let clamped_window = rb_window rb - offset;
            size1 = (if size0 > clamped_window then clamped_window else size0);
            until_end = rb_capacity rb - start_at;
            size2 = (if size1 > until_end then until_end else size1)
        in do { _ \<leftarrow> slice (storage rb) start_at (start_at + size2); Some (start_at, size2) })"

definition write_unallocated :: "'a ring_buffer \<Rightarrow> nat \<Rightarrow> 'a list \<Rightarrow> ('a ring_buffer \<times> nat) option" where
  "write_unallocated rb offset data = do {
     (start_1, size_1) \<leftarrow> get_unallocated rb offset (length data);
     st1 \<leftarrow> copy_at (storage rb) start_1 (take size_1 data);
     let rb1 = rb\<lparr>storage := st1\<rparr>;
     let offset1 = offset + size_1;
     let data1 = drop size_1 data;
     (start_2, size_2) \<leftarrow> get_unallocated rb1 offset1 (length data1);
     st2 \<leftarrow> copy_at (storage rb1) start_2 (take size_2 data1);
     Some (rb1\<lparr>storage := st2\<rparr>, size_1 + size_2) }"

definition enqueue_unallocated :: "'a ring_buffer \<Rightarrow> nat \<Rightarrow> 'a ring_buffer option" where
  "enqueue_unallocated rb count = do {
     assert_that (count \<le> rb_window rb);
     Some (rb\<lparr>rlength := rlength rb + count\<rparr>) }"

definition get_allocated :: "'a ring_buffer \<Rightarrow> nat \<Rightarrow> nat \<Rightarrow> 'a list option" where
  "get_allocated rb offset size0 =
     (let start_at = rb_get_idx rb offset in
      if offset > rlength rb then Some []
      else
        let clamped_length = rlength rb - offset;
            size1 = (if size0 > clamped_length then clamped_length else size0);
            until_end = rb_capacity rb - start_at;
            size2 = (if size1 > until_end then until_end else size1)
        in slice (storage rb) start_at (start_at + size2))"

definition read_allocated :: "'a ring_buffer \<Rightarrow> nat \<Rightarrow> 'a list \<Rightarrow> ('a list \<times> nat) option" where
  "read_allocated rb offset data = do {
     slice_1 \<leftarrow> get_allocated rb offset (length data);
     let size_1 = length slice_1;
     let data1 = drop size_1 data;
     slice_2 \<leftarrow> get_allocated rb (offset + size_1) (length data1);
     let size_2 = length slice_2;
     Some (slice_1 @ slice_2 @ drop size_2 data1, size_1 + size_2) }"

definition dequeue_allocated :: "'a ring_buffer \<Rightarrow> nat \<Rightarrow> 'a ring_buffer option" where
  "dequeue_allocated rb count = do {
     assert_that (count \<le> rb_len rb);
     Some (rb\<lparr>rlength := rlength rb - count, read_at := rb_get_idx rb count\<rparr>) }"

section \<open>Invariant and abstraction\<close>

definition rb_wf :: "'a ring_buffer \<Rightarrow> bool" where
  "rb_wf rb \<longleftrightarrow> rlength rb \<le> length (storage rb) \<and>
     read_at rb < max 1 (length (storage rb))"

text \<open>The cells in logical order (allocated first, then free), and the queue they hold.\<close>

definition rb_cells :: "'a ring_buffer \<Rightarrow> 'a list" where
  "rb_cells rb = rotate (read_at rb) (storage rb)"

definition rb_list :: "'a ring_buffer \<Rightarrow> 'a list" where
  "rb_list rb = take (rlength rb) (rb_cells rb)"

definition closure_ok :: "('a list \<Rightarrow> 'a list \<times> nat \<times> 'r) \<Rightarrow> bool" where
  "closure_ok f \<longleftrightarrow> (\<forall>buf. length (fst (f buf)) = length buf \<and> fst (snd (f buf)) \<le> length buf)"

lemmas rb_query_defs = rb_capacity_def rb_len_def rb_window_def rb_is_empty_def rb_is_full_def

lemma length_rb_cells [simp]: "length (rb_cells rb) = length (storage rb)"
  by (simp add: rb_cells_def)

lemma length_rb_list: "rb_wf rb \<Longrightarrow> length (rb_list rb) = rlength rb"
  by (simp add: rb_list_def rb_wf_def)

lemma rb_wf_read_at: "rb_wf rb \<Longrightarrow> storage rb \<noteq> [] \<Longrightarrow> read_at rb < length (storage rb)"
  by (cases "storage rb") (auto simp: rb_wf_def)

lemma rb_get_idx_mod:
  "storage rb \<noteq> [] \<Longrightarrow> rb_get_idx rb i = (read_at rb + i) mod length (storage rb)"
  by (auto simp: rb_get_idx_def rb_capacity_def Let_def)

lemma rb_get_idx_le: "rb_wf rb \<Longrightarrow> rb_get_idx rb i \<le> length (storage rb)"
  by (auto simp: rb_get_idx_def rb_capacity_def Let_def intro: less_imp_le)

lemma rb_new_wf: "rb_wf (rb_new st)" and rb_new_list: "rb_list (rb_new st) = []"
  by (auto simp: rb_wf_def rb_new_def rb_list_def)

lemma rb_clear_wf: "rb_wf (rb_clear rb)" and rb_clear_list: "rb_list (rb_clear rb) = []"
  by (auto simp: rb_wf_def rb_clear_def rb_list_def)

text \<open>The general facts about a contiguous write to, or read of, the storage at a logical
  position.\<close>

lemma rb_cells_write:
  assumes "rb_wf rb" "k + length d \<le> length (storage rb)"
    "rb_get_idx rb k + length d \<le> length (storage rb)"
  shows "rb_cells (rb\<lparr>storage := overwrite (storage rb) (rb_get_idx rb k) d\<rparr>) =
         overwrite (rb_cells rb) k d"
proof (cases "storage rb = []")
  case True
  with assms show ?thesis by (simp add: rb_cells_def overwrite_def)
next
  case False
  with assms show ?thesis
    by (simp add: rb_cells_def rb_get_idx_mod rotate_overwrite rb_wf_read_at)
qed

lemma rb_cells_read:
  assumes "rb_wf rb" "k + n \<le> length (storage rb)" "rb_get_idx rb k + n \<le> length (storage rb)"
  shows "take n (drop (rb_get_idx rb k) (storage rb)) = take n (drop k (rb_cells rb))"
proof (cases "storage rb = []")
  case True
  then show ?thesis by (simp add: rb_cells_def)
next
  case False
  with assms show ?thesis
    by (simp add: rb_cells_def rb_get_idx_mod take_drop_rotate rb_wf_read_at)
qed

lemma rotate_mod_add: "rotate ((r + n) mod length xs) xs = rotate n (rotate r xs)"
  by (metis add.commute rotate_conv_mod rotate_rotate)

lemma take_rotate_drop:
  assumes "n \<le> m" "m \<le> length xs"
  shows "take (m - n) (rotate n xs) = drop n (take m xs)"
proof (cases "n = length xs")
  case True
  with assms show ?thesis by simp
next
  case False
  with assms have "rotate n xs = drop n xs @ take n xs"
    by (simp add: rotate_drop_take)
  then show ?thesis using assms by (simp add: take_drop min_def)
qed

section \<open>Refinement of the slice interface\<close>

text \<open>\<open>enqueue_many_with\<close> first moves an empty ring back to the start of its storage.\<close>

definition rb_base :: "'a ring_buffer \<Rightarrow> 'a ring_buffer" where
  "rb_base rb = (if rlength rb = 0 then rb\<lparr>read_at := 0\<rparr> else rb)"

lemma rb_base_simps [simp]:
  "storage (rb_base rb) = storage rb" "rlength (rb_base rb) = rlength rb"
  "rb_window (rb_base rb) = rb_window rb" "rb_capacity (rb_base rb) = rb_capacity rb"
  by (simp_all add: rb_base_def rb_query_defs)

lemma rb_base_wf: "rb_wf rb \<Longrightarrow> rb_wf (rb_base rb)"
  by (auto simp: rb_base_def rb_wf_def)

lemma rb_base_list: "rb_list (rb_base rb) = rb_list rb"
  by (simp add: rb_base_def rb_list_def)

lemma rb_contiguous_bounds:
  assumes "rb_wf rb"
  shows "rlength rb + rb_contiguous_window rb \<le> length (storage rb)"
    "rb_get_idx rb (rlength rb) + rb_contiguous_window rb \<le> length (storage rb)"
  using assms rb_get_idx_le[OF assms, of "rlength rb"]
  by (auto simp: rb_contiguous_window_def rb_query_defs rb_wf_def)

lemma enqueue_many_with_correct:
  assumes wf: "rb_wf rb" and f: "closure_ok f"
  obtains buf rb' where
    "length buf = rb_contiguous_window (rb_base rb)"
    "enqueue_many_with rb f = Some (rb', snd (f buf))"
    "rb_wf rb'"
    "rb_list rb' = rb_list rb @ take (fst (snd (f buf))) (fst (f buf))"
    "length (storage rb') = length (storage rb)"
    "rlength rb' = rlength rb + fst (snd (f buf))"
    "read_at rb' = read_at (rb_base rb)"
proof -
  let ?b = "rb_base rb"
  let ?w = "rb_get_idx ?b (rlength rb)" and ?m = "rb_contiguous_window ?b"
  note b = rb_contiguous_bounds[OF rb_base_wf[OF wf], simplified]
  define buf where "buf = take ?m (drop ?w (storage rb))"
  obtain buf' size res where fb: "f buf = (buf', size, res)" by (metis prod_cases3)
  have lb: "length buf = ?m" using b by (simp add: buf_def)
  have l: "length buf' = ?m" "size \<le> ?m"
    using f fb lb by (auto simp: closure_ok_def split_beta dest: spec[of _ buf])
  define rb' where "rb' = ?b\<lparr>storage := overwrite (storage rb) ?w buf', rlength := rlength rb + size\<rparr>"
  have "enqueue_many_with rb f = Some (rb', snd (f buf))"
    using b fb l unfolding enqueue_many_with_def rb_base_def[symmetric] Let_def
    by (simp add: slice_def buf_def[symmetric] rb'_def)
  moreover have "rb_wf rb'"
    using rb_base_wf[OF wf] b l by (simp add: rb'_def rb_wf_def)
  moreover have "rb_list rb' = rb_list rb @ take size buf'"
  proof -
    have "rb_cells rb' = overwrite (rb_cells ?b) (rlength rb) buf'"
      using rb_cells_write[OF rb_base_wf[OF wf], of "rlength rb" buf'] b l
      by (simp add: rb'_def rb_cells_def)
    then have "rb_list rb' = take (rlength rb + size) (overwrite (rb_cells ?b) (rlength rb) buf')"
      by (simp add: rb_list_def rb'_def)
    also have "\<dots> = take (rlength rb) (rb_cells ?b) @ take size buf'"
      using b l by (simp add: overwrite_def min_def)
    finally show ?thesis
      using rb_base_list[of rb] by (simp add: rb_list_def)
  qed
  ultimately show thesis
    using that[of buf rb'] lb fb b l by (simp add: rb'_def)
qed

lemma closure_ok_copy: "closure_ok (\<lambda>buf. let size = min (length buf) (length data)
    in (overwrite buf 0 (take size data), size, g size))"
  by (auto simp: closure_ok_def Let_def)

text \<open>The window after a full contiguous write: the write position has wrapped to the start of
  the storage, so the rest of the free space is contiguous.\<close>

lemma contiguous_after:
  assumes wf: "rb_wf rb" and wf': "rb_wf rb'"
    and st: "length (storage rb') = length (storage rb)"
    and ra: "read_at rb' = read_at (rb_base rb)"
    and l: "rlength rb' = rlength rb + rb_contiguous_window (rb_base rb)"
  shows "rb_contiguous_window (rb_base rb') = rb_window rb'"
proof (cases "rb_contiguous_window (rb_base rb) = rb_window rb")
  case True
  with l st wf have "rb_window rb' = 0"
    by (auto simp: rb_query_defs rb_wf_def)
  then show ?thesis by (simp add: rb_contiguous_window_def)
next
  case False
  let ?n = "length (storage rb)" and ?r = "read_at (rb_base rb)"
  have cw: "rb_contiguous_window (rb_base rb) = ?n - rb_get_idx (rb_base rb) (rlength rb)"
    using False by (auto simp: rb_contiguous_window_def rb_query_defs min_def split: if_splits)
  have ne: "storage rb \<noteq> []"
    using False by (auto simp: rb_contiguous_window_def rb_query_defs)
  then have n: "0 < ?n" by simp
  have idx: "rb_get_idx (rb_base rb) (rlength rb) = (?r + rlength rb) mod ?n"
    using ne by (simp add: rb_get_idx_mod)
  have lt: "(?r + rlength rb) mod ?n < ?n" using n by simp
  have pos: "0 < rlength rb'" using l cw idx lt by linarith
  have "(?r + rlength rb + (?n - (?r + rlength rb) mod ?n)) mod ?n =
        ((?r + rlength rb) mod ?n + (?n - (?r + rlength rb) mod ?n)) mod ?n"
    by (simp only: mod_add_left_eq)
  also have "\<dots> = 0" using lt by simp
  finally have "(?r + rlength rb + (?n - (?r + rlength rb) mod ?n)) mod ?n = 0" .
  then have "rb_get_idx rb' (rlength rb') = 0"
    using l cw idx ra st ne by (auto simp: rb_get_idx_def rb_capacity_def Let_def add.assoc)
  then show ?thesis
    using pos by (simp add: rb_base_def rb_contiguous_window_def rb_query_defs)
qed

text \<open>\<open>enqueue_slice\<close> appends as much of the data as there is room for, across the wrap.\<close>

lemma enqueue_slice_correct:
  assumes wf: "rb_wf rb"
  obtains rb' where "enqueue_slice rb data = Some (rb', min (rb_window rb) (length data))"
    "rb_wf rb'" "rb_list rb' = rb_list rb @ take (rb_window rb) data"
    "length (storage rb') = length (storage rb)"
proof -
  let ?c = "\<lambda>data g buf. let size = min (length buf) (length data)
    in (overwrite buf 0 (take size data), size, g size)"
  obtain buf1 rb1 where b1: "length buf1 = rb_contiguous_window (rb_base rb)"
    and e1: "enqueue_many_with rb (?c data (\<lambda>n. drop n data)) =
             Some (rb1, snd (?c data (\<lambda>n. drop n data) buf1))"
    and wf1: "rb_wf rb1"
    and l1: "rb_list rb1 = rb_list rb @ take (min (length buf1) (length data)) data"
    and s1: "length (storage rb1) = length (storage rb)"
    and n1: "rlength rb1 = rlength rb + min (length buf1) (length data)"
    and r1: "read_at rb1 = read_at (rb_base rb)"
    by (rule enqueue_many_with_correct[OF wf closure_ok_copy[of data "\<lambda>n. drop n data"]])
      (auto simp: Let_def overwrite_def min_def split: if_splits)
  define data1 where "data1 = drop (min (length buf1) (length data)) data"
  obtain buf2 rb2 where b2: "length buf2 = rb_contiguous_window (rb_base rb1)"
    and e2: "enqueue_many_with rb1 (?c data1 (\<lambda>n. ())) =
             Some (rb2, snd (?c data1 (\<lambda>n. ()) buf2))"
    and wf2: "rb_wf rb2"
    and l2: "rb_list rb2 = rb_list rb1 @ take (min (length buf2) (length data1)) data1"
    and s2: "length (storage rb2) = length (storage rb1)"
    by (rule enqueue_many_with_correct[OF wf1 closure_ok_copy[of data1 "\<lambda>n. ()"]])
      (auto simp: Let_def overwrite_def min_def split: if_splits)
  have w: "rb_contiguous_window (rb_base rb) \<le> rb_window rb"
    by (simp add: rb_contiguous_window_def)
  have tot: "min (length buf1) (length data) + min (length buf2) (length data1) =
             min (rb_window rb) (length data)"
  proof (cases "length data \<le> length buf1")
    case True
    then show ?thesis using w b1 by (simp add: data1_def)
  next
    case False
    then have "rb_contiguous_window (rb_base rb1) = rb_window rb1"
      by (intro contiguous_after[OF wf wf1 s1 r1]) (use n1 b1 in simp)
    moreover have "rb_window rb1 = rb_window rb - length buf1"
      using False n1 s1 by (simp add: rb_query_defs)
    ultimately show ?thesis using False w b1 b2 by (auto simp: data1_def)
  qed
  have "rb_list rb2 = rb_list rb @ take (min (rb_window rb) (length data)) data"
    using l1 l2 tot by (simp add: data1_def take_add[symmetric])
  moreover have "take (min (rb_window rb) (length data)) data = take (rb_window rb) data"
    by (simp add: min_def)
  moreover have "enqueue_slice rb data = Some (rb2, min (rb_window rb) (length data))"
    using e1 e2 tot by (simp add: enqueue_slice_def Let_def data1_def)
  ultimately show thesis using that wf2 s1 s2 by simp
qed

lemma dequeue_many_with_correct:
  assumes wf: "rb_wf rb" and f: "closure_ok f" and ro: "\<And>buf. fst (f buf) = buf"
  obtains buf rb' where
    "buf = take (min (rlength rb) (length (storage rb) - read_at rb)) (rb_list rb)"
    "dequeue_many_with rb f = Some (rb', snd (f buf))"
    "rb_wf rb'" "rb_list rb' = drop (fst (snd (f buf))) (rb_list rb)"
    "storage rb' = storage rb" "rlength rb' = rlength rb - fst (snd (f buf))"
    "read_at rb' = rb_get_idx rb (fst (snd (f buf)))"
proof -
  let ?m = "min (rlength rb) (length (storage rb) - read_at rb)"
  define buf where "buf = take ?m (drop (read_at rb) (storage rb))"
  obtain buf' size res where fb: "f buf = (buf', size, res)" by (metis prod_cases3)
  have ra: "read_at rb + ?m \<le> length (storage rb)" and len: "rlength rb \<le> length (storage rb)"
    using wf by (auto simp: rb_wf_def max_def split: if_splits)
  have lb: "length buf = ?m" using ra by (simp add: buf_def)
  have l: "buf' = buf" "size \<le> ?m"
    using f fb lb ro[of buf] by (auto simp: closure_ok_def split_beta dest: spec[of _ buf])
  define rb' where "rb' = rb\<lparr>read_at := rb_get_idx rb size, rlength := rlength rb - size\<rparr>"
  have eq: "dequeue_many_with rb f = Some (rb', snd (f buf))"
    using ra fb l unfolding dequeue_many_with_def Let_def
    by (simp add: rb_len_def rb_capacity_def slice_def buf_def[symmetric])
      (simp add: buf_def rb'_def rb_get_idx_def rb_capacity_def Let_def)
  have g0: "rb_get_idx rb 0 = read_at rb"
    using wf by (cases "storage rb") (auto simp: rb_get_idx_def rb_capacity_def rb_wf_def)
  have "buf = take ?m (rb_cells rb)"
    using rb_cells_read[OF wf, of 0 ?m] ra len by (simp add: buf_def g0)
  then have bl: "buf = take ?m (rb_list rb)" by (simp add: rb_list_def min_def)
  have wf': "rb_wf rb'"
    using wf by (cases "storage rb") (auto simp: rb'_def rb_wf_def rb_get_idx_def rb_capacity_def)
  have "rb_cells rb' = rotate size (rb_cells rb)"
    by (cases "storage rb = []")
      (simp_all add: rb_cells_def rb'_def rb_get_idx_mod rotate_mod_add)
  then have "rb_list rb' = drop size (rb_list rb)"
    using l len by (simp add: rb_list_def rb'_def take_rotate_drop)
  then show thesis
    using that[OF bl eq wf'] fb by (simp add: rb'_def)
qed

lemma closure_ok_take: "closure_ok (\<lambda>buf. let size = min (length buf) n in (buf, size, take size buf))"
  by (auto simp: closure_ok_def Let_def)

text \<open>Dequeuing up to \<open>k\<close> elements from the contiguous run at the front.\<close>

lemma dequeue_many_take:
  fixes k :: nat and rb :: "'a ring_buffer"
  assumes wf: "rb_wf rb"
  defines "m \<equiv> min (min (rlength rb) (length (storage rb) - read_at rb)) k"
  obtains rb' where
    "dequeue_many_with rb (\<lambda>buf. let size = min (length buf) k in (buf, size, take size buf)) =
       Some (rb', m, take m (rb_list rb))"
    "rb_wf rb'" "rb_list rb' = drop m (rb_list rb)" "storage rb' = storage rb"
    "rlength rb' = rlength rb - m" "read_at rb' = rb_get_idx rb m"
proof -
  let ?c = "\<lambda>buf. let size = min (length buf) k in (buf, size, take size buf)"
  have ro: "\<And>buf. fst (?c buf) = buf" by (simp add: Let_def)
  obtain buf rb' where
    b: "buf = take (min (rlength rb) (length (storage rb) - read_at rb)) (rb_list rb)"
    and e: "dequeue_many_with rb ?c = Some (rb', snd (?c buf))" "rb_wf rb'"
      "rb_list rb' = drop (fst (snd (?c buf))) (rb_list rb)" "storage rb' = storage rb"
      "rlength rb' = rlength rb - fst (snd (?c buf))"
      "read_at rb' = rb_get_idx rb (fst (snd (?c buf)))"
    by (rule dequeue_many_with_correct[OF wf closure_ok_take[of k] ro])
  have "length buf = min (rlength rb) (length (storage rb) - read_at rb)"
    using b wf by (simp add: length_rb_list)
  then have m: "fst (snd (?c buf)) = m" by (simp add: Let_def m_def)
  have "snd (?c buf) = (m, take m (rb_list rb))"
  proof -
    have "m \<le> min (rlength rb) (length (storage rb) - read_at rb)"
      unfolding m_def by (rule min.cobounded1)
    then have "take m buf = take m (rb_list rb)" using b by (simp add: min_absorb1)
    then show ?thesis using m by (simp add: Let_def)
  qed
  then show thesis using that[of rb'] e m by simp
qed

text \<open>\<open>dequeue_slice\<close> removes as many elements as fit into the caller's slice, across the wrap.\<close>

lemma dequeue_slice_correct:
  fixes data :: "'a list"
  assumes wf: "rb_wf rb"
  defines "n \<equiv> min (rlength rb) (length data)"
  obtains rb' where
    "dequeue_slice rb data = Some (rb', take n (rb_list rb) @ drop n data, n)"
    "rb_wf rb'" "rb_list rb' = drop n (rb_list rb)" "storage rb' = storage rb"
proof -
  let ?c = "\<lambda>k buf. let size = min (length buf) k in (buf, size, take size buf)"
  define m1 where "m1 = min (min (rlength rb) (length (storage rb) - read_at rb)) (length data)"
  obtain rb1 where
    e1: "dequeue_many_with rb (?c (length data)) = Some (rb1, m1, take m1 (rb_list rb))"
    and wf1: "rb_wf rb1" and l1: "rb_list rb1 = drop m1 (rb_list rb)"
    and s1: "storage rb1 = storage rb" and n1: "rlength rb1 = rlength rb - m1"
    and r1: "read_at rb1 = rb_get_idx rb m1"
    by (rule dequeue_many_take[OF wf, of "length data", folded m1_def])
  define k where "k = length data - m1"
  define m2 where "m2 = min (min (rlength rb1) (length (storage rb1) - read_at rb1)) k"
  obtain rb2 where
    e2: "dequeue_many_with rb1 (?c k) = Some (rb2, m2, take m2 (rb_list rb1))"
    and wf2: "rb_wf rb2" and l2: "rb_list rb2 = drop m2 (rb_list rb1)"
    and s2: "storage rb2 = storage rb1"
    by (rule dequeue_many_take[OF wf1, of k, folded m2_def])
  have tot: "m1 + m2 = n"
  proof (cases "m1 = length data \<or> m1 = rlength rb")
    case True
    then show ?thesis using n1 by (auto simp: m1_def m2_def k_def n_def)
  next
    case False
    then have m: "m1 = length (storage rb) - read_at rb" and ne: "storage rb \<noteq> []"
      using wf by (auto simp: m1_def rb_wf_def min_def split: if_splits)
    have "read_at rb1 = 0"
      using r1 m rb_wf_read_at[OF wf ne] ne by (simp add: rb_get_idx_mod)
    then have "m2 = min (rlength rb1) k"
      using wf1 by (simp add: m2_def rb_wf_def)
    moreover have "m1 \<le> length data" "m1 \<le> rlength rb" by (simp_all add: m1_def)
    ultimately show ?thesis using n1 by (auto simp: k_def n_def min_def)
  qed
  have out: "take m1 (rb_list rb) @ take m2 (rb_list rb1) = take n (rb_list rb)"
    using l1 tot by (simp add: take_add[symmetric])
  have "dequeue_slice rb data =
      Some (rb2, take m1 (rb_list rb) @ take m2 (rb_list rb1) @ drop m2 (drop m1 data), m1 + m2)"
    using e1 e2 by (simp add: dequeue_slice_def k_def)
  also have "take m1 (rb_list rb) @ take m2 (rb_list rb1) @ drop m2 (drop m1 data) =
      take n (rb_list rb) @ drop n data"
    using tot by (simp add: out[symmetric] add.commute)
  finally have "dequeue_slice rb data = Some (rb2, take n (rb_list rb) @ drop n data, n)"
    using tot by simp
  moreover have "rb_list rb2 = drop n (rb_list rb)"
    using l1 l2 tot by (simp add: add.commute)
  ultimately show thesis using that wf2 s1 s2 by simp
qed

section \<open>Refinement of the random-access interface\<close>

lemma get_allocated_correct:
  fixes sz :: nat
  assumes wf: "rb_wf rb" and off: "offset \<le> rlength rb"
  defines "n \<equiv> min (min sz (rlength rb - offset)) (length (storage rb) - rb_get_idx rb offset)"
  shows "get_allocated rb offset sz = Some (take n (drop offset (rb_list rb)))"
proof -
  have i: "rb_get_idx rb offset \<le> length (storage rb)" by (rule rb_get_idx_le[OF wf])
  have "get_allocated rb offset sz = slice (storage rb) (rb_get_idx rb offset) (rb_get_idx rb offset + n)"
    using off by (auto simp: get_allocated_def Let_def rb_capacity_def n_def min_def intro!: arg_cong[where f = "slice _ _"])
  also have "\<dots> = Some (take n (drop (rb_get_idx rb offset) (storage rb)))"
    using i by (simp add: slice_def n_def)
  also have "take n (drop (rb_get_idx rb offset) (storage rb)) = take n (drop offset (rb_cells rb))"
    by (rule rb_cells_read[OF wf]) (use wf off i in \<open>auto simp: n_def rb_wf_def\<close>)
  also have "\<dots> = take n (drop offset (rb_list rb))"
    by (simp add: rb_list_def drop_take min_def n_def)
  finally show ?thesis .
qed

lemma get_allocated_prefix:
  assumes "rb_wf rb" "get_allocated rb offset sz = Some p"
  shows "p = take (length p) (drop offset (rb_list rb))" "length p \<le> sz"
    "offset \<le> rlength rb \<Longrightarrow> offset + length p \<le> rlength rb"
proof -
  have "p = take (length p) (drop offset (rb_list rb)) \<and> length p \<le> sz \<and>
    (offset \<le> rlength rb \<longrightarrow> offset + length p \<le> rlength rb)"
  proof (cases "offset \<le> rlength rb")
    case True
    with assms show ?thesis
      by (auto simp: get_allocated_correct length_rb_list)
  next
    case False
    with assms(2) show ?thesis by (simp add: get_allocated_def Let_def)
  qed
  then show "p = take (length p) (drop offset (rb_list rb))" "length p \<le> sz"
    "offset \<le> rlength rb \<Longrightarrow> offset + length p \<le> rlength rb" by auto
qed

lemma get_allocated_total: "rb_wf rb \<Longrightarrow> \<exists>p. get_allocated rb offset sz = Some p"
  by (cases "offset \<le> rlength rb") (auto simp: get_allocated_correct, simp add: get_allocated_def)

text \<open>The wrap position: a contiguous run that stops at the end of the storage continues at its
  start.\<close>

lemma rb_get_idx_wrap:
  assumes wf: "rb_wf rb" and ne: "storage rb \<noteq> []"
  shows "rb_get_idx rb (k + (length (storage rb) - rb_get_idx rb k)) = 0"
proof -
  let ?n = "length (storage rb)"
  have lt: "(read_at rb + k) mod ?n < ?n" using ne by simp
  have "(read_at rb + (k + (?n - (read_at rb + k) mod ?n))) mod ?n =
        ((read_at rb + k) mod ?n + (?n - (read_at rb + k) mod ?n)) mod ?n"
    by (metis add.assoc mod_add_left_eq)
  also have "\<dots> = 0" using lt by simp
  finally show ?thesis using ne by (simp add: rb_get_idx_mod)
qed

text \<open>Reading across the wrap: \<open>read_allocated\<close> copies all of the queue from an offset on that
  fits into the caller's slice.\<close>

lemma read_allocated_correct:
  fixes data :: "'a list"
  assumes wf: "rb_wf rb" and off: "offset \<le> rlength rb"
  defines "n \<equiv> min (rlength rb - offset) (length data)"
  shows "read_allocated rb offset data =
         Some (take n (drop offset (rb_list rb)) @ drop n data, n)"
proof -
  define m1 where "m1 = min (min (length data) (rlength rb - offset))
    (length (storage rb) - rb_get_idx rb offset)"
  have l: "length (rb_list rb) = rlength rb" by (rule length_rb_list[OF wf])
  have g1: "get_allocated rb offset (length data) = Some (take m1 (drop offset (rb_list rb)))"
    unfolding m1_def by (rule get_allocated_correct[OF wf off])
  have m1: "m1 \<le> rlength rb - offset" "m1 \<le> length data" by (simp_all add: m1_def)
  define m2 where "m2 = min (min (length data - m1) (rlength rb - (offset + m1)))
    (length (storage rb) - rb_get_idx rb (offset + m1))"
  have g2: "get_allocated rb (offset + m1) (length data - m1) =
            Some (take m2 (drop (offset + m1) (rb_list rb)))"
    unfolding m2_def by (rule get_allocated_correct[OF wf]) (use off m1 in simp)
  have tot: "m1 + m2 = n"
  proof (cases "m1 = min (length data) (rlength rb - offset)")
    case True
    then have "m2 = 0" by (auto simp: m2_def min_def)
    then show ?thesis using True by (simp add: n_def min.commute)
  next
    case False
    then have m: "m1 = length (storage rb) - rb_get_idx rb offset"
      by (simp add: m1_def min_def split: if_splits)
    have ne: "storage rb \<noteq> []" using False wf by (auto simp: m1_def rb_wf_def)
    have "rb_get_idx rb (offset + m1) = 0"
      unfolding m by (rule rb_get_idx_wrap[OF wf ne])
    then have "m2 = min (length data - m1) (rlength rb - (offset + m1))"
      using wf by (auto simp: m2_def rb_wf_def)
    then show ?thesis using m1 by (auto simp: n_def min_def)
  qed
  have "length (take m1 (drop offset (rb_list rb))) = m1" "length (take m2 (drop (offset + m1) (rb_list rb))) = m2"
    using l m1 by (simp_all add: m2_def)
  then have "read_allocated rb offset data = Some (take m1 (drop offset (rb_list rb)) @
      take m2 (drop (offset + m1) (rb_list rb)) @ drop m2 (drop m1 data), m1 + m2)"
    using g1 g2 by (simp add: read_allocated_def)
  also have "take m1 (drop offset (rb_list rb)) @ take m2 (drop (offset + m1) (rb_list rb)) =
      take n (drop offset (rb_list rb))"
    by (simp add: tot[symmetric] take_add add.commute)
  then have "take m1 (drop offset (rb_list rb)) @ take m2 (drop (offset + m1) (rb_list rb)) @
      drop m2 (drop m1 data) = take n (drop offset (rb_list rb)) @ drop n data"
    by (simp add: tot[symmetric] append.assoc[symmetric] add.commute del: append.assoc)
  finally show ?thesis using tot by simp
qed

lemma get_unallocated_correct:
  fixes sz :: nat
  assumes wf: "rb_wf rb" and off: "offset \<le> rb_window rb"
  defines "i \<equiv> rb_get_idx rb (rlength rb + offset)"
  shows "get_unallocated rb offset sz =
         Some (i, min (min sz (rb_window rb - offset)) (length (storage rb) - i))"
proof -
  have "i \<le> length (storage rb)" unfolding i_def by (rule rb_get_idx_le[OF wf])
  then show ?thesis
    using off by (simp add: get_unallocated_def Let_def i_def[symmetric] rb_capacity_def slice_def min_def)
      linarith
qed

lemma write_contiguous:
  assumes wf: "rb_wf rb" and d: "k + length d \<le> length (storage rb)"
    "rb_get_idx rb k + length d \<le> length (storage rb)"
  obtains st where "copy_at (storage rb) (rb_get_idx rb k) d = Some st"
    "rb_wf (rb\<lparr>storage := st\<rparr>)"
    "rb_cells (rb\<lparr>storage := st\<rparr>) = overwrite (rb_cells rb) k d" "length st = length (storage rb)"
proof
  let ?st = "overwrite (storage rb) (rb_get_idx rb k) d"
  show "copy_at (storage rb) (rb_get_idx rb k) d = Some ?st"
    using d by (simp add: copy_at_def)
  show "rb_cells (rb\<lparr>storage := ?st\<rparr>) = overwrite (rb_cells rb) k d"
    by (rule rb_cells_write[OF wf d])
  show "rb_wf (rb\<lparr>storage := ?st\<rparr>)" using wf d by (simp add: rb_wf_def)
qed (use d in simp_all)

text \<open>Writing past the end of the queue: \<open>write_unallocated\<close> stores all of the data that fits
  into the free space from the offset on, and leaves the queue itself alone.\<close>

lemma write_unallocated_correct:
  fixes data :: "'a list"
  assumes wf: "rb_wf rb" and off: "offset \<le> rb_window rb"
  defines "n \<equiv> min (rb_window rb - offset) (length data)"
  obtains rb' where "write_unallocated rb offset data = Some (rb', n)" "rb_wf rb'"
    "rb_cells rb' = overwrite (rb_cells rb) (rlength rb + offset) (take n data)"
    "read_at rb' = read_at rb" "rlength rb' = rlength rb"
    "length (storage rb') = length (storage rb)"
proof -
  let ?N = "length (storage rb)" and ?k = "rlength rb + offset"
  define m1 where "m1 = min (min (length data) (rb_window rb - offset)) (?N - rb_get_idx rb ?k)"
  have i1: "rb_get_idx rb ?k \<le> ?N" by (rule rb_get_idx_le[OF wf])
  have w: "rb_window rb = ?N - rlength rb" "rlength rb \<le> ?N"
    using wf by (simp_all add: rb_query_defs rb_wf_def)
  have m1: "m1 \<le> length data" "m1 \<le> rb_window rb - offset" "rb_get_idx rb ?k + m1 \<le> ?N"
    using i1 by (auto simp: m1_def)
  have k1: "?k + length (take m1 data) \<le> ?N" "rb_get_idx rb ?k + length (take m1 data) \<le> ?N"
    using m1 w off by auto
  obtain st1 where c1: "copy_at (storage rb) (rb_get_idx rb ?k) (take m1 data) = Some st1"
    and wf1: "rb_wf (rb\<lparr>storage := st1\<rparr>)"
    and cl1: "rb_cells (rb\<lparr>storage := st1\<rparr>) = overwrite (rb_cells rb) ?k (take m1 data)"
    and s1: "length st1 = ?N"
    by (rule write_contiguous[OF wf k1])
  let ?rb1 = "rb\<lparr>storage := st1\<rparr>"
  have f1: "rb_window ?rb1 = rb_window rb" using s1 by (simp add: rb_query_defs)
  have gi: "rb_get_idx ?rb1 j = rb_get_idx rb j" for j
    using s1 by (simp add: rb_get_idx_def rb_capacity_def)
  let ?k2 = "?k + m1"
  define m2 where "m2 = min (min (length data - m1) (rb_window rb - (offset + m1)))
    (?N - rb_get_idx rb ?k2)"
  have i2: "rb_get_idx rb ?k2 \<le> ?N" by (rule rb_get_idx_le[OF wf])
  have m2: "m2 \<le> length data - m1" "m2 \<le> rb_window rb - (offset + m1)" "rb_get_idx rb ?k2 + m2 \<le> ?N"
    using i2 by (auto simp: m2_def)
  have k2: "?k2 + length (take m2 (drop m1 data)) \<le> length (storage ?rb1)"
    "rb_get_idx ?rb1 ?k2 + length (take m2 (drop m1 data)) \<le> length (storage ?rb1)"
    using m1 m2 w off s1 gi by auto
  obtain st2 where
    c2: "copy_at (storage ?rb1) (rb_get_idx ?rb1 ?k2) (take m2 (drop m1 data)) = Some st2"
    and wf2: "rb_wf (?rb1\<lparr>storage := st2\<rparr>)"
    and cl2: "rb_cells (?rb1\<lparr>storage := st2\<rparr>) =
              overwrite (rb_cells ?rb1) ?k2 (take m2 (drop m1 data))"
    and s2: "length st2 = length (storage ?rb1)"
    by (rule write_contiguous[OF wf1 k2])
  let ?rb2 = "?rb1\<lparr>storage := st2\<rparr>"
  have tot: "m1 + m2 = n"
  proof (cases "m1 = min (length data) (rb_window rb - offset)")
    case True
    then have "m2 = 0" by (auto simp: m2_def min_def)
    then show ?thesis using True by (simp add: n_def min.commute)
  next
    case False
    then have m: "m1 = ?N - rb_get_idx rb ?k"
      by (simp add: m1_def min_def split: if_splits)
    have ne: "storage rb \<noteq> []" using False w by (auto simp: m1_def)
    have "rb_get_idx rb ?k2 = 0"
      unfolding m by (rule rb_get_idx_wrap[OF wf ne])
    then have "m2 = min (length data - m1) (rb_window rb - (offset + m1))"
      using w by (auto simp: m2_def)
    then show ?thesis using m1 by (auto simp: n_def min_def)
  qed
  have lt: "length (take m1 data) = m1" "length (take m2 (drop m1 data)) = m2"
    using m1 m2 by auto
  have "rb_cells ?rb2 = overwrite (rb_cells rb) ?k (take m1 data @ take m2 (drop m1 data))"
    using overwrite_overwrite[of ?k "take m1 data" "take m2 (drop m1 data)" "rb_cells rb"]
      cl1 cl2 lt m1 m2 w off by simp
  then have cl: "rb_cells ?rb2 = overwrite (rb_cells rb) ?k (take n data)"
    using tot by (simp add: take_add[symmetric])
  have g2: "get_unallocated ?rb1 (offset + m1) (length (drop m1 data)) =
      Some (rb_get_idx ?rb1 ?k2, m2)"
    using get_unallocated_correct[OF wf1, of "offset + m1" "length data - m1"] f1 gi s1 m1 off
    by (simp add: m2_def add.assoc)
  have "write_unallocated rb offset data = Some (?rb2, n)"
    using get_unallocated_correct[OF wf off, of "length data", folded m1_def] c1 c2 g2 tot
    by (simp add: write_unallocated_def)
  then show thesis using that[of ?rb2] wf2 cl s1 s2 by simp
qed

text \<open>Data written past the end of the queue becomes part of it when it is enqueued.\<close>

lemma enqueue_unallocated_correct:
  assumes wf: "rb_wf rb" and c: "count \<le> rb_window rb"
  obtains rb' where "enqueue_unallocated rb count = Some rb'" "rb_wf rb'"
    "rb_cells rb' = rb_cells rb" "storage rb' = storage rb" "rlength rb' = rlength rb + count"
    "rb_list rb' = rb_list rb @ take count (drop (rlength rb) (rb_cells rb))"
proof
  let ?rb = "rb\<lparr>rlength := rlength rb + count\<rparr>"
  show "enqueue_unallocated rb count = Some ?rb" using c by (simp add: enqueue_unallocated_def)
  show "rb_wf ?rb" using wf c by (auto simp: rb_wf_def rb_query_defs)
  show "rb_cells ?rb = rb_cells rb" by (simp add: rb_cells_def)
  then show "rb_list ?rb = rb_list rb @ take count (drop (rlength rb) (rb_cells rb))"
    by (simp add: rb_list_def take_add)
qed simp_all

lemma dequeue_allocated_correct:
  assumes wf: "rb_wf rb" and c: "count \<le> rlength rb"
  obtains rb' where "dequeue_allocated rb count = Some rb'" "rb_wf rb'"
    "storage rb' = storage rb" "rlength rb' = rlength rb - count"
    "rb_list rb' = drop count (rb_list rb)" "rb_cells rb' = rotate count (rb_cells rb)"
proof
  let ?rb = "rb\<lparr>rlength := rlength rb - count, read_at := rb_get_idx rb count\<rparr>"
  show "dequeue_allocated rb count = Some ?rb"
    using c by (simp add: dequeue_allocated_def rb_len_def)
  show "rb_wf ?rb"
    using wf by (cases "storage rb") (auto simp: rb_wf_def rb_get_idx_def rb_capacity_def)
  show cl: "rb_cells ?rb = rotate count (rb_cells rb)"
    by (cases "storage rb = []") (simp_all add: rb_cells_def rb_get_idx_mod rotate_mod_add)
  have "rlength rb \<le> length (rb_cells rb)" using wf by (simp add: rb_wf_def)
  then show "rb_list ?rb = drop count (rb_list rb)"
    using c cl by (simp add: rb_list_def take_rotate_drop)
qed simp_all

section \<open>Refinement of the single-element interface\<close>

lemma list_update_overwrite: "i < length xs \<Longrightarrow> xs[i := x] = overwrite xs i [x]"
  by (simp add: overwrite_def upd_conv_take_nth_drop)

lemma enqueue_one_correct:
  assumes wf: "rb_wf rb"
  obtains "rb_is_full rb" "enqueue_one rb v = Some (rb, Inl Full)"
  | rb' where "\<not> rb_is_full rb" "enqueue_one rb v = Some (rb', Inr v)" "rb_wf rb'"
      "rb_list rb' = rb_list rb @ [v]" "length (storage rb') = length (storage rb)"
proof (cases "rb_is_full rb")
  case True
  then have "enqueue_one rb v = Some (rb, Inl Full)"
    by (simp add: enqueue_one_def enqueue_one_with_def)
  with True that(1) show thesis by simp
next
  case False
  let ?i = "rb_get_idx rb (rlength rb)"
  have lt: "rlength rb < length (storage rb)" using False by (simp add: rb_query_defs)
  then have ne: "storage rb \<noteq> []" by auto
  have i: "?i < length (storage rb)" using ne by (simp add: rb_get_idx_mod)
  let ?rb = "rb\<lparr>storage := (storage rb)[?i := v], rlength := rlength rb + 1\<rparr>"
  have e: "enqueue_one rb v = Some (?rb, Inr v)"
    using False ne i by (simp add: enqueue_one_def enqueue_one_with_def rb_get_idx_unchecked_def
        rb_capacity_def rb_get_idx_mod)
  have "rb_cells ?rb = overwrite (rb_cells rb) (rlength rb) [v]"
    using rb_cells_write[OF wf, of "rlength rb" "[v]"] lt i
    by (simp add: rb_cells_def list_update_overwrite)
  then have "rb_list ?rb = rb_list rb @ [v]"
    using lt by (simp add: rb_list_def overwrite_def min_def)
  moreover have "rb_wf ?rb" using wf lt by (simp add: rb_wf_def)
  ultimately show thesis using that(2)[OF False e] by simp
qed

lemma dequeue_one_correct:
  assumes wf: "rb_wf rb"
  obtains "rb_is_empty rb" "dequeue_one rb = Some (rb, Inl Empty)"
  | rb' where "\<not> rb_is_empty rb" "dequeue_one rb = Some (rb', Inr (hd (rb_list rb)))" "rb_wf rb'"
      "rb_list rb' = tl (rb_list rb)" "storage rb' = storage rb"
proof (cases "rb_is_empty rb")
  case True
  then have "dequeue_one rb = Some (rb, Inl Empty)"
    by (simp add: dequeue_one_def dequeue_one_with_def)
  with True that(1) show thesis by simp
next
  case False
  then have l: "0 < rlength rb" by (simp add: rb_query_defs)
  then have ne: "storage rb \<noteq> []" using wf by (auto simp: rb_wf_def)
  note r = rb_wf_read_at[OF wf ne]
  obtain rb' where d: "dequeue_allocated rb 1 = Some rb'" "rb_wf rb'" "storage rb' = storage rb"
    "rlength rb' = rlength rb - 1" "rb_list rb' = drop 1 (rb_list rb)"
    "rb_cells rb' = rotate 1 (rb_cells rb)"
    by (rule dequeue_allocated_correct[OF wf, of 1]) (use l in auto)
  have h: "hd (rb_list rb) = storage rb ! read_at rb"
    using l r ne by (simp add: rb_list_def rb_cells_def hd_rotate_conv_nth)
  have rb': "rb' = rb\<lparr>rlength := rlength rb - 1, read_at := rb_get_idx rb 1\<rparr>"
    using d(1) by (simp add: dequeue_allocated_def rb_len_def split: if_splits)
  have "dequeue_one rb = Some (rb', Inr (hd (rb_list rb)))"
    using False r ne h by (simp add: dequeue_one_def dequeue_one_with_def rb_get_idx_unchecked_def
        rb_capacity_def rb_get_idx_mod rb')
  then show thesis using that(2)[OF False] d by (simp add: drop_Suc)
qed

section \<open>The queue interface\<close>

text \<open>
  What the TCP socket relies on: a bounded first-in first-out byte store.  \<open>push\<close> accepts a
  prefix of the data and says how much, \<open>pop\<close> removes up to a number of elements.  The locale
  proves once that a stream of bytes survives any interleaving of the two.
\<close>

datatype 'a fifo_op = Push "'a list" | Pop nat

text \<open>Runs a sequence of operations and collects the accepted and the delivered elements.\<close>

fun fifo_run :: "('q \<Rightarrow> 'a list \<Rightarrow> ('q \<times> nat) option) \<Rightarrow> ('q \<Rightarrow> nat \<Rightarrow> ('q \<times> 'a list) option) \<Rightarrow>
    'q \<Rightarrow> 'a fifo_op list \<Rightarrow> ('q \<times> 'a list \<times> 'a list) option" where
  "fifo_run push pop q [] = Some (q, [], [])"
| "fifo_run push pop q (Push xs # ops) = do {
     (q1, n) \<leftarrow> push q xs;
     (q2, ins, outs) \<leftarrow> fifo_run push pop q1 ops;
     Some (q2, take n xs @ ins, outs) }"
| "fifo_run push pop q (Pop n # ops) = do {
     (q1, ys) \<leftarrow> pop q n;
     (q2, ins, outs) \<leftarrow> fifo_run push pop q1 ops;
     Some (q2, ins, ys @ outs) }"

locale bounded_fifo =
  fixes invar :: "'q \<Rightarrow> bool" and contents :: "'q \<Rightarrow> 'a list" and capacity :: "'q \<Rightarrow> nat"
    and push :: "'q \<Rightarrow> 'a list \<Rightarrow> ('q \<times> nat) option"
    and pop :: "'q \<Rightarrow> nat \<Rightarrow> ('q \<times> 'a list) option"
  assumes contents_le: "invar q \<Longrightarrow> length (contents q) \<le> capacity q"
    and push_ok: "invar q \<Longrightarrow> \<exists>q'. push q xs =
        Some (q', min (capacity q - length (contents q)) (length xs)) \<and> invar q' \<and>
      contents q' = contents q @ take (capacity q - length (contents q)) xs \<and>
      capacity q' = capacity q"
    and pop_ok: "invar q \<Longrightarrow> \<exists>q'. pop q n = Some (q', take n (contents q)) \<and> invar q' \<and>
      contents q' = drop n (contents q) \<and> capacity q' = capacity q"
begin

lemma stream_preserved:
  "invar q \<Longrightarrow> \<exists>q' ins outs. fifo_run push pop q ops = Some (q', ins, outs) \<and> invar q' \<and>
     contents q @ ins = outs @ contents q' \<and> capacity q' = capacity q"
proof (induction ops arbitrary: q)
  case Nil
  then show ?case by simp
next
  case (Cons op ops)
  show ?case
  proof (cases op)
    case (Push xs)
    let ?w = "capacity q - length (contents q)"
    obtain q1 where q1: "push q xs = Some (q1, min ?w (length xs))" "invar q1"
      "contents q1 = contents q @ take ?w xs" "capacity q1 = capacity q"
      using push_ok[OF Cons.prems] by blast
    moreover obtain q' ins outs where "fifo_run push pop q1 ops = Some (q', ins, outs)" "invar q'"
      "contents q1 @ ins = outs @ contents q'" "capacity q' = capacity q1"
      using Cons.IH[OF q1(2)] by blast
    moreover have "take (min ?w (length xs)) xs = take ?w xs" by (simp add: min_def)
    ultimately show ?thesis by (simp add: Push)
  next
    case (Pop n)
    obtain q1 where q1: "pop q n = Some (q1, take n (contents q))" "invar q1"
      "contents q1 = drop n (contents q)" "capacity q1 = capacity q"
      using pop_ok[OF Cons.prems] by blast
    obtain q' ins outs where "fifo_run push pop q1 ops = Some (q', ins, outs)" "invar q'"
      "contents q1 @ ins = outs @ contents q'" "capacity q' = capacity q1"
      using Cons.IH[OF q1(2)] by blast
    with q1 show ?thesis
      by (simp add: Pop) (metis append.assoc append_take_drop_id)
  qed
qed

text \<open>Nothing is refused while there is room, and what a drained queue delivered is exactly what
  it accepted.\<close>

lemma push_fits:
  assumes "invar q" "length (contents q) + length xs \<le> capacity q"
  shows "\<exists>q'. push q xs = Some (q', length xs) \<and> contents q' = contents q @ xs"
  using push_ok[OF assms(1), of xs] assms(2) by (auto simp: min_def)

end

text \<open>The caller's view of \<open>dequeue_slice\<close>: hand in a slice of \<open>n\<close> bytes, read what was filled.\<close>

definition rb_pop :: "u8 ring_buffer \<Rightarrow> nat \<Rightarrow> (u8 ring_buffer \<times> bytes) option" where
  "rb_pop rb n = do { (rb', out, k) \<leftarrow> dequeue_slice rb (replicate n 0); Some (rb', take k out) }"

lemma rb_pop_correct:
  assumes "rb_wf rb"
  shows "\<exists>rb'. rb_pop rb n = Some (rb', take n (rb_list rb)) \<and> rb_wf rb' \<and>
    rb_list rb' = drop n (rb_list rb) \<and> rb_capacity rb' = rb_capacity rb"
proof -
  let ?n = "min (rlength rb) n"
  have l: "length (rb_list rb) = rlength rb" by (rule length_rb_list[OF assms])
  obtain rb' where r: "dequeue_slice rb (replicate n 0) =
      Some (rb', take ?n (rb_list rb) @ drop ?n (replicate n 0), ?n)"
    "rb_wf rb'" "rb_list rb' = drop ?n (rb_list rb)" "storage rb' = storage rb"
    by (rule dequeue_slice_correct[OF assms, of "replicate n 0", simplified length_replicate])
  have "take ?n (rb_list rb) = take n (rb_list rb)" "drop ?n (rb_list rb) = drop n (rb_list rb)"
    using l by (simp_all add: min_def)
  then show ?thesis using r l by (simp add: rb_pop_def rb_capacity_def)
qed

interpretation rbq: bounded_fifo rb_wf rb_list rb_capacity enqueue_slice rb_pop
proof
  fix q :: "u8 ring_buffer" and xs n
  assume wf: "rb_wf q"
  have l: "length (rb_list q) = rlength q" by (rule length_rb_list[OF wf])
  show "length (rb_list q) \<le> rb_capacity q"
    using wf l by (simp add: rb_wf_def rb_capacity_def)
  have w: "rb_capacity q - length (rb_list q) = rb_window q" using l by (simp add: rb_query_defs)
  show "\<exists>q'. enqueue_slice q xs =
        Some (q', min (rb_capacity q - length (rb_list q)) (length xs)) \<and> rb_wf q' \<and>
      rb_list q' = rb_list q @ take (rb_capacity q - length (rb_list q)) xs \<and>
      rb_capacity q' = rb_capacity q"
    unfolding w by (rule enqueue_slice_correct[OF wf, of xs]) (auto simp: rb_capacity_def)
  show "\<exists>q'. rb_pop q n = Some (q', take n (rb_list q)) \<and> rb_wf q' \<and>
      rb_list q' = drop n (rb_list q) \<and> rb_capacity q' = rb_capacity q"
    by (rule rb_pop_correct[OF wf])
qed

section \<open>Properties\<close>

text \<open>C15: the ring buffer is a lossless first-in first-out stream.  For any sequence of
  \<open>enqueue_slice\<close> and \<open>dequeue_slice\<close> calls on a well-formed ring no call panics, the invariant
  holds at the end, and the bytes held before followed by those accepted are exactly the bytes
  delivered followed by those still held.\<close>

theorem ring_buffer_stream:
  assumes "rb_wf rb"
  shows "\<exists>rb' ins outs. fifo_run enqueue_slice rb_pop rb ops = Some (rb', ins, outs) \<and> rb_wf rb' \<and>
    rb_list rb @ ins = outs @ rb_list rb' \<and> rb_capacity rb' = rb_capacity rb"
  by (rule rbq.stream_preserved[OF assms])

theorem ring_buffer_stream_witness:
  "\<exists>rb' ins outs. fifo_run enqueue_slice rb_pop \<lparr>storage = [3, 1, 2], read_at = 1, rlength = 2\<rparr>
       [Push [7, 8], Pop 2, Push [9]] = Some (rb', ins, outs) \<and> rb_wf rb' \<and>
     rb_list \<lparr>storage = [3, 1, 2], read_at = 1, rlength = 2\<rparr> @ ins = outs @ rb_list rb' \<and>
     rb_capacity rb' = rb_capacity \<lparr>storage = [3, 1, 2 :: u8], read_at = 1, rlength = 2\<rparr>"
  by (rule ring_buffer_stream) (simp add: rb_wf_def)

text \<open>Out-of-order placement.  Data written with \<open>write_unallocated\<close> at an offset past the end
  of the queue leaves the queue as it is, even when the free space wraps around; once the bytes up
  to its end are enqueued, they follow the queue at exactly that offset.\<close>

theorem ring_buffer_out_of_order:
  assumes wf: "rb_wf rb" and fits: "offset + length data \<le> rb_window rb"
  shows "\<exists>rb1 rb2. write_unallocated rb offset data = Some (rb1, length data) \<and>
    rb_list rb1 = rb_list rb \<and> enqueue_unallocated rb1 (offset + length data) = Some rb2 \<and>
    rb_wf rb2 \<and> rb_list rb2 = rb_list rb @ take offset (drop (rb_len rb) (rb_cells rb)) @ data"
proof -
  have off: "offset \<le> rb_window rb" using fits by simp
  have n: "min (rb_window rb - offset) (length data) = length data" using fits by simp
  obtain rb1 where w: "write_unallocated rb offset data = Some (rb1, length data)" and wf1: "rb_wf rb1"
    and c: "rb_cells rb1 = overwrite (rb_cells rb) (rlength rb + offset) data"
    and l: "rlength rb1 = rlength rb" and s: "length (storage rb1) = length (storage rb)"
    by (rule write_unallocated_correct[OF wf off, of data]) (use n in auto)
  have cap: "rlength rb + offset + length data \<le> length (storage rb)"
    using fits wf by (auto simp: rb_query_defs rb_wf_def)
  have "rb_list rb1 = rb_list rb" using c l cap by (simp add: rb_list_def)
  moreover obtain rb2 where "enqueue_unallocated rb1 (offset + length data) = Some rb2" "rb_wf rb2"
    "rb_list rb2 = rb_list rb1 @ take (offset + length data) (drop (rlength rb1) (rb_cells rb1))"
    by (rule enqueue_unallocated_correct[OF wf1, of "offset + length data"])
      (use fits l s in \<open>auto simp: rb_query_defs\<close>)
  moreover have "take (offset + length data) (drop (rlength rb) (rb_cells rb1)) =
      take offset (drop (rlength rb) (rb_cells rb)) @ data"
  proof -
    have "take (offset + length data) (drop (rlength rb) (rb_cells rb1)) =
        drop (rlength rb) (take (rlength rb + (offset + length data)) (rb_cells rb1))"
      by (simp add: take_drop add.commute)
    also have "take (rlength rb + (offset + length data)) (rb_cells rb1) =
        take (rlength rb + offset) (rb_cells rb) @ data"
      using c cap by (simp add: overwrite_def)
    also have "drop (rlength rb) (take (rlength rb + offset) (rb_cells rb) @ data) =
        take offset (drop (rlength rb) (rb_cells rb)) @ data"
      using cap by (simp add: take_drop add.commute)
    finally show ?thesis .
  qed
  ultimately show ?thesis using w l by (auto simp: rb_len_def)
qed

theorem ring_buffer_out_of_order_witness:
  "\<exists>rb1 rb2. write_unallocated \<lparr>storage = [0, 0, 5, 6, 0], read_at = 2, rlength = 2\<rparr> 1 [7, 8 :: u8] =
       Some (rb1, length [7, 8 :: u8]) \<and>
     rb_list rb1 = rb_list \<lparr>storage = [0, 0, 5, 6, 0], read_at = 2, rlength = 2\<rparr> \<and>
     enqueue_unallocated rb1 (1 + length [7, 8 :: u8]) = Some rb2 \<and> rb_wf rb2 \<and>
     rb_list rb2 = rb_list \<lparr>storage = [0, 0, 5, 6, 0], read_at = 2, rlength = 2\<rparr> @
       take 1 (drop (rb_len \<lparr>storage = [0, 0, 5, 6, 0 :: u8], read_at = 2, rlength = 2\<rparr>)
         (rb_cells \<lparr>storage = [0, 0, 5, 6, 0], read_at = 2, rlength = 2\<rparr>)) @ [7, 8]"
  by (rule ring_buffer_out_of_order) (simp_all add: rb_wf_def rb_query_defs)

text \<open>Reading without removing.  \<open>read_allocated\<close> fills the caller's slice with the queue from
  the offset on, as much as there is, across the end of the storage, and leaves the rest of the
  slice alone.\<close>

theorem ring_buffer_peek:
  fixes data :: "'a list"
  assumes "rb_wf rb" and "offset \<le> rb_len rb"
  defines "n \<equiv> min (rb_len rb - offset) (length data)"
  shows "read_allocated rb offset data = Some (take n (drop offset (rb_list rb)) @ drop n data, n)"
  using read_allocated_correct[of rb offset data] assms by (simp add: rb_len_def)

theorem ring_buffer_peek_witness:
  "read_allocated \<lparr>storage = [3, 1, 2 :: u8], read_at = 1, rlength = 3\<rparr> 1 [0, 0, 0, 9] =
     Some ([2, 3, 0, 9], 2)"
  using ring_buffer_peek[of "\<lparr>storage = [3, 1, 2 :: u8], read_at = 1, rlength = 3\<rparr>" 1 "[0, 0, 0, 9]"]
  by (simp add: rb_wf_def rb_len_def rb_list_def rb_cells_def numeral_2_eq_2)

text \<open>The single-element interface reports its boundary conditions as errors and is otherwise
  first-in first-out: an element enqueued into a ring that is not full is the next one dequeued
  after the elements before it.\<close>

theorem ring_buffer_single_elements:
  assumes "rb_wf rb"
  shows "((rb_is_full rb \<and> enqueue_one rb v = Some (rb, Inl Full)) \<or>
      (\<exists>rb'. \<not> rb_is_full rb \<and> enqueue_one rb v = Some (rb', Inr v) \<and> rb_wf rb' \<and>
        rb_list rb' = rb_list rb @ [v])) \<and>
    ((rb_is_empty rb \<and> dequeue_one rb = Some (rb, Inl Empty)) \<or>
      (\<exists>rb'. \<not> rb_is_empty rb \<and> dequeue_one rb = Some (rb', Inr (hd (rb_list rb))) \<and> rb_wf rb' \<and>
        rb_list rb' = tl (rb_list rb)))"
  using enqueue_one_correct[OF assms, of v] dequeue_one_correct[OF assms] by metis+

theorem ring_buffer_single_elements_witness:
  "(rb_is_full (rb_new [0 :: u8]) \<and> enqueue_one (rb_new [0 :: u8]) 7 = Some (rb_new [0], Inl Full)) \<or>
      (\<exists>rb'. \<not> rb_is_full (rb_new [0 :: u8]) \<and> enqueue_one (rb_new [0 :: u8]) 7 = Some (rb', Inr 7) \<and>
        rb_wf rb' \<and> rb_list rb' = rb_list (rb_new [0]) @ [7])"
  using ring_buffer_single_elements[OF rb_new_wf, of "[0 :: u8]" 7] by blast

end
