(* ===== verification/Assembler.thy ===== *)
theory Assembler
  imports Prelude
begin

text \<open>
  The reassembly bookkeeping of \<open>vendor/smoltcp/src/storage/assembler.rs\<close>: an array of
  \<open>ASSEMBLER_MAX_SEGMENT_COUNT\<close> contigs, each a hole followed by data, which records what part of
  the receive window a TCP socket has seen.  The index loops of the source are recursive functions
  over the array; a structural reference version (\<open>ins\<close>, \<open>merge\<close>) is proved equal to them, and
  through it that \<open>add\<close> computes the union of the recorded range with the new one.

  The length of the array is a build-time constant of the crate; the model takes it from the list
  of contigs, and \<open>asm_new\<close> takes it as its argument.
\<close>

section \<open>Contigs\<close>

record contig =
  hole_size :: nat
  data_size :: nat

definition contig_empty :: contig where
  "contig_empty = \<lparr>hole_size = 0, data_size = 0\<rparr>"

definition hole_and_data :: "nat \<Rightarrow> nat \<Rightarrow> contig" where
  "hole_and_data h d = \<lparr>hole_size = h, data_size = d\<rparr>"

definition has_hole :: "contig \<Rightarrow> bool" where
  "has_hole c \<longleftrightarrow> hole_size c \<noteq> 0"

definition has_data :: "contig \<Rightarrow> bool" where
  "has_data c \<longleftrightarrow> data_size c \<noteq> 0"

definition total_size :: "contig \<Rightarrow> nat" where
  "total_size c = hole_size c + data_size c"

definition shrink_hole_by :: "contig \<Rightarrow> nat \<Rightarrow> contig" where
  "shrink_hole_by c n = c\<lparr>hole_size := hole_size c - n\<rparr>"

definition shrink_hole_to :: "contig \<Rightarrow> nat \<Rightarrow> contig" where
  "shrink_hole_to c n = \<lparr>hole_size = n, data_size = total_size c - n\<rparr>"

section \<open>The assembler\<close>

type_synonym assembler = "contig list"

datatype too_many_holes = TooManyHolesError

definition asm_new :: "nat \<Rightarrow> assembler" where
  "asm_new n = replicate n contig_empty"

definition asm_clear :: "assembler \<Rightarrow> assembler" where
  "asm_clear cs = map (\<lambda>_. contig_empty) cs"

text \<open>The array is never empty (the build script rejects a zero count), so its first and last
  entries exist; \<open>asm_wf\<close> below includes this.\<close>

definition asm_front :: "assembler \<Rightarrow> contig" where
  "asm_front cs = cs ! 0"

definition asm_back :: "assembler \<Rightarrow> contig" where
  "asm_back cs = cs ! (length cs - 1)"

definition peek_front :: "assembler \<Rightarrow> nat" where
  "peek_front cs = (if has_hole (asm_front cs) then 0 else data_size (asm_front cs))"

definition asm_is_empty :: "assembler \<Rightarrow> bool" where
  "asm_is_empty cs \<longleftrightarrow> \<not> has_data (asm_front cs)"

text \<open>\<open>for i in at..len-1\<close>, with the early return and the final reset of the last entry.\<close>

fun remove_loop :: "nat \<Rightarrow> nat \<Rightarrow> assembler \<Rightarrow> assembler" where
  "remove_loop 0 i cs = cs[length cs - 1 := contig_empty]"
| "remove_loop (Suc n) i cs =
     (if \<not> has_data (cs ! i) then cs else remove_loop n (i + 1) (cs[i := cs ! (i + 1)]))"

definition remove_contig_at :: "assembler \<Rightarrow> nat \<Rightarrow> assembler" where
  "remove_contig_at cs at = remove_loop (length cs - 1 - at) at cs"

text \<open>\<open>for i in (at + 1..len).rev()\<close> shifts the tail right by one.\<close>

fun shift_right_loop :: "nat \<Rightarrow> nat \<Rightarrow> assembler \<Rightarrow> assembler" where
  "shift_right_loop 0 at cs = cs"
| "shift_right_loop (Suc n) at cs =
     shift_right_loop n at (cs[at + 1 + n := cs ! (at + n)])"

definition add_contig_at :: "assembler \<Rightarrow> nat \<Rightarrow> too_many_holes + assembler" where
  "add_contig_at cs at =
     (if has_data (asm_back cs) then Inl TooManyHolesError
      else Inr ((shift_right_loop (length cs - 1 - at) at cs)[at := contig_empty]))"

text \<open>The search loop of \<open>add\<close>: the index of the contig that holds the start of the range, with
  the offset relative to it, or the early returns.\<close>

datatype add_search = NoRoom | AppendAt nat nat | FoundAt nat nat

fun add_find :: "nat \<Rightarrow> nat \<Rightarrow> nat \<Rightarrow> assembler \<Rightarrow> add_search" where
  "add_find 0 i offset cs = NoRoom"
| "add_find (Suc n) i offset cs =
     (let contig = cs ! i in
      if \<not> has_data contig then AppendAt i offset
      else if offset \<le> total_size contig then FoundAt i offset
      else add_find n (i + 1) (offset - total_size contig) cs)"

text \<open>The coalescing loop: \<open>contigs[i]\<close> swallows the contigs to its right the range reaches.\<close>

fun coalesce_loop :: "nat \<Rightarrow> nat \<Rightarrow> nat \<Rightarrow> nat \<Rightarrow> assembler \<Rightarrow> nat \<times> assembler" where
  "coalesce_loop 0 i j e cs = (j, cs)"
| "coalesce_loop (Suc n) i j e cs =
     (if has_data (cs ! j) \<and> e \<ge> total_size (cs ! i) + hole_size (cs ! j)
      then coalesce_loop n i (j + 1) e
             (cs[i := (cs ! i)\<lparr>data_size := data_size (cs ! i) + total_size (cs ! j)\<rparr>])
      else (j, cs))"

text \<open>The loop that closes the gap the swallowed contigs leave.\<close>

fun shift_left_loop :: "nat \<Rightarrow> nat \<Rightarrow> nat \<Rightarrow> assembler \<Rightarrow> assembler" where
  "shift_left_loop 0 x shift cs = cs"
| "shift_left_loop (Suc n) x shift cs =
     (if \<not> has_data (cs ! x) then cs
      else shift_left_loop n (x + 1) shift
             (cs[x := (if x + shift < length cs then cs ! (x + shift) else contig_empty)]))"

definition close_gap :: "assembler \<Rightarrow> nat \<Rightarrow> nat \<Rightarrow> assembler" where
  "close_gap cs i shift =
     (if shift \<noteq> 0 then shift_left_loop (length cs - (i + 1)) (i + 1) shift cs else cs)"

text \<open>The end of \<open>add\<close>: a range that still extends beyond the contig grows its data at the cost of
  the hole of the next one.\<close>

definition extend_contig :: "assembler \<Rightarrow> nat \<Rightarrow> nat \<Rightarrow> assembler" where
  "extend_contig cs i e =
     (if e > total_size (cs ! i)
      then let left = e - total_size (cs ! i);
               cs' = cs[i := (cs ! i)\<lparr>data_size := data_size (cs ! i) + left\<rparr>]
           in if i + 1 < length cs' \<and> has_data (cs' ! (i + 1))
              then cs'[i + 1 := (cs' ! (i + 1))\<lparr>hole_size := hole_size (cs' ! (i + 1)) - left\<rparr>]
              else cs'
      else cs)"

text \<open>The part of \<open>add\<close> after the search, when the range does not lie inside a hole.\<close>

definition add_merge :: "assembler \<Rightarrow> nat \<Rightarrow> nat \<Rightarrow> assembler" where
  "add_merge cs i e =
     (let (j, cs') = coalesce_loop (length cs - (i + 1)) i (i + 1) e cs
      in extend_contig (close_gap cs' i (j - i - 1)) i e)"

definition asm_add :: "assembler \<Rightarrow> nat \<Rightarrow> nat \<Rightarrow> too_many_holes + assembler" where
  "asm_add cs offset0 size0 =
     (if size0 = 0 then Inr cs
      else case add_find (length cs) 0 offset0 cs of
        NoRoom \<Rightarrow> Inl TooManyHolesError
      | AppendAt i offset \<Rightarrow> Inr (cs[i := hole_and_data offset size0])
      | FoundAt i offset \<Rightarrow>
          if offset < hole_size (cs ! i)
          then if offset + size0 < hole_size (cs ! i)
               then case add_contig_at cs i of
                      Inl e \<Rightarrow> Inl e
                    | Inr cs1 \<Rightarrow>
                        let cs2 = cs1[i := hole_and_data offset size0]
                        in Inr (cs2[i + 1 := shrink_hole_by (cs2 ! (i + 1)) (offset + size0)])
               else Inr (add_merge (cs[i := shrink_hole_to (cs ! i) offset]) i (offset + size0))
          else Inr (add_merge cs i (offset + size0)))"

definition remove_front :: "assembler \<Rightarrow> assembler \<times> nat" where
  "remove_front cs =
     (if has_hole (asm_front cs) \<or> \<not> has_data (asm_front cs) then (cs, 0)
      else (remove_contig_at cs 0, data_size (asm_front cs)))"

definition add_then_remove_front :: "assembler \<Rightarrow> nat \<Rightarrow> nat \<Rightarrow> too_many_holes + (assembler \<times> nat)" where
  "add_then_remove_front cs offset size0 =
     (if offset = 0 \<and> size0 < hole_size (cs ! 0)
      then Inr (cs[0 := (cs ! 0)\<lparr>hole_size := hole_size (cs ! 0) - size0\<rparr>], size0)
      else case asm_add cs offset size0 of
             Inl e \<Rightarrow> Inl e
           | Inr cs1 \<Rightarrow> Inr (remove_front cs1))"

fun iter_data_from :: "nat \<Rightarrow> assembler \<Rightarrow> (nat \<times> nat) list" where
  "iter_data_from offset [] = []"
| "iter_data_from offset (c # cs) =
     (let left = offset + hole_size c; right = left + data_size c
      in (if left < right then [(left, right)] else []) @ iter_data_from right cs)"

definition iter_data :: "assembler \<Rightarrow> (nat \<times> nat) list" where
  "iter_data cs = iter_data_from 0 cs"

section \<open>Invariant and abstraction\<close>

text \<open>The invariant of the source comment: used contigs come first, all of them have data, all
  but the first have a hole; the unused ones are empty.\<close>

definition used_ok :: "contig list \<Rightarrow> bool" where
  "used_ok us \<longleftrightarrow> (\<forall>c \<in> set us. has_data c) \<and> (\<forall>c \<in> set (tl us). has_hole c)"

definition asm_wf :: "assembler \<Rightarrow> bool" where
  "asm_wf cs \<longleftrightarrow> cs \<noteq> [] \<and> used_ok (takeWhile has_data cs) \<and>
     (\<forall>c \<in> set (dropWhile has_data cs). c = contig_empty)"

text \<open>The offsets (relative to the start of the window) whose data has been received.\<close>

fun asm_set_from :: "nat \<Rightarrow> assembler \<Rightarrow> nat set" where
  "asm_set_from b [] = {}"
| "asm_set_from b (c # cs) =
     {b + hole_size c ..< b + total_size c} \<union> asm_set_from (b + total_size c) cs"

definition asm_set :: "assembler \<Rightarrow> nat set" where
  "asm_set cs = asm_set_from 0 cs"

section \<open>Reference version\<close>

fun merge :: "nat \<Rightarrow> nat \<Rightarrow> nat \<Rightarrow> contig list \<Rightarrow> contig list" where
  "merge h d e [] = [hole_and_data h (max d (e - h))]"
| "merge h d e (c # us) =
     (if e \<ge> h + d + hole_size c then merge h (d + total_size c) e us
      else if e > h + d
      then hole_and_data h (e - h) # hole_and_data (hole_size c - (e - (h + d))) (data_size c) # us
      else hole_and_data h d # c # us)"

fun ins :: "nat \<Rightarrow> nat \<Rightarrow> contig list \<Rightarrow> contig list" where
  "ins off sz [] = [hole_and_data off sz]"
| "ins off sz (c # us) =
     (if off > total_size c then c # ins (off - total_size c) sz us
      else if off < hole_size c
      then if off + sz < hole_size c
           then hole_and_data off sz # hole_and_data (hole_size c - (off + sz)) (data_size c) # us
           else merge off (total_size c - off) (off + sz) us
      else merge (hole_size c) (data_size c) (off + sz) us)"

lemmas contig_defs = contig_empty_def hole_and_data_def has_hole_def has_data_def total_size_def
  shrink_hole_by_def shrink_hole_to_def

lemma asm_set_from_shift: "asm_set_from (b + k) cs = (\<lambda>x. x + k) ` asm_set_from b cs"
proof (induction cs arbitrary: b)
  case (Cons c cs)
  have "{b + k + hole_size c ..< b + k + total_size c} =
        (\<lambda>x. x + k) ` {b + hole_size c ..< b + total_size c}"
    by (simp add: add.commute add.left_commute image_add_atLeastLessThan')
  moreover have "asm_set_from (b + k + total_size c) cs =
        (\<lambda>x. x + k) ` asm_set_from (b + total_size c) cs"
    using Cons[of "b + total_size c"] by (simp add: add.commute add.left_commute)
  ultimately show ?case by (simp add: image_Un)
qed simp

lemma asm_set_from_ge: "x \<in> asm_set_from b cs \<Longrightarrow> b \<le> x"
  by (induction b cs rule: asm_set_from.induct) (fastforce simp: total_size_def)+

lemma asm_set_from_append_empty: "asm_set_from b (us @ replicate n contig_empty) = asm_set_from b us"
proof -
  have "asm_set_from b (replicate n contig_empty) = {}" for b
    by (induction n) (auto simp: contig_defs)
  then show ?thesis
    by (induction b us rule: asm_set_from.induct) auto
qed

lemma merge_set:
  "h \<le> e \<Longrightarrow> asm_set_from b (merge h d e us) =
     {b + h ..< b + max (h + d) e} \<union> asm_set_from (b + h + d) us"
proof (induction h d e us rule: merge.induct)
  case (1 h d e)
  then show ?case by (auto simp: contig_defs max_def)
next
  case (2 h d e c us)
  show ?case
  proof (cases "e \<ge> h + d + hole_size c")
    case True
    then have "{b + h ..< b + max (h + (d + total_size c)) e} =
        {b + h ..< b + max (h + d) e} \<union> {b + h + d + hole_size c ..< b + h + d + total_size c}"
      by (auto simp: contig_defs max_def)
    with 2 True show ?thesis by (auto simp: ac_simps)
  next
    case False
    with "2.prems" show ?thesis
      by (cases "e > h + d") (auto simp: contig_defs max_def ac_simps)
  qed
qed

lemma ins_set:
  "0 < sz \<Longrightarrow> asm_set_from b (ins off sz us) = {b + off ..< b + off + sz} \<union> asm_set_from b us"
proof (induction off sz us arbitrary: b rule: ins.induct)
  case (1 off sz)
  then show ?case by (auto simp: contig_defs)
next
  case (2 off sz c us)
  consider (after) "off > total_size c" | (inhole) "off \<le> total_size c" "off + sz < hole_size c"
    | (left) "off \<le> total_size c" "off < hole_size c" "\<not> off + sz < hole_size c"
    | (in_data) "off \<le> total_size c" "\<not> off < hole_size c"
    by linarith
  then show ?case
  proof cases
    case after
    with 2 show ?thesis by (auto simp: ac_simps)
  next
    case inhole
    then show ?thesis by (auto simp: contig_defs)
  next
    case left
    then have "b + off + (total_size c - off) = b + total_size c" by simp
    with left show ?thesis by (auto simp: merge_set total_size_def max_def)
  next
    case in_data
    then show ?thesis by (auto simp: merge_set contig_defs max_def add.assoc)
  qed
qed

text \<open>Well-formedness of the reference version: data everywhere, holes everywhere but possibly in
  front.\<close>

definition all_ok :: "contig list \<Rightarrow> bool" where
  "all_ok us \<longleftrightarrow> (\<forall>c \<in> set us. has_data c \<and> has_hole c)"

lemma used_ok_Cons: "used_ok (c # us) \<longleftrightarrow> has_data c \<and> all_ok us"
  by (auto simp: used_ok_def all_ok_def)

lemma used_ok_Nil [simp]: "used_ok []"
  by (simp add: used_ok_def)

lemma merge_ok:
  "0 < d \<Longrightarrow> all_ok us \<Longrightarrow>
     \<exists>c us'. merge h d e us = c # us' \<and> hole_size c = h \<and> has_data c \<and> all_ok us'"
proof (induction h d e us rule: merge.induct)
  case (2 h d e c us)
  then show ?case
    by (cases "e \<ge> h + d + hole_size c") (auto simp: all_ok_def contig_defs)
qed (auto simp: all_ok_def contig_defs)

lemma ins_all_ok: "0 < sz \<Longrightarrow> 0 < off \<Longrightarrow> all_ok us \<Longrightarrow> all_ok (ins off sz us)"
proof (induction off sz us rule: ins.induct)
  case (2 off sz c us)
  have us: "all_ok us" and c: "has_data c" "has_hole c" using 2 by (auto simp: all_ok_def)
  have m: "all_ok (merge h d e us)" if "0 < h" "0 < d" for h d e
    using merge_ok[OF that(2) us, of h e] that(1) by (auto simp: all_ok_def has_hole_def)
  have "all_ok (ins (off - total_size c) sz us)" if "off > total_size c"
    using 2 us that by simp
  moreover have "0 < data_size c" "0 < hole_size c" using c by (auto simp: contig_defs)
  ultimately show ?case
    using c us m[of "hole_size c" "data_size c"] m[of off "total_size c - off"] "2.prems"
    by (auto simp: all_ok_def contig_defs)
qed (auto simp: all_ok_def contig_defs)

lemma ins_used_ok:
  assumes "0 < sz" "used_ok us"
  shows "used_ok (ins off sz us)"
proof (cases us)
  case Nil
  with assms show ?thesis by (simp add: used_ok_def contig_defs)
next
  case (Cons c us')
  have us: "all_ok us'" and c: "has_data c" using assms Cons by (auto simp: used_ok_Cons)
  have m: "used_ok (merge h d e us')" if "0 < d" for h d e
    using merge_ok[OF that us, of h e] by (auto simp: used_ok_Cons)
  have "0 < data_size c" using c by (simp add: has_data_def)
  then show ?thesis
    using assms(1) c us m[of "data_size c"] m[of "total_size c - off"]
      ins_all_ok[OF assms(1), of "off - total_size c" us']
    by (auto simp: Cons used_ok_Cons all_ok_def contig_defs)
qed

lemma merge_length: "length (merge h d e us) \<le> length us + 1" "0 < length (merge h d e us)"
  by (induction h d e us rule: merge.induct) auto

lemma ins_length: "length (ins off sz us) \<le> length us + 1"
  by (induction off sz us rule: ins.induct) (auto intro: le_trans[OF merge_length(1)])

section \<open>The index loops implement the reference version\<close>

lemma not_has_data_empty [simp]: "\<not> has_data contig_empty"
  by (simp add: contig_defs)

lemma asm_wf_split:
  assumes "asm_wf cs"
  obtains us k where "cs = us @ replicate k contig_empty" "used_ok us" "us \<noteq> [] \<or> 0 < k"
proof -
  let ?us = "takeWhile has_data cs" and ?es = "dropWhile has_data cs"
  have es: "replicate (length ?es) contig_empty = ?es"
    using assms by (intro replicate_length_same) (simp add: asm_wf_def)
  have cs: "?us @ ?es = cs" by (rule takeWhile_dropWhile_id)
  show thesis
  proof (rule that[of ?us "length ?es"])
    show "cs = ?us @ replicate (length ?es) contig_empty" by (simp only: es cs)
    show "used_ok ?us" using assms by (simp add: asm_wf_def)
    have "?us \<noteq> [] \<or> ?es \<noteq> []"
      using cs assms append_Nil by (fastforce simp: asm_wf_def simp del: takeWhile_dropWhile_id)
    then show "?us \<noteq> [] \<or> 0 < length ?es" by blast
  qed
qed

lemma takeWhile_used:
  assumes "\<forall>c \<in> set us. has_data c"
  shows "takeWhile has_data (us @ replicate k contig_empty) = us"
    "dropWhile has_data (us @ replicate k contig_empty) = replicate k contig_empty"
  using assms by (cases k; simp add: takeWhile_append2 dropWhile_append2)+

lemma asm_wf_used:
  "used_ok us \<Longrightarrow> us \<noteq> [] \<or> 0 < k \<Longrightarrow> asm_wf (us @ replicate k contig_empty)"
  by (auto simp: asm_wf_def takeWhile_used used_ok_def)

lemma asm_set_used: "asm_set (us @ replicate k contig_empty) = asm_set_from 0 us"
  by (simp add: asm_set_def asm_set_from_append_empty)

lemma remove_loop_eq:
  assumes "has_data c" "\<forall>x \<in> set us. has_data x"
  shows "remove_loop (length us + k) (length pre) (pre @ c # us @ replicate k contig_empty) =
         pre @ us @ replicate (Suc k) contig_empty"
  using assms
proof (induction us arbitrary: pre c)
  case Nil
  show ?case
  proof (cases k)
    case 0
    then show ?thesis by simp
  next
    case (Suc m)
    then show ?thesis using Nil by (cases m) (simp_all add: nth_append list_update_append)
  qed
next
  case (Cons u us)
  have "remove_loop (length us + k) (length (pre @ [u])) ((pre @ [u]) @ u # us @ replicate k contig_empty) =
        (pre @ [u]) @ us @ replicate (Suc k) contig_empty"
    using Cons by (intro Cons.IH) auto
  then show ?case using Cons.prems by (simp add: nth_append)
qed

lemma shift_right_loop_eq:
  "at + n < length cs \<Longrightarrow>
   shift_right_loop n at cs = take (at + 1) cs @ take n (drop at cs) @ drop (at + 1 + n) cs"
proof (induction n arbitrary: cs)
  case 0
  then show ?case by simp
next
  case (Suc n)
  let ?cs = "cs[at + 1 + n := cs ! (at + n)]"
  have "take (at + 1) ?cs = take (at + 1) cs" "take n (drop at ?cs) = take n (drop at cs)"
    by (simp_all add: drop_update_swap take_update_cancel)
  moreover have "drop (at + 1 + n) ?cs = cs ! (at + n) # drop (at + 1 + Suc n) cs"
    using Suc.prems by (simp add: drop_update_swap Cons_nth_drop_Suc[symmetric])
  moreover have "take (Suc n) (drop at cs) = take n (drop at cs) @ [cs ! (at + n)]"
    using Suc.prems by (simp add: take_Suc_conv_app_nth)
  ultimately show ?case using Suc by simp
qed

lemma add_contig_at_eq:
  "add_contig_at (pre @ c # us @ replicate (Suc k) contig_empty) (length pre) =
   Inr (pre @ contig_empty # c # us @ replicate k contig_empty)"
proof -
  let ?cs = "pre @ c # us @ replicate (Suc k) contig_empty"
  have b: "asm_back ?cs = contig_empty"
    by (simp add: asm_back_def nth_append nth_Cons')
  have n: "length ?cs - 1 - length pre = length us + Suc k" by simp
  have "shift_right_loop (length us + Suc k) (length pre) ?cs =
        pre @ [c] @ take (length us + Suc k) (c # us @ replicate (Suc k) contig_empty)"
    by (subst shift_right_loop_eq) simp_all
  also have "take (length us + Suc k) (c # us @ replicate (Suc k) contig_empty) =
        c # us @ replicate k contig_empty"
    by (simp add: take_Cons' replicate_append_same[symmetric])
  finally show ?thesis using b n by (simp add: add_contig_at_def)
qed

fun swallow :: "nat \<Rightarrow> nat \<Rightarrow> nat \<Rightarrow> contig list \<Rightarrow> nat \<times> nat" where
  "swallow h d e [] = (d, 0)"
| "swallow h d e (c # us) =
     (if e \<ge> h + d + hole_size c
      then let (d', m) = swallow h (d + total_size c) e us in (d', Suc m) else (d, 0))"

lemma swallow_le: "swallow h d e us = (d', m) \<Longrightarrow> m \<le> length us"
  by (induction us arbitrary: d d' m) (auto split: if_splits prod.splits)

lemma merge_swallow:
  "swallow h d e us = (d', m) \<Longrightarrow> merge h d e us =
     (if e > h + d' then hole_and_data h (e - h) #
        (case drop m us of [] \<Rightarrow> []
         | c # r \<Rightarrow> hole_and_data (hole_size c - (e - (h + d'))) (data_size c) # r)
      else hole_and_data h d' # drop m us)"
proof (induction us arbitrary: d d' m)
  case Nil
  have "max d (e - h) = (if e > h + d then e - h else d)" by (auto simp: max_def)
  with Nil show ?case by simp
next
  case (Cons c us)
  show ?case
  proof (cases "e \<ge> h + d + hole_size c")
    case True
    obtain d1 m1 where s: "swallow h (d + total_size c) e us = (d1, m1)" by fastforce
    with True Cons.prems have "d' = d1" "m = Suc m1" by auto
    with True Cons.IH[OF s] show ?thesis by (simp cong: list.case_cong)
  next
    case False
    with Cons.prems show ?thesis by auto
  qed
qed

lemma coalesce_loop_eq:
  assumes "\<forall>x \<in> set us. has_data x" "swallow (hole_size c) (data_size c) e us = (d', m)"
  shows "coalesce_loop (length us + k) (length pre) (length pre + 1 + length mid) e
      (pre @ c # mid @ us @ replicate k contig_empty) =
    (length pre + 1 + length mid + m, pre @ c\<lparr>data_size := d'\<rparr> # mid @ us @ replicate k contig_empty)"
  using assms
proof (induction us arbitrary: c mid d' m)
  case Nil
  then show ?case by (cases k) (simp_all add: nth_append nth_Cons')
next
  case (Cons u us)
  have j: "(pre @ c # mid @ u # us @ replicate k contig_empty) ! (length pre + 1 + length mid) = u"
    by (simp add: nth_append nth_Cons')
  show ?case
  proof (cases "e \<ge> hole_size c + data_size c + hole_size u")
    case False
    with Cons.prems show ?thesis by (simp add: j[simplified] total_size_def)
  next
    case True
    let ?c = "c\<lparr>data_size := data_size c + total_size u\<rparr>"
    obtain d1 m1 where sw: "swallow (hole_size c) (data_size c + total_size u) e us = (d1, m1)"
      by fastforce
    with True Cons.prems(2) have dm: "d' = d1" "m = Suc m1" by auto
    have "coalesce_loop (length us + k) (length pre) (length pre + 1 + length (mid @ [u])) e
        (pre @ ?c # (mid @ [u]) @ us @ replicate k contig_empty) =
      (length pre + 1 + length (mid @ [u]) + m1,
       pre @ ?c\<lparr>data_size := d1\<rparr> # (mid @ [u]) @ us @ replicate k contig_empty)"
      using Cons.prems(1) sw by (intro Cons.IH) auto
    with True Cons.prems(1) dm show ?thesis
      by (simp add: j[simplified] total_size_def[of c])
  qed
qed

lemma shift_left_loop_eq:
  assumes "\<forall>x \<in> set us. has_data x" "0 < sh"
  shows "shift_left_loop (length us + k) (length pre) sh (pre @ us @ replicate k contig_empty) =
    pre @ drop sh us @ replicate (k + min sh (length us)) contig_empty"
  using assms(1)
proof (induction us arbitrary: pre)
  case Nil
  then show ?case by (cases k) (simp_all add: nth_append)
next
  case (Cons u us)
  let ?cs = "pre @ u # us @ replicate k contig_empty"
  define v where "v = (if length pre + sh < length ?cs then ?cs ! (length pre + sh) else contig_empty)"
  have v: "v = (if sh - 1 < length us then us ! (sh - 1) else contig_empty)"
    using assms(2) by (auto simp: v_def nth_append nth_Cons')
  have "shift_left_loop (length us + k) (length (pre @ [v])) sh ((pre @ [v]) @ us @ replicate k contig_empty) =
      (pre @ [v]) @ drop sh us @ replicate (k + min sh (length us)) contig_empty"
    using Cons.prems by (intro Cons.IH) auto
  then have "shift_left_loop (length (u # us) + k) (length pre) sh ?cs =
      pre @ v # drop sh us @ replicate (k + min sh (length us)) contig_empty"
    using Cons.prems by (simp add: v_def[symmetric, simplified])
  also have "\<dots> = pre @ drop sh (u # us) @ replicate (k + min sh (length (u # us))) contig_empty"
  proof (cases "sh - 1 < length us")
    case True
    then have "drop (sh - 1) us = us ! (sh - 1) # drop sh us"
      using assms(2) by (metis Cons_nth_drop_Suc Suc_diff_1)
    with True v assms(2) show ?thesis by (auto simp: drop_Cons' min_def)
  next
    case False
    then have "min sh (length us) = length us" "min sh (length (u # us)) = Suc (length us)"
      using assms(2) by auto
    then show ?thesis using False v assms(2) by (simp add: drop_Cons')
  qed
  finally show ?case by simp
qed

lemma close_gap_eq:
  assumes "\<forall>x \<in> set us. has_data x" "m \<le> length us"
  shows "close_gap (pre @ c # us @ replicate k contig_empty) (length pre) m =
    pre @ c # drop m us @ replicate (k + m) contig_empty"
  using shift_left_loop_eq[OF assms(1), of m k "pre @ [c]"] assms(2)
  by (auto simp: close_gap_def min_def)

lemma extend_contig_eq:
  assumes "\<forall>x \<in> set us. has_data x"
  shows "extend_contig (pre @ c # us @ replicate k contig_empty) (length pre) e =
    (if e > total_size c
     then pre @ hole_and_data (hole_size c) (e - hole_size c) #
       (case us of [] \<Rightarrow> []
        | x # r \<Rightarrow> hole_and_data (hole_size x - (e - total_size c)) (data_size x) # r) @
       replicate k contig_empty
     else pre @ c # us @ replicate k contig_empty)"
proof (cases "e > total_size c")
  case True
  have e: "c\<lparr>data_size := data_size c + (e - total_size c)\<rparr> =
      hole_and_data (hole_size c) (e - hole_size c)"
    using True by (simp add: contig_defs)
  show ?thesis
  proof (cases us)
    case Nil
    then show ?thesis using True e by (cases k) (simp_all add: extend_contig_def nth_append)
  next
    case (Cons x r)
    then have "has_data x" using assms by simp
    then show ?thesis
      using True e Cons
      by (cases x) (simp add: extend_contig_def nth_append Let_def hole_and_data_def list_update_append)
  qed
qed (simp add: extend_contig_def)

lemma add_merge_eq:
  assumes us: "\<forall>x \<in> set us. has_data x"
  shows "\<exists>k'. add_merge (pre @ c # us @ replicate k contig_empty) (length pre) e =
      pre @ merge (hole_size c) (data_size c) e us @ replicate k' contig_empty \<and>
    length (merge (hole_size c) (data_size c) e us) + k' = Suc (length us + k)"
proof -
  obtain d' m where sw: "swallow (hole_size c) (data_size c) e us = (d', m)" by fastforce
  note m = swallow_le[OF sw]
  let ?c = "c\<lparr>data_size := d'\<rparr>" and ?i = "length pre"
  have dr: "\<forall>x \<in> set (drop m us). has_data x" using us by (meson in_set_dropD)
  have tot: "total_size ?c = hole_size c + d'" by (simp add: total_size_def)
  have "coalesce_loop (length us + k) ?i (?i + 1) e (pre @ c # us @ replicate k contig_empty) =
      (?i + 1 + m, pre @ ?c # us @ replicate k contig_empty)"
    using coalesce_loop_eq[OF us sw, of k pre "[]"] by simp
  then have "add_merge (pre @ c # us @ replicate k contig_empty) ?i e =
      extend_contig (pre @ ?c # drop m us @ replicate (k + m) contig_empty) ?i e"
    using close_gap_eq[OF us m, of pre ?c k] by (simp add: add_merge_def)
  also have "\<dots> = pre @ merge (hole_size c) (data_size c) e us @ replicate (k + m) contig_empty"
    unfolding extend_contig_eq[OF dr] tot merge_swallow[OF sw]
    by (simp add: hole_and_data_def split: list.split)
  finally have eq: "add_merge (pre @ c # us @ replicate k contig_empty) ?i e =
      pre @ merge (hole_size c) (data_size c) e us @ replicate (k + m) contig_empty" .
  have "length (merge (hole_size c) (data_size c) e us) = Suc (length (drop m us))"
    unfolding merge_swallow[OF sw] by (cases "drop m us") (simp_all del: length_drop)
  with eq m show ?thesis by auto
qed

text \<open>The search loop walks the used prefix as \<open>ins\<close> does.\<close>

lemma add_find_ins:
  assumes "\<forall>x \<in> set us. has_data x"
  shows "(k = 0 \<and> add_find (length us + k) (length pre) off (pre @ us @ replicate k contig_empty) = NoRoom \<and>
      length (ins off sz us) = length us + 1)
    \<or> (\<exists>off'. 0 < k \<and> add_find (length us + k) (length pre) off (pre @ us @ replicate k contig_empty) =
        AppendAt (length pre + length us) off' \<and> ins off sz us = us @ [hole_and_data off' sz])
    \<or> (\<exists>xs c ys off'. us = xs @ c # ys \<and> off' \<le> total_size c \<and>
        add_find (length us + k) (length pre) off (pre @ us @ replicate k contig_empty) =
          FoundAt (length pre + length xs) off' \<and> ins off sz us = xs @ ins off' sz (c # ys))"
  using assms
proof (induction us arbitrary: off pre)
  case Nil
  then show ?case by (cases k) (simp_all add: nth_append)
next
  case (Cons u us)
  let ?f = "add_find (length (u # us) + k) (length pre) off (pre @ (u # us) @ replicate k contig_empty)"
  show ?case
  proof (cases "off \<le> total_size u")
    case True
    then have "?f = FoundAt (length pre + length ([] :: contig list)) off"
      using Cons.prems by (simp add: nth_append)
    with True show ?thesis by (intro disjI2) fastforce
  next
    case False
    let ?off = "off - total_size u"
    let ?g = "add_find (length us + k) (length (pre @ [u])) ?off ((pre @ [u]) @ us @ replicate k contig_empty)"
    have fg: "?f = ?g" using False Cons.prems by (simp add: nth_append)
    have ins: "ins off sz (u # us) = u # ins ?off sz us" using False by simp
    have us: "\<forall>x \<in> set us. has_data x" using Cons.prems by simp
    from Cons.IH[OF us, of "pre @ [u]" ?off] show ?thesis
    proof (elim disjE exE conjE)
      assume "k = 0" "?g = NoRoom" "length (ins ?off sz us) = length us + 1"
      then show ?thesis using fg ins by simp
    next
      fix off' assume "0 < k" "?g = AppendAt (length (pre @ [u]) + length us) off'"
        "ins ?off sz us = us @ [hole_and_data off' sz]"
      then show ?thesis using fg ins by (intro disjI2 disjI1) simp
    next
      fix xs c ys off' assume "us = xs @ c # ys" "off' \<le> total_size c"
        "?g = FoundAt (length (pre @ [u]) + length xs) off'" "ins ?off sz us = xs @ ins off' sz (c # ys)"
      then show ?thesis using fg ins
        by (intro disjI2 exI[of _ "u # xs"] exI[of _ c] exI[of _ ys] exI[of _ off']) simp
    qed
  qed
qed

text \<open>Equivalence of \<open>add\<close> with the reference version: the array holds \<open>ins\<close> of its used prefix,
  and the only failure is that the result does not fit.\<close>

lemma asm_add_eq:
  assumes us: "used_ok us" and sz: "0 < sz"
  shows "asm_add (us @ replicate k contig_empty) off sz =
    (if length (ins off sz us) \<le> length us + k
     then Inr (ins off sz us @ replicate (length us + k - length (ins off sz us)) contig_empty)
     else Inl TooManyHolesError)"
proof -
  let ?cs = "us @ replicate k contig_empty"
  have dat: "\<forall>x \<in> set us. has_data x" using us by (simp add: used_ok_def)
  from add_find_ins[OF dat, of k "[]" off sz] show ?thesis
  proof (elim disjE exE conjE)
    assume "k = 0" "add_find (length us + k) (length ([] :: contig list)) off
        ([] @ us @ replicate k contig_empty) = NoRoom" "length (ins off sz us) = length us + 1"
    then show ?thesis using sz by (simp add: asm_add_def)
  next
    fix off' assume k: "0 < k" and f: "add_find (length us + k) (length ([] :: contig list)) off
        ([] @ us @ replicate k contig_empty) = AppendAt (length ([] :: contig list) + length us) off'"
      and i: "ins off sz us = us @ [hole_and_data off' sz]"
    from k have "?cs[length us := hole_and_data off' sz] =
        us @ hole_and_data off' sz # replicate (k - 1) contig_empty"
      by (cases k) (simp_all add: list_update_append)
    then show ?thesis using f i k sz by (simp add: asm_add_def)
  next
    fix xs c ys off' assume d: "us = xs @ c # ys" and t: "off' \<le> total_size c"
      and f: "add_find (length us + k) (length ([] :: contig list)) off
        ([] @ us @ replicate k contig_empty) = FoundAt (length ([] :: contig list) + length xs) off'"
      and i: "ins off sz us = xs @ ins off' sz (c # ys)"
    have ys: "\<forall>x \<in> set ys. has_data x" using dat d by simp
    have cs: "?cs = xs @ c # ys @ replicate k contig_empty"
      and lus: "length us = length xs + Suc (length ys)" by (simp_all add: d)
    have at: "?cs ! length xs = c" unfolding cs by simp
    have fnd: "add_find (length ?cs) 0 off ?cs = FoundAt (length xs) off'" using f by simp
    have main: "asm_add ?cs off sz =
       (if off' < hole_size c
        then if off' + sz < hole_size c
             then case add_contig_at ?cs (length xs) of
                    Inl e \<Rightarrow> Inl e
                  | Inr cs1 \<Rightarrow>
                      let cs2 = cs1[length xs := hole_and_data off' sz]
                      in Inr (cs2[length xs + 1 := shrink_hole_by (cs2 ! (length xs + 1)) (off' + sz)])
             else Inr (add_merge (?cs[length xs := shrink_hole_to c off']) (length xs) (off' + sz))
        else Inr (add_merge ?cs (length xs) (off' + sz)))"
      using fnd at sz unfolding asm_add_def by simp
    have merge_case: "Inr (add_merge (xs @ c' # ys @ replicate k contig_empty) (length xs) e) =
        (if length (ins off sz us) \<le> length us + k
         then Inr (ins off sz us @ replicate (length us + k - length (ins off sz us)) contig_empty)
         else Inl TooManyHolesError)"
      if "ins off sz us = xs @ merge (hole_size c') (data_size c') e ys" for c' e
    proof -
      obtain k' where "add_merge (xs @ c' # ys @ replicate k contig_empty) (length xs) e =
          xs @ merge (hole_size c') (data_size c') e ys @ replicate k' contig_empty"
        and l: "length (merge (hole_size c') (data_size c') e ys) + k' = Suc (length ys + k)"
        using add_merge_eq[OF ys, of xs c' k e] by blast
      moreover have "length us + k - length (ins off sz us) = k'" "length (ins off sz us) \<le> length us + k"
        using that l lus by simp_all
      ultimately show ?thesis by (simp add: that)
    qed
    consider (inhole) "off' + sz < hole_size c" | (left) "off' < hole_size c" "\<not> off' + sz < hole_size c"
      | (indata) "\<not> off' < hole_size c" by linarith
    then show ?thesis
    proof cases
      case inhole
      then have ins: "ins off sz us = xs @ hole_and_data off' sz #
          hole_and_data (hole_size c - (off' + sz)) (data_size c) # ys"
        using i t by simp
      show ?thesis
      proof (cases k)
        case 0
        have "asm_back us \<in> set us" unfolding asm_back_def using d by (intro nth_mem) simp
        then have "has_data (asm_back us)" using dat by blast
        then show ?thesis using inhole main ins 0 lus by (simp add: add_contig_at_def)
      next
        case (Suc k0)
        have "add_contig_at ?cs (length xs) =
            Inr (xs @ contig_empty # c # ys @ replicate k0 contig_empty)"
          using add_contig_at_eq[of xs c ys k0] Suc d by simp
        then have "asm_add ?cs off sz =
            Inr (xs @ hole_and_data off' sz # shrink_hole_by c (off' + sz) # ys @ replicate k0 contig_empty)"
          unfolding main using inhole by (simp add: nth_append list_update_append)
        moreover have "shrink_hole_by c (off' + sz) =
            hole_and_data (hole_size c - (off' + sz)) (data_size c)"
          by (simp add: contig_defs)
        ultimately show ?thesis by (simp add: ins lus Suc)
      qed
    next
      case left
      let ?c = "hole_and_data off' (total_size c - off')"
      have "shrink_hole_to c off' = ?c" by (simp add: contig_defs)
      then have "asm_add ?cs off sz = Inr (add_merge (xs @ ?c # ys @ replicate k contig_empty) (length xs) (off' + sz))"
        using left main by (simp add: cs)
      moreover have "ins off sz us = xs @ merge (hole_size ?c) (data_size ?c) (off' + sz) ys"
        using i t left by (simp add: hole_and_data_def)
      ultimately show ?thesis using merge_case by simp
    next
      case indata
      then have "asm_add ?cs off sz = Inr (add_merge (xs @ c # ys @ replicate k contig_empty) (length xs) (off' + sz))"
        using main by (simp add: cs)
      moreover have "ins off sz us = xs @ merge (hole_size c) (data_size c) (off' + sz) ys"
        using i t indata by simp
      ultimately show ?thesis using merge_case by simp
    qed
  qed
qed

section \<open>Correctness\<close>

lemma asm_new_correct: "0 < n \<Longrightarrow> asm_wf (asm_new n)" "asm_set (asm_new n) = {}"
  using asm_wf_used[of "[]" n] asm_set_used[of "[]" n] by (simp_all add: asm_new_def)

lemma asm_add_correct:
  assumes wf: "asm_wf cs"
  shows "case asm_add cs off sz of
      Inl _ \<Rightarrow> has_data (asm_back cs)
    | Inr cs' \<Rightarrow> asm_wf cs' \<and> length cs' = length cs \<and> asm_set cs' = asm_set cs \<union> {off ..< off + sz}"
proof (cases "sz = 0")
  case True
  then show ?thesis using wf by (simp add: asm_add_def)
next
  case False
  then have sz: "0 < sz" by simp
  obtain us k where cs: "cs = us @ replicate k contig_empty" and us: "used_ok us"
    by (rule asm_wf_split[OF wf])
  show ?thesis
  proof (cases "length (ins off sz us) \<le> length us + k")
    case True
    let ?k = "length us + k - length (ins off sz us)"
    have add: "asm_add cs off sz = Inr (ins off sz us @ replicate ?k contig_empty)"
      using True asm_add_eq[OF us sz, of k off] by (simp add: cs)
    have ne: "ins off sz us \<noteq> []"
      using merge_length(2) by (cases us) (auto simp: length_greater_0_conv[symmetric] simp del: length_greater_0_conv)
    have "asm_set_from 0 (ins off sz us) = asm_set_from 0 us \<union> {off ..< off + sz}"
      using ins_set[OF sz, of 0 off us] by (simp add: Un_commute)
    then show ?thesis
      using add True ne asm_wf_used[OF ins_used_ok[OF sz us]]
      by (simp add: cs asm_set_used)
  next
    case False
    with ins_length[of off sz us] have "k = 0" by simp
    moreover have "us \<noteq> []" using wf cs \<open>k = 0\<close> by (auto simp: asm_wf_def)
    ultimately have "has_data (asm_back cs)"
      using us cs by (auto simp: asm_back_def used_ok_def)
    then show ?thesis using asm_add_eq[OF us sz, of k off] False by (simp add: cs)
  qed
qed

lemma asm_set_from_first_hole:
  assumes "all_ok us" shows "b \<notin> asm_set_from b us"
proof (cases us)
  case (Cons c cs)
  then have "0 < hole_size c" using assms by (simp add: all_ok_def has_hole_def)
  then show ?thesis using Cons asm_set_from_ge[of b "b + total_size c" cs]
    by (auto simp: total_size_def)
qed simp

lemma remove_front_correct:
  assumes wf: "asm_wf cs" and r: "remove_front cs = (cs', n)"
  shows "asm_wf cs'" "length cs' = length cs" "{..<n} \<subseteq> asm_set cs" "n \<notin> asm_set cs"
    "asm_set cs' = {x. x + n \<in> asm_set cs}"
proof -
  obtain us k where cs: "cs = us @ replicate k contig_empty" and us: "used_ok us"
    and ne: "us \<noteq> [] \<or> 0 < k"
    by (rule asm_wf_split[OF wf])
  have "asm_wf cs' \<and> length cs' = length cs \<and> {..<n} \<subseteq> asm_set cs \<and> n \<notin> asm_set cs \<and>
    asm_set cs' = {x. x + n \<in> asm_set cs}"
  proof (cases us)
    case Nil
    then have "asm_front cs = contig_empty" using cs ne by (simp add: asm_front_def)
    then have "cs' = cs" "n = 0" using r by (simp_all add: remove_front_def)
    moreover have "asm_set cs = {}" using asm_set_used[of us k] cs Nil by simp
    ultimately show ?thesis using wf by simp
  next
    case (Cons c us')
    then have c: "has_data c" and us': "all_ok us'" using us by (simp_all add: used_ok_Cons)
    have fr: "asm_front cs = c" using cs Cons by (simp add: asm_front_def)
    have S: "asm_set cs = asm_set_from 0 (c # us')" using asm_set_used[of us k] cs Cons by simp
    show ?thesis
    proof (cases "has_hole c")
      case True
      then have "cs' = cs" "n = 0" using r fr by (simp_all add: remove_front_def)
      moreover have "0 \<notin> asm_set cs"
        using S True c us' asm_set_from_first_hole[of "c # us'" 0] by (simp add: all_ok_def)
      ultimately show ?thesis using wf by simp
    next
      case False
      have dat: "\<forall>x \<in> set us'. has_data x" using us' by (simp add: all_ok_def)
      have n: "n = data_size c" and cs': "cs' = us' @ replicate (Suc k) contig_empty"
        using r fr c False remove_loop_eq[OF c dat, of k "[]"] cs Cons
        by (auto simp: remove_front_def remove_contig_at_def)
      have h: "hole_size c = 0" using False by (simp add: has_hole_def)
      have S': "asm_set cs = {..<n} \<union> asm_set_from n us'"
        using S h n by (auto simp: total_size_def)
      have sh: "asm_set_from n us' = (\<lambda>x. x + n) ` asm_set_from 0 us'"
        using asm_set_from_shift[of 0 n us'] by simp
      have "used_ok us'" using us' by (cases us') (auto simp: used_ok_def all_ok_def)
      moreover have "asm_set cs' = asm_set_from 0 us'"
        using asm_set_used[of us' "Suc k"] cs' by simp
      moreover have "n \<notin> asm_set cs" using S' asm_set_from_first_hole[OF us', of n] by simp
      moreover have "{x. x + n \<in> asm_set cs} = asm_set_from 0 us'" using S' sh by auto
      ultimately show ?thesis
        using S' asm_wf_used[of us' "Suc k"] cs' cs Cons by auto
    qed
  qed
  then show "asm_wf cs'" "length cs' = length cs" "{..<n} \<subseteq> asm_set cs" "n \<notin> asm_set cs"
    "asm_set cs' = {x. x + n \<in> asm_set cs}" by auto
qed

text \<open>\<open>add_then_remove_front\<close>: the number it returns is the length of the run the window now starts
  with, and what it keeps is the rest.\<close>

lemma add_then_remove_front_correct:
  assumes wf: "asm_wf cs" and r: "add_then_remove_front cs off sz = Inr (cs', n)"
  defines "S \<equiv> asm_set cs \<union> {off ..< off + sz}"
  shows "asm_wf cs'" "length cs' = length cs" "{..<n} \<subseteq> S" "n \<notin> S" "asm_set cs' = {x. x + n \<in> S}"
proof -
  have "asm_wf cs' \<and> length cs' = length cs \<and> {..<n} \<subseteq> S \<and> n \<notin> S \<and> asm_set cs' = {x. x + n \<in> S}"
  proof (cases "off = 0 \<and> sz < hole_size (cs ! 0)")
    case True
    obtain us k where cs: "cs = us @ replicate k contig_empty" and us: "used_ok us"
      and ne: "us \<noteq> [] \<or> 0 < k"
      by (rule asm_wf_split[OF wf])
    have "us \<noteq> []" using True cs ne by (cases us) (auto simp: contig_empty_def)
    then obtain c us' where u: "us = c # us'" by (cases us) auto
    let ?c = "c\<lparr>hole_size := hole_size c - sz\<rparr>"
    have c: "sz < hole_size c" using True cs u by simp
    have cs': "cs' = (?c # us') @ replicate k contig_empty" and n: "n = sz"
      using r True cs u by (auto simp: add_then_remove_front_def)
    have "used_ok (?c # us')" using us u by (simp add: used_ok_Cons has_data_def)
    then have w: "asm_wf cs'" using asm_wf_used[of "?c # us'" k] cs' by simp
    let ?T = "asm_set_from (total_size c) us'"
    have S: "S = {..<sz} \<union> {hole_size c ..< total_size c} \<union> ?T"
      using True asm_set_used[of us k] cs u by (auto simp: S_def)
    have "total_size c = total_size ?c + sz" using c by (simp add: total_size_def)
    then have "?T = (\<lambda>x. x + sz) ` asm_set_from (total_size ?c) us'"
      using asm_set_from_shift[of "total_size ?c" sz us'] by simp
    moreover have "asm_set cs' = {hole_size c - sz ..< total_size ?c} \<union> asm_set_from (total_size ?c) us'"
      using asm_set_used[of "?c # us'" k] cs' by simp
    moreover have "sz \<notin> S"
      using S c asm_set_from_ge[of sz "total_size c" us'] by (auto simp: total_size_def)
    ultimately show ?thesis using w cs cs' u n S c by (auto simp: total_size_def)
  next
    case False
    then obtain cs1 where a: "asm_add cs off sz = Inr cs1" and f: "remove_front cs1 = (cs', n)"
      using r by (auto simp: add_then_remove_front_def split: sum.splits)
    have "asm_wf cs1" "length cs1 = length cs" "asm_set cs1 = S"
      using asm_add_correct[OF wf, of off sz] a by (simp_all add: S_def)
    with remove_front_correct[OF _ f] show ?thesis by simp
  qed
  then show "asm_wf cs'" "length cs' = length cs" "{..<n} \<subseteq> S" "n \<notin> S" "asm_set cs' = {x. x + n \<in> S}"
    by auto
qed

text \<open>At offset 0 the number of contigs can only grow when the range ends inside the first hole,
  which \<open>add_then_remove_front\<close> handles without a new contig: it never fails there.\<close>

lemma ins_zero_length:
  assumes "us \<noteq> []" "hole_size (hd us) \<le> sz"
  shows "length (ins 0 sz us) \<le> length us"
  using assms merge_length(1) by (cases us) auto

lemma add_then_remove_front_zero:
  assumes wf: "asm_wf cs"
  shows "\<exists>r. add_then_remove_front cs 0 sz = Inr r"
proof (cases "sz = 0 \<or> sz < hole_size (cs ! 0)")
  case True
  then show ?thesis by (auto simp: add_then_remove_front_def asm_add_def)
next
  case False
  obtain us k where cs: "cs = us @ replicate k contig_empty" and us: "used_ok us"
    and ne: "us \<noteq> [] \<or> 0 < k"
    by (rule asm_wf_split[OF wf])
  have "length (ins 0 sz us) \<le> length us + k"
  proof (cases us)
    case Nil
    with ne show ?thesis by simp
  next
    case (Cons c us')
    with False cs ins_zero_length[of us sz] show ?thesis by simp
  qed
  with asm_add_eq[OF us, of sz k 0] False cs show ?thesis
    by (auto simp: add_then_remove_front_def)
qed

lemma iter_data_from_ranges:
  "asm_set_from b cs = (\<Union>(l, r) \<in> set (iter_data_from b cs). {l ..< r})"
  by (induction b cs rule: iter_data_from.induct) (auto simp: Let_def total_size_def add.assoc)

section \<open>The reassembly interface\<close>

text \<open>
  What the TCP receive path relies on.  Positions of the stream are absolute; \<open>base\<close> is the
  position the window starts at, that is, the number of stream bytes delivered in order so far.
  A segment that starts at or after \<open>base\<close> is handed to \<open>add\<close> with its offset into the window;
  the number that comes back is how far the window moves.
\<close>

fun reassemble :: "('s \<Rightarrow> nat \<Rightarrow> nat \<Rightarrow> 'e + ('s \<times> nat)) \<Rightarrow> 's \<Rightarrow> nat \<Rightarrow> nat set \<Rightarrow>
    (nat \<times> nat) list \<Rightarrow> 's \<times> nat \<times> nat set" where
  "reassemble add s base got [] = (s, base, got)"
| "reassemble add s base got ((pos, len) # segs) =
     (let start = max pos base; stop = max (pos + len) base in
      case add s (start - base) (stop - start) of
        Inl _ \<Rightarrow> reassemble add s base got segs
      | Inr (s', n) \<Rightarrow> reassemble add s' (base + n) (got \<union> {pos ..< pos + len}) segs)"

locale gap_tracker =
  fixes invar :: "'s \<Rightarrow> bool" and present :: "'s \<Rightarrow> nat set"
    and add :: "'s \<Rightarrow> nat \<Rightarrow> nat \<Rightarrow> 'e + ('s \<times> nat)"
  assumes add_ok: "invar s \<Longrightarrow> add s off len = Inr (s', n) \<Longrightarrow>
      invar s' \<and> {..<n} \<subseteq> present s \<union> {off ..< off + len} \<and>
      n \<notin> present s \<union> {off ..< off + len} \<and>
      present s' = {x. x + n \<in> present s \<union> {off ..< off + len}}"
    and add_zero: "invar s \<Longrightarrow> \<exists>r. add s 0 len = Inr r"
begin

text \<open>\<open>got\<close> is everything accepted so far; below \<open>base\<close> all of it has arrived.\<close>

definition tracks :: "'s \<Rightarrow> nat \<Rightarrow> nat set \<Rightarrow> bool" where
  "tracks s base got \<longleftrightarrow> invar s \<and> {..<base} \<subseteq> got \<and> (\<forall>x \<ge> base. x \<in> got \<longleftrightarrow> x - base \<in> present s)"

lemma tracks_step:
  assumes t: "tracks s base got"
    and a: "add s (max pos base - base) (max (pos + len) base - max pos base) = Inr (s', n)"
  shows "tracks s' (base + n) (got \<union> {pos ..< pos + len})" "base + n \<notin> got \<union> {pos ..< pos + len}"
proof -
  let ?off = "max pos base - base" and ?len = "max (pos + len) base - max pos base"
  let ?P = "present s \<union> {?off ..< ?off + ?len}"
  have i: "invar s" using t by (simp add: tracks_def)
  note p = add_ok[OF i a]
  have new: "x \<in> got \<union> {pos ..< pos + len} \<longleftrightarrow> x - base \<in> ?P" if "base \<le> x" for x
    using t that by (auto simp: tracks_def max_def split: if_splits)
  have below: "x \<in> got \<union> {pos ..< pos + len}" if "x < base + n" for x
  proof (cases "x < base")
    case True
    with t show ?thesis by (auto simp: tracks_def)
  next
    case False
    with that have "x - base \<in> {..<n}" by auto
    with p have "x - base \<in> ?P" by blast
    with new[of x] False show ?thesis by simp
  qed
  show "base + n \<notin> got \<union> {pos ..< pos + len}" using new[of "base + n"] p by simp
  have "x \<in> got \<union> {pos ..< pos + len} \<longleftrightarrow> x - (base + n) \<in> present s'" if "base + n \<le> x" for x
    using new[of x] p that by simp
  moreover have "{..<base + n} \<subseteq> got \<union> {pos ..< pos + len}" using below by blast
  ultimately show "tracks s' (base + n) (got \<union> {pos ..< pos + len})"
    using p unfolding tracks_def by blast
qed

text \<open>Whatever the order, overlap and duplication of the segments, the base is the first byte that
  is missing from what was accepted.\<close>

lemma reassemble_correct:
  "tracks s base got \<Longrightarrow> base \<notin> got \<Longrightarrow> reassemble add s base got segs = (s', base', got') \<Longrightarrow>
     tracks s' base' got' \<and> base' \<notin> got' \<and> base \<le> base' \<and> got \<subseteq> got'"
proof (induction segs arbitrary: s base got)
  case Nil
  then show ?case by simp
next
  case (Cons seg segs)
  obtain pos len where seg: "seg = (pos, len)" by fastforce
  show ?case
  proof (cases "add s (max pos base - base) (max (pos + len) base - max pos base)")
    case (Inl e)
    with Cons show ?thesis by (simp add: seg Let_def)
  next
    case (Inr r)
    obtain s1 n where r: "r = (s1, n)" by fastforce
    note step = tracks_step[OF Cons.prems(1) Inr[unfolded r]]
    have "reassemble add s1 (base + n) (got \<union> {pos ..< pos + len}) segs = (s', base', got')"
      using Cons.prems(3) Inr r by (simp add: seg Let_def)
    from Cons.IH[OF step this] show ?thesis by auto
  qed
qed

text \<open>The next expected segment is always accepted.\<close>

lemma next_segment_accepted: "invar s \<Longrightarrow> pos \<le> base \<Longrightarrow>
    \<exists>r. add s (max pos base - base) (max (pos + len) base - max pos base) = Inr r"
  using add_zero by (simp add: max_def)

end

interpretation asm: gap_tracker asm_wf asm_set add_then_remove_front
proof
  fix s s' n off len
  assume "asm_wf s" "add_then_remove_front s off len = Inr (s', n)"
  from add_then_remove_front_correct[OF this]
  show "asm_wf s' \<and> {..<n} \<subseteq> asm_set s \<union> {off ..< off + len} \<and>
      n \<notin> asm_set s \<union> {off ..< off + len} \<and>
      asm_set s' = {x. x + n \<in> asm_set s \<union> {off ..< off + len}}" by blast
next
  fix s :: assembler and len
  assume "asm_wf s"
  then show "\<exists>r. add_then_remove_front s 0 len = Inr r" by (rule add_then_remove_front_zero)
qed

section \<open>Properties\<close>

text \<open>C16: \<open>Assembler::add\<close> keeps the invariant of the source comment and records exactly the union
  of what was recorded with the new range; it refuses only when every contig of the array is in
  use.\<close>

theorem assembler_add_union:
  assumes "asm_wf cs"
  shows "case asm_add cs off sz of
      Inl _ \<Rightarrow> has_data (asm_back cs)
    | Inr cs' \<Rightarrow> asm_wf cs' \<and> length cs' = length cs \<and> asm_set cs' = asm_set cs \<union> {off ..< off + sz}"
  by (rule asm_add_correct[OF assms])

theorem assembler_add_union_witness:
  "case asm_add [hole_and_data 4 2, hole_and_data 3 2, contig_empty] 5 6 of
      Inl _ \<Rightarrow> has_data (asm_back [hole_and_data 4 2, hole_and_data 3 2, contig_empty])
    | Inr cs' \<Rightarrow> asm_wf cs' \<and> length cs' = 3 \<and>
        asm_set cs' = asm_set [hole_and_data 4 2, hole_and_data 3 2, contig_empty] \<union> {5 ..< 11}"
  using assembler_add_union[of "[hole_and_data 4 2, hole_and_data 3 2, contig_empty]" 5 6]
  by (simp add: asm_wf_def used_ok_def contig_defs split: sum.splits)

text \<open>The next segment: \<open>Assembler::add_then_remove_front\<close> never fails for a segment at offset 0, however many
  holes are recorded: the next expected segment is never dropped.\<close>

theorem assembler_next_segment_never_refused:
  assumes "asm_wf cs"
  shows "\<exists>cs' n. add_then_remove_front cs 0 sz = Inr (cs', n) \<and> asm_wf cs' \<and> sz \<le> n"
proof -
  obtain cs' n where r: "add_then_remove_front cs 0 sz = Inr (cs', n)"
    using add_then_remove_front_zero[OF assms, of sz] by fastforce
  note c = add_then_remove_front_correct[OF assms r]
  have "sz \<le> n" using c(4) by (rule_tac ccontr) simp
  with r c(1) show ?thesis by blast
qed

theorem assembler_next_segment_never_refused_witness:
  "\<exists>cs' n. add_then_remove_front [hole_and_data 4 2, hole_and_data 3 2] 0 1 = Inr (cs', n) \<and>
     asm_wf cs' \<and> 1 \<le> n"
  by (rule assembler_next_segment_never_refused)
    (simp add: asm_wf_def used_ok_def contig_defs)

text \<open>Reassembly.  Feed a fresh assembler any list of segments of the stream, in any order and
  with any overlap: the position the receive window ends up at is the first byte that none of the
  accepted segments contains, and all bytes before it are contained.\<close>

theorem assembler_reassembles:
  assumes "0 < n" and "reassemble add_then_remove_front (asm_new n) 0 {} segs = (s', base, got)"
  shows "{..<base} \<subseteq> got \<and> base \<notin> got \<and> asm_set s' = {x. base + x \<in> got}"
proof -
  have t: "asm.tracks (asm_new n) 0 {}"
    using asm_new_correct assms(1) by (simp add: asm.tracks_def)
  from asm.reassemble_correct[OF t _ assms(2)]
  have "asm.tracks s' base got" "base \<notin> got" by simp_all
  then show ?thesis by (auto simp: asm.tracks_def)
qed

theorem assembler_reassembles_witness:
  "\<exists>s' base got. reassemble add_then_remove_front (asm_new 4) 0 {} [(3, 2), (0, 2), (2, 1)] =
     (s', base, got) \<and> {..<base} \<subseteq> got \<and> base \<notin> got"
proof -
  obtain s' base got where
    r: "reassemble add_then_remove_front (asm_new 4) 0 {} [(3, 2), (0, 2), (2, 1)] = (s', base, got)"
    by (metis prod_cases3)
  show ?thesis using r assembler_reassembles[OF _ r] by auto
qed

end
