(* ===== verification/App_Http.thy ===== *)
theory App_Http
  imports Prelude
begin

text \<open>
  The response accounting of \<open>src/lib.rs\<close>: \<open>count_body\<close> finds the end of the HTTP header in a
  byte stream that arrives in arbitrary pieces (TLS records or socket reads), reads the status code
  on the way and counts the body bytes behind the header.  Shown: the result does not depend on how
  the stream is cut up, the count is the length of what follows the first CRLFCRLF, and the status
  is the three digits after \<open>HTTP/1.1\<close>.
\<close>

section \<open>State\<close>

text \<open>The fields of \<open>Conn\<close> that \<open>count_body\<close> borrows, and the two global counters.\<close>

record body_counter =
  bytes_received :: nat
  headers_done :: bool
  hdr_state :: u8
  status :: u16
  status_pos :: u8

record http_stats =
  BAD_STATUS :: u64
  FIRST_BAD_STATUS :: u64

definition counter_init :: body_counter where
  "counter_init = \<lparr>bytes_received = 0, headers_done = False, hdr_state = 0, status = 0, status_pos = 0\<rparr>"

abbreviation CR :: u8 where "CR \<equiv> 13"
abbreviation LF :: u8 where "LF \<equiv> 10"

definition is_ascii_digit :: "u8 \<Rightarrow> bool" where
  "is_ascii_digit b \<longleftrightarrow> 48 \<le> b \<and> b \<le> 57"

section \<open>count_body\<close>

definition hdr_next :: "u8 \<Rightarrow> u8 \<Rightarrow> u8" where
  "hdr_next st b =
     (if st = 0 \<and> b = CR then 1
      else if st = 1 \<and> b = LF then 2
      else if st = 2 \<and> b = CR then 3
      else if st = 3 \<and> b = LF then 4
      else if b = CR then 1
      else 0)"

definition status_step :: "body_counter \<Rightarrow> u8 \<Rightarrow> body_counter" where
  "status_step c b =
     (if status_pos c < 12
      then let c' = (if status_pos c \<ge> 9 \<and> is_ascii_digit b
                     then c\<lparr>status := status c * 10 + ucast (b - 48)\<rparr> else c)
           in c'\<lparr>status_pos := status_pos c + 1\<rparr>
      else c)"

definition note_status :: "u16 \<Rightarrow> http_stats \<Rightarrow> http_stats" where
  "note_status st g =
     (if st \<noteq> 206
      then g\<lparr>BAD_STATUS := BAD_STATUS g + 1,
             FIRST_BAD_STATUS := (if FIRST_BAD_STATUS g = 0 then ucast st else FIRST_BAD_STATUS g)\<rparr>
      else g)"

text \<open>The loop over the bytes; \<open>data.len() - (i + 1)\<close> is the length of the rest.\<close>

fun count_loop :: "body_counter \<Rightarrow> http_stats \<Rightarrow> bytes \<Rightarrow> body_counter \<times> http_stats" where
  "count_loop c g [] = (c, g)"
| "count_loop c g (b # rest) =
     (let c1 = status_step c b;
          h = hdr_next (hdr_state c1) b;
          c2 = c1\<lparr>hdr_state := h\<rparr>
      in if h = 4
         then (c2\<lparr>headers_done := True, bytes_received := bytes_received c2 + length rest\<rparr>,
               note_status (status c2) g)
         else count_loop c2 g rest)"

definition count_body :: "body_counter \<Rightarrow> http_stats \<Rightarrow> bytes \<Rightarrow> body_counter \<times> http_stats" where
  "count_body c g data =
     (if headers_done c then (c\<lparr>bytes_received := bytes_received c + length data\<rparr>, g)
      else count_loop c g data)"

text \<open>The records of a connection one after the other.\<close>

fun count_records :: "body_counter \<Rightarrow> http_stats \<Rightarrow> bytes list \<Rightarrow> body_counter \<times> http_stats" where
  "count_records c g [] = (c, g)"
| "count_records c g (r # rs) = (let (c1, g1) = count_body c g r in count_records c1 g1 rs)"

section \<open>Independence of the cuts\<close>

lemma status_step_frame [simp]:
  "headers_done (status_step c b) = headers_done c"
  "bytes_received (status_step c b) = bytes_received c"
  "hdr_state (status_step c b) = hdr_state c"
  by (simp_all add: status_step_def Let_def)

lemma count_loop_append:
  "\<not> headers_done c \<Longrightarrow> count_loop c g (xs @ ys) = (let (c1, g1) = count_loop c g xs in count_body c1 g1 ys)"
proof (induction c g xs rule: count_loop.induct)
  case (1 c g)
  then show ?case by (simp add: count_body_def)
next
  case (2 c g b rest)
  show ?case
  proof (cases "hdr_next (hdr_state c) b = 4")
    case True
    then show ?thesis by (simp add: count_body_def Let_def)
  next
    case False
    with 2 show ?thesis by (simp add: Let_def)
  qed
qed

lemma count_body_append:
  "count_body c g (xs @ ys) = (let (c1, g1) = count_body c g xs in count_body c1 g1 ys)"
  by (cases "headers_done c") (simp_all add: count_body_def[of c] count_loop_append,
      simp add: count_body_def)

lemma count_body_Nil [simp]: "count_body c g [] = (c, g)"
  by (simp add: count_body_def)

section \<open>What is counted\<close>

text \<open>Reference definition: the bytes after the first CRLFCRLF.\<close>

definition header_end :: bytes where
  "header_end = [CR, LF, CR, LF]"

fun after_header :: "bytes \<Rightarrow> bytes option" where
  "after_header [] = None"
| "after_header (b # xs) =
     (if take 4 (b # xs) = header_end then Some (drop 4 (b # xs)) else after_header xs)"

text \<open>The matcher state \<open>h\<close> stands for the last \<open>h\<close> bytes read, a prefix of the terminator.\<close>

definition matched :: "u8 \<Rightarrow> bytes" where
  "matched h = (if h = 1 then [CR] else if h = 2 then [CR, LF] else if h = 3 then [CR, LF, CR] else [])"

lemma hdr_next_after_header:
  assumes "h \<in> {0, 1, 2, 3}"
  shows "after_header (matched h @ b # xs) =
    (if hdr_next h b = 4 then Some xs else after_header (matched (hdr_next h b) @ xs))"
proof -
  consider "h = 0" | "h = 1" | "h = 2" | "h = 3" using assms by blast
  then show ?thesis
  proof cases
    case 1
    then show ?thesis by (simp add: hdr_next_def header_end_def matched_def)
  next
    case 2
    then show ?thesis
      by (cases "b = LF"; cases "b = CR") (simp_all add: hdr_next_def header_end_def matched_def)
  next
    case 3
    then show ?thesis
      by (cases "b = CR") (simp_all add: hdr_next_def header_end_def matched_def)
  next
    case 4
    then show ?thesis
      by (cases "b = LF"; cases "b = CR") (simp_all add: hdr_next_def header_end_def matched_def)
  qed
qed

lemma hdr_next_range: "hdr_next h b \<in> {0, 1, 2, 3, 4}"
  by (simp add: hdr_next_def)

lemma count_loop_correct:
  assumes "\<not> headers_done c" "hdr_state c \<in> {0, 1, 2, 3}"
    "count_loop c g xs = (c', g')"
  shows "headers_done c' = (after_header (matched (hdr_state c) @ xs) \<noteq> None) \<and>
    bytes_received c' = bytes_received c +
      (case after_header (matched (hdr_state c) @ xs) of None \<Rightarrow> 0 | Some r \<Rightarrow> length r)"
  using assms
proof (induction c g xs rule: count_loop.induct)
  case (1 c g)
  then have "after_header (matched (hdr_state c)) = None"
    by (auto simp: header_end_def matched_def)
  with 1 show ?case by simp
next
  case (2 c g b rest)
  note step = hdr_next_after_header[OF "2.prems"(2), of b rest]
  show ?case
  proof (cases "hdr_next (hdr_state c) b = 4")
    case True
    with 2 step show ?thesis by (auto simp: Let_def)
  next
    case False
    with hdr_next_range[of "hdr_state c" b] have "hdr_next (hdr_state c) b \<in> {0, 1, 2, 3}" by blast
    with 2 step False show ?thesis by (simp add: Let_def)
  qed
qed

lemma status_step_done [simp]: "status_pos c = 12 \<Longrightarrow> status_step c b = c"
  by (simp add: status_step_def)

lemma count_loop_status_fixed:
  "\<not> headers_done c \<Longrightarrow> status_pos c = 12 \<Longrightarrow> count_loop c g xs = (c', g') \<Longrightarrow>
     status c' = status c \<and> g' = (if headers_done c' then note_status (status c) g else g)"
  by (induction c g xs rule: count_loop.induct) (auto simp: Let_def split: if_splits)

definition http11 :: bytes where
  "http11 = [72, 84, 84, 80, 47, 49, 46, 49, 32]"

definition status_code :: "u8 \<Rightarrow> u8 \<Rightarrow> u8 \<Rightarrow> u16" where
  "status_code d1 d2 d3 = (ucast (d1 - 48) * 10 + ucast (d2 - 48)) * 10 + ucast (d3 - 48)"

lemma digit_not_CR: "is_ascii_digit d \<Longrightarrow> d \<noteq> CR"
  by (auto simp: is_ascii_digit_def)

lemma count_loop_plain:
  assumes "status_pos c < 9" "b \<noteq> CR" "hdr_state c = 0"
  shows "count_loop c g (b # rest) = count_loop (c\<lparr>status_pos := status_pos c + 1\<rparr>) g rest"
proof -
  have "status_pos c < 12" using assms(1) by (rule order.strict_trans) simp
  moreover have "\<not> 9 \<le> status_pos c" using assms(1) by simp
  ultimately have "status_step c b = c\<lparr>status_pos := status_pos c + 1\<rparr>"
    by (simp add: status_step_def)
  then show ?thesis using assms by (cases c) (simp add: hdr_next_def)
qed

lemma count_loop_digit:
  assumes "status_pos c \<in> {9, 10, 11}" "is_ascii_digit d" "hdr_state c = 0"
  shows "count_loop c g (d # rest) = count_loop (c\<lparr>status := status c * 10 + ucast (d - 48),
     status_pos := status_pos c + 1\<rparr>) g rest"
proof -
  have "status_pos c < 12" "9 \<le> status_pos c" using assms(1) by auto
  then have "status_step c d = c\<lparr>status := status c * 10 + ucast (d - 48), status_pos := status_pos c + 1\<rparr>"
    using assms(2) by (simp add: status_step_def)
  then show ?thesis using assms(3) digit_not_CR[OF assms(2)]
    by (cases c) (simp add: hdr_next_def)
qed

lemma count_loop_http11:
  "count_loop counter_init g (http11 @ rest) = count_loop (counter_init\<lparr>status_pos := 9\<rparr>) g rest"
  by (simp add: http11_def counter_init_def count_loop_plain del: count_loop.simps)

lemma count_loop_status_line:
  assumes "is_ascii_digit d1" "is_ascii_digit d2" "is_ascii_digit d3"
  shows "count_loop counter_init g (http11 @ [d1, d2, d3] @ rest) =
    count_loop (counter_init\<lparr>status := status_code d1 d2 d3, status_pos := 12\<rparr>) g rest"
  unfolding count_loop_http11 using assms
  by (simp add: count_loop_digit counter_init_def status_code_def algebra_simps del: count_loop.simps)

lemma unat_digit: "is_ascii_digit d \<Longrightarrow> unat (d - 48) \<le> 9"
  unfolding is_ascii_digit_def by unat_arith

lemma unat_status_code:
  assumes "is_ascii_digit d1" "is_ascii_digit d2" "is_ascii_digit d3"
  shows "unat (status_code d1 d2 d3) = unat (d1 - 48) * 100 + unat (d2 - 48) * 10 + unat (d3 - 48)"
proof -
  have u: "unat (ucast x :: u16) = unat x" for x :: u8
    by (simp add: unsigned_ucast_eq take_bit_nat_eq_self_iff)
       (rule order.strict_trans[OF unsigned_less], simp)
  show ?thesis
    using assms[THEN unat_digit] by (simp add: status_code_def unat_word_ariths u)
qed

lemma count_records_concat: "count_records c g rs = count_body c g (concat rs)"
  by (induction rs arbitrary: c g) (simp_all add: count_body_append split: prod.splits)

text \<open>The records of a response, from its start.\<close>

lemma count_records_body:
  assumes "count_records counter_init g rs = (c', g')"
  shows "headers_done c' = (after_header (concat rs) \<noteq> None) \<and>
    bytes_received c' = (case after_header (concat rs) of None \<Rightarrow> 0 | Some body \<Rightarrow> length body)"
  using count_loop_correct[of counter_init g "concat rs" c' g'] assms
  by (simp add: count_records_concat count_body_def counter_init_def matched_def)

section \<open>Properties\<close>

text \<open>The outcome of \<open>count_body\<close> over the records of a connection (byte count, header and status
  fields and the global status counters alike) depends only on the byte stream, not on where TLS or
  the socket cut it, even when the CRLFCRLF or the status code straddles records.\<close>

theorem count_body_cut_independent:
  "concat rs = concat rs' \<Longrightarrow> count_records c g rs = count_records c g rs'"
  by (simp add: count_records_concat)

theorem count_body_cut_independent_witness:
  "count_records counter_init \<lparr>BAD_STATUS = 0, FIRST_BAD_STATUS = 0\<rparr> [[65, CR], [LF, CR], [LF, 66]] =
   count_records counter_init \<lparr>BAD_STATUS = 0, FIRST_BAD_STATUS = 0\<rparr> [[65, CR, LF, CR, LF, 66]]"
  by (rule count_body_cut_independent) simp

text \<open>C33: body-only counting.  After all records, the header counts as done exactly when the stream
  contains CRLFCRLF, and the count is the number of bytes behind its first occurrence.\<close>

theorem count_body_counts_body:
  assumes "count_records counter_init g rs = (c', g')"
  shows "headers_done c' = (after_header (concat rs) \<noteq> None) \<and>
    bytes_received c' = (case after_header (concat rs) of None \<Rightarrow> 0 | Some body \<Rightarrow> length body)"
  by (rule count_records_body[OF assms])

theorem count_body_counts_body_witness:
  "headers_done (fst (count_records counter_init \<lparr>BAD_STATUS = 0, FIRST_BAD_STATUS = 0\<rparr>
       [[65, CR, LF, CR], [CR, LF, CR, LF, 66, 67]])) =
     (after_header (concat [[65, CR, LF, CR], [CR, LF, CR, LF, 66, 67]]) \<noteq> None) \<and>
   bytes_received (fst (count_records counter_init \<lparr>BAD_STATUS = 0, FIRST_BAD_STATUS = 0\<rparr>
       [[65, CR, LF, CR], [CR, LF, CR, LF, 66, 67]])) =
     (case after_header (concat [[65, CR, LF, CR], [CR, LF, CR, LF, 66, 67]]) of
        None \<Rightarrow> 0 | Some body \<Rightarrow> length body)"
  by (rule count_body_counts_body[OF surjective_pairing])

text \<open>Status accounting.  For a response that starts with \<open>HTTP/1.1 ddd\<close>, however it is cut
  into records, \<open>BAD_STATUS\<close> and \<open>FIRST_BAD_STATUS\<close> are touched exactly once, when the header is
  complete, and then exactly when the code is not 206; the code itself is below 1000, so the 16-bit
  accumulation cannot wrap.\<close>

theorem count_body_status:
  assumes "is_ascii_digit d1" "is_ascii_digit d2" "is_ascii_digit d3"
    and "concat rs = http11 @ [d1, d2, d3] @ rest"
    and "count_records counter_init g rs = (c', g')"
  shows "status c' = status_code d1 d2 d3 \<and>
    g' = (if headers_done c' then note_status (status_code d1 d2 d3) g else g) \<and>
    unat (status_code d1 d2 d3) = unat (d1 - 48) * 100 + unat (d2 - 48) * 10 + unat (d3 - 48)"
proof -
  let ?c = "counter_init\<lparr>status := status_code d1 d2 d3, status_pos := 12\<rparr>"
  have "count_loop ?c g rest = (c', g')"
    using assms(4,5) count_loop_status_line[OF assms(1-3), of g rest]
    by (simp add: count_records_concat count_body_def counter_init_def)
  from count_loop_status_fixed[OF _ _ this]
  have "status c' = status_code d1 d2 d3 \<and>
      g' = (if headers_done c' then note_status (status_code d1 d2 d3) g else g)"
    by (simp add: counter_init_def)
  moreover note unat_status_code[OF assms(1-3)]
  ultimately show ?thesis by simp
qed

theorem count_body_status_witness:
  "\<exists>c' g'. count_records counter_init \<lparr>BAD_STATUS = 0, FIRST_BAD_STATUS = 0\<rparr>
       [http11 @ [53], [48, 51, CR, LF, CR, LF]] = (c', g') \<and> status c' = status_code 53 48 51 \<and>
     g' = (if headers_done c' then note_status (status_code 53 48 51)
       \<lparr>BAD_STATUS = 0, FIRST_BAD_STATUS = 0\<rparr> else \<lparr>BAD_STATUS = 0, FIRST_BAD_STATUS = 0\<rparr>)"
proof -
  obtain c' g' where r: "count_records counter_init \<lparr>BAD_STATUS = 0, FIRST_BAD_STATUS = 0\<rparr>
       [http11 @ [53], [48, 51, CR, LF, CR, LF]] = (c', g')" by fastforce
  show ?thesis
    using r count_body_status[of 53 48 51 "[http11 @ [53], [48, 51, CR, LF, CR, LF]]"
        "[CR, LF, CR, LF]", OF _ _ _ _ r]
    by (simp add: is_ascii_digit_def)
qed

end
