(* ===== verification/App_Config.thy ===== *)
theory App_Config
  imports Prelude
begin

text \<open>
  The compile-time configuration of \<open>src/lib.rs\<close>: the \<open>const fn\<close> parsers for sizes, booleans,
  schemes and addresses, the constants they define and the build-time assertions.  The build is a
  release build without overflow checks, so the \<open>u64\<close> arithmetic of \<open>parse_size\<close> wraps.  Shown:
  each parser equals a reference definition by splitting and decimal value, which gives the round
  trips with decimal rendering, and which builds are refused.
\<close>

section \<open>Parsers\<close>

abbreviation is_digit_byte :: "u8 \<Rightarrow> bool" where
  "is_digit_byte c \<equiv> 48 \<le> c \<and> c \<le> 57"

definition size_mult :: "u8 \<Rightarrow> u64 option" where
  "size_mult c =
     (if c \<in> {75, 107} then Some 1024
      else if c \<in> {77, 109} then Some (1024 * 1024)
      else if c \<in> {71, 103} then Some (1024 * 1024 * 1024)
      else if c \<in> {84, 116} then Some (1024 * 1024 * 1024 * 1024)
      else if c \<in> {66, 98, 105, 73} then Some 1
      else None)"

text \<open>The loop of \<open>parse_size\<close> from index \<open>i\<close> on, with the bytes still to read.\<close>

fun parse_size_loop :: "u64 \<Rightarrow> u64 \<Rightarrow> bytes \<Rightarrow> u64" where
  "parse_size_loop dflt v [] = v"
| "parse_size_loop dflt v (c # rest) =
     (if is_digit_byte c then parse_size_loop dflt (v * 10 + ucast (c - 48)) rest
      else (case size_mult c of Some mult \<Rightarrow> v * mult | None \<Rightarrow> dflt))"

definition parse_size :: "bytes option \<Rightarrow> u64 \<Rightarrow> u64" where
  "parse_size s dflt =
     (case s of None \<Rightarrow> dflt
      | Some b \<Rightarrow> if b = [] then dflt else parse_size_loop dflt 0 b)"

definition parse_bool :: "bytes option \<Rightarrow> bool \<Rightarrow> bool" where
  "parse_bool s dflt =
     (case s of None \<Rightarrow> dflt
      | Some [] \<Rightarrow> dflt
      | Some (c # _) \<Rightarrow>
          if c \<in> {49, 116, 84, 121, 89} then True
          else if c \<in> {48, 102, 70, 110, 78} then False
          else dflt)"

fun bytes_eq_loop :: "bytes \<Rightarrow> bytes \<Rightarrow> bool" where
  "bytes_eq_loop (x # a) (y # b) = (if x \<noteq> y then False else bytes_eq_loop a b)"
| "bytes_eq_loop _ _ = True"

definition bytes_eq :: "bytes \<Rightarrow> bytes \<Rightarrow> bool" where
  "bytes_eq a b = (if length a \<noteq> length b then False else bytes_eq_loop a b)"

definition b_http :: bytes where "b_http = [104, 116, 116, 112]"
definition b_https :: bytes where "b_https = [104, 116, 116, 112, 115]"

definition is_http :: "bytes option \<Rightarrow> bool" where
  "is_http s = (case s of None \<Rightarrow> False | Some b \<Rightarrow> bytes_eq b b_http)"

definition scheme_ok :: "bytes option \<Rightarrow> bool" where
  "scheme_ok s = (case s of None \<Rightarrow> True
     | Some b \<Rightarrow> b = [] \<or> bytes_eq b b_http \<or> bytes_eq b b_https)"

abbreviation no_ip :: bytes where "no_ip \<equiv> [0, 0, 0, 0]"

fun parse_ipv4_loop :: "bytes \<Rightarrow> nat \<Rightarrow> u32 \<Rightarrow> bool \<Rightarrow> bytes \<Rightarrow> bytes" where
  "parse_ipv4_loop out oct acc seen [] =
     (if \<not> seen \<or> oct \<noteq> 3 then no_ip else out[3 := ucast acc])"
| "parse_ipv4_loop out oct acc seen (c # rest) =
     (if is_digit_byte c
      then let acc' = acc * 10 + ucast (c - 48)
           in if acc' > 255 then no_ip else parse_ipv4_loop out oct acc' True rest
      else if c = 46
      then if \<not> seen \<or> oct \<ge> 3 then no_ip
           else parse_ipv4_loop (out[oct := ucast acc]) (oct + 1) 0 False rest
      else no_ip)"

definition parse_ipv4 :: "bytes option \<Rightarrow> bytes" where
  "parse_ipv4 s = (case s of None \<Rightarrow> no_ip | Some b \<Rightarrow> parse_ipv4_loop no_ip 0 0 False b)"

section \<open>Constants\<close>

text \<open>The environment variables read with \<open>option_env!\<close>, and the constants made from them.\<close>

record build_env =
  BENCH_WORKERS :: "bytes option"
  BENCH_CONNS_PER_WORKER :: "bytes option"
  AWS_BUCKET_SIZE :: "bytes option"
  BENCH_BLOCK_SIZE :: "bytes option"
  BENCH_SCHEME :: "bytes option"
  BENCH_TLS_STUB :: "bytes option"
  AWS_TARGET_IP :: "bytes option"

definition N_WORKERS_REQ :: "build_env \<Rightarrow> u16" where
  "N_WORKERS_REQ e = ucast (parse_size (BENCH_WORKERS e) 8)"

definition CONNS_PER_WORKER :: "build_env \<Rightarrow> u64" where
  "CONNS_PER_WORKER e = parse_size (BENCH_CONNS_PER_WORKER e) 24"

definition OBJECT_SIZE :: "build_env \<Rightarrow> u64" where
  "OBJECT_SIZE e = parse_size (AWS_BUCKET_SIZE e) (10 * 1024 * 1024 * 1024)"

definition BLOCK_SIZE :: "build_env \<Rightarrow> u64" where
  "BLOCK_SIZE e = parse_size (BENCH_BLOCK_SIZE e) (64 * 1024 * 1024)"

definition PLAIN_HTTP :: "build_env \<Rightarrow> bool" where
  "PLAIN_HTTP e = is_http (BENCH_SCHEME e)"

definition STUB_TLS_AFTER_HANDSHAKE :: "build_env \<Rightarrow> bool" where
  "STUB_TLS_AFTER_HANDSHAKE e \<longleftrightarrow> parse_bool (BENCH_TLS_STUB e) False \<and> \<not> PLAIN_HTTP e"

definition TARGET_IP_OCTETS :: "build_env \<Rightarrow> bytes" where
  "TARGET_IP_OCTETS e = parse_ipv4 (AWS_TARGET_IP e)"

definition TARGET_PORT :: "build_env \<Rightarrow> u16" where
  "TARGET_PORT e = (if PLAIN_HTTP e then 80 else 443)"

text \<open>The two \<open>const _: () = assert!(...)\<close> items: the crate compiles only when both hold.\<close>

definition build_accepts :: "build_env \<Rightarrow> bool" where
  "build_accepts e \<longleftrightarrow> scheme_ok (BENCH_SCHEME e) \<and>
     \<not> (TARGET_IP_OCTETS e ! 0 = 0 \<and> TARGET_IP_OCTETS e ! 1 = 0 \<and>
        TARGET_IP_OCTETS e ! 2 = 0 \<and> TARGET_IP_OCTETS e ! 3 = 0)"

section \<open>Decimal numbers\<close>

definition digit_byte :: "nat \<Rightarrow> u8" where
  "digit_byte d = of_nat (48 + d)"

text \<open>Decimal rendering, as \<open>core::fmt\<close> prints an unsigned integer.\<close>

fun dec :: "nat \<Rightarrow> bytes" where
  "dec n = (if n < 10 then [digit_byte n] else dec (n div 10) @ [digit_byte (n mod 10)])"

declare dec.simps [simp del]

definition dec_value :: "bytes \<Rightarrow> nat" where
  "dec_value s = foldl (\<lambda>v c. v * 10 + unat (c - 48)) 0 s"

lemma dec_value_simps [simp]:
  "dec_value [] = 0" "dec_value (s @ [c]) = dec_value s * 10 + unat (c - 48)"
  by (simp_all add: dec_value_def)

lemma digit_byte_range: "d < 10 \<Longrightarrow> is_digit_byte (digit_byte d)"
  by (simp add: digit_byte_def word_le_nat_alt unat_of_nat del: of_nat_add)

lemma unat_digit_byte [simp]: "d < 10 \<Longrightarrow> unat (digit_byte d - 48) = d"
  by (simp add: digit_byte_def unat_of_nat)

lemma dec_digits: "\<forall>c \<in> set (dec n). is_digit_byte c"
proof (induction n rule: dec.induct)
  case (1 n)
  then show ?case
    by (subst dec.simps) (simp add: digit_byte_range)
qed

lemma dec_value_dec [simp]: "dec_value (dec n) = n"
proof (induction n rule: dec.induct)
  case (1 n)
  then show ?case
    using dec_value_simps(2)[of "[]"]
    by (subst dec.simps) (simp add: div_mult_mod_eq)
qed

lemma dec_not_Nil [simp]: "dec n \<noteq> []"
  by (subst dec.simps) simp

section \<open>parse_size against its reference\<close>

definition size_ref :: "u64 \<Rightarrow> bytes \<Rightarrow> u64" where
  "size_ref dflt s =
     (case dropWhile (\<lambda>c. is_digit_byte c) s of
        [] \<Rightarrow> of_nat (dec_value s)
      | c # _ \<Rightarrow> (case size_mult c of
            Some m \<Rightarrow> of_nat (dec_value (takeWhile (\<lambda>c. is_digit_byte c) s)) * m
          | None \<Rightarrow> dflt))"

lemma parse_size_loop_ref:
  assumes "\<forall>c \<in> set p. is_digit_byte c"
  shows "parse_size_loop dflt (of_nat (dec_value p)) s = size_ref dflt (p @ s)"
  using assms
proof (induction s arbitrary: p)
  case Nil
  then have "dropWhile (\<lambda>c. is_digit_byte c) (p @ []) = []" by (simp only: append_Nil2 dropWhile_eq_Nil_conv)
  then show ?case by (simp only: size_ref_def parse_size_loop.simps list.case append_Nil2)
next
  case (Cons c s)
  show ?case
  proof (cases "is_digit_byte c")
    case True
    have "of_nat (dec_value p) * 10 + ucast (c - 48) = (of_nat (dec_value (p @ [c])) :: u64)"
      by (simp add: unsigned_of_nat of_nat_unat)
    with True show ?thesis using Cons.IH[of "p @ [c]"] Cons.prems by simp
  next
    case False
    have "dropWhile (\<lambda>c. is_digit_byte c) (p @ c # s) = c # s"
      using Cons.prems False by (subst dropWhile_append2) auto
    moreover have "takeWhile (\<lambda>c. is_digit_byte c) (p @ c # s) = p"
      using Cons.prems False by (subst takeWhile_append2) auto
    ultimately show ?thesis using False by (auto simp: size_ref_def split: option.splits)
  qed
qed

lemma parse_size_ref: "s \<noteq> [] \<Longrightarrow> parse_size (Some s) dflt = size_ref dflt s"
  using parse_size_loop_ref[of "[]" dflt s] by (simp add: parse_size_def)

section \<open>parse_ipv4 against its reference\<close>

fun split_dots :: "bytes \<Rightarrow> bytes list" where
  "split_dots [] = [[]]"
| "split_dots (c # s) =
     (if c = 46 then [] # split_dots s
      else (case split_dots s of g # gs \<Rightarrow> (c # g) # gs | [] \<Rightarrow> []))"

lemma split_dots_not_Nil [simp]: "split_dots s \<noteq> []"
  by (induction s) (auto split: list.splits)

definition octet_ok :: "bytes \<Rightarrow> bool" where
  "octet_ok g \<longleftrightarrow> g \<noteq> [] \<and> (\<forall>c \<in> set g. is_digit_byte c) \<and> dec_value g \<le> 255"

definition ipv4_ref :: "bytes \<Rightarrow> bytes" where
  "ipv4_ref s = (let gs = split_dots s in
     if length gs = 4 \<and> list_all octet_ok gs then map (\<lambda>g. of_nat (dec_value g)) gs else no_ip)"

lemma foldl_dec_value: "foldl (\<lambda>v c. v * 10 + unat (c - 48)) n s \<ge> n" for s :: bytes
proof (induction s arbitrary: n)
  case (Cons c s)
  show ?case using Cons[of "n * 10 + unat (c - 48)"] by simp
qed simp

lemma dec_value_prefix: "dec_value (p @ s) \<ge> dec_value p"
  unfolding dec_value_def foldl_append by (rule foldl_dec_value)

lemma ucast_octet: "(ucast (of_nat n :: u32) :: u8) = of_nat n"
  by (simp add: unsigned_of_nat word_of_nat_eq_iff)

text \<open>The loop with \<open>cur\<close> the digits of the current octet read so far.\<close>

lemma parse_ipv4_loop_ref:
  assumes "length out = 4" "oct \<le> 3" "\<forall>c \<in> set cur. is_digit_byte c" "dec_value cur \<le> 255"
  shows "parse_ipv4_loop out oct (of_nat (dec_value cur)) (cur \<noteq> []) s =
    (let gs = (cur @ hd (split_dots s)) # tl (split_dots s) in
     if oct + length gs = 4 \<and> list_all octet_ok gs
     then take oct out @ map (\<lambda>g. of_nat (dec_value g)) gs else no_ip)"
  using assms
proof (induction s arbitrary: out oct cur)
  case Nil
  have "out[3 := x] = take 3 out @ [x]" for x
    using Nil.prems(1) by (simp add: upd_conv_take_nth_drop)
  then show ?case using Nil.prems by (auto simp: octet_ok_def ucast_octet)
next
  case (Cons c s)
  obtain g gs where sp: "split_dots s = g # gs" by (cases "split_dots s") auto
  consider (digit) "is_digit_byte c" | (dot) "c = 46" | (other) "\<not> is_digit_byte c" "c \<noteq> 46" by blast
  then show ?case
  proof cases
    case digit
    then have nd: "c \<noteq> 46" by auto
    let ?v = "dec_value (cur @ [c])"
    have "unat (c - 48) \<le> 9" using digit by unat_arith
    then have b: "?v < 2560" using Cons.prems(4) by simp
    have acc: "of_nat (dec_value cur) * 10 + ucast (c - 48) = (of_nat ?v :: u32)"
      by (simp add: unsigned_of_nat of_nat_unat)
    have big: "(of_nat ?v :: u32) > 255 \<longleftrightarrow> ?v > 255"
      using b by (simp add: word_less_nat_alt unat_of_nat del: dec_value_simps)
    show ?thesis
    proof (cases "?v > 255")
      case True
      then have "\<not> octet_ok (cur @ c # g)"
        using dec_value_prefix[of "cur @ [c]" g] by (simp add: octet_ok_def)
      then show ?thesis using digit nd sp big acc True by (simp add: Let_def del: dec_value_simps)
    next
      case False
      with Cons.IH[of out oct "cur @ [c]"] Cons.prems digit
      show ?thesis using nd sp big acc by (simp add: Let_def del: dec_value_simps)
    qed
  next
    case dot
    show ?thesis
    proof (cases "cur = [] \<or> oct \<ge> 3")
      case True
      then show ?thesis using dot sp Cons.prems by (auto simp: octet_ok_def Let_def)
    next
      case False
      then have "octet_ok cur" using Cons.prems by (simp add: octet_ok_def)
      moreover have "take (Suc oct) (out[oct := x]) = take oct out @ [x]" for x
        using False Cons.prems(1) by (simp add: take_Suc_conv_app_nth)
      ultimately show ?thesis
        using Cons.IH[of "out[oct := of_nat (dec_value cur)]" "Suc oct" "[]"] Cons.prems False dot sp
        by (simp add: Let_def ucast_octet)
    qed
  next
    case other
    then have "\<not> octet_ok (cur @ c # g)" by (auto simp: octet_ok_def)
    then show ?thesis using other sp by (auto simp: Let_def)
  qed
qed

lemma parse_ipv4_ref: "parse_ipv4 (Some s) = ipv4_ref s"
proof -
  have "parse_ipv4 (Some s) = parse_ipv4_loop no_ip 0 (of_nat (dec_value [])) ([] \<noteq> ([] :: bytes)) s"
    by (simp add: parse_ipv4_def)
  also have "\<dots> = ipv4_ref s"
    by (subst parse_ipv4_loop_ref) (simp_all add: ipv4_ref_def Let_def)
  finally show ?thesis .
qed

lemma length_parse_ipv4 [simp]: "length (parse_ipv4 s) = 4"
  by (cases s) (simp add: parse_ipv4_def, simp add: parse_ipv4_ref ipv4_ref_def Let_def)

lemma bytes_eq_loop_iff: "length a = length b \<Longrightarrow> bytes_eq_loop a b = (a = b)"
  by (induction a b rule: list_induct2) auto

lemma bytes_eq_iff [simp]: "bytes_eq a b = (a = b)"
  by (auto simp: bytes_eq_def bytes_eq_loop_iff)

lemma split_dots_no_dot: "46 \<notin> set g \<Longrightarrow> split_dots g = [g]"
  by (induction g) auto

lemma split_dots_dot: "46 \<notin> set g \<Longrightarrow> split_dots (g @ 46 # s) = g # split_dots s"
  by (induction g) auto

lemma dec_no_dot [simp]: "46 \<notin> set (dec n)"
  using dec_digits[of n] by auto

lemma octet_ok_dec [simp]: "octet_ok (dec n) = (n \<le> 255)"
  using dec_digits[of n] by (simp add: octet_ok_def)

definition dotted :: "u8 \<Rightarrow> u8 \<Rightarrow> u8 \<Rightarrow> u8 \<Rightarrow> bytes" where
  "dotted a b c d =
     dec (unat a) @ 46 # dec (unat b) @ 46 # dec (unat c) @ 46 # dec (unat d)"

lemma unat_u8_le: "unat (a :: u8) \<le> 255"
proof -
  have "unat a < 2 ^ LENGTH(8)" by (rule unsigned_less)
  then show ?thesis by simp
qed

lemma size_mult_not_digit: "size_mult c = Some m \<Longrightarrow> \<not> is_digit_byte c"
  by (auto simp: size_mult_def split: if_splits)

section \<open>Properties\<close>

text \<open>Sizes.  A decimal number below \<open>2 ^ 64\<close> parses to its value, and with an IEC suffix
  letter (and whatever follows that letter) to its value times the suffix; where the product does
  not fit, the \<open>u64\<close> result wraps.\<close>

theorem parse_size_decimal:
  assumes "n < 2 ^ 64" "size_mult c = Some m"
  shows "unat (parse_size (Some (dec n)) dflt) = n \<and>
    unat (parse_size (Some (dec n @ c # rest)) dflt) = n * unat m mod 2 ^ 64"
proof -
  have d: "dropWhile (\<lambda>c. is_digit_byte c) (dec n) = []"
    using dec_digits[of n] by (simp only: dropWhile_eq_Nil_conv)
  have "dropWhile (\<lambda>c. is_digit_byte c) (dec n @ c # rest) = c # rest"
    using dec_digits[of n] size_mult_not_digit[OF assms(2)] by (subst dropWhile_append2) auto
  moreover have "takeWhile (\<lambda>c. is_digit_byte c) (dec n @ c # rest) = dec n"
    using dec_digits[of n] size_mult_not_digit[OF assms(2)] by (subst takeWhile_append2) auto
  ultimately have "parse_size (Some (dec n @ c # rest)) dflt = of_nat n * m"
    using assms(2) by (simp add: parse_size_ref size_ref_def)
  then have "unat (parse_size (Some (dec n @ c # rest)) dflt) = n * unat m mod 2 ^ 64"
    using assms(1) by (simp add: unat_word_ariths unat_of_nat)
  moreover have "parse_size (Some (dec n)) dflt = of_nat n"
    by (simp only: parse_size_ref[OF dec_not_Nil] size_ref_def d list.case dec_value_dec)
  ultimately show ?thesis using assms(1) by (simp add: unat_of_nat)
qed

theorem parse_size_decimal_witness:
  "unat (parse_size (Some (dec 10)) 0) = 10 \<and>
   unat (parse_size (Some (dec 10 @ 71 # [105, 66])) 0) = 10 * unat (1073741824 :: u64) mod 2 ^ 64"
  by (rule parse_size_decimal) (simp_all add: size_mult_def)

text \<open>Addresses.  \<open>parse_ipv4\<close> yields the four octets exactly when the string is four
  dot-separated groups of decimal digits with values at most 255, and \<open>0.0.0.0\<close> otherwise; in
  particular it reads back every dotted quad.\<close>

theorem parse_ipv4_exact:
  "parse_ipv4 (Some s) = (let gs = split_dots s in
     if length gs = 4 \<and> list_all octet_ok gs then map (\<lambda>g. of_nat (dec_value g)) gs else no_ip) \<and>
   parse_ipv4 (Some (dotted a b c d)) = [a, b, c, d]"
  using parse_ipv4_ref[of s]
  by (simp add: ipv4_ref_def parse_ipv4_ref dotted_def split_dots_dot split_dots_no_dot unat_u8_le)

text \<open>Refused builds.  The crate compiles exactly when the scheme is unset, empty, \<open>http\<close> or
  \<open>https\<close> and the target address reads as a dotted quad other than \<open>0.0.0.0\<close>; then plain HTTP on
  port 80 without the TLS stub is chosen exactly for \<open>http\<close>, and port 443 otherwise.\<close>

theorem build_accepts_iff:
  "build_accepts e =
     (BENCH_SCHEME e \<in> {None, Some [], Some b_http, Some b_https} \<and>
      (\<exists>s. AWS_TARGET_IP e = Some s \<and> ipv4_ref s \<noteq> no_ip)) \<and>
   (if BENCH_SCHEME e = Some b_http
    then TARGET_PORT e = 80 \<and> PLAIN_HTTP e \<and> \<not> STUB_TLS_AFTER_HANDSHAKE e
    else TARGET_PORT e = 443 \<and> \<not> PLAIN_HTTP e)"
proof -
  have "xs = no_ip \<longleftrightarrow> xs ! 0 = 0 \<and> xs ! 1 = 0 \<and> xs ! 2 = 0 \<and> xs ! 3 = 0" if "length xs = 4" for xs :: bytes
    using that by (auto simp: list_eq_iff_nth_eq less_Suc_eq numeral_eq_Suc)
  from this[OF length_parse_ipv4] have ip: "(parse_ipv4 s ! 0 = 0 \<and> parse_ipv4 s ! 1 = 0 \<and> parse_ipv4 s ! 2 = 0 \<and>
      parse_ipv4 s ! 3 = 0) = (parse_ipv4 s = no_ip)" for s by blast
  have "scheme_ok s = (s \<in> {None, Some [], Some b_http, Some b_https})" for s
    by (cases s) (auto simp: scheme_ok_def)
  moreover have "parse_ipv4 (AWS_TARGET_IP e) \<noteq> no_ip \<longleftrightarrow>
      (\<exists>s. AWS_TARGET_IP e = Some s \<and> ipv4_ref s \<noteq> no_ip)"
    by (cases "AWS_TARGET_IP e") (simp_all add: parse_ipv4_ref, simp add: parse_ipv4_def)
  moreover have "PLAIN_HTTP e = (BENCH_SCHEME e = Some b_http)"
    by (simp add: PLAIN_HTTP_def is_http_def split: option.splits)
  ultimately show ?thesis
    unfolding build_accepts_def TARGET_IP_OCTETS_def ip
    by (simp add: TARGET_PORT_def STUB_TLS_AFTER_HANDSHAKE_def)
qed

end
