(* ===== verification/App_Rss.thy ===== *)
theory App_Rss
  imports App_Config
begin

text \<open>
  The receive-side-scaling model of \<open>src/lib.rs\<close>: the Toeplitz hash, the queue prediction, reading
  the key and the indirection table from the device, the bitmap of ephemeral ports a worker owns
  and the selection of its source ports.  The two device queries of the shim are arguments: the
  return code and the contents they leave in the buffer.  Shown: the sliding window computes the
  textbook hash (XOR of the key windows at the set input bits) and is linear, the bitmap holds
  exactly the ports predicted for the queue, the queues partition the ephemeral range, and the port
  selection finds as many distinct owned ports as there are, up to the number of connections.
\<close>

section \<open>Toeplitz hash\<close>

text \<open>One round of the inner loop on \<open>(result, w, next_bit)\<close>; \<open>b\<close> is the tested input bit.\<close>

definition toeplitz_bit :: "bytes \<Rightarrow> u32 \<times> u32 \<times> nat \<Rightarrow> bool \<Rightarrow> u32 \<times> u32 \<times> nat" where
  "toeplitz_bit key st b = (case st of (result, w, next_bit) \<Rightarrow>
     let result' = (if b then result XOR w else result);
         kb = (if next_bit < length key * 8
               then drop_bit (7 - next_bit mod 8) (key ! (next_bit div 8)) AND 1 else (0 :: u8))
     in (result', push_bit 1 w OR ucast kb, next_bit + 1))"

definition toeplitz_byte :: "bytes \<Rightarrow> u32 \<times> u32 \<times> nat \<Rightarrow> u8 \<Rightarrow> u32 \<times> u32 \<times> nat" where
  "toeplitz_byte key st byte =
     foldl (\<lambda>st b. toeplitz_bit key st (drop_bit b byte AND 1 = 1)) st (rev [0..<8])"

definition toeplitz :: "bytes \<Rightarrow> bytes \<Rightarrow> u32" where
  "toeplitz key data =
     (if length key < 4 then 0
      else fst (foldl (toeplitz_byte key)
        (0, of_be32 (key ! 0) (key ! 1) (key ! 2) (key ! 3), 32) data))"

text \<open>Reference: bit \<open>i\<close> of the key and of the input counted from the most significant bit of the
  first byte, the 32 key bits from \<open>i\<close> on, and the XOR of those windows at the set input bits.\<close>

definition key_bit :: "bytes \<Rightarrow> nat \<Rightarrow> bool" where
  "key_bit key i \<longleftrightarrow> i < length key * 8 \<and> bit (key ! (i div 8)) (7 - i mod 8)"

definition key_window :: "bytes \<Rightarrow> nat \<Rightarrow> u32" where
  "key_window key i = horner_sum of_bool 2 (map (\<lambda>j. key_bit key (i + 31 - j)) [0..<32])"

definition data_bits :: "bytes \<Rightarrow> bool list" where
  "data_bits data = concat (map (\<lambda>x. map (bit x) (rev [0..<8])) data)"

fun xor_windows :: "bytes \<Rightarrow> nat \<Rightarrow> bool list \<Rightarrow> u32" where
  "xor_windows key i [] = 0"
| "xor_windows key i (b # bs) = (if b then key_window key i else 0) XOR xor_windows key (Suc i) bs"

lemma bit_key_window: "bit (key_window key i) j \<longleftrightarrow> j < 32 \<and> key_bit key (i + 31 - j)"
  by (auto simp: key_window_def bit_horner_sum_bit_word_iff)

lemma drop_bit_and_1: "(drop_bit n x AND 1 = 1) = bit x n" for x :: u8
  by (simp add: and_one_eq bit_iff_odd_drop_bit mod2_eq_if)

lemma key_window_step:
  "push_bit 1 (key_window key i) OR
     ucast (if 32 + i < length key * 8 then drop_bit (7 - (32 + i) mod 8) (key ! ((32 + i) div 8)) AND 1
            else (0 :: u8)) = key_window key (Suc i)" (is "_ OR ucast ?kb = _")
proof -
  have kb: "?kb = of_bool (key_bit key (32 + i))"
    by (simp add: key_bit_def and_one_eq bit_iff_odd_drop_bit mod2_eq_if)
  have p: "bit (push_bit 1 w) n \<longleftrightarrow> n \<noteq> 0 \<and> n < 32 \<and> bit w (n - 1)" for w :: u32 and n
    by (auto simp only: bit_push_bit_iff possible_bit_word) auto
  show ?thesis
    unfolding kb
  proof (rule bit_word_eqI)
    fix n :: nat
    assume "n < LENGTH(32)"
    then show "bit (push_bit 1 (key_window key i) OR ucast (of_bool (key_bit key (32 + i)) :: u8)) n =
        bit (key_window key (Suc i)) n"
      unfolding bit_or_iff p by (cases n) (auto simp: bit_simps bit_key_window add.commute)
  qed
qed

lemma toeplitz_bits:
  "foldl (toeplitz_bit key) (r, key_window key i, 32 + i) bs =
     (r XOR xor_windows key i bs, key_window key (i + length bs), 32 + (i + length bs))"
proof (induction bs arbitrary: r i)
  case (Cons b bs)
  have "toeplitz_bit key (r, key_window key i, 32 + i) b =
      (r XOR (if b then key_window key i else 0), key_window key (Suc i), 32 + Suc i)"
    using key_window_step[of key i] by (simp add: toeplitz_bit_def Let_def)
  then show ?case using Cons[of "r XOR (if b then key_window key i else 0)" "Suc i"]
    by (simp add: xor.assoc)
qed simp

lemma foldl_toeplitz_byte:
  "foldl (toeplitz_byte key) st data = foldl (toeplitz_bit key) st (data_bits data)"
proof (induction data arbitrary: st)
  case (Cons x data)
  have "toeplitz_byte key st x = foldl (toeplitz_bit key) st (map (bit x) (rev [0..<8]))"
    by (simp add: toeplitz_byte_def drop_bit_and_1 foldl_map)
  then show ?case using Cons by (simp add: data_bits_def)
qed (simp add: data_bits_def)

lemma key_window_0:
  assumes "4 \<le> length key"
  shows "of_be32 (key ! 0) (key ! 1) (key ! 2) (key ! 3) = key_window key 0"
proof (rule bit_word_eqI)
  fix n :: nat
  have l: "31 - n < length key * 8" using assms by linarith
  assume "n < LENGTH(32)"
  then consider "n < 8" | "8 \<le> n" "n < 16" | "16 \<le> n" "n < 24" | "24 \<le> n" "n < 32"
    by fastforce
  then show "bit (of_be32 (key ! 0) (key ! 1) (key ! 2) (key ! 3)) n = bit (key_window key 0) n"
  proof cases
    case 1
    then have "(31 - n) div 8 = 3" by (intro div_nat_eqI) simp_all
    moreover from this 1 have "7 - (31 - n) mod 8 = n"
      using div_mult_mod_eq[of "31 - n" 8] by linarith
    ultimately show ?thesis using 1 l by (simp add: bit_of_be32 bit_key_window key_bit_def)
  next
    case 2
    then have "(31 - n) div 8 = 2" by (intro div_nat_eqI) simp_all
    moreover from this 2 have "7 - (31 - n) mod 8 = n - 8"
      using div_mult_mod_eq[of "31 - n" 8] by linarith
    ultimately show ?thesis using 2 l
      by (simp add: bit_of_be32 bit_key_window key_bit_def)
  next
    case 3
    then have "(31 - n) div 8 = 1" by (intro div_nat_eqI) simp_all
    moreover from this 3 have "7 - (31 - n) mod 8 = n - 16"
      using div_mult_mod_eq[of "31 - n" 8] by linarith
    ultimately show ?thesis using 3 l
      by (simp add: bit_of_be32 bit_key_window key_bit_def)
  next
    case 4
    then have "(31 - n) div 8 = 0" by (intro div_nat_eqI) simp_all
    moreover from this 4 have "7 - (31 - n) mod 8 = n - 24"
      using div_mult_mod_eq[of "31 - n" 8] by linarith
    ultimately show ?thesis using 4 l
      by (simp add: bit_of_be32 bit_key_window key_bit_def)
  qed
qed

lemma toeplitz_eq_xor_windows:
  "4 \<le> length key \<Longrightarrow> toeplitz key data = xor_windows key 0 (data_bits data)"
  using toeplitz_bits[of key 0 0 "data_bits data"]
  unfolding toeplitz_def key_window_0 foldl_toeplitz_byte by simp

lemma xor_windows_map2:
  "length a = length b \<Longrightarrow>
   xor_windows key i (map2 (\<lambda>x y. x = (\<not> y)) a b) = xor_windows key i a XOR xor_windows key i b"
proof (induction a b arbitrary: i rule: list_induct2)
  case (Cons x xs y ys)
  then show ?case by (cases x; cases y) (simp_all add: ac_simps xor.left_commute)
qed simp

lemma length_data_bits [simp]: "length (data_bits d) = 8 * length d"
  by (induction d) (simp_all add: data_bits_def)

lemma data_bits_xor:
  "length a = length b \<Longrightarrow> data_bits (map2 (XOR) a b) = map2 (\<lambda>x y. x = (\<not> y)) (data_bits a) (data_bits b)"
proof (induction a b rule: list_induct2)
  case (Cons x xs y ys)
  have "map (bit (x XOR y)) (rev [0..<8]) =
      map2 (\<lambda>x y. x = (\<not> y)) (map (bit x) (rev [0..<8])) (map (bit y) (rev [0..<8]))"
    by (simp add: bit_xor_iff upt_rec)
  then show ?case using Cons by (simp add: data_bits_def)
qed (simp add: data_bits_def)

lemma toeplitz_linear:
  assumes "length a = length b"
  shows "toeplitz key (map2 (XOR) a b) = toeplitz key a XOR toeplitz key b"
proof (cases "4 \<le> length key")
  case True
  then show ?thesis
    using assms by (simp add: toeplitz_eq_xor_windows data_bits_xor xor_windows_map2)
qed (simp add: toeplitz_def)

section \<open>Queue prediction\<close>

record rss_config =
  RSS_KEY :: bytes
  RSS_KEY_LEN :: nat
  RSS_RETA :: "u16 list"
  RSS_RETA_LEN :: nat
  SINGLE_QUEUE :: bool

definition rss_init :: rss_config where
  "rss_init = \<lparr>RSS_KEY = replicate 64 0, RSS_KEY_LEN = 0, RSS_RETA = replicate 512 0,
     RSS_RETA_LEN = 0, SINGLE_QUEUE = False\<rparr>"

definition EPH_BASE :: u16 where "EPH_BASE = 49152"
definition EPH_LEN :: nat where "EPH_LEN = 16384"
definition OWNED_BITMAP_BYTES :: nat where "OWNED_BITMAP_BYTES = EPH_LEN div 8"

text \<open>\<open>None\<close> is the panic of a slice or index out of range.\<close>

definition predict_queue :: "rss_config \<Rightarrow> bytes \<Rightarrow> u16 option" where
  "predict_queue g tuple =
     (if SINGLE_QUEUE g then Some 0
      else if RSS_KEY_LEN g = 0 \<or> RSS_RETA_LEN g = 0 then Some 65535
      else do {
        key \<leftarrow> slice (RSS_KEY g) 0 (RSS_KEY_LEN g);
        let h = unat (toeplitz key tuple);
        let i = h AND (RSS_RETA_LEN g - 1);
        if i < length (RSS_RETA g) then Some (RSS_RETA g ! i) else None
      })"

definition queue_for_local_port :: "rss_config \<Rightarrow> build_env \<Rightarrow> bytes \<Rightarrow> u16 \<Rightarrow> u16 option" where
  "queue_for_local_port g e our_ip local_port =
     predict_queue g (TARGET_IP_OCTETS e @ our_ip @ be16 (TARGET_PORT e) @ be16 local_port)"

section \<open>Reading the device configuration\<close>

text \<open>\<open>klen\<close>, \<open>key\<close> and \<open>n\<close>, \<open>reta\<close> are what \<open>shim_rss_hash_key\<close> and \<open>shim_rss_reta\<close> return and
  leave in their buffers of 64 bytes and 512 entries.\<close>

definition load_rss_config ::
  "u16 \<Rightarrow> int \<Rightarrow> bytes \<Rightarrow> int \<Rightarrow> u16 list \<Rightarrow> rss_config \<Rightarrow> (bool \<times> rss_config) option" where
  "load_rss_config n_queues klen key n reta g =
     (if n_queues = 1 then Some (True, g\<lparr>SINGLE_QUEUE := True\<rparr>)
      else if klen \<le> 0 then Some (False, g)
      else do {
        k \<leftarrow> slice key 0 (nat klen);
        dst \<leftarrow> copy_at (RSS_KEY g) 0 k;
        let g1 = g\<lparr>RSS_KEY := dst, RSS_KEY_LEN := nat klen\<rparr>;
        if n \<le> 0 then Some (False, g1)
        else if nat n AND (nat n - 1) \<noteq> 0 then Some (False, g1)
        else do {
          r \<leftarrow> slice reta 0 (nat n);
          dst \<leftarrow> copy_at (RSS_RETA g1) 0 r;
          Some (True, g1\<lparr>RSS_RETA := dst, RSS_RETA_LEN := nat n\<rparr>)
        }
      })"

section \<open>Owned ports\<close>

fun owned_loop ::
  "rss_config \<Rightarrow> build_env \<Rightarrow> bytes \<Rightarrow> u16 \<Rightarrow> nat list \<Rightarrow> bytes \<times> u32 \<Rightarrow> (bytes \<times> u32) option" where
  "owned_loop g e our_ip queue_id [] st = Some st"
| "owned_loop g e our_ip queue_id (i # is) (bitmap, count) = do {
     let port = EPH_BASE + of_nat i;
     q \<leftarrow> queue_for_local_port g e our_ip port;
     if q = queue_id
     then do {
       assert_that (i div 8 < length bitmap);
       owned_loop g e our_ip queue_id is
         (bitmap[i div 8 := bitmap ! (i div 8) OR push_bit (i mod 8) 1], count + 1)
     }
     else owned_loop g e our_ip queue_id is (bitmap, count)
   }"

definition build_owned_ports ::
  "rss_config \<Rightarrow> build_env \<Rightarrow> bytes \<Rightarrow> u16 \<Rightarrow> bytes \<Rightarrow> (bytes \<times> u32) option" where
  "build_owned_ports g e our_ip queue_id bitmap =
     owned_loop g e our_ip queue_id [0..<EPH_LEN] (bitmap, 0)"

definition owns_port :: "bytes \<Rightarrow> u16 \<Rightarrow> bool" where
  "owns_port bitmap port =
     (if port < EPH_BASE then True
      else let i = unat (port - EPH_BASE)
           in bitmap ! (i div 8) AND push_bit (i mod 8) 1 \<noteq> 0)"

section \<open>Source port selection\<close>

text \<open>The block of \<open>worker_thread\<close> that fills \<open>my_ports\<close>; \<open>m\<close> is \<open>CONNS_PER_WORKER\<close>, and the
  division by it panics when it is zero.\<close>

fun port_loop :: "bytes \<Rightarrow> nat \<Rightarrow> nat \<Rightarrow> nat list \<Rightarrow> nat \<Rightarrow> u16 list \<Rightarrow> u16 list" where
  "port_loop bitmap m stride [] seen my_ports = my_ports"
| "port_loop bitmap m stride (i # is) seen my_ports =
     (if length my_ports = m then my_ports
      else let port = EPH_BASE + of_nat i in
        if owns_port bitmap port
        then port_loop bitmap m stride is (seen + 1)
               (if seen mod stride = 0 then my_ports @ [port] else my_ports)
        else port_loop bitmap m stride is seen my_ports)"

definition select_ports :: "bytes \<Rightarrow> u32 \<Rightarrow> nat \<Rightarrow> u16 list option" where
  "select_ports bitmap owned_count m = do {
     assert_that (m \<noteq> 0);
     let stride = max 1 (unat owned_count div m);
     Some (port_loop bitmap m stride [0..<EPH_LEN] 0 [])
   }"

section \<open>The configuration after loading\<close>

lemma and_pred_0_power:
  "0 < n \<Longrightarrow> n AND (n - 1) = 0 \<Longrightarrow> \<exists>k. n = 2 ^ k" for n :: nat
proof (induction n rule: less_induct)
  case (less n)
  show ?case
  proof (cases "even n")
    case True
    then obtain m where m: "n = 2 * m" by blast
    then have "m > 0" "n - 1 = 2 * (m - 1) + 1" using less.prems by auto
    then have "2 * (m AND (m - 1)) = 0"
      using less.prems(2) m by (subst (asm) and_rec) simp
    then have "m AND (m - 1) = 0" by simp
    then obtain k where "m = 2 ^ k" using less.IH[of m] m \<open>m > 0\<close> by auto
    then have "n = 2 ^ Suc k" using m by simp
    then show ?thesis by blast
  next
    case False
    then obtain m where m: "n = 2 * m + 1" by (metis oddE)
    then have "2 * (m AND m) = 0" using less.prems(2) by (subst (asm) and_rec) simp
    then have "n = 2 ^ 0" using m by simp
    then show ?thesis by blast
  qed
qed

lemma and_pred_power: "h AND (2 ^ k - 1) = h mod 2 ^ k" for h :: nat
  by (simp add: take_bit_eq_mod[symmetric] take_bit_eq_mask mask_eq_exp_minus_1)

text \<open>Prediction with the values the device reported.\<close>

definition device_queue :: "u16 \<Rightarrow> int \<Rightarrow> bytes \<Rightarrow> int \<Rightarrow> u16 list \<Rightarrow> bytes \<Rightarrow> u16" where
  "device_queue n_queues klen key n reta tuple =
     (if n_queues = 1 then 0
      else reta ! (unat (toeplitz (take (nat klen) key) tuple) mod nat n))"

lemma load_rss_config_predicts:
  assumes "length key = 64" "length reta = 512"
    and "load_rss_config n_queues klen key n reta rss_init = Some (True, g)"
  shows "predict_queue g tuple = Some (device_queue n_queues klen key n reta tuple)"
proof (cases "n_queues = 1")
  case True
  then show ?thesis using assms(3) by (auto simp: load_rss_config_def predict_queue_def device_queue_def)
next
  case False
  with assms have k: "0 < klen" "nat klen \<le> 64" and n: "0 < n" "nat n AND (nat n - 1) = 0" "nat n \<le> 512"
    and g: "g = rss_init\<lparr>RSS_KEY := overwrite (RSS_KEY rss_init) 0 (take (nat klen) key), RSS_KEY_LEN := nat klen,
        RSS_RETA := overwrite (RSS_RETA rss_init) 0 (take (nat n) reta), RSS_RETA_LEN := nat n\<rparr>"
    by (auto simp: load_rss_config_def Let_def bind_eq_Some_conv slice_eq_Some copy_at_def
        split: if_splits)
  obtain j where j: "nat n = 2 ^ j" using and_pred_0_power[of "nat n"] n by auto
  have m: "h AND (nat n - 1) = h mod nat n" for h :: nat unfolding j by (rule and_pred_power)
  have lt: "h mod nat n < nat n" for h :: nat using n(1) by simp
  then have lt512: "h mod nat n < 512" for h :: nat using n(3) by (rule order.strict_trans2)
  have "take (nat klen) (overwrite (replicate 64 0) 0 (take (nat klen) key)) = take (nat klen) key"
    using k assms(1) by (simp add: overwrite_def)
  moreover have "overwrite (replicate 512 0) 0 (take (nat n) reta) ! (h mod nat n) = reta ! (h mod nat n)" for h
    using n assms(2) lt[of h] lt512[of h] by (simp add: nth_overwrite)
  ultimately show ?thesis
    using False k n assms(1,2) lt512
    by (simp add: predict_queue_def device_queue_def g rss_init_def slice_def overwrite_def[of "replicate 64 0"] m[simplified] Let_def)
qed

section \<open>The bitmap\<close>

lemma owned_loop_correct:
  assumes "\<And>i. i \<in> set is \<Longrightarrow> queue_for_local_port g e ip (EPH_BASE + of_nat i) = Some (qf i)"
    and "\<forall>i \<in> set is. i div 8 < length bm"
  shows "\<exists>bm'. owned_loop g e ip q is (bm, c) = Some (bm', c + of_nat (length (filter (\<lambda>i. qf i = q) is))) \<and>
     length bm' = length bm \<and>
     (\<forall>j. j div 8 < length bm \<longrightarrow>
        bit (bm' ! (j div 8)) (j mod 8) = (bit (bm ! (j div 8)) (j mod 8) \<or> j \<in> set is \<and> qf j = q))"
  using assms
proof (induction "is" arbitrary: bm c)
  case (Cons i "is")
  show ?case
  proof (cases "qf i = q")
    case False
    have "owned_loop g e ip q (i # is) (bm, c) = owned_loop g e ip q is (bm, c)"
      using Cons.prems(1)[of i] False by simp
    then show ?thesis using Cons.IH[of bm c] Cons.prems False by auto
  next
    case True
    let ?bm = "bm[i div 8 := bm ! (i div 8) OR push_bit (i mod 8) 1]"
    have step: "owned_loop g e ip q (i # is) (bm, c) = owned_loop g e ip q is (?bm, c + 1)"
      using Cons.prems(1)[of i] Cons.prems(2) True by simp
    have bits: "bit (?bm ! (j div 8)) (j mod 8) = (bit (bm ! (j div 8)) (j mod 8) \<or> j = i)"
      if "j div 8 < length bm" for j
    proof -
      have "j = i \<longleftrightarrow> j div 8 = i div 8 \<and> j mod 8 = i mod 8" by (metis div_mult_mod_eq)
      moreover have "i mod 8 < 8" by simp
      ultimately show ?thesis using that
        by (cases "j div 8 = i div 8") (auto simp: bit_simps simp del: push_bit_of_1)
    qed
    from Cons.IH[of ?bm "c + 1"] Cons.prems
    obtain bm' where "owned_loop g e ip q is (?bm, c + 1) =
        Some (bm', c + 1 + of_nat (length (filter (\<lambda>i. qf i = q) is)))"
      "length bm' = length bm"
      "\<forall>j. j div 8 < length bm \<longrightarrow>
        bit (bm' ! (j div 8)) (j mod 8) = (bit (?bm ! (j div 8)) (j mod 8) \<or> j \<in> set is \<and> qf j = q)"
      by auto
    then show ?thesis using step bits True by (auto simp: ac_simps)
  qed
qed auto

lemma eph_port_of_index:
  "i < EPH_LEN \<Longrightarrow> EPH_BASE + of_nat i \<ge> EPH_BASE \<and> unat (EPH_BASE + of_nat i - EPH_BASE) = i"
  by (simp add: EPH_LEN_def EPH_BASE_def word_le_nat_alt unat_word_ariths unat_of_nat)

lemma eph_index_of_port:
  assumes "EPH_BASE \<le> port"
  shows "unat (port - EPH_BASE) < EPH_LEN \<and> EPH_BASE + of_nat (unat (port - EPH_BASE)) = port"
proof
  show "unat (port - EPH_BASE) < EPH_LEN"
    using assms unfolding EPH_LEN_def EPH_BASE_def by unat_arith auto
  have "of_nat (unat (port - EPH_BASE)) = port - EPH_BASE" by (simp only: of_nat_unat ucast_id)
  then show "EPH_BASE + of_nat (unat (port - EPH_BASE)) = port" by simp
qed

lemma owns_port_bit:
  "EPH_BASE \<le> port \<Longrightarrow> owns_port bm port =
     bit (bm ! (unat (port - EPH_BASE) div 8)) (unat (port - EPH_BASE) mod 8)"
  unfolding owns_port_def Let_def bit_iff_and_push_bit_not_eq_0 by (simp only: linorder_not_less[symmetric] if_False)

text \<open>The predicted port set, in order.\<close>

definition owned_list :: "(u16 \<Rightarrow> u16) \<Rightarrow> u16 \<Rightarrow> u16 list" where
  "owned_list qf q = filter (\<lambda>p. qf p = q) (map (\<lambda>i. EPH_BASE + of_nat i) [0..<EPH_LEN])"

lemma length_owned_list: "length (owned_list qf q) \<le> EPH_LEN"
  unfolding owned_list_def by (rule order.trans[OF length_filter_le]) simp

lemma build_owned_ports_correct:
  assumes "\<And>p. queue_for_local_port g e ip p = Some (qf p)"
  obtains bm where
    "build_owned_ports g e ip q (replicate OWNED_BITMAP_BYTES 0) = Some (bm, of_nat (length (owned_list qf q)))"
    "\<And>p. EPH_BASE \<le> p \<Longrightarrow> owns_port bm p = (qf p = q)"
proof -
  let ?qf = "\<lambda>i. qf (EPH_BASE + of_nat i)"
  have len: "i div 8 < OWNED_BITMAP_BYTES" if "i < EPH_LEN" for i
    using that by (simp add: OWNED_BITMAP_BYTES_def EPH_LEN_def less_mult_imp_div_less)
  obtain bm where bm: "owned_loop g e ip q [0..<EPH_LEN] (replicate OWNED_BITMAP_BYTES 0, 0) =
      Some (bm, 0 + of_nat (length (filter (\<lambda>i. ?qf i = q) [0..<EPH_LEN])))"
    "\<forall>j. j div 8 < OWNED_BITMAP_BYTES \<longrightarrow> bit (bm ! (j div 8)) (j mod 8) =
       (bit (replicate OWNED_BITMAP_BYTES (0 :: u8) ! (j div 8)) (j mod 8) \<or> j \<in> set [0..<EPH_LEN] \<and> ?qf j = q)"
    using owned_loop_correct[of "[0..<EPH_LEN]" g e ip ?qf "replicate OWNED_BITMAP_BYTES 0" q 0] assms len
    by auto
  have "owns_port bm p = (qf p = q)" if "EPH_BASE \<le> p" for p
    using bm(2) eph_index_of_port[OF that] len by (simp add: owns_port_bit[OF that])
  moreover have "build_owned_ports g e ip q (replicate OWNED_BITMAP_BYTES 0) =
      Some (bm, of_nat (length (owned_list qf q)))"
    using bm(1) by (simp add: build_owned_ports_def owned_list_def filter_map comp_def)
  ultimately show thesis using that by blast
qed

section \<open>The selected ports\<close>

text \<open>Every \<open>s\<close>-th element, the first one at the next multiple of \<open>s\<close> from \<open>k\<close> on.\<close>

fun every :: "nat \<Rightarrow> nat \<Rightarrow> 'a list \<Rightarrow> 'a list" where
  "every s k [] = []"
| "every s k (x # xs) = (if k mod s = 0 then [x] else []) @ every s (Suc k) xs"

lemma set_every: "set (every s k xs) \<subseteq> set xs"
  by (induction s k xs rule: every.induct) auto

lemma distinct_every: "distinct xs \<Longrightarrow> distinct (every s k xs)"
  using set_every by (induction s k xs rule: every.induct) fastforce+

lemma every_1 [simp]: "every (Suc 0) k xs = xs"
  by (induction "Suc 0" k xs rule: every.induct) simp_all

lemma length_every:
  assumes "0 < s"
  shows "k + length xs \<le> s * length (every s k xs) + (if k mod s = 0 then k else s * (k div s) + s)"
proof (induction xs arbitrary: k)
  case Nil
  have "k = s * (k div s) + k mod s" by simp
  moreover have "k mod s < s" using assms by simp
  ultimately have "k \<le> s * (k div s) + s" by linarith
  then show ?case by simp
next
  case (Cons x xs)
  have d: "k = s * (k div s) + k mod s" by simp
  show ?case
  proof (cases "Suc k mod s = 0")
    case True
    then have "Suc k = s * (Suc k div s)" using mod_mult_div_eq[of "Suc k" s] by simp
    with Cons[of "Suc k"] True assms show ?thesis
    proof (cases "k mod s = 0")
      case False
      then have "Suc k div s = Suc (k div s)" using True by (simp add: mod_Suc div_Suc split: if_splits)
      then have "Suc k = s * (k div s) + s" using \<open>Suc k = s * (Suc k div s)\<close> by simp
      with Cons[of "Suc k"] True False show ?thesis by simp
    qed simp
  next
    case False
    then have "Suc k div s = k div s" by (simp add: div_Suc mod_Suc split: if_splits)
    with Cons[of "Suc k"] False d show ?thesis by (auto simp: algebra_simps)
  qed
qed

lemma port_loop_eq:
  "length my \<le> m \<Longrightarrow> port_loop bm m s is seen my =
     take m (my @ every s seen (filter (owns_port bm) (map (\<lambda>i. EPH_BASE + of_nat i) is)))"
proof (induction "is" arbitrary: seen my)
  case (Cons i "is")
  show ?case
  proof (cases "length my = m")
    case False
    then obtain d where "m = Suc (length my) + d" using Cons.prems less_iff_Suc_add[of "length my" m] by auto
    then show ?thesis using Cons.IH[of my] Cons.IH[of "my @ [EPH_BASE + of_nat i]"] by (auto simp: Let_def)
  qed simp
qed simp

lemma select_ports_correct:
  assumes "\<And>p. EPH_BASE \<le> p \<Longrightarrow> owns_port bm p = (qf p = q)" "m \<noteq> 0"
  obtains ps where "select_ports bm (of_nat (length (owned_list qf q))) m = Some ps"
    "distinct ps" "set ps \<subseteq> set (owned_list qf q)" "length ps = min m (length (owned_list qf q))"
proof -
  let ?o = "owned_list qf q"
  define s where "s = max 1 (length ?o div m)"
  have "filter (owns_port bm) (map (\<lambda>i. EPH_BASE + of_nat i) [0..<EPH_LEN]) = ?o"
    unfolding owned_list_def using assms(1) eph_port_of_index
    by (intro filter_cong) auto
  moreover have u: "unat (of_nat (length ?o) :: u32) = length ?o"
    using length_owned_list[of qf q] by (simp add: unat_of_nat EPH_LEN_def)
  ultimately have sel: "select_ports bm (of_nat (length ?o)) m = Some (take m (every s 0 ?o))"
    using assms(2) by (simp add: select_ports_def port_loop_eq s_def)
  have "distinct (map (\<lambda>i. EPH_BASE + of_nat i) [0..<EPH_LEN])"
    unfolding distinct_map using eph_port_of_index by (auto intro!: inj_onI dest: arg_cong[of _ _ unat]) (metis atLeastLessThan_iff)
  then have "distinct ?o" by (simp add: owned_list_def)
  then have "distinct (every s 0 ?o)" by (rule distinct_every)
  moreover have "length (take m (every s 0 ?o)) = min m (length ?o)"
  proof (cases "length ?o < m")
    case True
    then show ?thesis by (simp add: s_def)
  next
    case False
    then have "s * m \<le> length ?o" "0 < s"
      using assms(2) by (simp_all add: s_def max_def Suc_le_eq div_greater_zero_iff)
    moreover from this have "length ?o \<le> s * length (every s 0 ?o)"
      using length_every[of s 0 ?o] by simp
    ultimately have "s * m \<le> s * length (every s 0 ?o)" by linarith
    then have "m \<le> length (every s 0 ?o)" using \<open>0 < s\<close> by simp
    then show ?thesis using False \<open>0 < s\<close> by simp
  qed
  ultimately show thesis using that[OF sel] set_every[of s 0 ?o] set_take_subset[of m "every s 0 ?o"]
    by auto
qed

section \<open>Properties\<close>

text \<open>The tuple \<open>queue_for_local_port\<close> hashes: the target is the source of the return traffic.\<close>

definition return_tuple :: "build_env \<Rightarrow> bytes \<Rightarrow> u16 \<Rightarrow> bytes" where
  "return_tuple e our_ip port = TARGET_IP_OCTETS e @ our_ip @ be16 (TARGET_PORT e) @ be16 port"

lemma queue_for_local_port_loaded:
  assumes "length key = 64" "length reta = 512"
    and "load_rss_config n_queues klen key n reta rss_init = Some (True, g)"
  shows "queue_for_local_port g e ip p =
    Some (device_queue n_queues klen key n reta (return_tuple e ip p))"
  using load_rss_config_predicts[OF assms] by (simp add: queue_for_local_port_def return_tuple_def)

definition demo_env :: build_env where
  "demo_env = \<lparr>BENCH_WORKERS = None, BENCH_CONNS_PER_WORKER = None, AWS_BUCKET_SIZE = None,
     BENCH_BLOCK_SIZE = None, BENCH_SCHEME = None, BENCH_TLS_STUB = None,
     AWS_TARGET_IP = Some (dotted 3 5 216 240)\<rparr>"

definition demo_key :: bytes where "demo_key = replicate 64 109"
definition demo_reta :: "u16 list" where "demo_reta = concat (replicate 256 [0, 1])"

lemma demo_loads:
  "\<exists>g. load_rss_config 2 40 demo_key 128 demo_reta rss_init = Some (True, g)"
  by (simp add: load_rss_config_def demo_key_def demo_reta_def rss_init_def slice_def copy_at_def
      length_concat sum_list_replicate)

lemma demo_lengths: "length demo_key = 64" "length demo_reta = 512"
  by (simp_all add: demo_key_def demo_reta_def length_concat sum_list_replicate)

lemma demo_builds:
  assumes "load_rss_config 2 40 demo_key 128 demo_reta rss_init = Some (True, g)"
  shows "\<exists>bm cnt. build_owned_ports g demo_env ip q (replicate OWNED_BITMAP_BYTES 0) = Some (bm, cnt)"
  by (rule build_owned_ports_correct[OF queue_for_local_port_loaded[OF demo_lengths assms], of demo_env ip q])
    blast

lemma demo_entries: "\<forall>i < 512. demo_reta ! i < (2 :: u16)"
proof -
  have "\<forall>x \<in> set demo_reta. x < 2" by (auto simp: demo_reta_def)
  then show ?thesis using demo_lengths(2) by simp
qed

text \<open>C20: the sliding-window loop computes the Toeplitz hash, the XOR of the 32-bit key windows
  starting at the positions of the set input bits (the key being extended by zeros), and the hash is
  linear in its input.\<close>

theorem toeplitz_correct:
  "(length key \<ge> 4 \<longrightarrow> toeplitz key data = xor_windows key 0 (data_bits data)) \<and>
   (length a = length b \<longrightarrow> toeplitz key (map2 (XOR) a b) = toeplitz key a XOR toeplitz key b)"
  using toeplitz_eq_xor_windows toeplitz_linear by blast

theorem toeplitz_correct_witness:
  "toeplitz [109, 90, 86, 218, 37] [128, 1] = xor_windows [109, 90, 86, 218, 37] 0 (data_bits [128, 1]) \<and>
   toeplitz [109, 90, 86, 218, 37] (map2 (XOR) [128] [3]) =
     toeplitz [109, 90, 86, 218, 37] [128] XOR toeplitz [109, 90, 86, 218, 37] [3]"
  using toeplitz_correct[of "[109, 90, 86, 218, 37]" "[128, 1]" "[128]" "[3]"] by simp

text \<open>A worker's bitmap marks exactly the ephemeral ports whose return traffic the device steers
  to its queue, computed with the key and table the device reported; the pass never panics, and the
  returned count is the number of such ports.\<close>

theorem owned_ports_exact:
  assumes "length key = 64" "length reta = 512"
    and "load_rss_config n_queues klen key n reta rss_init = Some (True, g)"
  shows "\<exists>bm. build_owned_ports g e ip q (replicate OWNED_BITMAP_BYTES 0) =
      Some (bm, of_nat (length (owned_list (\<lambda>p. device_queue n_queues klen key n reta (return_tuple e ip p)) q))) \<and>
    (\<forall>port. EPH_BASE \<le> port \<longrightarrow>
       owns_port bm port = (device_queue n_queues klen key n reta (return_tuple e ip port) = q))"
  using build_owned_ports_correct[OF queue_for_local_port_loaded[OF assms], of e ip q] by metis

theorem owned_ports_exact_witness:
  "\<exists>g bm. load_rss_config 2 40 demo_key 128 demo_reta rss_init = Some (True, g) \<and>
     build_owned_ports g demo_env [10, 0, 0, 7] 1 (replicate OWNED_BITMAP_BYTES 0) =
       Some (bm, of_nat (length (owned_list (\<lambda>p. device_queue 2 40 demo_key 128 demo_reta
         (return_tuple demo_env [10, 0, 0, 7] p)) 1))) \<and>
     (\<forall>port. EPH_BASE \<le> port \<longrightarrow> owns_port bm port =
       (device_queue 2 40 demo_key 128 demo_reta (return_tuple demo_env [10, 0, 0, 7] port) = 1))"
  using demo_loads owned_ports_exact[OF demo_lengths] by blast

text \<open>C19: the queues partition the ephemeral range.  If every entry of the device's table is a
  configured queue, each ephemeral port is owned by exactly one of the workers' bitmaps.\<close>

theorem owned_ports_partition:
  assumes "length key = 64" "length reta = 512" "n_queues \<noteq> 0"
    and "\<forall>i < 512. reta ! i < n_queues"
    and "load_rss_config n_queues klen key n reta rss_init = Some (True, g)"
    and "\<forall>q. build_owned_ports g e ip q (replicate OWNED_BITMAP_BYTES 0) = Some (bm q, cnt q)"
    and "EPH_BASE \<le> port"
  shows "\<exists>!q. q < n_queues \<and> owns_port (bm q) port"
proof -
  let ?q = "device_queue n_queues klen key n reta (return_tuple e ip port)"
  have own: "owns_port (bm q) port = (?q = q)" for q
    using build_owned_ports_correct[OF queue_for_local_port_loaded[OF assms(1,2,5)], of e ip q] assms(6,7)
    by (metis option.inject prod.inject)
  have "?q < n_queues"
  proof (cases "n_queues = 1")
    case False
    then have "0 < n" "nat n \<le> 512"
      using assms(1,2,5)
      by (auto simp: load_rss_config_def Let_def bind_eq_Some_conv slice_eq_Some split: if_splits)
    then have "h mod nat n < 512" for h :: nat
      using mod_less_divisor[of "nat n" h] by linarith
    then show ?thesis using assms(4) False by (simp add: device_queue_def)
  qed (simp add: device_queue_def)
  then show ?thesis using own by auto
qed

theorem owned_ports_partition_witness:
  "\<exists>g bm cnt. load_rss_config 2 40 demo_key 128 demo_reta rss_init = Some (True, g) \<and>
     (\<forall>q. build_owned_ports g demo_env [10, 0, 0, 7] q (replicate OWNED_BITMAP_BYTES 0) = Some (bm q, cnt q)) \<and>
     (\<exists>!q. q < 2 \<and> owns_port (bm q) 50000)"
proof -
  obtain g where g: "load_rss_config 2 40 demo_key 128 demo_reta rss_init = Some (True, g)"
    using demo_loads by blast
  obtain bm cnt where b:
    "\<forall>q. build_owned_ports g demo_env [10, 0, 0, 7] q (replicate OWNED_BITMAP_BYTES 0) = Some (bm q, cnt q)"
    using demo_builds[OF g] by metis
  show ?thesis
    using g b owned_ports_partition[OF demo_lengths _ demo_entries g b, of 50000] by (auto simp: EPH_BASE_def)
qed

text \<open>Source ports.  With a nonzero number of connections the selection succeeds and yields
  distinct ephemeral ports that all steer back to the worker's queue, as many as the worker owns up
  to the number of connections.\<close>

theorem selected_ports:
  assumes "length key = 64" "length reta = 512" "m \<noteq> 0"
    and "load_rss_config n_queues klen key n reta rss_init = Some (True, g)"
    and "build_owned_ports g e ip q (replicate OWNED_BITMAP_BYTES 0) = Some (bm, cnt)"
  shows "\<exists>ps. select_ports bm cnt m = Some ps \<and> distinct ps \<and> length ps = min m (unat cnt) \<and>
    (\<forall>p \<in> set ps. EPH_BASE \<le> p \<and> device_queue n_queues klen key n reta (return_tuple e ip p) = q)"
proof -
  let ?qf = "\<lambda>p. device_queue n_queues klen key n reta (return_tuple e ip p)"
  obtain bm' where bm: "build_owned_ports g e ip q (replicate OWNED_BITMAP_BYTES 0) =
      Some (bm', of_nat (length (owned_list ?qf q)))"
    and own: "\<And>p. EPH_BASE \<le> p \<Longrightarrow> owns_port bm' p = (?qf p = q)"
    using build_owned_ports_correct[OF queue_for_local_port_loaded[OF assms(1,2,4)], of e ip q] by metis
  obtain ps where ps: "select_ports bm' (of_nat (length (owned_list ?qf q))) m = Some ps" "distinct ps"
    "set ps \<subseteq> set (owned_list ?qf q)" "length ps = min m (length (owned_list ?qf q))"
    using select_ports_correct[OF own assms(3)] by metis
  have "unat (of_nat (length (owned_list ?qf q)) :: u32) = length (owned_list ?qf q)"
    using length_owned_list[of ?qf q] by (simp add: unat_of_nat EPH_LEN_def)
  moreover have "EPH_BASE \<le> p \<and> ?qf p = q" if "p \<in> set (owned_list ?qf q)" for p
    using that eph_port_of_index by (auto simp: owned_list_def)
  ultimately show ?thesis using bm ps assms(5) by auto
qed

theorem selected_ports_witness:
  "\<exists>g bm cnt ps. load_rss_config 2 40 demo_key 128 demo_reta rss_init = Some (True, g) \<and>
     build_owned_ports g demo_env [10, 0, 0, 7] 1 (replicate OWNED_BITMAP_BYTES 0) = Some (bm, cnt) \<and>
     select_ports bm cnt 24 = Some ps \<and> distinct ps \<and> length ps = min 24 (unat cnt)"
proof -
  obtain g where g: "load_rss_config 2 40 demo_key 128 demo_reta rss_init = Some (True, g)"
    using demo_loads by blast
  obtain bm cnt where b:
    "build_owned_ports g demo_env [10, 0, 0, 7] 1 (replicate OWNED_BITMAP_BYTES 0) = Some (bm, cnt)"
    using demo_builds[OF g] by blast
  show ?thesis using g b selected_ports[OF demo_lengths _ g b, of 24] by auto
qed

end
