(* ===== verification/App_Console.thy ===== *)
theory App_Console
  imports App_Config
begin

text \<open>
  The console of \<open>src/lib.rs\<close>: \<open>BufWriter\<close>, the line that \<open>print_line\<close> formats and hands to
  \<open>write(2)\<close>, and the spin lock \<open>PRINT_LOCK\<close> under which several workers print.  A format is the
  list of fragments \<open>write_fmt\<close> passes to \<open>write_str\<close>.  \<open>write(2)\<close> is an argument: the results of
  its successive calls.  Shown: what a line contains, that it reaches the console whole when the
  writes make progress, and that under any interleaving of workers the console shows one line (or,
  after a failed write, a prefix of one) after the other.  \<open>build_range_request\<close> writes through the
  same \<open>BufWriter\<close>.
\<close>

section \<open>BufWriter\<close>

record buf_writer =
  buf :: bytes
  used :: nat

definition bw_new :: "bytes \<Rightarrow> buf_writer" where
  "bw_new b = \<lparr>buf = b, used = 0\<rparr>"

text \<open>\<open>self.buf.len() - self.used\<close> does not underflow: see \<open>bw_wf\<close>.\<close>

definition write_str :: "buf_writer \<Rightarrow> bytes \<Rightarrow> buf_writer option" where
  "write_str w s = do {
     let n = min (length s) (length (buf w) - used w);
     part \<leftarrow> slice s 0 n;
     b \<leftarrow> copy_at (buf w) (used w) part;
     Some (w\<lparr>buf := b, used := used w + n\<rparr>)
   }"

fun write_fmt :: "buf_writer \<Rightarrow> bytes list \<Rightarrow> buf_writer option" where
  "write_fmt w [] = Some w"
| "write_fmt w (s # ss) = do { w1 \<leftarrow> write_str w s; write_fmt w1 ss }"

definition bw_wf :: "buf_writer \<Rightarrow> bool" where
  "bw_wf w \<longleftrightarrow> used w \<le> length (buf w)"

definition bw_text :: "buf_writer \<Rightarrow> bytes" where
  "bw_text w = take (used w) (buf w)"

lemma write_str_correct:
  assumes "bw_wf w"
  obtains w' where "write_str w s = Some w'" "bw_wf w'" "length (buf w') = length (buf w)"
    "bw_text w' = take (length (buf w)) (bw_text w @ s)"
proof -
  let ?n = "min (length s) (length (buf w) - used w)"
  let ?w = "w\<lparr>buf := overwrite (buf w) (used w) (take ?n s), used := used w + ?n\<rparr>"
  have "write_str w s = Some ?w" using assms
    by (simp add: write_str_def bw_wf_def slice_def copy_at_def Let_def)
  moreover have "bw_text ?w = take (length (buf w)) (bw_text w @ s)"
    using assms by (simp add: bw_text_def bw_wf_def overwrite_def min_def)
  moreover have "bw_wf ?w" "length (buf ?w) = length (buf w)"
    using assms by (simp_all add: bw_wf_def)
  ultimately show thesis using that by blast
qed

lemma write_fmt_correct:
  assumes "bw_wf w"
  obtains w' where "write_fmt w ss = Some w'" "bw_wf w'" "length (buf w') = length (buf w)"
    "bw_text w' = take (length (buf w)) (bw_text w @ concat ss)"
  using assms
proof (induction ss arbitrary: w thesis)
  case Nil
  have "bw_text w = take (length (buf w)) (bw_text w @ concat [])"
    using Nil.prems(2) by (simp add: bw_text_def bw_wf_def)
  then show ?case using Nil.prems(1)[of w] Nil.prems(2) by simp
next
  case (Cons s ss)
  obtain w1 where w1: "write_str w s = Some w1" "bw_wf w1" "length (buf w1) = length (buf w)"
    "bw_text w1 = take (length (buf w)) (bw_text w @ s)"
    using write_str_correct[OF Cons.prems(2)] .
  obtain w2 where w2: "write_fmt w1 ss = Some w2" "bw_wf w2" "length (buf w2) = length (buf w1)"
    "bw_text w2 = take (length (buf w1)) (bw_text w1 @ concat ss)"
    using Cons.IH[OF _ w1(2)] by blast
  have "bw_text w2 = take (length (buf w)) (bw_text w @ concat (s # ss))"
    using w2(4) w1(3,4) by (simp add: min_def)
  then show ?case using Cons.prems(1)[of w2] w1 w2 by simp
qed

section \<open>print_line\<close>

definition LINE_MAX :: nat where "LINE_MAX = 256"

text \<open>The bytes \<open>buf[..used]\<close> that \<open>print_line\<close> writes.\<close>

definition format_line :: "bytes list \<Rightarrow> bytes option" where
  "format_line args = do {
     w \<leftarrow> write_fmt (bw_new (replicate LINE_MAX 0)) args;
     let u = (if used w = LINE_MAX then used w - 1 else used w);
     assert_that (u < length (buf w));
     slice ((buf w)[u := 10]) 0 (u + 1)
   }"

text \<open>The write loop from offset \<open>off\<close>: the results of the calls of \<open>write\<close> are consumed from the
  list; the output is what the console received.\<close>

fun write_loop :: "bytes \<Rightarrow> nat \<Rightarrow> int list \<Rightarrow> bytes" where
  "write_loop line off [] = []"
| "write_loop line off (n # ns) =
     (if off < length line
      then if n \<le> 0 then [] else take (nat n) (drop off line) @ write_loop line (off + nat n) ns
      else [])"

definition print_line :: "bytes list \<Rightarrow> int list \<Rightarrow> bytes option" where
  "print_line args ns = do { line \<leftarrow> format_line args; Some (write_loop line 0 ns) }"

lemma format_line_eq: "format_line args = Some (take 255 (concat args) @ [10])"
proof -
  let ?w0 = "bw_new (replicate LINE_MAX 0)"
  have "bw_wf ?w0" by (simp add: bw_wf_def bw_new_def)
  then obtain w where w: "write_fmt ?w0 args = Some w" "bw_wf w" "length (buf w) = length (buf ?w0)"
    "bw_text w = take (length (buf ?w0)) (bw_text ?w0 @ concat args)"
    by (rule write_fmt_correct)
  let ?u = "if used w = LINE_MAX then used w - 1 else used w"
  have l: "length (buf w) = 256" using w(3) by (simp add: bw_new_def LINE_MAX_def)
  have t: "take (used w) (buf w) = take 256 (concat args)"
    using w(4) by (simp add: bw_text_def bw_new_def LINE_MAX_def)
  have u: "?u < 256" using w(2) l by (auto simp: bw_wf_def LINE_MAX_def)
  have "take ?u (buf w) = take 255 (concat args)"
  proof (cases "used w = LINE_MAX")
    case True
    then have "take 255 (take (used w) (buf w)) = take 255 (take 256 (concat args))" using t by simp
    then show ?thesis using True by (simp add: LINE_MAX_def)
  next
    case False
    then have "length (take 256 (concat args)) < 256"
      using w(2) l t[symmetric] by (simp add: bw_wf_def LINE_MAX_def)
    then show ?thesis using t False by simp
  qed
  then show ?thesis using w(1) u l
    by (simp add: format_line_def slice_def take_Suc_conv_app_nth)
qed

text \<open>Enough calls of \<open>write\<close> that each take at least one byte put the whole line out.\<close>

lemma write_loop_complete:
  assumes "\<forall>n \<in> set ns. 0 < n" "length line \<le> off + length ns"
  shows "write_loop line off ns = drop off line"
  using assms
proof (induction line off ns rule: write_loop.induct)
  case (2 line off n ns)
  show ?case
  proof (cases "off < length line")
    case True
    have "length line \<le> off + nat n + length ns" using 2 by auto
    then have "write_loop line (off + nat n) ns = drop (off + nat n) line" using 2 True by auto
    then show ?thesis using True 2 append_take_drop_id[of "nat n" "drop off line"] by (simp add: add.commute)
  qed simp
qed simp

lemma write_loop_prefix: "\<exists>k. write_loop line off ns = take k (drop off line)"
proof (induction line off ns rule: write_loop.induct)
  case (1 line off)
  have "[] = take 0 (drop off line)" by simp
  then show ?case by (simp only: write_loop.simps) blast
next
  case (2 line off n ns)
  have z: "\<exists>k. [] = take k (drop off line)" by (rule exI[of _ 0]) simp
  show ?case
  proof (cases "off < length line \<and> 0 < n")
    case True
    then obtain k where "write_loop line (off + nat n) ns = take k (drop (off + nat n) line)"
      using 2 by auto
    then have "write_loop line off (n # ns) = take (nat n + k) (drop off line)"
      using True by (simp add: take_add[of "nat n" k] add.commute[of "nat n" off])
    then show ?thesis by blast
  qed (use z in auto)
qed

section \<open>PRINT_LOCK\<close>

text \<open>Workers \<open>0, 1, ...\<close> that call \<open>print_line\<close> again and again.  \<open>Writing line off out\<close> is a worker
  inside the critical section that has written \<open>out = line[..off]\<close> so far.\<close>

datatype pc = Idle | Spin bytes | Writing bytes nat

record console =
  PRINT_LOCK :: bool
  pcs :: "nat \<Rightarrow> pc"
  screen :: bytes
  finished :: "(nat \<times> bytes) list"

text \<open>\<open>finished\<close> is a ghost: who left the critical section, with the part of its line it got out.\<close>

inductive console_step :: "console \<Rightarrow> console \<Rightarrow> bool" where
  call: "pcs c t = Idle \<Longrightarrow> format_line args = Some line \<Longrightarrow>
    console_step c (c\<lparr>pcs := (pcs c)(t := Spin line)\<rparr>)"
| spin: "pcs c t = Spin line \<Longrightarrow> console_step c c"
| acquire: "pcs c t = Spin line \<Longrightarrow> \<not> PRINT_LOCK c \<Longrightarrow>
    console_step c (c\<lparr>PRINT_LOCK := True, pcs := (pcs c)(t := Writing line 0)\<rparr>)"
| chunk: "pcs c t = Writing line off \<Longrightarrow> off < length line \<Longrightarrow> 0 < n \<Longrightarrow> n \<le> length line - off \<Longrightarrow>
    console_step c (c\<lparr>pcs := (pcs c)(t := Writing line (off + n)),
      screen := screen c @ take n (drop off line)\<rparr>)"
| fail: "pcs c t = Writing line off \<Longrightarrow> off < length line \<Longrightarrow>
    console_step c (c\<lparr>PRINT_LOCK := False, pcs := (pcs c)(t := Idle),
      finished := finished c @ [(t, take off line)]\<rparr>)"
| release: "pcs c t = Writing line off \<Longrightarrow> \<not> off < length line \<Longrightarrow>
    console_step c (c\<lparr>PRINT_LOCK := False, pcs := (pcs c)(t := Idle),
      finished := finished c @ [(t, take off line)]\<rparr>)"

definition console_init :: console where
  "console_init = \<lparr>PRINT_LOCK = False, pcs = (\<lambda>_. Idle), screen = [], finished = []\<rparr>"

inductive_simps console_step_simps: "console_step c c'"

definition owned_by :: "console \<Rightarrow> nat \<Rightarrow> bytes \<Rightarrow> nat \<Rightarrow> bool" where
  "owned_by c t line off \<longleftrightarrow> pcs c t = Writing line off \<and> off \<le> length line \<and>
     (\<forall>u l k. pcs c u = Writing l k \<longrightarrow> u = t) \<and>
     screen c = concat (map snd (finished c)) @ take off line"

definition console_inv :: "console \<Rightarrow> bool" where
  "console_inv c \<longleftrightarrow>
     (if PRINT_LOCK c then \<exists>t line off. owned_by c t line off
      else (\<forall>u l k. pcs c u \<noteq> Writing l k) \<and> screen c = concat (map snd (finished c)))"

lemma console_inv_owner:
  assumes "console_inv c" "pcs c t = Writing line off"
  shows "PRINT_LOCK c \<and> off \<le> length line \<and> (\<forall>u l k. pcs c u = Writing l k \<longrightarrow> u = t) \<and>
    screen c = concat (map snd (finished c)) @ take off line"
proof (cases "PRINT_LOCK c")
  case True
  then obtain t' line' off' where w: "owned_by c t' line' off'"
    using assms(1) by (auto simp: console_inv_def)
  then have t: "t' = t" using assms(2) unfolding owned_by_def by blast
  then have "pcs c t = Writing line' off'" using w unfolding owned_by_def by blast
  then have "line' = line" "off' = off" using assms(2) by simp_all
  then show ?thesis using w True unfolding owned_by_def t by blast
next
  case False
  then show ?thesis using assms by (simp add: console_inv_def)
qed

lemma console_inv_locked:
  "PRINT_LOCK c \<Longrightarrow> pcs c t = Writing line off \<Longrightarrow> off \<le> length line \<Longrightarrow>
   (\<And>u l k. pcs c u = Writing l k \<Longrightarrow> u = t) \<Longrightarrow>
   screen c = concat (map snd (finished c)) @ take off line \<Longrightarrow> console_inv c"
  unfolding console_inv_def owned_by_def by (simp only: if_True) blast

lemma console_step_inv:
  assumes "console_step c c'" "console_inv c"
  shows "console_inv c'"
  using assms
proof (cases rule: console_step.cases)
  case (call t args line)
  show ?thesis
  proof (cases "PRINT_LOCK c")
    case True
    then obtain u l k where w: "pcs c u = Writing l k" using assms(2) by (auto simp: console_inv_def owned_by_def)
    note o = console_inv_owner[OF assms(2) w]
    show ?thesis using call w o True by (intro console_inv_locked[of _ u l k]) (auto split: if_splits)
  next
    case False
    then show ?thesis using call assms(2) by (auto simp: console_inv_def)
  qed
next
  case (acquire t line)
  then show ?thesis using assms(2)
    by (intro console_inv_locked[of _ t line 0]) (auto simp: console_inv_def split: if_splits)
next
  case (chunk t line off n)
  note o = console_inv_owner[OF assms(2) chunk(2)]
  then show ?thesis using chunk
    by (intro console_inv_locked[of _ t line "off + n"]) (auto simp: take_add split: if_splits)
next
  case (fail t line off)
  note o = console_inv_owner[OF assms(2) fail(2)]
  then show ?thesis using fail by (auto simp: console_inv_def)
next
  case (release t line off)
  note o = console_inv_owner[OF assms(2) release(2)]
  then show ?thesis using release by (auto simp: console_inv_def)
qed auto

text \<open>A worker's line, while it prints, is one \<open>print_line\<close> formatted.\<close>

definition is_line :: "bytes \<Rightarrow> bool" where
  "is_line line \<longleftrightarrow> (\<exists>args. line = take 255 (concat args) @ [10])"

definition line_part :: "bytes \<Rightarrow> bool" where
  "line_part out \<longleftrightarrow> (\<exists>line k. is_line line \<and> out = take k line)"

definition lines_formatted :: "console \<Rightarrow> bool" where
  "lines_formatted c \<longleftrightarrow>
     (\<forall>t line. pcs c t = Spin line \<longrightarrow> is_line line) \<and>
     (\<forall>t line k. pcs c t = Writing line k \<longrightarrow> is_line line) \<and> list_all line_part (map snd (finished c))"

lemma line_partI [intro]: "is_line line \<Longrightarrow> line_part (take k line)"
  by (auto simp: line_part_def)

lemma console_step_formatted:
  assumes "console_step c c'" "lines_formatted c"
  shows "lines_formatted c'"
  using assms
proof (cases rule: console_step.cases)
  case (call t args line)
  then have "is_line line" by (auto simp: format_line_eq is_line_def)
  then show ?thesis using call assms(2) by (auto simp: lines_formatted_def)
next
  case (fail t line off)
  then have "line_part (take off line)" using assms(2) unfolding lines_formatted_def by blast
  then show ?thesis using fail(1) assms(2) by (simp add: lines_formatted_def)
next
  case (release t line off)
  then have "line_part (take off line)" using assms(2) unfolding lines_formatted_def by blast
  then show ?thesis using release(1) assms(2) by (simp add: lines_formatted_def del: take_all)
next
  case (chunk t line off n)
  then have "is_line line" using assms(2) unfolding lines_formatted_def by blast
  then show ?thesis using chunk(1) assms(2) by (auto simp: lines_formatted_def)
qed (auto simp: lines_formatted_def split: if_splits)

lemma console_reachable_inv:
  "console_step\<^sup>*\<^sup>* console_init c \<Longrightarrow> console_inv c \<and> lines_formatted c"
proof (induction rule: rtranclp_induct)
  case base
  show ?case by (simp add: console_init_def console_inv_def lines_formatted_def)
next
  case (step b c)
  then show ?case using console_step_inv console_step_formatted by blast
qed

section \<open>Properties\<close>

text \<open>The text of a line.  \<open>print_line\<close> never panics; what it hands to the console is the
  concatenation of the formatted fragments, cut to 255 bytes, and a newline, and all of it reaches
  the console when each call of \<open>write\<close> accepts at least one byte.\<close>

theorem print_line_text:
  assumes "\<forall>n \<in> set ns. 0 < n" "256 \<le> length ns"
  shows "print_line args ns = Some (take 255 (concat args) @ [10])"
  using assms by (simp add: print_line_def format_line_eq write_loop_complete)

theorem print_line_text_witness:
  "print_line [[70, 65], [73, 76]] (replicate 256 1) = Some (take 255 (concat [[70, 65], [73, 76]]) @ [10])"
  by (rule print_line_text) simp_all

text \<open>C39: no interleaving within a line.  Whatever the order in which workers call \<open>print_line\<close>,
  spin, write and release, at most one of them is past the lock, and the screen is the sequence of
  the lines finished so far (each the beginning of a formatted line, cut only by a failed write)
  followed by the part of the current owner's line.\<close>

theorem print_lock_no_interleaving:
  assumes "console_step\<^sup>*\<^sup>* console_init c"
  shows "(\<forall>t u l k l' k'. pcs c t = Writing l k \<longrightarrow> pcs c u = Writing l' k' \<longrightarrow> t = u) \<and>
    list_all line_part (map snd (finished c)) \<and>
    (\<exists>cur. line_part cur \<and> screen c = concat (map snd (finished c)) @ cur)"
proof -
  from console_reachable_inv[OF assms] have inv: "console_inv c" and f: "lines_formatted c" by auto
  have "is_line (take 255 (concat []) @ [10])" unfolding is_line_def by blast
  from line_partI[OF this, of 0] have "line_part []" by simp
  then have "\<exists>cur. line_part cur \<and> screen c = concat (map snd (finished c)) @ cur"
    if "\<forall>u l k. pcs c u \<noteq> Writing l k"
    using inv that by (intro exI[of _ "[]"]) (auto simp: console_inv_def owned_by_def split: if_splits)
  moreover have "\<exists>cur. line_part cur \<and> screen c = concat (map snd (finished c)) @ cur"
    if "pcs c t = Writing l k" for t l k
    using console_inv_owner[OF inv that] f that
    by (intro exI[of _ "take k l"] conjI line_partI) (blast | simp add: lines_formatted_def)+
  ultimately have "\<exists>cur. line_part cur \<and> screen c = concat (map snd (finished c)) @ cur" by blast
  then show ?thesis using f console_inv_owner[OF inv] by (auto simp: lines_formatted_def)
qed

theorem print_lock_no_interleaving_witness:
  "\<exists>c. console_step\<^sup>*\<^sup>* console_init c \<and> pcs c 3 = Writing (take 255 (concat [[65]]) @ [10]) 0 \<and>
     (\<exists>cur. line_part cur \<and> screen c = concat (map snd (finished c)) @ cur)"
proof -
  let ?l = "take 255 (concat [[65]]) @ [10] :: bytes"
  let ?c1 = "console_init\<lparr>pcs := (pcs console_init)(3 := Spin ?l)\<rparr>"
  let ?c2 = "?c1\<lparr>PRINT_LOCK := True, pcs := (pcs ?c1)(3 := Writing ?l 0)\<rparr>"
  have "console_step console_init ?c1"
    by (rule console_step.call[of _ _ "[[65]]"]) (simp_all add: console_init_def format_line_eq)
  moreover have "console_step ?c1 ?c2" by (rule console_step.acquire) (simp_all add: console_init_def)
  ultimately have r: "console_step\<^sup>*\<^sup>* console_init ?c2" by auto
  then show ?thesis using print_lock_no_interleaving[OF r] by (intro exI[of _ ?c2]) simp
qed

end
