(* ===== verification/App_Arp.thy ===== *)
theory App_Arp
  imports Prelude
begin

text \<open>
  The network discovery of \<open>src/lib.rs\<close>: the hand-made ARP frames, \<open>dhcp_acquire\<close> and
  \<open>learn_network\<close>.  What the smoltcp interface and the driver deliver is an argument: the DHCP event
  and the received frame of each turn of the polling loops, and the result of the mbuf allocation.
  Shown: a reply built by one side is understood by the other, requests and foreign replies are
  not, and discovery returns exactly the first answer within its iteration budget, every received
  mbuf being freed once.
\<close>

type_synonym mac = bytes
type_synonym ipv4 = bytes

section \<open>ARP frames\<close>

text \<open>The \<open>copy_from_slice\<close> assignments of \<open>arp_frame\<close>, in order, on the 42-byte zeroed array.\<close>

definition arp_frame :: "mac \<Rightarrow> mac \<Rightarrow> u16 \<Rightarrow> ipv4 \<Rightarrow> mac \<Rightarrow> ipv4 \<Rightarrow> bytes option" where
  "arp_frame dst_mac src_mac op sender_ip target_mac target_ip = do {
     f \<leftarrow> copy_at (replicate 42 0) 0 dst_mac;
     f \<leftarrow> copy_at f 6 src_mac;
     f \<leftarrow> copy_at f 12 [0x08, 0x06];
     f \<leftarrow> copy_at f 14 [0x00, 0x01];
     f \<leftarrow> copy_at f 16 [0x08, 0x00];
     f \<leftarrow> copy_at f 18 [6];
     f \<leftarrow> copy_at f 19 [4];
     f \<leftarrow> copy_at f 20 (be16 op);
     f \<leftarrow> copy_at f 22 src_mac;
     f \<leftarrow> copy_at f 28 sender_ip;
     f \<leftarrow> copy_at f 32 target_mac;
     copy_at f 38 target_ip
   }"

definition build_arp_request :: "mac \<Rightarrow> ipv4 \<Rightarrow> ipv4 \<Rightarrow> bytes option" where
  "build_arp_request our_mac our_ip target_ip =
     arp_frame (replicate 6 0xff) our_mac 1 our_ip (replicate 6 0) target_ip"

definition build_arp_reply :: "mac \<Rightarrow> ipv4 \<Rightarrow> mac \<Rightarrow> ipv4 \<Rightarrow> bytes option" where
  "build_arp_reply sender_mac sender_ip target_mac target_ip =
     arp_frame target_mac sender_mac 2 sender_ip target_mac target_ip"

text \<open>All slices are within the 42 bytes checked first, so they cannot panic.\<close>

definition parse_arp_reply_from :: "bytes \<Rightarrow> ipv4 \<Rightarrow> mac option" where
  "parse_arp_reply_from frame expected_ip =
     (if length frame < 42 \<or> take 2 (drop 12 frame) \<noteq> [0x08, 0x06] \<or> take 2 (drop 20 frame) \<noteq> [0x00, 0x02]
      then None
      else if take 4 (drop 28 frame) \<noteq> expected_ip then None
      else Some (take 6 (drop 22 frame)))"

definition is_mac :: "mac \<Rightarrow> bool" where "is_mac m \<longleftrightarrow> length m = 6"
definition is_ipv4 :: "ipv4 \<Rightarrow> bool" where "is_ipv4 a \<longleftrightarrow> length a = 4"

lemma list_len4: "length xs = 4 \<longleftrightarrow> (\<exists>a b c d. xs = [a, b, c, d])"
  by (auto simp: length_Suc_conv numeral_eq_Suc)

lemma list_len6: "length xs = 6 \<longleftrightarrow> (\<exists>a b c d e f. xs = [a, b, c, d, e, f])"
  by (auto simp: length_Suc_conv numeral_eq_Suc)

lemma overwrite_step:
  "length xs = k \<Longrightarrow> overwrite (xs @ ys) k d = xs @ d @ drop (length d) ys"
  by (simp add: overwrite_def)

lemma arp_frame_eq:
  assumes "is_mac dm" "is_mac sm" "is_mac tm" "is_ipv4 si" "is_ipv4 ti"
  shows "arp_frame dm sm op si tm ti =
    Some (dm @ sm @ [8, 6, 0, 1, 8, 0, 6, 4] @ be16 op @ sm @ si @ tm @ ti)"
proof -
  have z: "overwrite (replicate 42 0) 0 dm = dm @ replicate 36 0"
    using assms by (simp add: overwrite_def is_mac_def)
  note s = overwrite_step[of "dm" 6] overwrite_step[of "dm @ sm" 12]
    overwrite_step[of "dm @ sm @ [8, 6]" 14] overwrite_step[of "dm @ sm @ [8, 6, 0, 1]" 16]
    overwrite_step[of "dm @ sm @ [8, 6, 0, 1, 8, 0]" 18]
    overwrite_step[of "dm @ sm @ [8, 6, 0, 1, 8, 0, 6]" 19]
    overwrite_step[of "dm @ sm @ [8, 6, 0, 1, 8, 0, 6, 4]" 20]
    overwrite_step[of "dm @ sm @ [8, 6, 0, 1, 8, 0, 6, 4] @ be16 op" 22]
    overwrite_step[of "dm @ sm @ [8, 6, 0, 1, 8, 0, 6, 4] @ be16 op @ sm" 28]
    overwrite_step[of "dm @ sm @ [8, 6, 0, 1, 8, 0, 6, 4] @ be16 op @ sm @ si" 32]
    overwrite_step[of "dm @ sm @ [8, 6, 0, 1, 8, 0, 6, 4] @ be16 op @ sm @ si @ tm" 38]
  show ?thesis
    using assms unfolding is_mac_def is_ipv4_def
    by (simp add: arp_frame_def copy_at_def z s[simplified])
qed

lemma parse_arp_frame:
  assumes "is_mac dm" "is_mac sm" "is_mac tm" "is_ipv4 si" "is_ipv4 ti"
  shows "map_option (\<lambda>f. parse_arp_reply_from f ip) (arp_frame dm sm op si tm ti) =
    Some (if op = 2 \<and> si = ip then Some sm else None)"
proof -
  have "be16 op = [0, 2] \<longleftrightarrow> op = 2"
  proof
    assume "be16 op = [0, 2]"
    then have "of_be16 (ucast (drop_bit 8 op)) (ucast op) = of_be16 0 2" by (simp add: be16_def)
    then show "op = 2" by (simp only: of_be16_be16) (simp add: of_be16_def)
  qed (simp add: be16_def)
  then show ?thesis
    using assms unfolding arp_frame_eq[OF assms]
    by (cases "si = ip") (auto simp: parse_arp_reply_from_def is_mac_def is_ipv4_def)
qed

section \<open>Polling loops\<close>

definition ITER_BUDGET :: nat where "ITER_BUDGET = 20000000000"

datatype dhcp_event = Configured ipv4 nat "ipv4 option" | Deconfigured

text \<open>The parts of the interface \<open>dhcp_acquire\<close> changes; \<open>push\<close> on a full address list is ignored.\<close>

record iface_conf =
  ip_addrs :: "(ipv4 \<times> nat) list"
  default_route :: "ipv4 option"

function dhcp_loop ::
  "(nat \<Rightarrow> dhcp_event option) \<Rightarrow> nat \<Rightarrow> iface_conf \<Rightarrow> nat \<Rightarrow> ((ipv4 \<times> nat) \<times> ipv4) option \<times> iface_conf" where
  "dhcp_loop events max_addrs iface iter =
     (case events iter of
        Some (Configured a prefix router) \<Rightarrow>
          (Some ((a, prefix), case router of Some r \<Rightarrow> r | None \<Rightarrow> [0, 0, 0, 0]),
           iface\<lparr>ip_addrs := (if length (ip_addrs iface) < max_addrs then ip_addrs iface @ [(a, prefix)]
                              else ip_addrs iface),
                 default_route := (case router of Some gw \<Rightarrow> Some gw | None \<Rightarrow> default_route iface)\<rparr>)
      | _ \<Rightarrow> if iter + 1 > ITER_BUDGET div 10 then (None, iface)
             else dhcp_loop events max_addrs iface (iter + 1))"
  by auto
termination
  by (relation "measure (\<lambda>(_, _, _, iter). ITER_BUDGET div 10 - iter)") auto

definition dhcp_acquire ::
  "(nat \<Rightarrow> dhcp_event option) \<Rightarrow> nat \<Rightarrow> iface_conf \<Rightarrow> ((ipv4 \<times> nat) \<times> ipv4) option \<times> iface_conf" where
  "dhcp_acquire events max_addrs iface = dhcp_loop events max_addrs iface 0"

text \<open>The loop that waits for the gateway's reply: \<open>rx iter\<close> is the handle and the bytes of the mbuf
  received in that turn; the second result is the list of handles freed.\<close>

function gateway_loop ::
  "(nat \<Rightarrow> (nat \<times> bytes) option) \<Rightarrow> ipv4 \<Rightarrow> nat \<Rightarrow> nat list \<Rightarrow> mac option \<times> nat list" where
  "gateway_loop rx gw iter freed =
     (case rx iter of
        Some (handle, frame) \<Rightarrow>
          (case parse_arp_reply_from frame gw of
             Some hw \<Rightarrow> (Some hw, freed @ [handle])
           | None \<Rightarrow>
               if iter + 1 > ITER_BUDGET div 20 then (None, freed @ [handle])
               else gateway_loop rx gw (iter + 1) (freed @ [handle]))
      | None \<Rightarrow>
          if iter + 1 > ITER_BUDGET div 20 then (None, freed)
          else gateway_loop rx gw (iter + 1) freed)"
  by auto
termination
  by (relation "measure (\<lambda>(_, _, iter, _). ITER_BUDGET div 20 - iter)") auto

declare dhcp_loop.simps [simp del] gateway_loop.simps [simp del]

text \<open>The capacity of the allocated TX mbuf, or \<open>None\<close> when the allocation fails; the second result is
  the list of frames sent.\<close>

definition learn_network ::
  "(nat \<Rightarrow> dhcp_event option) \<Rightarrow> u16 option \<Rightarrow> (nat \<Rightarrow> (nat \<times> bytes) option) \<Rightarrow> mac
     \<Rightarrow> (ipv4 \<times> nat \<times> ipv4 \<times> mac) option \<times> bytes list" where
  "learn_network events tx_cap rx mac =
     (case fst (dhcp_acquire events 2 \<lparr>ip_addrs = [], default_route = None\<rparr>) of
        None \<Rightarrow> (None, [])
      | Some ((ip, prefix), gw) \<Rightarrow>
          (case build_arp_request mac ip gw of
             None \<Rightarrow> (None, [])
           | Some req \<Rightarrow>
               (case tx_cap of
                  None \<Rightarrow> (None, [])
                | Some cap \<Rightarrow>
                    let n = min (length req) (unat cap) in
                    (case fst (gateway_loop rx gw 0 []) of
                       Some hw \<Rightarrow> (Some (ip, prefix, gw, hw), [take n req])
                     | None \<Rightarrow> (None, [take n req])))))"

section \<open>First answer within the budget\<close>

fun first_in :: "(nat \<Rightarrow> 'a option) \<Rightarrow> nat \<Rightarrow> nat \<Rightarrow> 'a option" where
  "first_in f i 0 = None"
| "first_in f i (Suc n) = (case f i of Some x \<Rightarrow> Some x | None \<Rightarrow> first_in f (Suc i) n)"

lemma first_in_Some:
  "first_in f i n = Some x \<longleftrightarrow>
     (\<exists>k. i \<le> k \<and> k < i + n \<and> f k = Some x \<and> (\<forall>j. i \<le> j \<and> j < k \<longrightarrow> f j = None))"
proof (induction n arbitrary: i)
  case (Suc n)
  show ?case
  proof (cases "f i")
    case None
    have "(\<exists>k. i \<le> k \<and> k < i + Suc n \<and> f k = Some x \<and> (\<forall>j. i \<le> j \<and> j < k \<longrightarrow> f j = None)) \<longleftrightarrow>
      (\<exists>k. Suc i \<le> k \<and> k < Suc i + n \<and> f k = Some x \<and> (\<forall>j. Suc i \<le> j \<and> j < k \<longrightarrow> f j = None))"
      using None by (intro ex_cong1) (metis Suc_leI add_Suc_shift le_neq_implies_less option.distinct(1) Suc_leD)
    then show ?thesis using None Suc[of "Suc i"] by simp
  next
    case (Some y)
    have "k = i" if "i \<le> k" "\<forall>j. i \<le> j \<and> j < k \<longrightarrow> f j = None" for k
      using that Some by (metis le_neq_implies_less option.distinct(1) order_refl)
    then have "(\<exists>k. i \<le> k \<and> k < i + Suc n \<and> f k = Some x \<and> (\<forall>j. i \<le> j \<and> j < k \<longrightarrow> f j = None)) \<longleftrightarrow>
      f i = Some x" by (intro iffI) (blast, rule exI[of _ i], auto)
    then show ?thesis using Some by simp
  qed
qed simp

text \<open>The answer, if any, in one turn of each loop.\<close>

definition lease_in :: "dhcp_event option \<Rightarrow> ((ipv4 \<times> nat) \<times> ipv4) option" where
  "lease_in ev = (case ev of
     Some (Configured a p rt) \<Rightarrow> Some ((a, p), case rt of Some g \<Rightarrow> g | None \<Rightarrow> [0, 0, 0, 0])
   | _ \<Rightarrow> None)"

definition reply_in :: "ipv4 \<Rightarrow> (nat \<times> bytes) option \<Rightarrow> mac option" where
  "reply_in gw r = (case r of None \<Rightarrow> None | Some (_, frame) \<Rightarrow> parse_arp_reply_from frame gw)"

lemma dhcp_loop_first:
  "fst (dhcp_loop events cap iface iter) =
     first_in (\<lambda>k. lease_in (events k)) iter (Suc (ITER_BUDGET div 10 - iter))"
proof (induction events cap iface iter rule: dhcp_loop.induct)
  case (1 events cap iface iter)
  consider (hit) a p rt where "events iter = Some (Configured a p rt)"
    | (miss) "lease_in (events iter) = None" "events iter = None \<or> events iter = Some Deconfigured"
    by (cases "events iter"; cases "the (events iter)") (auto simp: lease_in_def)
  then show ?case
  proof cases
    case hit
    then show ?thesis by (subst dhcp_loop.simps) (simp add: lease_in_def)
  next
    case miss
    show ?thesis
    proof (cases "iter + 1 > ITER_BUDGET div 10")
      case True
      then show ?thesis using miss by (subst dhcp_loop.simps) auto
    next
      case False
      have n: "ITER_BUDGET div 10 - iter = Suc (ITER_BUDGET div 10 - (iter + 1))" using False by simp
      have "dhcp_loop events cap iface iter = dhcp_loop events cap iface (iter + 1)"
        using miss(2) False by (subst dhcp_loop.simps) auto
      moreover have "fst (dhcp_loop events cap iface (iter + 1)) =
          first_in (\<lambda>k. lease_in (events k)) (iter + 1) (Suc (ITER_BUDGET div 10 - (iter + 1)))"
        using 1 miss(2) False by auto
      ultimately show ?thesis unfolding n first_in.simps(2)[of _ iter] using miss(1) by simp
    qed
  qed
qed

text \<open>The handles received in turns \<open>i\<close> to \<open>i + n - 1\<close> up to and including the first reply.\<close>

fun handles_in :: "(nat \<Rightarrow> (nat \<times> bytes) option) \<Rightarrow> ipv4 \<Rightarrow> nat \<Rightarrow> nat \<Rightarrow> nat list" where
  "handles_in rx gw i 0 = []"
| "handles_in rx gw i (Suc n) =
     (case rx i of None \<Rightarrow> handles_in rx gw (Suc i) n
      | Some (h, frame) \<Rightarrow> h # (if parse_arp_reply_from frame gw = None then handles_in rx gw (Suc i) n else []))"

lemma gateway_loop_first:
  "gateway_loop rx gw iter freed =
     (first_in (\<lambda>k. reply_in gw (rx k)) iter (Suc (ITER_BUDGET div 20 - iter)),
      freed @ handles_in rx gw iter (Suc (ITER_BUDGET div 20 - iter)))"
proof (induction rx gw iter freed rule: gateway_loop.induct)
  case (1 rx gw iter freed)
  show ?case
  proof (cases "iter + 1 > ITER_BUDGET div 20")
    case True
    then show ?thesis by (subst gateway_loop.simps) (auto simp: reply_in_def split: option.splits)
  next
    case False
    have n: "ITER_BUDGET div 20 - iter = Suc (ITER_BUDGET div 20 - (iter + 1))" using False by simp
    show ?thesis
      unfolding n first_in.simps(2)[of _ iter] handles_in.simps(2)[of _ _ iter]
      using 1 False by (subst gateway_loop.simps) (auto simp: reply_in_def split: option.splits)
  qed
qed

section \<open>Properties\<close>

text \<open>ARP.  For well-sized addresses the frame builders do not panic, and a frame of either kind
  is accepted by \<open>parse_arp_reply_from\<close> exactly when it is a reply from the expected address, with
  the sender's MAC as the result; so a worker that is handed the fabricated reply learns the
  gateway's MAC.\<close>

theorem arp_reply_roundtrip:
  assumes "is_mac sm" "is_mac tm" "is_ipv4 si" "is_ipv4 ti"
  shows "(\<exists>f. build_arp_reply sm si tm ti = Some f \<and> length f = 42 \<and>
      parse_arp_reply_from f ip = (if si = ip then Some sm else None)) \<and>
    (\<exists>f. build_arp_request sm si ti = Some f \<and> length f = 42 \<and> parse_arp_reply_from f ip = None)"
proof -
  have m: "is_mac (replicate 6 b)" for b by (simp add: is_mac_def)
  have "build_arp_reply sm si tm ti = Some f \<Longrightarrow> parse_arp_reply_from f ip = (if si = ip then Some sm else None)" for f
    using parse_arp_frame[OF assms(2,1,2,3,4), of ip 2] by (auto simp: build_arp_reply_def)
  moreover have "build_arp_request sm si ti = Some f \<Longrightarrow> parse_arp_reply_from f ip = None" for f
    using parse_arp_frame[OF m[of 255] assms(1) m[of 0] assms(3,4), of ip 1] by (auto simp: build_arp_request_def)
  ultimately show ?thesis
    using assms m unfolding build_arp_reply_def build_arp_request_def
    by (simp add: arp_frame_eq) (simp add: is_mac_def is_ipv4_def)
qed

theorem arp_reply_roundtrip_witness:
  "\<exists>f. build_arp_reply [2, 0, 0, 0, 0, 1] [10, 0, 0, 1] [2, 0, 0, 0, 0, 9] [10, 0, 0, 9] = Some f \<and>
     parse_arp_reply_from f [10, 0, 0, 1] = Some [2, 0, 0, 0, 0, 1]"
  using arp_reply_roundtrip[of "[2, 0, 0, 0, 0, 1]" "[2, 0, 0, 0, 0, 9]" "[10, 0, 0, 1]" "[10, 0, 0, 9]" "[10, 0, 0, 1]"]
  by (auto simp: is_mac_def is_ipv4_def)

text \<open>C40: discovery.  Both polling loops end, after at most 2000000001 and 1000000001 turns.
  \<open>learn_network\<close> succeeds exactly when a DHCP lease is configured within the first budget, a TX mbuf
  was available and an ARP reply from the lease's router arrives within the second; the result is
  the first lease and the MAC of the first such reply, and every mbuf received while waiting has
  been freed exactly once.\<close>

theorem learn_network_exact:
  assumes "is_mac mac" "\<forall>k a p rt. events k = Some (Configured a p rt) \<longrightarrow>
      is_ipv4 a \<and> (\<forall>g. rt = Some g \<longrightarrow> is_ipv4 g)"
  shows "(fst (learn_network events tx_cap rx mac) = Some (ip, prefix, gw, hw) \<longleftrightarrow>
      first_in (\<lambda>k. lease_in (events k)) 0 2000000001 = Some ((ip, prefix), gw) \<and> tx_cap \<noteq> None \<and>
      first_in (\<lambda>k. reply_in gw (rx k)) 0 1000000001 = Some hw) \<and>
    snd (gateway_loop rx gw 0 []) = handles_in rx gw 0 1000000001"
proof -
  have b: "Suc (ITER_BUDGET div 10 - 0) = 2000000001" "Suc (ITER_BUDGET div 20 - 0) = 1000000001"
    by (simp_all add: ITER_BUDGET_def)
  have d: "fst (dhcp_acquire events 2 c) = first_in (\<lambda>k. lease_in (events k)) 0 2000000001" for c
    using dhcp_loop_first[of events 2 c 0] unfolding b by (simp add: dhcp_acquire_def)
  have g: "gateway_loop rx gw 0 [] =
      (first_in (\<lambda>k. reply_in gw (rx k)) 0 1000000001, handles_in rx gw 0 1000000001)" for gw
    using gateway_loop_first[of rx gw 0 "[]"] unfolding b by simp
  have "is_ipv4 a \<and> is_ipv4 r" if "first_in (\<lambda>k. lease_in (events k)) 0 2000000001 = Some ((a, p), r)" for a p r
  proof -
    from that obtain k where "lease_in (events k) = Some ((a, p), r)" unfolding first_in_Some by blast
    then show ?thesis using assms(2)
      by (auto simp: lease_in_def is_ipv4_def split: option.splits dhcp_event.splits)
  qed
  then have "\<exists>req. build_arp_request mac a r = Some req"
    if "first_in (\<lambda>k. lease_in (events k)) 0 2000000001 = Some ((a, p), r)" for a p r
    using that assms(1) by (simp add: build_arp_request_def arp_frame_eq is_mac_def)
  then show ?thesis
    unfolding learn_network_def d g by (fastforce simp: Let_def split: option.splits)
qed

theorem learn_network_exact_witness:
  "\<exists>events rx. (fst (learn_network events (Some 1536) rx [2, 0, 0, 0, 0, 9]) =
       Some ([10, 0, 0, 9], 24, [10, 0, 0, 1], [2, 0, 0, 0, 0, 1]) \<longleftrightarrow>
     first_in (\<lambda>k. lease_in (events k)) 0 2000000001 = Some (([10, 0, 0, 9], 24), [10, 0, 0, 1]) \<and>
     Some (1536 :: u16) \<noteq> None \<and>
     first_in (\<lambda>k. reply_in [10, 0, 0, 1] (rx k)) 0 1000000001 = Some [2, 0, 0, 0, 0, 1]) \<and>
     snd (gateway_loop rx [10, 0, 0, 1] 0 []) = handles_in rx [10, 0, 0, 1] 0 1000000001"
proof -
  let ?ev = "\<lambda>k :: nat. if k = 3 then Some (Configured [10, 0, 0, 9] 24 (Some [10, 0, 0, 1])) else None"
  have h: "is_mac [2, 0, 0, 0, 0, 9]" "\<forall>k a p rt. ?ev k = Some (Configured a p rt) \<longrightarrow>
      is_ipv4 a \<and> (\<forall>g. rt = Some g \<longrightarrow> is_ipv4 g)"
    by (auto simp: is_mac_def is_ipv4_def)
  show ?thesis
    by (rule exI[of _ ?ev], rule exI[of _ "\<lambda>_. Some (7, replicate 42 0)"], rule learn_network_exact[OF h])
qed

end
