(* ===== verification/App_Device.thy ===== *)
theory App_Device
  imports App_Rss
begin

text \<open>
  The smoltcp device of \<open>src/lib.rs\<close>: \<open>DpdkDevice\<close> with its prefetch buffer, the port filter of
  \<open>receive\<close>, and the receive and transmit tokens.  An mbuf is its handle and the bytes at its data
  pointer; the driver is an argument: the bursts \<open>shim_mbuf_rx_burst_n\<close> returns one after the other
  (an empty burst is \<open>got == 0\<close>), the outcome of the allocation and of \<open>shim_mbuf_tx\<close>.  Shown: the
  frames handed to the stack are, in arrival order, the received ones that pass the filter, every
  received mbuf is freed exactly once, dropped frames are exactly the misrouted ones and are
  counted, and every transmitted frame is sent whole or counted.
\<close>

type_synonym handle = nat
type_synonym mbuf = "handle \<times> bytes"

definition RX_BURST :: nat where "RX_BURST = 32"
definition MTU :: nat where "MTU = 1514"

section \<open>State\<close>

text \<open>The three prefetch arrays are one list of mbufs; the entries at and after \<open>rx_pref_len\<close> are
  stale.\<close>

record dpdk_device =
  queue_id :: u16
  pending_synth :: "bytes option"
  owned_ports :: "bytes option"
  rx_pref :: "mbuf list"
  rx_pref_pos :: nat
  rx_pref_len :: nat

record driver =
  bursts :: "mbuf list list"
  freed :: "handle list"
  sent :: "bytes list"
  MISROUTED_DROPS :: u64
  TX_ALLOC_FAIL :: u64
  TX_BURST_FAIL :: u64

datatype rx_token = Mbuf handle bytes | Synth bytes

definition shim_mbuf_free :: "handle \<Rightarrow> driver \<Rightarrow> driver" where
  "shim_mbuf_free h d = d\<lparr>freed := freed d @ [h]\<rparr>"

text \<open>A burst fills the arrays from the front.\<close>

definition shim_mbuf_rx_burst :: "dpdk_device \<Rightarrow> driver \<Rightarrow> mbuf list \<times> dpdk_device \<times> driver" where
  "shim_mbuf_rx_burst dev d =
     (case bursts d of [] \<Rightarrow> ([], dev, d)
      | b # bs \<Rightarrow> (b, dev\<lparr>rx_pref := b @ drop (length b) (rx_pref dev)\<rparr>, d\<lparr>bursts := bs\<rparr>))"

section \<open>The port filter\<close>

text \<open>The verdict of \<open>receive\<close> on one frame: \<open>None\<close> is "pass up without a port test".\<close>

definition tcp_dst_port :: "bytes \<Rightarrow> u16 option" where
  "tcp_dst_port frame =
     (if length frame < 54 then None
      else if \<not> (frame ! 12 = 0x08 \<and> frame ! 13 = 0x00) then None
      else let ihl = unat (frame ! 14 AND 0x0f) * 4; proto = frame ! 23; l4 = 14 + ihl in
        if proto \<noteq> 6 \<or> l4 + 4 > length frame then None
        else Some (push_bit 8 (ucast (frame ! (l4 + 2))) OR ucast (frame ! (l4 + 3))))"

definition frame_ok :: "dpdk_device \<Rightarrow> bytes \<Rightarrow> bool" where
  "frame_ok dev frame =
     (case tcp_dst_port frame of
        None \<Rightarrow> True
      | Some dst_port \<Rightarrow>
          (case owned_ports dev of None \<Rightarrow> True | Some bm \<Rightarrow> owns_port bm dst_port))"

lemma frame_ok_cong: "owned_ports dev' = owned_ports dev \<Longrightarrow> frame_ok dev' = frame_ok dev"
  by (intro ext) (simp only: frame_ok_def)

section \<open>receive\<close>

text \<open>The first part of a turn: refill the prefetch buffer if it is empty, then take the next mbuf
  (\<open>None\<close> inside: the queue has nothing; \<open>None\<close> outside: the index panic).\<close>

definition rx_next :: "dpdk_device \<Rightarrow> driver \<Rightarrow> (mbuf option \<times> dpdk_device \<times> driver) option" where
  "rx_next dev d =
     (let refill = (rx_pref_pos dev = rx_pref_len dev);
          (got, dev0, d0) = (if refill then shim_mbuf_rx_burst dev d else ([], dev, d)) in
      if refill \<and> got = [] then Some (None, dev0, d0)
      else
        let dev1 = (if refill then dev0\<lparr>rx_pref_pos := 0, rx_pref_len := length got\<rparr> else dev0);
            i = rx_pref_pos dev1 in
        if i < RX_BURST \<and> i < length (rx_pref dev1)
        then Some (Some (rx_pref dev1 ! i), dev1\<lparr>rx_pref_pos := i + 1\<rparr>, d0) else None)"

text \<open>A rejected mbuf is counted and freed.\<close>

definition rx_reject :: "handle \<Rightarrow> driver \<Rightarrow> driver" where
  "rx_reject h d = shim_mbuf_free h (d\<lparr>MISROUTED_DROPS := MISROUTED_DROPS d + 1\<rparr>)"

text \<open>The number of turns the loop can still take.\<close>

definition rx_pending :: "dpdk_device \<Rightarrow> driver \<Rightarrow> nat" where
  "rx_pending dev d =
     (if rx_pref_pos dev \<le> rx_pref_len dev then rx_pref_len dev - rx_pref_pos dev
      else RX_BURST - rx_pref_pos dev) + length (concat (bursts d)) + length (bursts d)"

lemma rx_next_pending:
  "rx_next dev d = Some (Some m, dev', d') \<Longrightarrow> rx_pending dev' d' < rx_pending dev d"
  by (cases "bursts d")
    (auto simp: rx_next_def rx_pending_def shim_mbuf_rx_burst_def Let_def Suc_le_eq split: if_splits)

lemma rx_pending_reject [simp]: "rx_pending dev (rx_reject h d) = rx_pending dev d"
  by (simp add: rx_pending_def rx_reject_def shim_mbuf_free_def)

function receive_loop :: "dpdk_device \<Rightarrow> driver \<Rightarrow> (rx_token option \<times> dpdk_device \<times> driver) option" where
  "receive_loop dev d =
     (case rx_next dev d of
        None \<Rightarrow> None
      | Some (None, dev1, d1) \<Rightarrow> Some (None, dev1, d1)
      | Some (Some (handle, frame), dev1, d1) \<Rightarrow>
          if frame_ok dev1 frame then Some (Some (Mbuf handle frame), dev1, d1)
          else receive_loop dev1 (rx_reject handle d1))"
  by auto
termination
  by (relation "measure (\<lambda>(dev, d). rx_pending dev d)") (auto dest: rx_next_pending)

declare receive_loop.simps [simp del]

definition receive :: "dpdk_device \<Rightarrow> driver \<Rightarrow> (rx_token option \<times> dpdk_device \<times> driver) option" where
  "receive dev d =
     (case pending_synth dev of
        Some b \<Rightarrow> Some (Some (Synth b), dev\<lparr>pending_synth := None\<rparr>, d)
      | None \<Rightarrow> receive_loop dev d)"

section \<open>Tokens\<close>

text \<open>\<open>consume\<close> hands the frame to the stack (\<open>f\<close>, whose effect is the frame it saw) and then frees
  the mbuf; dropping a token frees it without a call.\<close>

definition rx_consume :: "rx_token \<Rightarrow> driver \<Rightarrow> bytes \<times> driver" where
  "rx_consume tok d = (case tok of Mbuf h frame \<Rightarrow> (frame, shim_mbuf_free h d) | Synth b \<Rightarrow> (b, d))"

definition rx_drop :: "rx_token \<Rightarrow> driver \<Rightarrow> driver" where
  "rx_drop tok d = (case tok of Mbuf h _ \<Rightarrow> shim_mbuf_free h d | Synth _ \<Rightarrow> d)"

text \<open>\<open>alloc\<close> is the mbuf \<open>shim_mbuf_alloc_tx\<close> returned (handle and the bytes of its data area, as many
  as its capacity), \<open>rc\<close> the result of \<open>shim_mbuf_tx\<close>, and \<open>f\<close> fills the buffer it is given.\<close>

definition tx_consume :: "mbuf option \<Rightarrow> int \<Rightarrow> nat \<Rightarrow> (bytes \<Rightarrow> bytes) \<Rightarrow> driver \<Rightarrow> driver" where
  "tx_consume alloc rc len f d =
     (case alloc of
        None \<Rightarrow>
          let n = min len MTU; _ = f (replicate n 0) in d\<lparr>TX_ALLOC_FAIL := TX_ALLOC_FAIL d + 1\<rparr>
      | Some (h, area) \<Rightarrow>
          let n = min len (length area);
              r = f (take n area) in
          if rc \<noteq> 0 then d\<lparr>TX_BURST_FAIL := TX_BURST_FAIL d + 1\<rparr>
          else d\<lparr>sent := sent d @ [take n r]\<rparr>)"

section \<open>transmit and capabilities\<close>

text \<open>A transmit token is the device it borrows; there is always one.  \<open>ChecksumCapabilities::ignored\<close>
  leaves all checksums to the NIC.\<close>

definition transmit :: "dpdk_device \<Rightarrow> dpdk_device option" where
  "transmit dev = Some dev"

record device_capabilities =
  max_transmission_unit :: nat
  medium_ethernet :: bool
  checksums_ignored :: bool

definition capabilities :: "dpdk_device \<Rightarrow> device_capabilities" where
  "capabilities dev = \<lparr>max_transmission_unit = MTU, medium_ethernet = True, checksums_ignored = True\<rparr>"

text \<open>What \<open>Interface::poll\<close> does with the device: receive and consume until nothing is left.\<close>

function rx_drain :: "dpdk_device \<Rightarrow> driver \<Rightarrow> (bytes list \<times> dpdk_device \<times> driver) option" where
  "rx_drain dev d =
     (case receive dev d of
        None \<Rightarrow> None
      | Some (None, dev1, d1) \<Rightarrow> Some ([], dev1, d1)
      | Some (Some tok, dev1, d1) \<Rightarrow>
          let (frame, d2) = rx_consume tok d1 in
          (case rx_drain dev1 d2 of
             None \<Rightarrow> None
           | Some (frames, dev3, d3) \<Rightarrow> Some (frame # frames, dev3, d3)))"
  by auto

text \<open>The measure: the synthesised frame, then the loop's own.\<close>

definition drain_measure :: "dpdk_device \<Rightarrow> driver \<Rightarrow> nat" where
  "drain_measure dev d = (if pending_synth dev = None then 0 else 1) + rx_pending dev d"

lemma rx_next_frame [simp]:
  "rx_next dev d = Some (m, dev', d') \<Longrightarrow> pending_synth dev' = pending_synth dev"
  by (auto simp: rx_next_def shim_mbuf_rx_burst_def Let_def split: if_splits list.splits)

lemma receive_loop_pending:
  "receive_loop dev d = Some (Some tok, dev', d') \<Longrightarrow>
     rx_pending dev' d' < rx_pending dev d \<and> pending_synth dev' = pending_synth dev"
proof (induction dev d rule: receive_loop.induct)
  case (1 dev d)
  from "1.prems" obtain h frame dev1 d1 where n: "rx_next dev d = Some (Some (h, frame), dev1, d1)"
    by (subst (asm) receive_loop.simps) (auto split: option.splits)
  note p = rx_next_pending[OF n] rx_next_frame[OF n]
  show ?case
  proof (cases "frame_ok dev1 frame")
    case True
    then show ?thesis using "1.prems" n p by (subst (asm) receive_loop.simps) auto
  next
    case False
    then have "receive_loop dev1 (rx_reject h d1) = Some (Some tok, dev', d')"
      using "1.prems" n by (subst (asm) receive_loop.simps) auto
    with "1.IH"[OF n refl refl refl refl False] p show ?thesis by simp
  qed
qed

lemma receive_measure:
  "receive dev d = Some (Some tok, dev', d') \<Longrightarrow> drain_measure dev' d' < drain_measure dev d"
  by (auto simp: receive_def drain_measure_def rx_pending_def dest: receive_loop_pending split: option.splits)

lemma drain_measure_consume [simp]: "drain_measure dev (snd (rx_consume tok d)) = drain_measure dev d"
  by (cases tok) (simp_all add: rx_consume_def drain_measure_def rx_pending_def shim_mbuf_free_def)

termination rx_drain
  by (relation "measure (\<lambda>(dev, d). drain_measure dev d)")
    (auto dest!: receive_measure simp: prod_eq_iff)

declare rx_drain.simps [simp del]

section \<open>What is received\<close>

definition dev_wf :: "dpdk_device \<Rightarrow> driver \<Rightarrow> bool" where
  "dev_wf dev d \<longleftrightarrow> rx_pref_pos dev \<le> rx_pref_len dev \<and> rx_pref_len dev \<le> RX_BURST \<and>
     length (rx_pref dev) = RX_BURST \<and> list_all (\<lambda>b. length b \<le> RX_BURST) (bursts d)"

text \<open>The mbufs that arrive before the queue next reports nothing, in order.\<close>

fun until_empty :: "'a list list \<Rightarrow> 'a list" where
  "until_empty [] = []"
| "until_empty (b # bs) = (if b = [] then [] else b @ until_empty bs)"

definition arriving :: "dpdk_device \<Rightarrow> driver \<Rightarrow> mbuf list" where
  "arriving dev d =
     take (rx_pref_len dev - rx_pref_pos dev) (drop (rx_pref_pos dev) (rx_pref dev)) @ until_empty (bursts d)"

lemma rx_next_empty:
  assumes "dev_wf dev d" "arriving dev d = []"
  obtains dev' d' where "rx_next dev d = Some (None, dev', d')" "dev_wf dev' d'"
    "freed d' = freed d" "MISROUTED_DROPS d' = MISROUTED_DROPS d"
proof -
  have "rx_pref_pos dev = rx_pref_len dev" "until_empty (bursts d) = []"
    using assms by (auto simp: dev_wf_def arriving_def)
  then have "rx_next dev d = Some (None, dev, d\<lparr>bursts := tl (bursts d)\<rparr>)"
    by (cases "bursts d") (simp_all add: rx_next_def shim_mbuf_rx_burst_def split: if_splits)
  moreover have "dev_wf dev (d\<lparr>bursts := tl (bursts d)\<rparr>)"
    using assms(1) by (cases "bursts d") (simp_all add: dev_wf_def)
  ultimately show thesis using that by simp
qed

text \<open>Otherwise the next mbuf is the first that arrives.\<close>

lemma rx_next_Cons:
  assumes "dev_wf dev d" "arriving dev d = m # ms"
  obtains dev' d' where "rx_next dev d = Some (Some m, dev', d')" "dev_wf dev' d'"
    "arriving dev' d' = ms" "owned_ports dev' = owned_ports dev" "pending_synth dev' = pending_synth dev"
    "freed d' = freed d" "MISROUTED_DROPS d' = MISROUTED_DROPS d"
proof (cases "rx_pref_pos dev = rx_pref_len dev")
  case True
  then obtain bs b where b: "bursts d = (m # b) # bs" "ms = b @ until_empty bs"
    using assms by (cases "bursts d") (auto simp: arriving_def split: if_splits elim: list.set_cases dest!: append_eq_Cons_conv[THEN iffD1])
  let ?dev = "dev\<lparr>rx_pref := (m # b) @ drop (length (m # b)) (rx_pref dev), rx_pref_pos := 1,
      rx_pref_len := length (m # b)\<rparr>"
  have "rx_next dev d = Some (Some m, ?dev, d\<lparr>bursts := bs\<rparr>)"
    using True b by (simp add: rx_next_def shim_mbuf_rx_burst_def RX_BURST_def)
  then show thesis
    using that[of ?dev "d\<lparr>bursts := bs\<rparr>"] assms(1) b by (simp add: dev_wf_def arriving_def)
next
  case False
  then have lt: "rx_pref_pos dev < rx_pref_len dev" "rx_pref_len dev \<le> length (rx_pref dev)" "rx_pref_len dev \<le> RX_BURST"
    using assms(1) by (auto simp: dev_wf_def)
  then have d: "drop (rx_pref_pos dev) (rx_pref dev) =
      rx_pref dev ! rx_pref_pos dev # drop (Suc (rx_pref_pos dev)) (rx_pref dev)"
    by (simp add: Cons_nth_drop_Suc)
  obtain j where j: "rx_pref_len dev - rx_pref_pos dev = Suc j" using lt(1) by (metis Suc_diff_Suc)
  then have j': "rx_pref_len dev - Suc (rx_pref_pos dev) = j" by simp
  let ?dev = "dev\<lparr>rx_pref_pos := rx_pref_pos dev + 1\<rparr>"
  have "m = rx_pref dev ! rx_pref_pos dev" "ms = arriving ?dev d"
    using assms(2) by (simp_all add: arriving_def d j j')
  moreover have "rx_next dev d = Some (Some (rx_pref dev ! rx_pref_pos dev), ?dev, d)"
    using False lt by (simp add: rx_next_def Let_def)
  ultimately show thesis using that[of ?dev d] assms(1) lt(1) by (simp add: dev_wf_def)
qed

lemma receive_loop_correct:
  assumes "dev_wf dev d" "arriving dev d = ms"
  shows "\<exists>tok dev' d'. receive_loop dev d = Some (tok, dev', d') \<and> dev_wf dev' d' \<and>
    (case dropWhile (\<lambda>m. \<not> frame_ok dev (snd m)) ms of
       [] \<Rightarrow> tok = None
     | (h, f) # rest \<Rightarrow> tok = Some (Mbuf h f) \<and> arriving dev' d' = rest) \<and>
    owned_ports dev' = owned_ports dev \<and> pending_synth dev' = pending_synth dev \<and>
    freed d' = freed d @ map fst (takeWhile (\<lambda>m. \<not> frame_ok dev (snd m)) ms) \<and>
    MISROUTED_DROPS d' = MISROUTED_DROPS d + of_nat (length (takeWhile (\<lambda>m. \<not> frame_ok dev (snd m)) ms))"
  using assms
proof (induction ms arbitrary: dev d)
  case Nil
  then obtain dev' d' where "rx_next dev d = Some (None, dev', d')" "dev_wf dev' d'"
    "freed d' = freed d" "MISROUTED_DROPS d' = MISROUTED_DROPS d" by (rule rx_next_empty)
  moreover have "owned_ports dev' = owned_ports dev"
    using \<open>rx_next dev d = Some (None, dev', d')\<close>
    by (auto simp: rx_next_def shim_mbuf_rx_burst_def Let_def split: if_splits list.splits)
  ultimately show ?case by (subst receive_loop.simps) simp
next
  case (Cons m ms)
  obtain h f where m: "m = (h, f)" by (cases m)
  obtain dev1 d1 where n: "rx_next dev d = Some (Some m, dev1, d1)" "dev_wf dev1 d1"
    "arriving dev1 d1 = ms" "owned_ports dev1 = owned_ports dev" "pending_synth dev1 = pending_synth dev"
    "freed d1 = freed d" "MISROUTED_DROPS d1 = MISROUTED_DROPS d"
    by (rule rx_next_Cons[OF Cons.prems])
  have ok: "frame_ok dev1 = frame_ok dev" using n(4) by (rule frame_ok_cong)
  show ?case
  proof (cases "frame_ok dev f")
    case True
    then show ?thesis using n m ok by (subst receive_loop.simps) simp
  next
    case False
    have "dev_wf dev1 (rx_reject h d1)" "arriving dev1 (rx_reject h d1) = ms"
      using n(2,3) by (simp_all add: dev_wf_def arriving_def rx_reject_def shim_mbuf_free_def)
    from Cons.IH[OF this] show ?thesis
      using False n m ok by (subst receive_loop.simps)
        (simp add: rx_reject_def shim_mbuf_free_def ac_simps split: list.splits prod.splits)
  qed
qed

lemma filter_dropWhile: "filter P (dropWhile (\<lambda>x. \<not> P x) xs) = filter P xs"
  by (induction xs) auto

lemma count_split:
  "length (filter (\<lambda>x. \<not> P x) xs) = length (takeWhile (\<lambda>x. \<not> P x) xs) +
     length (filter (\<lambda>x. \<not> P x) (dropWhile (\<lambda>x. \<not> P x) xs))"
  by (induction xs) auto

lemma rx_drain_loop:
  assumes "dev_wf dev d" "arriving dev d = ms" "pending_synth dev = None"
  shows "\<exists>dev' d'. rx_drain dev d = Some (map snd (filter (\<lambda>m. frame_ok dev (snd m)) ms), dev', d') \<and>
    dev_wf dev' d' \<and> freed d' = freed d @ map fst ms \<and>
    MISROUTED_DROPS d' = MISROUTED_DROPS d + of_nat (length (filter (\<lambda>m. \<not> frame_ok dev (snd m)) ms))"
  using assms
proof (induction "length ms" arbitrary: ms dev d rule: less_induct)
  case less
  let ?bad = "\<lambda>m. \<not> frame_ok dev (snd m)"
  obtain tok dev1 d1 where r: "receive_loop dev d = Some (tok, dev1, d1)" "dev_wf dev1 d1"
    "case dropWhile ?bad ms of [] \<Rightarrow> tok = None
       | (h, f) # rest \<Rightarrow> tok = Some (Mbuf h f) \<and> arriving dev1 d1 = rest"
    "owned_ports dev1 = owned_ports dev" "pending_synth dev1 = None"
    "freed d1 = freed d @ map fst (takeWhile ?bad ms)"
    "MISROUTED_DROPS d1 = MISROUTED_DROPS d + of_nat (length (takeWhile ?bad ms))"
    using receive_loop_correct[OF less.prems(1,2)] less.prems(3) by force
  have rv: "receive dev d = Some (tok, dev1, d1)" using r(1) less.prems(3) by (simp add: receive_def)
  show ?case
  proof (cases "dropWhile ?bad ms")
    case Nil
    then have "takeWhile ?bad ms = ms" by (metis append_Nil2 takeWhile_dropWhile_id)
    moreover have "filter (\<lambda>m. frame_ok dev (snd m)) ms = []" "filter ?bad ms = ms"
      using Nil by (auto simp: dropWhile_eq_Nil_conv filter_empty_conv)
    ultimately show ?thesis using rv r Nil by (subst rx_drain.simps) (simp del: takeWhile_eq_all_conv)
  next
    case (Cons m rest)
    obtain h f where m: "m = (h, f)" by (cases m)
    then have t: "tok = Some (Mbuf h f)" and a: "arriving dev1 d1 = rest" using r(3) Cons by auto
    have ok: "frame_ok dev1 = frame_ok dev" using r(4) by (rule frame_ok_cong)
    have good: "frame_ok dev f" using Cons m hd_dropWhile[of ?bad ms] by auto
    have ms: "ms = takeWhile ?bad ms @ (h, f) # rest" using Cons m by (metis takeWhile_dropWhile_id)
    then have lt: "length rest < length ms" by (metis length_append length_Cons not_add_less2 not_less_eq not_less_iff_gr_or_eq)
    let ?d = "shim_mbuf_free h d1"
    have "dev_wf dev1 ?d" "arriving dev1 ?d = rest"
      using r(2) a by (simp_all add: dev_wf_def arriving_def shim_mbuf_free_def)
    from less.hyps[OF lt this r(5)] obtain dev2 d2 where ih:
      "rx_drain dev1 ?d = Some (map snd (filter (\<lambda>m. frame_ok dev (snd m)) rest), dev2, d2)"
      "dev_wf dev2 d2" "freed d2 = freed ?d @ map fst rest"
      "MISROUTED_DROPS d2 = MISROUTED_DROPS ?d + of_nat (length (filter ?bad rest))"
      unfolding ok by blast
    have "filter (\<lambda>m. frame_ok dev (snd m)) ms = (h, f) # filter (\<lambda>m. frame_ok dev (snd m)) rest"
      using filter_dropWhile[of "\<lambda>m. frame_ok dev (snd m)" ms] Cons m good by simp
    moreover have "map fst ms = map fst (takeWhile ?bad ms) @ h # map fst rest"
      by (subst ms) simp
    moreover have "length (filter ?bad ms) = length (takeWhile ?bad ms) + length (filter ?bad rest)"
      using count_split[of "\<lambda>m. frame_ok dev (snd m)" ms] Cons m good by simp
    ultimately show ?thesis
      using rv r(6,7) t ih by (subst rx_drain.simps) (simp add: rx_consume_def shim_mbuf_free_def)
  qed
qed

section \<open>Properties\<close>

text \<open>C17: reception.  Draining a queue never panics and hands the stack the fabricated frame, if one
  is pending, followed by exactly the received frames that pass the port filter, in arrival order;
  every received mbuf is freed exactly once, in arrival order, whether it was consumed or rejected,
  and \<open>MISROUTED_DROPS\<close> grows by the number of rejected ones.\<close>

theorem rx_drain_exact:
  assumes "dev_wf dev d"
  shows "\<exists>dev' d'. rx_drain dev d =
      Some ((case pending_synth dev of None \<Rightarrow> [] | Some b \<Rightarrow> [b]) @
        map snd (filter (\<lambda>m. frame_ok dev (snd m)) (arriving dev d)), dev', d') \<and>
    dev_wf dev' d' \<and> freed d' = freed d @ map fst (arriving dev d) \<and>
    MISROUTED_DROPS d' =
      MISROUTED_DROPS d + of_nat (length (filter (\<lambda>m. \<not> frame_ok dev (snd m)) (arriving dev d)))"
proof (cases "pending_synth dev")
  case None
  then show ?thesis using rx_drain_loop[OF assms refl None] by simp
next
  case (Some b)
  let ?dev = "dev\<lparr>pending_synth := None\<rparr>"
  have "frame_ok ?dev = frame_ok dev" by (rule frame_ok_cong) simp
  moreover have "dev_wf ?dev d" "arriving ?dev d = arriving dev d"
    using assms by (simp_all add: dev_wf_def arriving_def)
  ultimately obtain dev' d' where
    "rx_drain ?dev d = Some (map snd (filter (\<lambda>m. frame_ok dev (snd m)) (arriving dev d)), dev', d')"
    "dev_wf dev' d'" "freed d' = freed d @ map fst (arriving dev d)"
    "MISROUTED_DROPS d' =
      MISROUTED_DROPS d + of_nat (length (filter (\<lambda>m. \<not> frame_ok dev (snd m)) (arriving dev d)))"
    using rx_drain_loop[of ?dev d "arriving dev d"] by auto
  then show ?thesis using Some by (subst rx_drain.simps) (simp add: receive_def rx_consume_def)
qed

definition idle_driver :: "mbuf list list \<Rightarrow> driver" where
  "idle_driver bs = \<lparr>bursts = bs, freed = [], sent = [], MISROUTED_DROPS = 0, TX_ALLOC_FAIL = 0, TX_BURST_FAIL = 0\<rparr>"

definition fresh_device :: "bytes option \<Rightarrow> bytes option \<Rightarrow> dpdk_device" where
  "fresh_device synth bm = \<lparr>queue_id = 0, pending_synth = synth, owned_ports = bm,
     rx_pref = replicate RX_BURST (0, []), rx_pref_pos = 0, rx_pref_len = 0\<rparr>"

theorem rx_drain_exact_witness:
  "\<exists>dev' d'. rx_drain (fresh_device (Some [1]) None) (idle_driver [[(7, [2]), (8, [3])], [(9, [4])], []]) =
     Some ([[1], [2], [3], [4]], dev', d') \<and> freed d' = [7, 8, 9]"
proof -
  let ?dev = "fresh_device (Some [1]) None" and ?d = "idle_driver [[(7, [2]), (8, [3])], [(9, [4])], []]"
  have wf: "dev_wf ?dev ?d" by (simp add: dev_wf_def fresh_device_def idle_driver_def RX_BURST_def)
  have "arriving ?dev ?d = [(7, [2]), (8, [3]), (9, [4])]" "freed ?d = []" "pending_synth ?dev = Some [1]"
    "frame_ok ?dev = (\<lambda>_. True)"
    by (simp_all add: arriving_def fresh_device_def idle_driver_def fun_eq_iff frame_ok_def split: option.splits)
  then show ?thesis using rx_drain_exact[OF wf] by auto
qed

text \<open>Transmission.  Every consumed transmit token is accounted for exactly once: the frame is
  sent, or \<open>TX_ALLOC_FAIL\<close> or \<open>TX_BURST_FAIL\<close> is counted; and a frame no longer than the mbuf is sent
  whole, as the stack wrote it.\<close>

theorem tx_consume_accounted:
  assumes "\<And>b. length (f b) = length b" "d' = tx_consume alloc rc len f d"
  shows "length (sent d') + unat (TX_ALLOC_FAIL d' - TX_ALLOC_FAIL d) + unat (TX_BURST_FAIL d' - TX_BURST_FAIL d)
      = length (sent d) + 1 \<and>
    (\<forall>h area. alloc = Some (h, area) \<longrightarrow> rc = 0 \<longrightarrow> len \<le> length area \<longrightarrow>
       sent d' = sent d @ [f (take len area)])"
  using assms by (auto simp: tx_consume_def Let_def split: option.splits)

theorem tx_consume_accounted_witness:
  "sent (tx_consume (Some (3, replicate 1536 0)) 0 2 (map (\<lambda>_. 9)) (idle_driver [])) = [[9, 9]]"
  using tx_consume_accounted[of "map (\<lambda>_. 9)" _ "Some (3, replicate 1536 0)" 0 2 "idle_driver []", OF _ refl]
  by (simp add: idle_driver_def numeral_2_eq_2)

text \<open>The part of a frame the NIC hashes: source and destination address and the two ports.\<close>

definition frame_tuple :: "bytes \<Rightarrow> bytes" where
  "frame_tuple frame = take 8 (drop 26 frame) @ take 4 (drop (14 + unat (frame ! 14 AND 0x0f) * 4) frame)"

lemma tuple_dst_port:
  assumes "tcp_dst_port frame = Some dp" "frame_tuple frame = return_tuple e ip p"
    "length (TARGET_IP_OCTETS e) = 4" "length ip = 4"
  shows "dp = p"
proof -
  let ?l4 = "14 + unat (frame ! 14 AND 0x0f) * 4"
  from assms(1) have l: "?l4 + 4 \<le> length frame" "54 \<le> length frame"
    and dp: "dp = of_be16 (frame ! (?l4 + 2)) (frame ! (?l4 + 3))"
    by (auto simp: tcp_dst_port_def of_be16_def Let_def split: if_splits)
  have t: "take 8 (drop 26 frame) @ take 4 (drop ?l4 frame) =
      (TARGET_IP_OCTETS e @ ip) @ be16 (TARGET_PORT e) @ be16 p"
    using assms(2) by (simp add: frame_tuple_def return_tuple_def)
  have "take 4 (drop ?l4 frame) = be16 (TARGET_PORT e) @ be16 p"
    using append_eq_append_conv[THEN iffD1, OF _ t] assms(3,4) l by simp
  then have "take 4 (drop ?l4 frame) ! 2 = be16 p ! 0" "take 4 (drop ?l4 frame) ! 3 = be16 p ! 1"
    by (simp_all add: nth_append)
  then have "frame ! (?l4 + 2) = be16 p ! 0" "frame ! (?l4 + 3) = be16 p ! 1" using l by simp_all
  then show ?thesis using dp by (simp add: be16_def)
qed

text \<open>C18: steering.  A worker configured from the device's own key and table never loses the return
  traffic of its connections to the port filter: a TCP segment whose address and port fields are
  those of the flow from the target to one of the worker's source ports is steered by the device to
  the worker's queue and passes the worker's filter.\<close>

theorem return_traffic_delivered:
  assumes "length key = 64" "length reta = 512" "m \<noteq> 0"
    and "load_rss_config n_queues klen key n reta rss_init = Some (True, g)"
    and "build_owned_ports g e ip q (replicate OWNED_BITMAP_BYTES 0) = Some (bm, cnt)"
    and "select_ports bm cnt m = Some ps" "p \<in> set ps" "owned_ports dev = Some bm"
    and "length (TARGET_IP_OCTETS e) = 4" "length ip = 4"
    and "frame_tuple frame = return_tuple e ip p"
  shows "device_queue n_queues klen key n reta (frame_tuple frame) = q \<and> frame_ok dev frame"
proof -
  let ?qf = "\<lambda>p. device_queue n_queues klen key n reta (return_tuple e ip p)"
  obtain bm' where "build_owned_ports g e ip q (replicate OWNED_BITMAP_BYTES 0) =
      Some (bm', of_nat (length (owned_list ?qf q)))"
    and own': "\<And>p. EPH_BASE \<le> p \<Longrightarrow> owns_port bm' p = (?qf p = q)"
    using build_owned_ports_correct[OF queue_for_local_port_loaded[OF assms(1,2,4)], of e ip q] by metis
  then have own: "\<And>p. EPH_BASE \<le> p \<Longrightarrow> owns_port bm p = (?qf p = q)"
    and cnt: "cnt = of_nat (length (owned_list ?qf q))" using assms(5) by auto
  obtain ps' where "select_ports bm (of_nat (length (owned_list ?qf q))) m = Some ps'"
    "set ps' \<subseteq> set (owned_list ?qf q)" using select_ports_correct[OF own assms(3)] by metis
  then have "p \<in> set (owned_list ?qf q)" using assms(6,7) cnt by auto
  then have p: "EPH_BASE \<le> p" "?qf p = q" using eph_port_of_index by (auto simp: owned_list_def)
  have "frame_ok dev frame"
    using tuple_dst_port[OF _ assms(11,9,10)] own[OF p(1)] p(2) assms(8)
    by (auto simp: frame_ok_def split: option.splits)
  then show ?thesis using p(2) assms(11) by simp
qed

theorem return_traffic_delivered_witness:
  "\<exists>g bm cnt ps p frame.
     load_rss_config 1 0 (replicate 64 0) 0 (replicate 512 0) rss_init = Some (True, g) \<and>
     build_owned_ports g demo_env [10, 0, 0, 7] 0 (replicate OWNED_BITMAP_BYTES 0) = Some (bm, cnt) \<and>
     select_ports bm cnt 24 = Some ps \<and> p \<in> set ps \<and> tcp_dst_port frame = Some p \<and>
     device_queue 1 0 (replicate 64 0) 0 (replicate 512 0) (frame_tuple frame) = 0 \<and>
     frame_ok (fresh_device None (Some bm)) frame"
proof -
  let ?ip = "[10, 0, 0, 7] :: bytes" and ?k = "replicate 64 0 :: bytes" and ?r = "replicate 512 0 :: u16 list"
  let ?g = "rss_init\<lparr>SINGLE_QUEUE := True\<rparr>" and ?qf = "\<lambda>_ :: u16. 0 :: u16"
  have l: "load_rss_config 1 0 ?k 0 ?r rss_init = Some (True, ?g)" by (simp add: load_rss_config_def)
  have "queue_for_local_port ?g demo_env ?ip p = Some (?qf p)" for p
    by (simp add: queue_for_local_port_def predict_queue_def)
  from build_owned_ports_correct[OF this, where q = 0] obtain bm where
    b: "build_owned_ports ?g demo_env ?ip 0 (replicate OWNED_BITMAP_BYTES 0) = Some (bm, of_nat (length (owned_list ?qf 0)))"
    and own: "\<And>p. EPH_BASE \<le> p \<Longrightarrow> owns_port bm p = (?qf p = 0)" by metis
  obtain ps where ps: "select_ports bm (of_nat (length (owned_list ?qf 0))) 24 = Some ps"
    "length ps = min 24 (length (owned_list ?qf 0))" by (rule select_ports_correct[OF own, of 24]) auto
  then have "ps \<noteq> []" by (auto simp: owned_list_def EPH_LEN_def)
  then obtain p where p: "p \<in> set ps" by (cases ps) auto
  let ?f = "replicate 12 0 @ [8, 0, 0x45] @ replicate 8 0 @ [6, 0, 0] @ TARGET_IP_OCTETS demo_env @ ?ip @
      be16 (TARGET_PORT demo_env) @ be16 p @ replicate 16 0"
  have len: "length (TARGET_IP_OCTETS demo_env) = 4" by (simp add: TARGET_IP_OCTETS_def)
  have "frame_tuple ?f = return_tuple demo_env ?ip p"
    by (simp add: frame_tuple_def return_tuple_def len nth_append)
  from return_traffic_delivered[OF _ _ _ l b ps(1) p _ len _ this, of "fresh_device None (Some bm)"]
  have "device_queue 1 0 ?k 0 ?r (frame_tuple ?f) = 0 \<and> frame_ok (fresh_device None (Some bm)) ?f"
    by (simp add: fresh_device_def)
  moreover have "tcp_dst_port ?f = Some p"
    by (simp add: tcp_dst_port_def len nth_append be16_def of_be16_be16[unfolded of_be16_def])
  ultimately show ?thesis using l b ps(1) p by blast
qed

end
