(* ===== verification/Tcp_Seq.thy ===== *)
theory Tcp_Seq
  imports Prelude
begin

text \<open>
  TCP sequence numbers (\<open>SeqNumber\<close> of \<open>wire/tcp.rs\<close>): 32-bit words with wrapping addition of a
  byte count, compared through the sign of the wrapped difference.  Additions of more than
  \<open>i32::MAX\<close> and differences that are negative panic (\<open>None\<close>).  Shown: on numbers less than \<open>2 ^ 31\<close>
  apart the comparison and the difference are those of the unwrapped positions, across the wrap.
\<close>

type_synonym seq_number = u32

abbreviation I32_MAX :: nat where "I32_MAX \<equiv> 2147483647"

text \<open>\<open>partial_cmp\<close> is the comparison of the wrapped difference with zero; the four operators read it.
  At a distance of exactly \<open>2 ^ 31\<close> each number is less than the other.\<close>

definition seq_lt :: "seq_number \<Rightarrow> seq_number \<Rightarrow> bool" where
  "seq_lt a b \<longleftrightarrow> sint (a - b) < 0"

definition seq_le :: "seq_number \<Rightarrow> seq_number \<Rightarrow> bool" where
  "seq_le a b \<longleftrightarrow> sint (a - b) \<le> 0"

definition seq_gt :: "seq_number \<Rightarrow> seq_number \<Rightarrow> bool" where
  "seq_gt a b \<longleftrightarrow> sint (a - b) > 0"

definition seq_ge :: "seq_number \<Rightarrow> seq_number \<Rightarrow> bool" where
  "seq_ge a b \<longleftrightarrow> sint (a - b) \<ge> 0"

definition seq_max :: "seq_number \<Rightarrow> seq_number \<Rightarrow> seq_number" where
  "seq_max a b = (if seq_gt a b then a else b)"

definition seq_min :: "seq_number \<Rightarrow> seq_number \<Rightarrow> seq_number" where
  "seq_min a b = (if seq_lt a b then a else b)"

definition seq_add :: "seq_number \<Rightarrow> nat \<Rightarrow> seq_number option" where
  "seq_add a n = (if n > I32_MAX then None else Some (a + of_nat n))"

definition seq_sub :: "seq_number \<Rightarrow> nat \<Rightarrow> seq_number option" where
  "seq_sub a n = (if n > I32_MAX then None else Some (a - of_nat n))"

definition seq_diff :: "seq_number \<Rightarrow> seq_number \<Rightarrow> nat option" where
  "seq_diff a b = (if sint (a - b) < 0 then None else Some (nat (sint (a - b))))"

section \<open>Positions\<close>

text \<open>The sequence number of position \<open>x\<close> of a stream that starts at \<open>s\<close>.\<close>

definition seq_at :: "seq_number \<Rightarrow> int \<Rightarrow> seq_number" where
  "seq_at s x = s + of_int x"

definition near :: "int \<Rightarrow> int \<Rightarrow> bool" where
  "near x y \<longleftrightarrow> \<bar>x - y\<bar> < 2 ^ 31"

lemma sint_of_int_small: "- (2 ^ 31) \<le> d \<Longrightarrow> d < 2 ^ 31 \<Longrightarrow> sint (of_int d :: u32) = d"
  by (simp add: signed_of_int signed_take_bit_int_eq_self)

lemma sint_seq_at: "near x y \<Longrightarrow> sint (seq_at s x - seq_at s y) = x - y"
  using sint_of_int_small[of "x - y"] by (simp add: seq_at_def near_def)

lemma seq_at_cmp:
  assumes "near x y"
  shows "seq_lt (seq_at s x) (seq_at s y) \<longleftrightarrow> x < y" "seq_le (seq_at s x) (seq_at s y) \<longleftrightarrow> x \<le> y"
    "seq_gt (seq_at s x) (seq_at s y) \<longleftrightarrow> x > y" "seq_ge (seq_at s x) (seq_at s y) \<longleftrightarrow> x \<ge> y"
    "seq_at s x = seq_at s y \<longleftrightarrow> x = y"
proof -
  have "seq_at s x = seq_at s y \<Longrightarrow> x = y" using sint_seq_at[OF assms, of s] by simp
  then show "seq_at s x = seq_at s y \<longleftrightarrow> x = y" by blast
qed (simp_all add: seq_lt_def seq_le_def seq_gt_def seq_ge_def sint_seq_at[OF assms])

lemma seq_at_min_max:
  assumes "near x y"
  shows "seq_max (seq_at s x) (seq_at s y) = seq_at s (max x y)"
    "seq_min (seq_at s x) (seq_at s y) = seq_at s (min x y)"
  using seq_at_cmp[OF assms, of s] by (simp_all add: seq_max_def seq_min_def max_def min_def)

lemma seq_at_diff:
  "near x y \<Longrightarrow> seq_diff (seq_at s x) (seq_at s y) = (if y \<le> x then Some (nat (x - y)) else None)"
  by (simp add: seq_diff_def sint_seq_at)

lemma seq_at_add: "n \<le> I32_MAX \<Longrightarrow> seq_add (seq_at s x) n = Some (seq_at s (x + int n))"
  by (simp add: seq_add_def seq_at_def add.assoc)

lemma seq_at_sub: "n \<le> I32_MAX \<Longrightarrow> seq_sub (seq_at s x) n = Some (seq_at s (x - int n))"
  by (simp add: seq_sub_def seq_at_def)

lemma seq_at_succ: "seq_at s x + 1 = seq_at s (x + 1)" "seq_at s x - 1 = seq_at s (x - 1)"
  by (simp_all add: seq_at_def)

lemma seq_at_0 [simp]: "seq_at s 0 = s"
  by (simp add: seq_at_def)

lemma seq_at_seq_at: "seq_at (seq_at s x) y = seq_at s (x + y)"
  by (simp add: seq_at_def)

lemma near_refl [simp]: "near x x"
  by (simp add: near_def)

lemma near_sym: "near x y \<Longrightarrow> near y x"
  by (simp add: near_def abs_minus_commute)

lemmas seq_at_simps = seq_at_cmp seq_at_min_max seq_at_diff seq_at_add seq_at_sub seq_at_succ

section \<open>Properties\<close>

text \<open>Sequence arithmetic.  For two positions of a byte stream less than \<open>2 ^ 31\<close> apart, however
  often the 32-bit sequence number has wrapped in between, comparison, maximum, minimum and
  difference of their sequence numbers are those of the positions, and the difference panics exactly
  when it is negative.\<close>

theorem seq_number_arithmetic:
  assumes "\<bar>x - y\<bar> < 2 ^ 31"
  shows "seq_lt (s + of_int x) (s + of_int y) = (x < y) \<and> seq_le (s + of_int x) (s + of_int y) = (x \<le> y) \<and>
    seq_max (s + of_int x) (s + of_int y) = s + of_int (max x y) \<and>
    seq_min (s + of_int x) (s + of_int y) = s + of_int (min x y) \<and>
    seq_diff (s + of_int x) (s + of_int y) = (if y \<le> x then Some (nat (x - y)) else None)"
proof -
  have n: "near x y" using assms by (simp add: near_def)
  show ?thesis
    using seq_at_cmp[OF n, of s] seq_at_min_max[OF n, of s] seq_at_diff[OF n, of s]
    by (simp add: seq_at_def)
qed

theorem seq_number_arithmetic_witness:
  "seq_lt (0xfffffff0 + of_int 3) (0xfffffff0 + of_int 100) = ((3 :: int) < 100) \<and>
   seq_diff (0xfffffff0 + of_int 100) (0xfffffff0 + of_int 3) = Some 97"
  using seq_number_arithmetic[of 3 100 "0xfffffff0"] seq_number_arithmetic[of 100 3 "0xfffffff0"] by simp

end
