(* ===== verification/Tcp_Timer.thy ===== *)
theory Tcp_Timer
  imports Smol_Time Tcp_Seq
begin

text \<open>
  The retransmission machinery of \<open>socket/tcp.rs\<close>: \<open>RttEstimator\<close> (with the locally patched initial
  and minimum timeouts), \<open>Timer\<close> and \<open>AckDelayTimer\<close>, and \<open>PollAt\<close> of \<open>socket/mod.rs\<close>.  The
  estimator's fields are 32-bit words and its arithmetic wraps.  Shown: the retransmission timeout
  stays within its bounds under every sequence of samples and retransmissions, the smoothing never
  overflows for realistic samples, and \<open>poll_at\<close> names the instant at which the timer fires.
\<close>

section \<open>RttEstimator\<close>

abbreviation RTTE_INITIAL_RTO :: u32 where "RTTE_INITIAL_RTO \<equiv> 50"
abbreviation RTTE_MIN_MARGIN :: u32 where "RTTE_MIN_MARGIN \<equiv> 5"
abbreviation RTTE_K :: u32 where "RTTE_K \<equiv> 4"
abbreviation RTTE_MIN_RTO :: u32 where "RTTE_MIN_RTO \<equiv> 20"
abbreviation RTTE_MAX_RTO :: u32 where "RTTE_MAX_RTO \<equiv> 60000"

record rtt_estimator =
  have_measurement :: bool
  srtt :: u32
  rttvar :: u32
  rto :: u32
  rtt_timestamp :: "(instant \<times> seq_number) option"
  max_seq_sent :: "seq_number option"
  rto_count :: u8

definition rtte_default :: rtt_estimator where
  "rtte_default = \<lparr>have_measurement = False, srtt = 0, rttvar = 0, rto = RTTE_INITIAL_RTO,
     rtt_timestamp = None, max_seq_sent = None, rto_count = 0\<rparr>"

definition retransmission_timeout :: "rtt_estimator \<Rightarrow> duration" where
  "retransmission_timeout r = duration_from_millis (unat (rto r))"

definition div_ceil :: "u32 \<Rightarrow> u32 \<Rightarrow> u32" where
  "div_ceil a b = (if a mod b \<noteq> 0 then a div b + 1 else a div b)"

definition clamp :: "'a \<Rightarrow> 'a \<Rightarrow> 'a \<Rightarrow> 'a :: linorder" where
  "clamp x lo hi = (if x < lo then lo else if x > hi then hi else x)"

definition rtte_sample :: "u32 \<Rightarrow> rtt_estimator \<Rightarrow> rtt_estimator" where
  "rtte_sample new_rtt r =
     (let r1 = (if have_measurement r
                then let diff = nat \<bar>sint (srtt r - new_rtt)\<bar>
                     in r\<lparr>rttvar := div_ceil (rttvar r * 3 + of_nat diff) 4,
                          srtt := div_ceil (srtt r * 7 + new_rtt) 8\<rparr>
                else r\<lparr>have_measurement := True, srtt := new_rtt, rttvar := new_rtt div 2\<rparr>);
          margin = max RTTE_MIN_MARGIN (rttvar r1 * RTTE_K)
      in r1\<lparr>rto := clamp (srtt r1 + margin) RTTE_MIN_RTO RTTE_MAX_RTO, rto_count := 0\<rparr>)"

definition rtte_on_send :: "instant \<Rightarrow> seq_number \<Rightarrow> rtt_estimator \<Rightarrow> rtt_estimator" where
  "rtte_on_send timestamp seq r =
     (if (case max_seq_sent r of Some m \<Rightarrow> seq_gt seq m | None \<Rightarrow> True)
      then let r1 = r\<lparr>max_seq_sent := Some seq\<rparr>
           in if rtt_timestamp r1 = None then r1\<lparr>rtt_timestamp := Some (timestamp, seq)\<rparr> else r1
      else r)"

definition rtte_on_ack :: "instant \<Rightarrow> seq_number \<Rightarrow> rtt_estimator \<Rightarrow> rtt_estimator" where
  "rtte_on_ack timestamp seq r =
     (case rtt_timestamp r of
        Some (sent_timestamp, sent_seq) \<Rightarrow>
          if seq_ge seq sent_seq
          then (rtte_sample (of_nat (duration_total_millis (instant_diff timestamp sent_timestamp))) r)
                 \<lparr>rtt_timestamp := None\<rparr>
          else r
      | None \<Rightarrow> r)"

definition rtte_on_retransmit :: "rtt_estimator \<Rightarrow> rtt_estimator" where
  "rtte_on_retransmit r =
     (let r1 = r\<lparr>rtt_timestamp := None, rto := min (rto r * 2) RTTE_MAX_RTO, rto_count := rto_count r + 1\<rparr>
      in if rto_count r1 \<ge> 3 then r1\<lparr>rto_count := 0, have_measurement := False\<rparr> else r1)"

section \<open>Timer\<close>

datatype timer =
    TimerIdle "instant option"
  | Retransmit instant
  | FastRetransmit
  | ZeroWindowProbe instant duration
  | Close instant

datatype ack_delay_timer = AckIdle | Waiting instant | Immediate

datatype poll_at = Now | Time instant | Ingress

text \<open>The derived order of \<open>PollAt\<close>.\<close>

fun poll_le :: "poll_at \<Rightarrow> poll_at \<Rightarrow> bool" where
  "poll_le Now _ = True"
| "poll_le (Time _) Now = False"
| "poll_le (Time a) (Time b) = (a \<le> b)"
| "poll_le (Time _) Ingress = True"
| "poll_le Ingress x = (x = Ingress)"

definition poll_min :: "poll_at \<Rightarrow> poll_at \<Rightarrow> poll_at" where
  "poll_min a b = (if poll_le a b then a else b)"

definition ACK_DELAY_DEFAULT :: duration where
  "ACK_DELAY_DEFAULT = duration_from_millis 10"

definition CLOSE_DELAY :: duration where
  "CLOSE_DELAY = duration_from_millis 10000"

definition timer_new :: timer where "timer_new = TimerIdle None"

fun should_keep_alive :: "timer \<Rightarrow> instant \<Rightarrow> bool" where
  "should_keep_alive (TimerIdle (Some t)) timestamp = (timestamp \<ge> t)"
| "should_keep_alive _ _ = False"

fun should_retransmit :: "timer \<Rightarrow> instant \<Rightarrow> bool" where
  "should_retransmit (Retransmit t) timestamp = (timestamp \<ge> t)"
| "should_retransmit FastRetransmit _ = True"
| "should_retransmit _ _ = False"

fun should_close :: "timer \<Rightarrow> instant \<Rightarrow> bool" where
  "should_close (Close t) timestamp = (timestamp \<ge> t)"
| "should_close _ _ = False"

fun should_zero_window_probe :: "timer \<Rightarrow> instant \<Rightarrow> bool" where
  "should_zero_window_probe (ZeroWindowProbe t _) timestamp = (timestamp \<ge> t)"
| "should_zero_window_probe _ _ = False"

fun timer_poll_at :: "timer \<Rightarrow> poll_at" where
  "timer_poll_at (TimerIdle (Some t)) = Time t"
| "timer_poll_at (TimerIdle None) = Ingress"
| "timer_poll_at (ZeroWindowProbe t _) = Time t"
| "timer_poll_at (Retransmit t) = Time t"
| "timer_poll_at FastRetransmit = Now"
| "timer_poll_at (Close t) = Time t"

definition set_for_idle :: "instant \<Rightarrow> duration option \<Rightarrow> timer" where
  "set_for_idle timestamp interval = TimerIdle (map_option (instant_add timestamp) interval)"

fun timer_set_keep_alive :: "timer \<Rightarrow> timer" where
  "timer_set_keep_alive (TimerIdle None) = TimerIdle (Some (instant_from_millis 0))"
| "timer_set_keep_alive t = t"

fun rewind_keep_alive :: "instant \<Rightarrow> duration option \<Rightarrow> timer \<Rightarrow> timer" where
  "rewind_keep_alive timestamp interval (TimerIdle _) = TimerIdle (map_option (instant_add timestamp) interval)"
| "rewind_keep_alive timestamp interval t = t"

fun set_for_retransmit :: "instant \<Rightarrow> duration \<Rightarrow> timer \<Rightarrow> timer" where
  "set_for_retransmit timestamp delay (Close t) = Close t"
| "set_for_retransmit timestamp delay _ = Retransmit (instant_add timestamp delay)"

definition set_for_fast_retransmit :: timer where
  "set_for_fast_retransmit = FastRetransmit"

definition set_for_close :: "instant \<Rightarrow> timer" where
  "set_for_close timestamp = Close (instant_add timestamp CLOSE_DELAY)"

definition set_for_zero_window_probe :: "instant \<Rightarrow> duration \<Rightarrow> timer" where
  "set_for_zero_window_probe timestamp delay = ZeroWindowProbe (instant_add timestamp delay) delay"

fun rewind_zero_window_probe :: "instant \<Rightarrow> timer \<Rightarrow> timer" where
  "rewind_zero_window_probe timestamp (ZeroWindowProbe _ delay) =
     (let delay' = min (duration_mul delay 2) (duration_from_millis (unat RTTE_MAX_RTO))
      in ZeroWindowProbe (instant_add timestamp delay') delay')"
| "rewind_zero_window_probe timestamp t = t"

fun is_idle :: "timer \<Rightarrow> bool" where
  "is_idle (TimerIdle _) = True"
| "is_idle _ = False"

fun is_zero_window_probe :: "timer \<Rightarrow> bool" where
  "is_zero_window_probe (ZeroWindowProbe _ _) = True"
| "is_zero_window_probe _ = False"

fun is_retransmit :: "timer \<Rightarrow> bool" where
  "is_retransmit (Retransmit _) = True"
| "is_retransmit FastRetransmit = True"
| "is_retransmit _ = False"

section \<open>Bounds of the estimator\<close>

definition rto_ok :: "rtt_estimator \<Rightarrow> bool" where
  "rto_ok r \<longleftrightarrow> RTTE_MIN_RTO \<le> rto r \<and> rto r \<le> RTTE_MAX_RTO"

lemma clamp_bounds: "lo \<le> hi \<Longrightarrow> lo \<le> clamp x lo hi \<and> clamp x lo hi \<le> hi"
  by (auto simp: clamp_def not_less)

lemma rto_ok_default [simp]: "rto_ok rtte_default"
  by (simp add: rto_ok_def rtte_default_def)

lemma rto_ok_sample [simp]: "rto_ok (rtte_sample x r)"
  using clamp_bounds[of RTTE_MIN_RTO RTTE_MAX_RTO] by (simp add: rto_ok_def rtte_sample_def Let_def)

lemma rto_ok_frame [simp]: "rto_ok (r\<lparr>rtt_timestamp := t\<rparr>) = rto_ok r" "rto_ok (r\<lparr>max_seq_sent := m\<rparr>) = rto_ok r"
  by (simp_all add: rto_ok_def)

lemma rto_ok_on_send [simp]: "rto_ok (rtte_on_send t s r) = rto_ok r"
  by (simp add: rtte_on_send_def Let_def)

lemma rto_ok_on_ack [simp]: "rto_ok r \<Longrightarrow> rto_ok (rtte_on_ack t s r)"
  by (simp add: rtte_on_ack_def split: option.splits)

lemma rto_ok_on_retransmit [simp]: "rto_ok r \<Longrightarrow> rto_ok (rtte_on_retransmit r)"
proof -
  assume a: "rto_ok r"
  then have "unat (rto r * 2) = 2 * unat (rto r)" "20 \<le> unat (rto r)"
    by (simp_all add: rto_ok_def word_le_nat_alt unat_word_ariths)
  then have "20 \<le> rto r * 2" by (simp add: word_le_nat_alt)
  then show ?thesis by (simp add: rtte_on_retransmit_def rto_ok_def Let_def min_def)
qed

text \<open>A run of the estimator.\<close>

datatype rtt_event = Sent instant seq_number | Acked instant seq_number | Retransmitted

fun rtt_step :: "rtt_estimator \<Rightarrow> rtt_event \<Rightarrow> rtt_estimator" where
  "rtt_step r (Sent t s) = rtte_on_send t s r"
| "rtt_step r (Acked t s) = rtte_on_ack t s r"
| "rtt_step r Retransmitted = rtte_on_retransmit r"

lemma rto_ok_run: "rto_ok r \<Longrightarrow> rto_ok (foldl rtt_step r es)"
proof (induction es arbitrary: r)
  case (Cons e es)
  then show ?case by (cases e) simp_all
qed simp

text \<open>Exact smoothing for round trips up to \<open>B\<close> milliseconds.\<close>

definition rtt_below :: "nat \<Rightarrow> rtt_estimator \<Rightarrow> bool" where
  "rtt_below B r \<longleftrightarrow> unat (srtt r) \<le> B \<and> unat (rttvar r) \<le> B"

definition ceil_div :: "nat \<Rightarrow> nat \<Rightarrow> nat" where
  "ceil_div a b = (a + b - 1) div b"

lemma ceil_div_eq: "0 < b \<Longrightarrow> ceil_div a b = (if a mod b \<noteq> 0 then a div b + 1 else a div b)"
proof -
  assume b: "0 < b"
  have "(a + b - 1) div b = (a mod b + b - 1) div b + a div b"
  proof -
    have "a + b - 1 = (a mod b + b - 1) + b * (a div b)" using b by simp
    then show ?thesis using b by (simp only: div_mult_self2)
  qed
  moreover have "(a mod b + b - 1) div b = (if a mod b = 0 then 0 else 1)"
  proof (cases "a mod b = 0")
    case False
    have "a mod b < b" using b by simp
    then have "b * 1 \<le> a mod b + b - 1" "a mod b + b - 1 < b * Suc 1" using False by simp_all
    then have "(a mod b + b - 1) div b = 1" by (rule div_nat_eqI)
    then show ?thesis using False by simp
  qed (use b in simp)
  ultimately show ?thesis by (simp add: ceil_div_def)
qed

lemma unat_div_ceil:
  assumes "1 < unat b"
  shows "unat (div_ceil a b) = ceil_div (unat a) (unat b)"
proof -
  have "unat a div unat b \<le> unat a div 2" using assms by (intro div_le_mono2) auto
  moreover have "unat a < 2 ^ LENGTH(32)" by (rule unsigned_less)
  ultimately have "unat (a div b + 1) = unat a div unat b + 1"
    by (simp add: unat_word_ariths unat_div_distrib)
  then show ?thesis using assms
    by (simp add: div_ceil_def ceil_div_eq unat_div_distrib unat_mod_distrib unat_eq_zero[symmetric])
qed

lemma unat_clamp: "unat (clamp x lo hi) = clamp (unat x) (unat lo) (unat hi)" for x :: u32
  by (simp add: clamp_def word_less_nat_alt)

lemma ceil_div_le: "0 < b \<Longrightarrow> a \<le> b * c \<Longrightarrow> ceil_div a b \<le> c"
proof -
  assume b: "0 < b" and a: "a \<le> b * c"
  then have "a + b - 1 < b * Suc c" by simp
  then have "(a + b - 1) div b < Suc c" using b by (simp add: less_mult_imp_div_less mult.commute)
  then show ?thesis by (simp add: ceil_div_def)
qed

lemma nat_abs_diff_le: "m \<le> B \<Longrightarrow> n \<le> B \<Longrightarrow> nat \<bar>int m - int n\<bar> \<le> B"
  by linarith

lemma sint_diff_small:
  "m \<le> 2 ^ 28 \<Longrightarrow> n \<le> 2 ^ 28 \<Longrightarrow> sint (of_int (int m - int n) :: u32) = int m - int n"
  by (intro sint_of_int_small) simp_all

lemma unat_abs_diff:
  fixes a b :: u32
  assumes "unat a \<le> 2 ^ 28" "unat b \<le> 2 ^ 28"
  shows "nat \<bar>sint (a - b)\<bar> = nat \<bar>int (unat a) - int (unat b)\<bar>"
proof -
  have "a - b = of_int (int (unat a) - int (unat b))" by simp
  moreover have "sint (of_int (int (unat a) - int (unat b)) :: u32) = int (unat a) - int (unat b)"
    using assms by (rule sint_diff_small)
  ultimately show ?thesis by simp
qed

lemma rtte_sample_exact:
  assumes "rtt_below B r" "unat x \<le> B" "B \<le> 2 ^ 28" "have_measurement r"
  defines "r' \<equiv> rtte_sample x r"
  shows "unat (rttvar r') = ceil_div (3 * unat (rttvar r) + nat \<bar>int (unat (srtt r)) - int (unat x)\<bar>) 4"
    and "unat (srtt r') = ceil_div (7 * unat (srtt r) + unat x) 8"
proof -
  have b: "unat (srtt r) \<le> 2 ^ 28" "unat (rttvar r) \<le> 2 ^ 28" "unat x \<le> 2 ^ 28"
    using assms(1-3) by (auto simp: rtt_below_def)
  define d where "d = nat \<bar>int (unat (srtt r)) - int (unat x)\<bar>"
  have d: "d \<le> 2 ^ 28" unfolding d_def using b by (intro nat_abs_diff_le)
  have "unat (rttvar r * 3 + of_nat d) = 3 * unat (rttvar r) + d"
    using b d by (simp add: unat_word_ariths unat_of_nat)
  moreover have "unat (srtt r * 7 + x) = 7 * unat (srtt r) + unat x"
    using b by (simp add: unat_word_ariths)
  ultimately show "unat (rttvar r') = ceil_div (3 * unat (rttvar r) + nat \<bar>int (unat (srtt r)) - int (unat x)\<bar>) 4"
    "unat (srtt r') = ceil_div (7 * unat (srtt r) + unat x) 8"
    using assms(4)
    unfolding r'_def rtte_sample_def Let_def unat_abs_diff[OF b(1,3)] d_def[symmetric]
    by (simp_all add: unat_div_ceil)
qed

lemma rtte_sample_below:
  assumes "rtt_below B r \<or> \<not> have_measurement r" "unat x \<le> B" "B \<le> 2 ^ 28"
  shows "rtt_below B (rtte_sample x r)"
proof (cases "have_measurement r")
  case True
  then have b: "rtt_below B r" using assms(1) by simp
  have "nat \<bar>int (unat (srtt r)) - int (unat x)\<bar> \<le> B"
    using b assms(2) unfolding rtt_below_def by (intro nat_abs_diff_le) blast+
  then show ?thesis
    using b assms(2) rtte_sample_exact[OF b assms(2,3) True]
    by (auto simp: rtt_below_def intro!: ceil_div_le)
next
  case False
  then show ?thesis using assms(2)
    by (simp add: rtte_sample_def rtt_below_def Let_def unat_div_distrib)
qed

lemma rtte_sample_rto:
  assumes "rtt_below B (rtte_sample x r)" "B \<le> 2 ^ 28"
  shows "unat (rto (rtte_sample x r)) = clamp (unat (srtt (rtte_sample x r)) +
     max 5 (4 * unat (rttvar (rtte_sample x r)))) 20 60000"
proof -
  let ?r = "rtte_sample x r"
  have b: "unat (srtt ?r) \<le> 2 ^ 28" "unat (rttvar ?r) \<le> 2 ^ 28" using assms by (auto simp: rtt_below_def)
  have "unat (rttvar ?r * 4) = 4 * unat (rttvar ?r)" using b by (simp add: unat_word_ariths)
  then have "unat (max 5 (rttvar ?r * 4)) = max 5 (4 * unat (rttvar ?r))"
    by (simp add: max_def word_le_nat_alt)
  then have "unat (srtt ?r + max 5 (rttvar ?r * 4)) = unat (srtt ?r) + max 5 (4 * unat (rttvar ?r))"
    using b by (simp add: unat_word_ariths)
  moreover have "rto ?r = clamp (srtt ?r + max 5 (rttvar ?r * 4)) 20 60000"
    by (simp add: rtte_sample_def Let_def)
  ultimately show ?thesis by (simp add: unat_clamp)
qed

section \<open>Properties\<close>

text \<open>The retransmission timeout.  After any sequence of sends, acknowledgements and
  retransmissions of a fresh estimator, with arbitrary timestamps and sequence numbers, the timeout is
  between 20 ms and 60 s, the bounds of the local patch and of RFC 6298.\<close>

theorem rto_within_bounds:
  "20 \<le> unat (rto (foldl rtt_step rtte_default es)) \<and> unat (rto (foldl rtt_step rtte_default es)) \<le> 60000 \<and>
   retransmission_timeout (foldl rtt_step rtte_default es) =
     unat (rto (foldl rtt_step rtte_default es)) * 1000"
proof -
  have "rto_ok (foldl rtt_step rtte_default es)" by (simp add: rto_ok_run)
  then show ?thesis by (simp add: rto_ok_def word_le_nat_alt retransmission_timeout_def duration_from_millis_def)
qed

text \<open>Smoothing.  As long as no sample exceeds \<open>2 ^ 28\<close> ms (about three days), the 32-bit
  arithmetic of \<open>sample\<close> does not wrap: the smoothed round trip and the variance are the exponential
  averages of RFC 6298 rounded up, they stay below the largest sample, and the timeout is their
  combination, clamped.\<close>

theorem rtt_sample_smoothing:
  assumes "rtt_below B r" "unat x \<le> B" "B \<le> 2 ^ 28" "have_measurement r"
  defines "r' \<equiv> rtte_sample x r"
  shows "unat (rttvar r') = ceil_div (3 * unat (rttvar r) + nat \<bar>int (unat (srtt r)) - int (unat x)\<bar>) 4 \<and>
    unat (srtt r') = ceil_div (7 * unat (srtt r) + unat x) 8 \<and> rtt_below B r' \<and>
    unat (rto r') = clamp (unat (srtt r') + max 5 (4 * unat (rttvar r'))) 20 60000"
  using rtte_sample_exact[OF assms(1-4)] rtte_sample_below[of B r x] rtte_sample_rto[of B x r] assms(1-4)
  unfolding r'_def by blast

theorem rtt_sample_smoothing_witness:
  "unat (srtt (rtte_sample 3 (rtte_default\<lparr>have_measurement := True, srtt := 1, rttvar := 1\<rparr>))) = 2 \<and>
   unat (rto (rtte_sample 3 (rtte_default\<lparr>have_measurement := True, srtt := 1, rttvar := 1\<rparr>))) = 20"
  using rtt_sample_smoothing[of 100 "rtte_default\<lparr>have_measurement := True, srtt := 1, rttvar := 1\<rparr>" 3]
  by (simp add: rtt_below_def ceil_div_def clamp_def)

text \<open>\<open>poll_at\<close> of the timer is exact: at a given instant some action of the timer is due exactly
  when \<open>poll_at\<close> says \<open>Now\<close> or names an instant that has been reached.\<close>

theorem timer_poll_at_exact:
  "(should_keep_alive t now \<or> should_retransmit t now \<or> should_close t now \<or> should_zero_window_probe t now) =
   poll_le (timer_poll_at t) (Time now)"
proof (cases t)
  case (TimerIdle k)
  then show ?thesis by (cases k) auto
qed auto

end
