(* ===== verification/Tcp_Repr.thy ===== *)
theory Tcp_Repr
  imports Tcp_Seq
begin

text \<open>
  The high-level TCP segment of \<open>wire/tcp.rs\<close>: \<open>Control\<close>, \<open>Repr\<close> with its timestamp option, the
  lengths computed from it, and the IPv4 view of a packet the socket works with.  Addresses are IPv4
  (the only enabled protocol) as 32-bit words.
\<close>

type_synonym ip_addr = u32

datatype control = NoControl | Psh | Syn | Fin | Rst

fun control_len :: "control \<Rightarrow> nat" where
  "control_len Syn = 1"
| "control_len Fin = 1"
| "control_len _ = 0"

fun quash_psh :: "control \<Rightarrow> control" where
  "quash_psh Psh = NoControl"
| "quash_psh c = c"

record timestamp_repr =
  tsval :: u32
  tsecr :: u32

record tcp_repr =
  src_port :: u16
  dst_port :: u16
  control :: control
  seq_number :: seq_number
  ack_number :: "seq_number option"
  window_len :: u16
  window_scale :: "u8 option"
  max_seg_size :: "u16 option"
  sack_permitted :: bool
  sack_ranges :: "(u32 \<times> u32) option list"
  timestamp :: "timestamp_repr option"
  payload :: bytes

text \<open>A timestamp generator is a function without arguments: here the value its next call returns.\<close>

definition generate_reply_with_tsval :: "u32 option \<Rightarrow> u32 \<Rightarrow> timestamp_repr option" where
  "generate_reply_with_tsval generator ts =
     (case generator of None \<Rightarrow> None | Some v \<Rightarrow> Some \<lparr>tsval = v, tsecr = ts\<rparr>)"

definition generate_reply :: "timestamp_repr \<Rightarrow> u32 option \<Rightarrow> timestamp_repr option" where
  "generate_reply t generator = generate_reply_with_tsval generator (tsval t)"

definition round4 :: "nat \<Rightarrow> nat" where
  "round4 l = (if l mod 4 \<noteq> 0 then l + (4 - l mod 4) else l)"

definition header_len :: "tcp_repr \<Rightarrow> nat" where
  "header_len r =
     (let s = sum_list (map (\<lambda>x. case x of Some _ \<Rightarrow> 8 | None \<Rightarrow> 0) (sack_ranges r)) in
      round4 (20 + (if max_seg_size r \<noteq> None then 4 else 0)
                 + (if window_scale r \<noteq> None then 3 else 0)
                 + (if sack_permitted r then 2 else 0)
                 + (if timestamp r \<noteq> None then 10 else 0)
                 + (if s > 0 then s + 2 else 0)))"

definition buffer_len :: "tcp_repr \<Rightarrow> nat" where
  "buffer_len r = header_len r + length (payload r)"

definition segment_len :: "tcp_repr \<Rightarrow> nat" where
  "segment_len r = length (payload r) + control_len (control r)"

definition repr_is_empty :: "tcp_repr \<Rightarrow> bool" where
  "repr_is_empty r = (if payload r \<noteq> [] then False
     else case control r of Syn \<Rightarrow> False | Fin \<Rightarrow> False | Rst \<Rightarrow> False | NoControl \<Rightarrow> True | Psh \<Rightarrow> True)"

lemma round4_mod: "round4 l mod 4 = 0"
  unfolding round4_def by presburger

lemma header_len_mult4: "header_len r mod 4 = 0"
  by (simp add: header_len_def Let_def round4_mod)

lemma repr_is_empty_iff: "repr_is_empty r \<longleftrightarrow> payload r = [] \<and> control r \<in> {NoControl, Psh}"
  by (simp add: repr_is_empty_def split: control.splits)

text \<open>The IP layer's view of the packet (\<open>IpRepr\<close> for IPv4, header of 20 bytes).\<close>

record ip_repr =
  ip_src :: ip_addr
  ip_dst :: ip_addr
  ip_payload_len :: nat
  ip_hop_limit :: u8

abbreviation IPV4_HEADER_LEN :: nat where "IPV4_HEADER_LEN \<equiv> 20"
abbreviation TCP_HEADER_LEN :: nat where "TCP_HEADER_LEN \<equiv> 20"

end
