(* ===== verification/Tcp_Socket.thy ===== *)
theory Tcp_Socket
  imports Ring_Buffer Assembler Tcp_Timer Tcp_Repr
begin

text \<open>
  The TCP socket of \<open>socket/tcp.rs\<close>: its state and the calls of the application (\<open>connect\<close>, \<open>listen\<close>,
  \<open>close\<close>, \<open>abort\<close>, \<open>send\<close>, \<open>recv\<close> and their variants), with the interface context they read.  A
  panic is \<open>None\<close>, a \<open>Result\<close> a sum.  The features of the build are fixed: IPv4 only, no async wakers,
  no congestion control (\<open>NoControl\<close>, whose window is \<open>usize::MAX\<close> and whose callbacks do nothing).
\<close>

section \<open>Errors and states\<close>

datatype listen_error = ListenInvalidState | ListenUnaddressable
datatype connect_error = ConnectInvalidState | ConnectUnaddressable
datatype send_error = SendInvalidState
datatype recv_error = RecvInvalidState | Finished

datatype tcp_state =
  Closed | Listen | SynSent | SynReceived | Established | FinWait1 | FinWait2 | CloseWait | Closing
| LastAck | TimeWait

record endpoint =
  ep_addr :: ip_addr
  ep_port :: u16

record listen_endpoint =
  lep_addr :: "ip_addr option"
  lep_port :: u16

definition listen_endpoint_default :: listen_endpoint where
  "listen_endpoint_default = \<lparr>lep_addr = None, lep_port = 0\<rparr>"

record tcp_tuple =
  tup_local :: endpoint
  tup_remote :: endpoint

section \<open>The socket\<close>

record tcp_socket =
  state :: tcp_state
  timer :: timer
  rtte :: rtt_estimator
  assembler :: assembler
  rx_buffer :: "u8 ring_buffer"
  rx_fin_received :: bool
  tx_buffer :: "u8 ring_buffer"
  timeout :: "duration option"
  keep_alive :: "duration option"
  hop_limit :: "u8 option"
  listen_ep :: listen_endpoint
  tuple :: "tcp_tuple option"
  local_seq_no :: seq_number
  remote_seq_no :: seq_number
  remote_last_seq :: seq_number
  remote_last_ack :: "seq_number option"
  remote_last_win :: u16
  remote_win_shift :: u8
  remote_win_len :: nat
  remote_win_scale :: "u8 option"
  remote_has_sack :: bool
  remote_mss :: nat
  remote_last_ts :: "instant option"
  local_rx_last_seq :: "seq_number option"
  local_rx_last_ack :: "seq_number option"
  local_rx_dup_acks :: u8
  ack_delay :: "duration option"
  ack_delay_tm :: ack_delay_timer
  challenge_ack_timer :: instant
  nagle :: bool
  tsval_generator :: "u32 option"
  last_remote_tsval :: u32

text \<open>What the socket reads of the interface (\<open>Context\<close>), with the state of its random generator.\<close>

record iface_context =
  cx_now :: instant
  cx_ip_mtu :: nat
  cx_rand :: u64
  cx_ip_addrs :: "(ip_addr \<times> nat) list"
  cx_any_ip :: bool

text \<open>\<open>get_source_address_ipv4\<close>, \<open>has_ip_addr\<close> and the random generator.\<close>

definition cidr_contains :: "ip_addr \<times> nat \<Rightarrow> ip_addr \<Rightarrow> bool" where
  "cidr_contains c a \<longleftrightarrow> snd c = 0 \<or> drop_bit (32 - snd c) (fst c) = drop_bit (32 - snd c) a"

fun source_address_from :: "ip_addr option \<Rightarrow> (ip_addr \<times> nat) list \<Rightarrow> ip_addr \<Rightarrow> ip_addr option" where
  "source_address_from first_ipv4 [] dst = first_ipv4"
| "source_address_from first_ipv4 (c # cs) dst =
     (if cidr_contains c dst then Some (fst c)
      else source_address_from (if first_ipv4 = None then Some (fst c) else first_ipv4) cs dst)"

definition get_source_address :: "iface_context \<Rightarrow> ip_addr \<Rightarrow> ip_addr option" where
  "get_source_address cx dst = source_address_from None (cx_ip_addrs cx) dst"

definition has_ip_addr :: "iface_context \<Rightarrow> ip_addr \<Rightarrow> bool" where
  "has_ip_addr cx a \<longleftrightarrow> cx_any_ip cx \<or> (\<exists>c \<in> set (cx_ip_addrs cx). fst c = a)"

definition rand_u32 :: "u64 \<Rightarrow> u32 \<times> u64" where
  "rand_u32 st =
     (let s = st * 0xbb2efcec3c39611d + 0x7590ef39;
          shift = 29 - unat (drop_bit 61 s)
      in (ucast (drop_bit shift s), s))"

definition random_seq_no :: "iface_context \<Rightarrow> seq_number \<times> iface_context" where
  "random_seq_no cx = (let (n, r) = rand_u32 (cx_rand cx) in (n, cx\<lparr>cx_rand := r\<rparr>))"

section \<open>Creation and reset\<close>

abbreviation DEFAULT_MSS :: nat where "DEFAULT_MSS \<equiv> 536"

abbreviation ASSEMBLER_MAX_SEGMENT_COUNT :: nat where "ASSEMBLER_MAX_SEGMENT_COUNT \<equiv> 4"

text \<open>\<open>usize::BITS - leading_zeros\<close>.\<close>

fun bit_len :: "nat \<Rightarrow> nat" where
  "bit_len n = (if n = 0 then 0 else Suc (bit_len (n div 2)))"

declare bit_len.simps [simp del]

definition win_shift_for :: "u8 ring_buffer \<Rightarrow> u8" where
  "win_shift_for rx = of_nat (bit_len (rb_capacity rx) - 16)"

definition socket_new :: "u8 ring_buffer \<Rightarrow> u8 ring_buffer \<Rightarrow> tcp_socket option" where
  "socket_new rx tx = (if rb_capacity rx > 2 ^ 30 then None else Some
     \<lparr>state = Closed, timer = timer_new, rtte = rtte_default,
      assembler = asm_new ASSEMBLER_MAX_SEGMENT_COUNT, rx_buffer = rx, rx_fin_received = False,
      tx_buffer = tx, timeout = None, keep_alive = None, hop_limit = None,
      listen_ep = listen_endpoint_default, tuple = None, local_seq_no = 0, remote_seq_no = 0,
      remote_last_seq = 0, remote_last_ack = None, remote_last_win = 0,
      remote_win_shift = win_shift_for rx, remote_win_len = 0, remote_win_scale = None,
      remote_has_sack = False, remote_mss = DEFAULT_MSS, remote_last_ts = None,
      local_rx_last_seq = None, local_rx_last_ack = None, local_rx_dup_acks = 0,
      ack_delay = Some ACK_DELAY_DEFAULT, ack_delay_tm = AckIdle,
      challenge_ack_timer = instant_from_secs 0, nagle = True, tsval_generator = None,
      last_remote_tsval = 0\<rparr>)"

definition socket_reset :: "tcp_socket \<Rightarrow> tcp_socket" where
  "socket_reset s = s\<lparr>state := Closed, timer := timer_new, rtte := rtte_default,
     assembler := asm_new ASSEMBLER_MAX_SEGMENT_COUNT, tx_buffer := rb_clear (tx_buffer s),
     rx_buffer := rb_clear (rx_buffer s), rx_fin_received := False,
     listen_ep := listen_endpoint_default, tuple := None, local_seq_no := 0, remote_seq_no := 0,
     remote_last_seq := 0, remote_last_ack := None, remote_last_win := 0, remote_win_len := 0,
     remote_win_scale := None, remote_win_shift := win_shift_for (rx_buffer s),
     remote_mss := DEFAULT_MSS, remote_last_ts := None, ack_delay_tm := AckIdle,
     challenge_ack_timer := instant_from_secs 0\<rparr>"

definition set_state :: "tcp_state \<Rightarrow> tcp_socket \<Rightarrow> tcp_socket" where
  "set_state st s = s\<lparr>state := st\<rparr>"

section \<open>Options\<close>

definition set_timeout :: "duration option \<Rightarrow> tcp_socket \<Rightarrow> tcp_socket" where
  "set_timeout d s = s\<lparr>timeout := d\<rparr>"

definition set_ack_delay :: "duration option \<Rightarrow> tcp_socket \<Rightarrow> tcp_socket" where
  "set_ack_delay d s = s\<lparr>ack_delay := d\<rparr>"

definition set_nagle_enabled :: "bool \<Rightarrow> tcp_socket \<Rightarrow> tcp_socket" where
  "set_nagle_enabled b s = s\<lparr>nagle := b\<rparr>"

definition set_keep_alive :: "duration option \<Rightarrow> tcp_socket \<Rightarrow> tcp_socket" where
  "set_keep_alive interval s =
     (let s1 = s\<lparr>keep_alive := interval\<rparr>
      in if interval \<noteq> None then s1\<lparr>timer := timer_set_keep_alive (timer s1)\<rparr> else s1)"

definition set_hop_limit :: "u8 option \<Rightarrow> tcp_socket \<Rightarrow> tcp_socket option" where
  "set_hop_limit h s = (if h = Some 0 then None else Some (s\<lparr>hop_limit := h\<rparr>))"

definition set_tsval_generator :: "u32 option \<Rightarrow> tcp_socket \<Rightarrow> tcp_socket" where
  "set_tsval_generator g s = s\<lparr>tsval_generator := g\<rparr>"

section \<open>Queries\<close>

definition is_listening :: "tcp_socket \<Rightarrow> bool" where
  "is_listening s \<longleftrightarrow> state s = Listen"

definition is_open :: "tcp_socket \<Rightarrow> bool" where
  "is_open s \<longleftrightarrow> state s \<noteq> Closed \<and> state s \<noteq> TimeWait"

definition is_active :: "tcp_socket \<Rightarrow> bool" where
  "is_active s \<longleftrightarrow> state s \<noteq> Closed \<and> state s \<noteq> TimeWait \<and> state s \<noteq> Listen"

definition may_send :: "tcp_socket \<Rightarrow> bool" where
  "may_send s \<longleftrightarrow> state s = Established \<or> state s = CloseWait"

definition can_recv :: "tcp_socket \<Rightarrow> bool" where
  "can_recv s \<longleftrightarrow> \<not> rb_is_empty (rx_buffer s)"

definition may_recv :: "tcp_socket \<Rightarrow> bool" where
  "may_recv s \<longleftrightarrow> state s = Established \<or> state s = FinWait1 \<or> state s = FinWait2 \<or> can_recv s"

definition can_send :: "tcp_socket \<Rightarrow> bool" where
  "can_send s \<longleftrightarrow> may_send s \<and> \<not> rb_is_full (tx_buffer s)"

definition send_queue :: "tcp_socket \<Rightarrow> nat" where "send_queue s = rb_len (tx_buffer s)"
definition recv_queue :: "tcp_socket \<Rightarrow> nat" where "recv_queue s = rb_len (rx_buffer s)"

text \<open>\<open>u16::try_from(n).unwrap_or(u16::MAX)\<close>.\<close>

definition sat_u16 :: "nat \<Rightarrow> u16" where
  "sat_u16 n = (if n \<le> 65535 then of_nat n else 65535)"

text \<open>Shifts of a \<open>usize\<close>: the shift count is taken modulo 64.\<close>

definition shl_usize :: "nat \<Rightarrow> u8 \<Rightarrow> nat" where
  "shl_usize n k = push_bit (unat k mod 64) n mod 2 ^ 64"

definition shr_usize :: "nat \<Rightarrow> u8 \<Rightarrow> nat" where
  "shr_usize n k = drop_bit (unat k mod 64) n"

definition scaled_window :: "tcp_socket \<Rightarrow> u16" where
  "scaled_window s = sat_u16 (shr_usize (rb_window (rx_buffer s)) (remote_win_shift s))"

text \<open>\<open>None\<close> outside is the panic of the sequence arithmetic.\<close>

definition last_scaled_window :: "tcp_socket \<Rightarrow> u16 option option" where
  "last_scaled_window s =
     (case remote_last_ack s of
        None \<Rightarrow> Some None
      | Some last_ack \<Rightarrow> do {
          next_ack \<leftarrow> seq_add (remote_seq_no s) (rb_len (rx_buffer s));
          let last_win = shl_usize (unat (remote_last_win s)) (remote_win_shift s);
          edge \<leftarrow> seq_add last_ack last_win;
          adjusted \<leftarrow> seq_diff edge next_ack;
          Some (Some (sat_u16 (shr_usize adjusted (remote_win_shift s))))
        })"

section \<open>Opening and closing\<close>

definition listen :: "listen_endpoint \<Rightarrow> tcp_socket \<Rightarrow> (listen_error + unit) \<times> tcp_socket" where
  "listen local_ep s =
     (if lep_port local_ep = 0 then (Inl ListenUnaddressable, s)
      else if is_open s
      then if state s = Listen \<and> listen_ep s = local_ep then (Inr (), s) else (Inl ListenInvalidState, s)
      else (Inr (), set_state Listen ((socket_reset s)\<lparr>listen_ep := local_ep, tuple := None\<rparr>)))"

definition connect ::
  "iface_context \<Rightarrow> endpoint \<Rightarrow> listen_endpoint \<Rightarrow> tcp_socket \<Rightarrow>
     (connect_error + unit) \<times> tcp_socket \<times> iface_context" where
  "connect cx remote local_ep s =
     (if is_open s then (Inl ConnectInvalidState, s, cx)
      else if ep_port remote = 0 \<or> ep_addr remote = 0 then (Inl ConnectUnaddressable, s, cx)
      else if lep_port local_ep = 0 then (Inl ConnectUnaddressable, s, cx)
      else
        (case (case lep_addr local_ep of
                 Some a \<Rightarrow> if a = 0 then None else Some a
               | None \<Rightarrow> get_source_address cx (ep_addr remote)) of
           None \<Rightarrow> (Inl ConnectUnaddressable, s, cx)
         | Some a \<Rightarrow>
             let s1 = (socket_reset s)\<lparr>tuple := Some \<lparr>tup_local = \<lparr>ep_addr = a, ep_port = lep_port local_ep\<rparr>,
                                                       tup_remote = remote\<rparr>\<rparr>;
                 s2 = set_state SynSent s1;
                 (seq, cx') = random_seq_no cx
             in (Inr (), s2\<lparr>local_seq_no := seq, remote_last_seq := seq\<rparr>, cx')))"

definition close :: "tcp_socket \<Rightarrow> tcp_socket" where
  "close s = (case state s of
     Listen \<Rightarrow> set_state Closed s
   | SynSent \<Rightarrow> set_state Closed s
   | SynReceived \<Rightarrow> set_state FinWait1 s
   | Established \<Rightarrow> set_state FinWait1 s
   | CloseWait \<Rightarrow> set_state LastAck s
   | _ \<Rightarrow> s)"

definition abort :: "tcp_socket \<Rightarrow> tcp_socket" where
  "abort s = set_state Closed s"

section \<open>Sending and receiving\<close>

text \<open>The closure \<open>f\<close> returns the buffer it leaves behind, the size and the result.\<close>

definition send_impl ::
  "(u8 ring_buffer \<Rightarrow> (u8 ring_buffer \<times> nat \<times> 'r) option) \<Rightarrow> tcp_socket \<Rightarrow>
     ((send_error + 'r) \<times> tcp_socket) option" where
  "send_impl f s =
     (if \<not> may_send s then Some (Inl SendInvalidState, s)
      else do {
        let old_length = rb_len (tx_buffer s);
        (tx', size, result) \<leftarrow> f (tx_buffer s);
        let s1 = s\<lparr>tx_buffer := tx'\<rparr>;
        let s2 = (if size > 0 \<and> old_length = 0 then s1\<lparr>remote_last_ts := None\<rparr> else s1);
        let s3 = (if size > 0 \<and> remote_win_len s2 = 0 \<and> is_idle (timer s2)
                  then s2\<lparr>timer := set_for_zero_window_probe 0 (retransmission_timeout (rtte s2))\<rparr> else s2);
        Some (Inr result, s3)
      })"

definition send ::
  "(bytes \<Rightarrow> bytes \<times> nat \<times> 'r) \<Rightarrow> tcp_socket \<Rightarrow> ((send_error + 'r) \<times> tcp_socket) option" where
  "send f s = send_impl (\<lambda>tx. enqueue_many_with tx f) s"

definition send_slice :: "bytes \<Rightarrow> tcp_socket \<Rightarrow> ((send_error + nat) \<times> tcp_socket) option" where
  "send_slice data s =
     send_impl (\<lambda>tx. do { (tx', size) \<leftarrow> enqueue_slice tx data; Some (tx', size, size) }) s"

definition recv_error_check :: "tcp_socket \<Rightarrow> recv_error + unit" where
  "recv_error_check s =
     (if \<not> may_recv s then if rx_fin_received s then Inl Finished else Inl RecvInvalidState else Inr ())"

definition recv_impl ::
  "(u8 ring_buffer \<Rightarrow> (u8 ring_buffer \<times> nat \<times> 'r) option) \<Rightarrow> tcp_socket \<Rightarrow>
     ((recv_error + 'r) \<times> tcp_socket) option" where
  "recv_impl f s =
     (case recv_error_check s of
        Inl e \<Rightarrow> Some (Inl e, s)
      | Inr _ \<Rightarrow> do {
          (rx', size, result) \<leftarrow> f (rx_buffer s);
          rsn \<leftarrow> seq_add (remote_seq_no s) size;
          Some (Inr result, s\<lparr>rx_buffer := rx', remote_seq_no := rsn\<rparr>)
        })"

definition recv ::
  "(bytes \<Rightarrow> bytes \<times> nat \<times> 'r) \<Rightarrow> tcp_socket \<Rightarrow> ((recv_error + 'r) \<times> tcp_socket) option" where
  "recv f s = recv_impl (\<lambda>rx. dequeue_many_with rx f) s"

definition recv_slice :: "bytes \<Rightarrow> tcp_socket \<Rightarrow> ((recv_error + (bytes \<times> nat)) \<times> tcp_socket) option" where
  "recv_slice data s =
     recv_impl (\<lambda>rx. do { (rx', out, size) \<leftarrow> dequeue_slice rx data; Some (rx', size, (out, size)) }) s"

definition peek :: "nat \<Rightarrow> tcp_socket \<Rightarrow> (recv_error + bytes) option" where
  "peek n s =
     (case recv_error_check s of
        Inl e \<Rightarrow> Some (Inl e)
      | Inr _ \<Rightarrow> do { b \<leftarrow> get_allocated (rx_buffer s) 0 n; Some (Inr b) })"

definition peek_slice :: "bytes \<Rightarrow> tcp_socket \<Rightarrow> (recv_error + (bytes \<times> nat)) option" where
  "peek_slice data s = do { r \<leftarrow> read_allocated (rx_buffer s) 0 data; Some (Inr r) }"

end
