(* ===== verification/Tcp_Process.thy ===== *)
theory Tcp_Process
  imports Tcp_Socket
begin

text \<open>
  What the TCP socket does with a received segment: \<open>accepts\<close> and \<open>process\<close> of \<open>socket/tcp.rs\<close>, in
  the order of the source: acknowledgement check, receive window check, accounting of the
  acknowledgement, state transition, update of the send side, timers, and reassembly of the payload.
  \<open>process\<close> yields the reply to send, if any, the socket and the context afterwards; \<open>None\<close> is a
  panic.  Debug assertions are not part of the release build.
\<close>

type_synonym segment = "ip_repr \<times> tcp_repr"

text \<open>A step either returns from \<open>process\<close> early or goes on with a value.\<close>

datatype 'a flow = Ret "segment option" | Cont 'a

section \<open>Replies\<close>

definition tcp_reply :: "ip_repr \<Rightarrow> tcp_repr \<Rightarrow> segment" where
  "tcp_reply ip repr =
     (let r = \<lparr>src_port = dst_port repr, dst_port = src_port repr, control = NoControl, seq_number = 0,
               ack_number = None, window_len = 0, window_scale = None, max_seg_size = None,
               sack_permitted = False, sack_ranges = [None, None, None], timestamp = None, payload = []\<rparr>
      in (\<lparr>ip_src = ip_dst ip, ip_dst = ip_src ip, ip_payload_len = buffer_len r, ip_hop_limit = 64\<rparr>, r))"

definition rst_reply :: "ip_repr \<Rightarrow> tcp_repr \<Rightarrow> segment option" where
  "rst_reply ip repr = do {
     let (ip', r) = tcp_reply ip repr;
     let r1 = r\<lparr>control := Rst, seq_number := (case ack_number repr of Some a \<Rightarrow> a | None \<Rightarrow> 0)\<rparr>;
     if control repr = Syn \<and> ack_number repr = None
     then do { a \<leftarrow> seq_add (seq_number repr) (segment_len repr); Some (ip', r1\<lparr>ack_number := Some a\<rparr>) }
     else Some (ip', r1)
   }"

text \<open>The first assembler range, as sequence numbers, that satisfies \<open>p\<close>.\<close>

fun sack_find ::
  "seq_number \<Rightarrow> (seq_number \<Rightarrow> seq_number \<Rightarrow> bool) \<Rightarrow> (nat \<times> nat) list \<Rightarrow> (u32 \<times> u32) option option" where
  "sack_find ack p [] = Some None"
| "sack_find ack p ((l, r) # rs) = do {
     left \<leftarrow> seq_add ack l;
     right \<leftarrow> seq_add ack r;
     if p left right then Some (Some (left, right)) else sack_find ack p rs
   }"

definition sack_block :: "tcp_socket \<Rightarrow> seq_number \<Rightarrow> (u32 \<times> u32) option option" where
  "sack_block s ack = do {
     first \<leftarrow> (case local_rx_last_seq s of
        Some last_seg_seq \<Rightarrow>
          sack_find ack (\<lambda>left right. seq_le left last_seg_seq \<and> seq_ge right last_seg_seq) (iter_data (assembler s))
      | None \<Rightarrow> Some None);
     (case first of
        Some b \<Rightarrow> Some (Some b)
      | None \<Rightarrow> sack_find ack (\<lambda>_ _. True) (iter_data (assembler s)))
   }"

definition ack_reply :: "ip_repr \<Rightarrow> tcp_repr \<Rightarrow> tcp_socket \<Rightarrow> (segment \<times> tcp_socket) option" where
  "ack_reply ip repr s = do {
     let (ip', r) = tcp_reply ip repr;
     let ts = (case timestamp repr of Some t \<Rightarrow> generate_reply t (tsval_generator s) | None \<Rightarrow> None);
     ack \<leftarrow> seq_add (remote_seq_no s) (rb_len (rx_buffer s));
     let win = scaled_window s;
     let r1 = r\<lparr>timestamp := ts, seq_number := remote_last_seq s, ack_number := Some ack, window_len := win\<rparr>;
     let s1 = s\<lparr>remote_last_ack := Some ack, remote_last_win := win\<rparr>;
     r2 \<leftarrow> (if remote_has_sack s
            then do { b \<leftarrow> sack_block s1 ack; Some (r1\<lparr>sack_ranges := (sack_ranges r1)[0 := b]\<rparr>) }
            else Some r1);
     Some ((ip'\<lparr>ip_payload_len := buffer_len r2\<rparr>, r2), s1)
   }"

definition challenge_ack_reply ::
  "iface_context \<Rightarrow> ip_repr \<Rightarrow> tcp_repr \<Rightarrow> tcp_socket \<Rightarrow> (segment option \<times> tcp_socket) option" where
  "challenge_ack_reply cx ip repr s =
     (if cx_now cx < challenge_ack_timer s then Some (None, s)
      else do {
        let s1 = s\<lparr>challenge_ack_timer := instant_add (cx_now cx) (duration_from_secs 1)\<rparr>;
        (seg, s2) \<leftarrow> ack_reply ip repr s1;
        Some (Some seg, s2)
      })"

section \<open>accepts\<close>

definition accepts :: "ip_repr \<Rightarrow> tcp_repr \<Rightarrow> tcp_socket \<Rightarrow> bool" where
  "accepts ip repr s =
     (if state s = Closed then False
      else if state s = Listen \<and> (ack_number repr \<noteq> None \<or> control repr = Rst) then False
      else case tuple s of
        Some t \<Rightarrow> ip_dst ip = ep_addr (tup_local t) \<and> dst_port repr = ep_port (tup_local t) \<and>
                  ip_src ip = ep_addr (tup_remote t) \<and> src_port repr = ep_port (tup_remote t)
      | None \<Rightarrow> (case lep_addr (listen_ep s) of Some a \<Rightarrow> ip_dst ip = a | None \<Rightarrow> True) \<and>
                dst_port repr \<noteq> 0 \<and> dst_port repr = lep_port (listen_ep s))"

section \<open>Acknowledgement check\<close>

definition sent_syn :: "tcp_socket \<Rightarrow> bool" where
  "sent_syn s \<longleftrightarrow> state s \<in> {SynSent, SynReceived}"

definition sent_fin :: "tcp_socket \<Rightarrow> bool" where
  "sent_fin s \<longleftrightarrow> state s \<in> {FinWait1, LastAck, Closing}"

text \<open>The range test of the last arm of the match.\<close>

definition check_ack_range ::
  "iface_context \<Rightarrow> ip_repr \<Rightarrow> tcp_repr \<Rightarrow> seq_number \<Rightarrow> tcp_socket \<Rightarrow> (unit flow \<times> tcp_socket) option" where
  "check_ack_range cx ip repr ack s = do {
     let control_len = (if sent_syn s then 1 else 0) + (if sent_fin s then 1 else 0);
     let unacknowledged = rb_len (tx_buffer s) + control_len;
     ack_max \<leftarrow> seq_add (local_seq_no s) unacknowledged;
     let ack_min = (if sent_syn s then local_seq_no s + 1 else local_seq_no s);
     if seq_lt ack ack_min then Some (Ret None, s)
     else if seq_gt ack ack_max
     then do { (r, s1) \<leftarrow> challenge_ack_reply cx ip repr s; Some (Ret r, s1) }
     else Some (Cont (), s)
   }"

definition check_ack ::
  "iface_context \<Rightarrow> ip_repr \<Rightarrow> tcp_repr \<Rightarrow> tcp_socket \<Rightarrow> (unit flow \<times> tcp_socket) option" where
  "check_ack cx ip repr s =
     (let next_seq = local_seq_no s + 1;
          ok = Some (Cont (), s);
          drop_it = Some (Ret None, s);
          rst = do { r \<leftarrow> rst_reply ip repr; Some (Ret (Some r), s) } in
      case (state s, control repr, ack_number repr) of
        (SynSent, Rst, None) \<Rightarrow> drop_it
      | (SynSent, Rst, Some a) \<Rightarrow> if a \<noteq> next_seq then drop_it else ok
      | (_, Rst, _) \<Rightarrow> ok
      | (Listen, _, None) \<Rightarrow> ok
      | (Listen, _, Some _) \<Rightarrow> None
      | (SynSent, Syn, Some a) \<Rightarrow> if a \<noteq> next_seq then rst else ok
      | (SynSent, Syn, None) \<Rightarrow> ok
      | (SynSent, NoControl, Some a) \<Rightarrow> if a = next_seq then drop_it else rst
      | (SynSent, _, _) \<Rightarrow> drop_it
      | (_, _, None) \<Rightarrow> drop_it
      | (SynReceived, _, Some a) \<Rightarrow> if a \<noteq> next_seq then rst else ok
      | (_, _, Some a) \<Rightarrow> check_ack_range cx ip repr a s)"

section \<open>Receive window check\<close>

record rx_window =
  window_start :: seq_number
  window_end :: seq_number
  segment_start :: seq_number
  segment_end :: seq_number

definition receive_window :: "tcp_repr \<Rightarrow> tcp_socket \<Rightarrow> rx_window option" where
  "receive_window repr s = do {
     ws \<leftarrow> seq_add (remote_seq_no s) (rb_len (rx_buffer s));
     we \<leftarrow> (case remote_last_ack s of
        Some last_ack \<Rightarrow> seq_add last_ack (shl_usize (unat (remote_last_win s)) (remote_win_shift s))
      | None \<Rightarrow> Some ws);
     se \<leftarrow> seq_add (seq_number repr) (length (payload repr));
     Some \<lparr>window_start = ws, window_end = we, segment_start = seq_number repr, segment_end = se\<rparr>
   }"

definition segment_in_window :: "rx_window \<Rightarrow> bool" where
  "segment_in_window w =
     (let empty_segment = (segment_start w = segment_end w);
          empty_window = (window_start w = window_end w) in
      if empty_segment \<and> segment_end w = window_start w - 1 then False
      else if empty_segment \<and> empty_window then window_start w = segment_start w
      else if empty_segment then seq_le (window_start w) (segment_start w) \<and> seq_lt (segment_start w) (window_end w)
      else if empty_window then False
      else (seq_le (window_start w) (segment_start w) \<and> seq_lt (segment_start w) (window_end w)) \<or>
           (seq_lt (window_start w) (segment_end w) \<and> seq_le (segment_end w) (window_end w)))"

text \<open>The part of the payload inside the window and its offset from the window's start.\<close>

definition clip_payload :: "rx_window \<Rightarrow> bytes \<Rightarrow> (bytes \<times> nat) option" where
  "clip_payload w data = do {
     let overlap_start = seq_max (window_start w) (segment_start w);
     let overlap_end = seq_min (window_end w) (segment_end w);
     a \<leftarrow> seq_diff overlap_start (segment_start w);
     b \<leftarrow> seq_diff overlap_end (segment_start w);
     part \<leftarrow> slice data a b;
     offset \<leftarrow> seq_diff overlap_start (window_start w);
     Some (part, offset)
   }"

definition check_window ::
  "iface_context \<Rightarrow> ip_repr \<Rightarrow> tcp_repr \<Rightarrow> rx_window \<Rightarrow> tcp_socket \<Rightarrow>
     ((bytes \<times> nat) flow \<times> tcp_socket) option" where
  "check_window cx ip repr w s =
     (if state s \<in> {Listen, SynSent} then Some (Cont ([], 0), s)
      else if segment_in_window w
      then do {
        c \<leftarrow> clip_payload w (payload repr);
        Some (Cont c, s\<lparr>local_rx_last_seq := Some (seq_number repr)\<rparr>)
      }
      else do {
        let s1 = (if state s = TimeWait then s\<lparr>timer := set_for_close (cx_now cx)\<rparr> else s);
        (r, s2) \<leftarrow> challenge_ack_reply cx ip repr s1;
        Some (Ret r, s2)
      })"

section \<open>Accounting of the acknowledgement\<close>

record ack_info =
  ack_len :: nat
  ack_of_fin :: bool
  ack_all :: bool

definition account_ack ::
  "iface_context \<Rightarrow> tcp_repr \<Rightarrow> tcp_socket \<Rightarrow> (ack_info \<times> tcp_socket) option" where
  "account_ack cx repr s =
     (let none = \<lparr>ack_len = 0, ack_of_fin = False, ack_all = False\<rparr> in
      case (if control repr = Rst then None else ack_number repr) of
        None \<Rightarrow> Some (none, s)
      | Some ack \<Rightarrow> do {
          let tx_start = (if sent_syn s then local_seq_no s + 1 else local_seq_no s);
          i \<leftarrow> (if seq_ge ack tx_start
               then do {
                 n \<leftarrow> seq_diff ack tx_start;
                 let fin = (sent_fin s \<and> rb_len (tx_buffer s) + 1 = n);
                 Some \<lparr>ack_len = (if fin then n - 1 else n), ack_of_fin = fin,
                       ack_all = seq_le (remote_last_seq s) ack\<rparr>
               }
               else Some none);
          Some (i, s\<lparr>rtte := rtte_on_ack (cx_now cx) ack (rtte s)\<rparr>)
        })"

text \<open>PSH is ignored, and a FIN while data before the segment is missing.\<close>

definition effective_control :: "rx_window \<Rightarrow> tcp_repr \<Rightarrow> control" where
  "effective_control w repr =
     (let c = quash_psh (control repr) in
      if c = Fin \<and> seq_lt (window_start w) (segment_start w) then NoControl else c)"

section \<open>State transition\<close>

text \<open>The parts shared by the SYN arms: the peer's options.\<close>

definition learn_options :: "tcp_repr \<Rightarrow> tcp_socket \<Rightarrow> tcp_socket" where
  "learn_options repr s =
     (let s1 = s\<lparr>remote_has_sack := sack_permitted repr, remote_win_scale := window_scale repr\<rparr>;
          s2 = (if window_scale repr = None then s1\<lparr>remote_win_shift := 0\<rparr> else s1)
      in if timestamp repr = None then s2\<lparr>tsval_generator := None\<rparr> else s2)"

definition listen_syn ::
  "iface_context \<Rightarrow> ip_repr \<Rightarrow> tcp_repr \<Rightarrow> tcp_socket \<Rightarrow> unit flow \<times> tcp_socket \<times> iface_context" where
  "listen_syn cx ip repr s =
     (if max_seg_size repr = Some 0 then (Ret None, s, cx)
      else
        let s1 = (case max_seg_size repr of Some m \<Rightarrow> s\<lparr>remote_mss := unat m\<rparr> | None \<Rightarrow> s);
            (seq, cx') = random_seq_no cx;
            s2 = s1\<lparr>tuple := Some \<lparr>tup_local = \<lparr>ep_addr = ip_dst ip, ep_port = dst_port repr\<rparr>,
                                    tup_remote = \<lparr>ep_addr = ip_src ip, ep_port = src_port repr\<rparr>\<rparr>,
                    local_seq_no := seq, remote_seq_no := seq_number repr + 1, remote_last_seq := seq\<rparr>;
            s3 = set_state SynReceived (learn_options repr s2)
        in (Cont (), s3\<lparr>timer := set_for_idle (cx_now cx) (keep_alive s3)\<rparr>, cx'))"

definition syn_sent_syn :: "tcp_repr \<Rightarrow> tcp_socket \<Rightarrow> unit flow \<times> tcp_socket" where
  "syn_sent_syn repr s =
     (if max_seg_size repr = Some 0 then (Ret None, s)
      else
        let s1 = (case max_seg_size repr of Some m \<Rightarrow> s\<lparr>remote_mss := unat m\<rparr> | None \<Rightarrow> s);
            s2 = s1\<lparr>remote_seq_no := seq_number repr + 1, remote_last_seq := local_seq_no s1 + 1,
                    remote_last_ack := Some (seq_number repr)\<rparr>;
            s3 = learn_options repr s2
        in (Cont (), set_state (if ack_number repr \<noteq> None then Established else SynReceived) s3))"

text \<open>A FIN takes one sequence number and ends the peer's data.\<close>

definition got_fin :: "tcp_socket \<Rightarrow> tcp_socket" where
  "got_fin s = s\<lparr>remote_seq_no := remote_seq_no s + 1, rx_fin_received := True\<rparr>"

definition enter_time_wait :: "iface_context \<Rightarrow> tcp_socket \<Rightarrow> tcp_socket" where
  "enter_time_wait cx s = (set_state TimeWait s)\<lparr>timer := set_for_close (cx_now cx)\<rparr>"

definition transition ::
  "iface_context \<Rightarrow> ip_repr \<Rightarrow> tcp_repr \<Rightarrow> control \<Rightarrow> ack_info \<Rightarrow> tcp_socket \<Rightarrow>
     (unit flow \<times> tcp_socket \<times> iface_context) option" where
  "transition cx ip repr ctl a s =
     (let go = (\<lambda>s'. Some (Cont (), s', cx)) in
      case (state s, ctl) of
        (Listen, Rst) \<Rightarrow> Some (Ret None, s, cx)
      | (SynReceived, Rst) \<Rightarrow>
          if lep_port (listen_ep s) \<noteq> 0
          then Some (Ret None, set_state Listen (s\<lparr>tuple := None\<rparr>), cx)
          else Some (Ret None, (set_state Closed s)\<lparr>tuple := None\<rparr>, cx)
      | (_, Rst) \<Rightarrow> Some (Ret None, (set_state Closed s)\<lparr>tuple := None\<rparr>, cx)
      | (Listen, Syn) \<Rightarrow> Some (listen_syn cx ip repr s)
      | (SynReceived, NoControl) \<Rightarrow> go (set_state Established s)
      | (SynReceived, Fin) \<Rightarrow> go (set_state CloseWait (got_fin s))
      | (SynSent, Syn) \<Rightarrow> (let (f, s') = syn_sent_syn repr s in Some (f, s', cx))
      | (Established, NoControl) \<Rightarrow> go s
      | (Established, Fin) \<Rightarrow> go (set_state CloseWait (got_fin s))
      | (FinWait1, NoControl) \<Rightarrow> go (if ack_of_fin a then set_state FinWait2 s else s)
      | (FinWait1, Fin) \<Rightarrow>
          go (if ack_of_fin a then enter_time_wait cx (got_fin s) else set_state Closing (got_fin s))
      | (FinWait2, NoControl) \<Rightarrow> go s
      | (FinWait2, Fin) \<Rightarrow> go (enter_time_wait cx (got_fin s))
      | (Closing, NoControl) \<Rightarrow> go (if ack_of_fin a then enter_time_wait cx s else s)
      | (CloseWait, NoControl) \<Rightarrow> go s
      | (LastAck, NoControl) \<Rightarrow>
          if ack_of_fin a then go ((set_state Closed s)\<lparr>tuple := None\<rparr>)
          else if ack_len a = 0
          then do { (r, s1) \<leftarrow> challenge_ack_reply cx ip repr s; Some (Ret r, s1, cx) }
          else go s
      | _ \<Rightarrow> Some (Ret None, s, cx))"

section \<open>Update of the send side\<close>

definition new_remote_window :: "tcp_repr \<Rightarrow> tcp_socket \<Rightarrow> nat" where
  "new_remote_window repr s =
     shl_usize (unat (window_len repr))
       (if control repr = Syn then 0 else case remote_win_scale s of Some k \<Rightarrow> k | None \<Rightarrow> 0)"

text \<open>Duplicate acknowledgements and the advance of \<open>local_seq_no\<close>.\<close>

definition advance_ack :: "tcp_repr \<Rightarrow> seq_number \<Rightarrow> bool \<Rightarrow> tcp_socket \<Rightarrow> tcp_socket" where
  "advance_ack repr ack is_window_update s =
     (let dup = (case local_rx_last_ack s of
             Some la \<Rightarrow> payload repr = [] \<and> la = ack \<and> seq_lt ack (remote_last_seq s) \<and> \<not> is_window_update
           | None \<Rightarrow> False);
          s1 = (if dup
                then let n = (if local_rx_dup_acks s = 255 then 255 else local_rx_dup_acks s + 1);
                         s' = s\<lparr>local_rx_dup_acks := n\<rparr>
                     in if n = 3 then s'\<lparr>timer := set_for_fast_retransmit\<rparr> else s'
                else s\<lparr>local_rx_dup_acks := 0, local_rx_last_ack := Some ack\<rparr>);
          s2 = s1\<lparr>local_seq_no := ack\<rparr>
      in if seq_lt (remote_last_seq s2) (local_seq_no s2) then s2\<lparr>remote_last_seq := local_seq_no s2\<rparr> else s2)"

definition update_send_side ::
  "iface_context \<Rightarrow> tcp_repr \<Rightarrow> ack_info \<Rightarrow> tcp_socket \<Rightarrow> tcp_socket option" where
  "update_send_side cx repr a s = do {
     let s1 = s\<lparr>remote_last_ts := Some (cx_now cx)\<rparr>;
     let win = new_remote_window repr s1;
     let is_window_update = (win \<noteq> remote_win_len s1);
     let s2 = s1\<lparr>remote_win_len := win\<rparr>;
     s3 \<leftarrow> (if ack_len a > 0
           then do { tx \<leftarrow> dequeue_allocated (tx_buffer s2) (ack_len a); Some (s2\<lparr>tx_buffer := tx\<rparr>) }
           else Some s2);
     let s4 = (case ack_number repr of Some ack \<Rightarrow> advance_ack repr ack is_window_update s3 | None \<Rightarrow> s3);
     Some (case timestamp repr of Some t \<Rightarrow> s4\<lparr>last_remote_tsval := tsval t\<rparr> | None \<Rightarrow> s4)
   }"

section \<open>Timers\<close>

definition update_timers :: "iface_context \<Rightarrow> ack_info \<Rightarrow> tcp_socket \<Rightarrow> tcp_socket" where
  "update_timers cx a s =
     (let idle = set_for_idle (cx_now cx) (keep_alive s);
          s1 = (case timer s of
                  Retransmit _ \<Rightarrow>
                    if ack_all a then s\<lparr>timer := idle\<rparr>
                    else if ack_len a > 0
                    then s\<lparr>timer := set_for_retransmit (cx_now cx) (retransmission_timeout (rtte s)) (timer s)\<rparr>
                    else s
                | FastRetransmit \<Rightarrow>
                    if ack_all a then s\<lparr>timer := idle\<rparr>
                    else if ack_len a > 0
                    then s\<lparr>timer := set_for_retransmit (cx_now cx) (retransmission_timeout (rtte s)) (timer s)\<rparr>
                    else s
                | TimerIdle _ \<Rightarrow> s\<lparr>timer := idle\<rparr>
                | _ \<Rightarrow> s);
          s2 = (if remote_win_len s1 = 0 \<and> \<not> rb_is_empty (tx_buffer s1) \<and> (is_idle (timer s1) \<or> ack_len a > 0)
                then s1\<lparr>timer := set_for_zero_window_probe (cx_now cx) (retransmission_timeout (rtte s1))\<rparr> else s1)
      in if remote_win_len s2 \<noteq> 0 \<and> is_zero_window_probe (timer s2) then s2\<lparr>timer := idle\<rparr> else s2)"

section \<open>Payload\<close>

definition ack_to_transmit :: "tcp_socket \<Rightarrow> bool option" where
  "ack_to_transmit s =
     (case remote_last_ack s of
        None \<Rightarrow> Some False
      | Some la \<Rightarrow> do { n \<leftarrow> seq_add (remote_seq_no s) (rb_len (rx_buffer s)); Some (seq_lt la n) })"

definition immediate_ack_to_transmit :: "tcp_socket \<Rightarrow> bool option" where
  "immediate_ack_to_transmit s =
     (case remote_last_ack s of
        None \<Rightarrow> Some False
      | Some la \<Rightarrow> do {
          m \<leftarrow> seq_add la (remote_mss s);
          n \<leftarrow> seq_add (remote_seq_no s) (rb_len (rx_buffer s));
          Some (seq_lt m n)
        })"

definition update_ack_delay :: "iface_context \<Rightarrow> tcp_socket \<Rightarrow> tcp_socket option" where
  "update_ack_delay cx s =
     (case ack_delay s of
        None \<Rightarrow> Some s
      | Some d \<Rightarrow> do {
          want \<leftarrow> ack_to_transmit s;
          if \<not> want then Some s
          else (case ack_delay_tm s of
              AckIdle \<Rightarrow> Some (s\<lparr>ack_delay_tm := Waiting (instant_add (cx_now cx) d)\<rparr>)
            | Waiting t \<Rightarrow> do {
                i \<leftarrow> immediate_ack_to_transmit s;
                Some (if i then s\<lparr>ack_delay_tm := Immediate\<rparr> else s)
              }
            | Immediate \<Rightarrow> Some s)
        })"

definition receive_payload ::
  "iface_context \<Rightarrow> ip_repr \<Rightarrow> tcp_repr \<Rightarrow> bytes \<Rightarrow> nat \<Rightarrow> tcp_socket \<Rightarrow> (segment option \<times> tcp_socket) option" where
  "receive_payload cx ip repr data offset s =
     (if data = [] then Some (None, s)
      else case add_then_remove_front (assembler s) offset (length data) of
        Inl _ \<Rightarrow> Some (None, s)
      | Inr (asm', contig_len) \<Rightarrow> do {
          let assembler_was_empty = asm_is_empty (assembler s);
          (rx1, _) \<leftarrow> write_unallocated (rx_buffer s) offset data;
          rx2 \<leftarrow> (if contig_len \<noteq> 0 then enqueue_unallocated rx1 contig_len else Some rx1);
          let s1 = s\<lparr>assembler := asm', rx_buffer := rx2\<rparr>;
          s2 \<leftarrow> update_ack_delay cx s1;
          if \<not> asm_is_empty (assembler s2) \<or> \<not> assembler_was_empty
          then do { (seg, s3) \<leftarrow> ack_reply ip repr s2; Some (Some seg, s3) }
          else Some (None, s2)
        })"

section \<open>process\<close>

text \<open>The part after the window check.\<close>

definition process_in_window ::
  "iface_context \<Rightarrow> ip_repr \<Rightarrow> tcp_repr \<Rightarrow> rx_window \<Rightarrow> bytes \<Rightarrow> nat \<Rightarrow> tcp_socket \<Rightarrow>
     (segment option \<times> tcp_socket \<times> iface_context) option" where
  "process_in_window cx ip repr w data offset s = do {
     (a, s1) \<leftarrow> account_ack cx repr s;
     (f, s2, cx') \<leftarrow> transition cx ip repr (effective_control w repr) a s1;
     (case f of
        Ret r \<Rightarrow> Some (r, s2, cx')
      | Cont _ \<Rightarrow> do {
          s3 \<leftarrow> update_send_side cx repr a s2;
          let s4 = update_timers cx a s3;
          (r, s5) \<leftarrow> receive_payload cx ip repr data offset s4;
          Some (r, s5, cx')
        })
   }"

definition process ::
  "iface_context \<Rightarrow> ip_repr \<Rightarrow> tcp_repr \<Rightarrow> tcp_socket \<Rightarrow> (segment option \<times> tcp_socket \<times> iface_context) option" where
  "process cx ip repr s = do {
     (f, s1) \<leftarrow> check_ack cx ip repr s;
     (case f of
        Ret r \<Rightarrow> Some (r, s1, cx)
      | Cont _ \<Rightarrow> do {
          w \<leftarrow> receive_window repr s1;
          (g, s2) \<leftarrow> check_window cx ip repr w s1;
          (case g of
             Ret r \<Rightarrow> Some (r, s2, cx)
           | Cont (data, offset) \<Rightarrow> process_in_window cx ip repr w data offset s2)
        })
   }"

end
