(* ===== verification/Tcp_Dispatch.thy ===== *)
theory Tcp_Dispatch
  imports Tcp_Process
begin

text \<open>
  What the TCP socket sends: \<open>dispatch\<close> and \<open>poll_at\<close> of \<open>socket/tcp.rs\<close>, in the order of the source:
  the checks of the source address and of the timers, the decision whether to send, the construction
  of the segment, and the update after it was handed to the device.  The closure \<open>emit\<close> is the
  device's verdict on the segment; \<open>None\<close> is a panic.  \<open>cx.ip_mtu() - 20 - 20\<close> is a difference of
  natural numbers: the interface has an IP MTU of at least 40 (1500 for the application's device).
\<close>

section \<open>Deciding\<close>

definition timed_out :: "instant \<Rightarrow> tcp_socket \<Rightarrow> bool" where
  "timed_out ts s = (case (remote_last_ts s, timeout s) of
     (Some t, Some d) \<Rightarrow> ts \<ge> instant_add t d | _ \<Rightarrow> False)"

definition want_fin :: "tcp_socket \<Rightarrow> bool" where
  "want_fin s \<longleftrightarrow> state s \<in> {FinWait1, Closing, LastAck}"

definition local_mss :: "iface_context \<Rightarrow> nat" where
  "local_mss cx = cx_ip_mtu cx - IPV4_HEADER_LEN - TCP_HEADER_LEN"

text \<open>\<open>NoControl\<close> has the window \<open>usize::MAX\<close>.\<close>

definition congestion_window :: nat where "congestion_window = 2 ^ 64 - 1"

definition seq_to_transmit :: "iface_context \<Rightarrow> tcp_socket \<Rightarrow> bool option" where
  "seq_to_transmit cx s = do {
     assert_that (tuple s \<noteq> None);
     let effective_mss = min (local_mss cx) (remote_mss s);
     let data_in_flight = (remote_last_seq s \<noteq> local_seq_no s);
     if state s \<in> {SynSent, SynReceived} \<and> \<not> data_in_flight then Some True
     else do {
       max_send_seq \<leftarrow> seq_add (local_seq_no s) (min (remote_win_len s) (rb_len (tx_buffer s)));
       m \<leftarrow> (if seq_ge max_send_seq (remote_last_seq s)
            then seq_diff max_send_seq (remote_last_seq s) else Some 0);
       let max_send = min m congestion_window;
       let can_send_full = (max_send \<ge> effective_mss);
       let can = (if nagle s \<and> data_in_flight \<and> \<not> can_send_full \<and> \<not> want_fin s then False
                  else max_send \<noteq> 0);
       fin_seq \<leftarrow> (if want_fin s then seq_add (local_seq_no s) (rb_len (tx_buffer s)) else Some 0);
       Some (can \<or> (want_fin s \<and> remote_last_seq s = fin_seq))
     }
   }"

definition delayed_ack_expired :: "instant \<Rightarrow> tcp_socket \<Rightarrow> bool" where
  "delayed_ack_expired ts s = (case ack_delay_tm s of AckIdle \<Rightarrow> True | Waiting t \<Rightarrow> t \<le> ts | Immediate \<Rightarrow> True)"

definition window_to_update :: "tcp_socket \<Rightarrow> bool option" where
  "window_to_update s =
     (if state s \<in> {SynSent, SynReceived, Established, FinWait1, FinWait2}
      then do {
        let new_win = scaled_window s;
        lw \<leftarrow> last_scaled_window s;
        Some (case lw of Some last_win \<Rightarrow> new_win > 0 \<and> new_win div 2 \<ge> last_win | None \<Rightarrow> False)
      }
      else Some False)"

datatype decision = SendNow | CloseNow | SendNothing

definition decide :: "iface_context \<Rightarrow> tcp_socket \<Rightarrow> decision option" where
  "decide cx s = do {
     a \<leftarrow> seq_to_transmit cx s;
     if a then Some SendNow
     else do {
       b \<leftarrow> ack_to_transmit s;
       if b \<and> delayed_ack_expired (cx_now cx) s then Some SendNow
       else do {
         c \<leftarrow> window_to_update s;
         Some (if c then SendNow
               else if state s = Closed then SendNow
               else if should_keep_alive (timer s) (cx_now cx) then SendNow
               else if should_zero_window_probe (timer s) (cx_now cx) then SendNow
               else if should_close (timer s) (cx_now cx) then CloseNow
               else SendNothing)
       }
     }
   }"

text \<open>The timers that change the state before anything is sent.\<close>

definition run_timers :: "iface_context \<Rightarrow> tcp_socket \<Rightarrow> tcp_socket option" where
  "run_timers cx s = do {
     let s1 = (if remote_last_ts s = None then s\<lparr>remote_last_ts := Some (cx_now cx)\<rparr> else s);
     if timed_out (cx_now cx) s1 then Some (set_state Closed s1)
     else do {
       t \<leftarrow> seq_to_transmit cx s1;
       Some (if \<not> t \<and> should_retransmit (timer s1) (cx_now cx)
             then s1\<lparr>remote_last_seq := local_seq_no s1,
                     timer := set_for_idle (cx_now cx) (keep_alive s1),
                     rtte := rtte_on_retransmit (rtte s1)\<rparr>
             else s1)
     }
   }"

section \<open>Building the segment\<close>

definition base_repr :: "tcp_tuple \<Rightarrow> tcp_socket \<Rightarrow> tcp_repr option" where
  "base_repr t s = do {
     ack \<leftarrow> seq_add (remote_seq_no s) (rb_len (rx_buffer s));
     Some \<lparr>src_port = ep_port (tup_local t), dst_port = ep_port (tup_remote t), control = NoControl,
           seq_number = remote_last_seq s, ack_number = Some ack, window_len = scaled_window s,
           window_scale = None, max_seg_size = None, sack_permitted = False,
           sack_ranges = [None, None, None],
           timestamp = generate_reply_with_tsval (tsval_generator s) (last_remote_tsval s), payload = []\<rparr>
   }"

definition syn_repr :: "tcp_socket \<Rightarrow> tcp_repr \<Rightarrow> tcp_repr" where
  "syn_repr s r =
     (let r1 = r\<lparr>control := Syn, seq_number := local_seq_no s, window_len := sat_u16 (rb_window (rx_buffer s))\<rparr>
      in if state s = SynSent
         then r1\<lparr>ack_number := None, window_scale := Some (remote_win_shift s), sack_permitted := True\<rparr>
         else r1\<lparr>sack_permitted := remote_has_sack s,
                 window_scale := map_option (\<lambda>_. remote_win_shift s) (remote_win_scale s)\<rparr>)"

text \<open>Data from the transmit buffer, as much as the peer's window, its MSS and the MTU allow; the
  second result says whether it is a zero-window probe.\<close>

definition data_repr :: "iface_context \<Rightarrow> tcp_socket \<Rightarrow> tcp_repr \<Rightarrow> (tcp_repr \<times> bool) option" where
  "data_repr cx s r = do {
     win_right_edge \<leftarrow> seq_add (local_seq_no s) (remote_win_len s);
     l \<leftarrow> (if seq_ge win_right_edge (remote_last_seq s)
          then seq_diff win_right_edge (remote_last_seq s) else Some 0);
     let probe = (l = 0 \<and> should_zero_window_probe (timer s) (cx_now cx));
     let win_limit = (if probe then 1 else l);
     let sz = min (min win_limit (remote_mss s)) (local_mss cx);
     offset \<leftarrow> seq_diff (remote_last_seq s) (local_seq_no s);
     data \<leftarrow> get_allocated (tx_buffer s) offset sz;
     let r1 = r\<lparr>payload := data\<rparr>;
     Some (if offset + length data = rb_len (tx_buffer s)
           then if state s \<in> {FinWait1, LastAck, Closing} then r1\<lparr>control := Fin\<rparr>
                else if state s \<in> {Established, CloseWait} \<and> data \<noteq> [] then r1\<lparr>control := Psh\<rparr>
                else r1
           else r1, probe)
   }"

text \<open>\<open>None\<close> inside: the LISTEN state sends nothing.\<close>

definition build_repr :: "iface_context \<Rightarrow> tcp_tuple \<Rightarrow> tcp_socket \<Rightarrow> (tcp_repr \<times> bool) option option" where
  "build_repr cx t s = do {
     r \<leftarrow> base_repr t s;
     (case state s of
        Closed \<Rightarrow> Some (Some (r\<lparr>control := Rst\<rparr>, False))
      | Listen \<Rightarrow> Some None
      | SynSent \<Rightarrow> Some (Some (syn_repr s r, False))
      | SynReceived \<Rightarrow> Some (Some (syn_repr s r, False))
      | FinWait2 \<Rightarrow> Some (Some (r, False))
      | TimeWait \<Rightarrow> Some (Some (r, False))
      | _ \<Rightarrow> do { d \<leftarrow> data_repr cx s r; Some (Some d) })
   }"

text \<open>The keep-alive probe and the MSS option of a SYN.\<close>

definition finish_repr :: "iface_context \<Rightarrow> tcp_socket \<Rightarrow> tcp_repr \<Rightarrow> tcp_repr \<times> bool" where
  "finish_repr cx s r =
     (let is_keep_alive = (should_keep_alive (timer s) (cx_now cx) \<and> repr_is_empty r);
          r1 = (if is_keep_alive then r\<lparr>seq_number := seq_number r - 1, payload := [0]\<rparr> else r);
          r2 = (if control r1 = Syn then r1\<lparr>max_seg_size := Some (of_nat (local_mss cx))\<rparr> else r1)
      in (r2, is_keep_alive))"

section \<open>dispatch\<close>

datatype dispatch_result = Quiet | Emitted segment | EmitFailed segment

text \<open>The state after the segment went out.\<close>

definition after_emit ::
  "iface_context \<Rightarrow> tcp_repr \<Rightarrow> bool \<Rightarrow> bool \<Rightarrow> tcp_socket \<Rightarrow> tcp_socket option" where
  "after_emit cx r probe is_keep_alive s = do {
     let s1 = s\<lparr>timer := rewind_keep_alive (cx_now cx) (keep_alive s) (timer s), ack_delay_tm := AckIdle\<rparr>;
     if probe then Some (s1\<lparr>timer := rewind_zero_window_probe (cx_now cx) (timer s1)\<rparr>)
     else if is_keep_alive then Some s1
     else do {
       seq_end \<leftarrow> seq_add (seq_number r) (segment_len r);
       let s2 = s1\<lparr>remote_last_seq := seq_end, remote_last_ack := ack_number r, remote_last_win := window_len r\<rparr>;
       let s3 = (if segment_len r > 0 then s2\<lparr>rtte := rtte_on_send (cx_now cx) seq_end (rtte s2)\<rparr> else s2);
       let s4 = (if segment_len r > 0 \<and> \<not> is_retransmit (timer s3)
                 then s3\<lparr>timer := set_for_retransmit (cx_now cx) (retransmission_timeout (rtte s3)) (timer s3)\<rparr>
                 else s3);
       Some (if state s4 = Closed then s4\<lparr>tuple := None\<rparr> else s4)
     }
   }"

definition dispatch ::
  "iface_context \<Rightarrow> (segment \<Rightarrow> bool) \<Rightarrow> tcp_socket \<Rightarrow> (dispatch_result \<times> tcp_socket) option" where
  "dispatch cx emit s =
     (case tuple s of
        None \<Rightarrow> Some (Quiet, s)
      | Some t \<Rightarrow>
          if \<not> has_ip_addr cx (ep_addr (tup_local t)) then Some (Quiet, socket_reset s)
          else do {
            s1 \<leftarrow> run_timers cx s;
            d \<leftarrow> decide cx s1;
            (case d of
               CloseNow \<Rightarrow> Some (Quiet, socket_reset s1)
             | SendNothing \<Rightarrow> Some (Quiet, s1)
             | SendNow \<Rightarrow> do {
                 b \<leftarrow> build_repr cx t s1;
                 (case b of
                    None \<Rightarrow> Some (Quiet, s1)
                  | Some (r, probe) \<Rightarrow> do {
                      let (r1, is_keep_alive) = finish_repr cx s1 r;
                      let ip = \<lparr>ip_src = ep_addr (tup_local t), ip_dst = ep_addr (tup_remote t),
                                ip_payload_len = buffer_len r1,
                                ip_hop_limit = (case hop_limit s1 of Some h \<Rightarrow> h | None \<Rightarrow> 64)\<rparr>;
                      if emit (ip, r1)
                      then do { s2 \<leftarrow> after_emit cx r1 probe is_keep_alive s1; Some (Emitted (ip, r1), s2) }
                      else Some (EmitFailed (ip, r1), s1)
                    })
               })
          })"

section \<open>poll_at\<close>

definition poll_at :: "iface_context \<Rightarrow> tcp_socket \<Rightarrow> poll_at option" where
  "poll_at cx s =
     (if tuple s = None then Some Ingress
      else if remote_last_ts s = None then Some Now
      else if state s = Closed then Some Now
      else do {
        a \<leftarrow> seq_to_transmit cx s;
        if a then Some Now
        else do {
          c \<leftarrow> window_to_update s;
          if c then Some Now
          else do {
            want_ack \<leftarrow> ack_to_transmit s;
            let delayed = (if \<not> want_ack then Ingress
                           else case ack_delay_tm s of AckIdle \<Rightarrow> Now | Waiting t \<Rightarrow> Time t | Immediate \<Rightarrow> Now);
            let timeout_at = (case (remote_last_ts s, timeout s) of
                (Some t, Some d) \<Rightarrow> Time (instant_add t d) | _ \<Rightarrow> Ingress);
            Some (poll_min (poll_min (timer_poll_at (timer s)) timeout_at) delayed)
          }
        }
      })"

end
