(* ===== verification/Tcp_States.thy ===== *)
theory Tcp_States
  imports Tcp_Dispatch
begin

text \<open>
  The state machine of the TCP socket.  Frame lemmas say which parts of the socket the steps of
  \<open>process\<close> and \<open>dispatch\<close> leave alone; on them rest the facts that a segment moves the socket only
  along the edges of the RFC 793 diagram, that a connection becomes established only by an exact
  acknowledgement of its SYN, and the structural invariant of every reachable socket.
\<close>

section \<open>What the replies leave alone\<close>

text \<open>The last acknowledgement and window sent are the old ones, or those of the present buffer.\<close>

definition acked :: "tcp_socket \<Rightarrow> tcp_socket \<Rightarrow> bool" where
  "acked s s' \<longleftrightarrow> (remote_last_ack s' = remote_last_ack s \<and> remote_last_win s' = remote_last_win s) \<or>
     (\<exists>ack. seq_add (remote_seq_no s) (rb_len (rx_buffer s)) = Some ack \<and>
        remote_last_ack s' = Some ack \<and> remote_last_win s' = scaled_window s)"

lemma acked_same: "remote_last_ack s' = remote_last_ack s \<Longrightarrow> remote_last_win s' = remote_last_win s \<Longrightarrow> acked s s'"
  by (simp add: acked_def)

definition core_eq :: "tcp_socket \<Rightarrow> tcp_socket \<Rightarrow> bool" where
  "core_eq s s' \<longleftrightarrow> state s' = state s \<and> tuple s' = tuple s \<and> listen_ep s' = listen_ep s \<and>
     rx_buffer s' = rx_buffer s \<and> tx_buffer s' = tx_buffer s \<and> assembler s' = assembler s \<and>
     local_seq_no s' = local_seq_no s \<and> remote_seq_no s' = remote_seq_no s \<and>
     remote_last_seq s' = remote_last_seq s \<and> remote_win_shift s' = remote_win_shift s \<and>
     remote_win_len s' = remote_win_len s \<and> remote_mss s' = remote_mss s \<and>
     rtte s' = rtte s \<and> rx_fin_received s' = rx_fin_received s \<and> acked s s'"

lemma core_eq_refl [simp]: "core_eq s s"
  by (simp add: core_eq_def acked_same)

lemma core_eq_trans: "core_eq s s1 \<Longrightarrow> core_eq s1 s2 \<Longrightarrow> core_eq s s2"
  by (auto simp: core_eq_def acked_def scaled_window_def)

lemma ack_reply_frame:
  assumes "ack_reply ip repr s = Some (seg, s')"
  obtains ack where "seq_add (remote_seq_no s) (rb_len (rx_buffer s)) = Some ack"
    "s' = s\<lparr>remote_last_ack := Some ack, remote_last_win := scaled_window s\<rparr>"
  using assms unfolding ack_reply_def Let_def split_beta bind_eq_Some_conv by (elim exE conjE) simp

lemma ack_reply_core: "ack_reply ip repr s = Some (seg, s') \<Longrightarrow> core_eq s s'"
  by (erule ack_reply_frame) (simp add: core_eq_def acked_def)

lemma challenge_ack_reply_core:
  assumes "challenge_ack_reply cx ip repr s = Some (r, s')"
  shows "core_eq s s'"
proof (cases "cx_now cx < challenge_ack_timer s")
  case True
  then show ?thesis using assms by (simp add: challenge_ack_reply_def)
next
  case False
  then obtain seg where a: "ack_reply ip repr
      (s\<lparr>challenge_ack_timer := instant_add (cx_now cx) (duration_from_secs 1)\<rparr>) = Some (seg, s')"
    using assms by (auto simp: challenge_ack_reply_def bind_eq_Some_conv Let_def)
  have "core_eq s (s\<lparr>challenge_ack_timer := instant_add (cx_now cx) (duration_from_secs 1)\<rparr>)"
    by (simp add: core_eq_def acked_same)
  then show ?thesis using core_eq_trans ack_reply_core[OF a] by blast
qed

lemma check_ack_range_core: "check_ack_range cx ip repr a s = Some (f, s') \<Longrightarrow> core_eq s s'"
  by (auto simp: check_ack_range_def bind_eq_Some_conv Let_def dest: challenge_ack_reply_core split: if_splits)

lemma check_ack_core: "check_ack cx ip repr s = Some (f, s') \<Longrightarrow> core_eq s s'"
  unfolding check_ack_def Let_def
  by (cases "state s"; cases "control repr"; cases "ack_number repr")
    (auto simp: bind_eq_Some_conv dest: check_ack_range_core split: if_splits)

lemma check_ack_Cont: "check_ack cx ip repr s = Some (Cont u, s') \<Longrightarrow> s' = s"
  unfolding check_ack_def Let_def
  by (cases "state s"; cases "control repr"; cases "ack_number repr")
    (auto simp: check_ack_range_def Let_def bind_eq_Some_conv split: if_splits)

lemma check_window_core: "check_window cx ip repr w s = Some (f, s') \<Longrightarrow> core_eq s s'"
proof -
  assume a: "check_window cx ip repr w s = Some (f, s')"
  have "core_eq s (s\<lparr>timer := t\<rparr>)" "core_eq s (s\<lparr>local_rx_last_seq := q\<rparr>)" for t q
    by (simp_all add: core_eq_def acked_same)
  then show ?thesis using a
    by (auto simp: check_window_def bind_eq_Some_conv Let_def
        dest!: challenge_ack_reply_core intro: core_eq_trans split: if_splits)
qed

lemma account_ack_frame:
  "account_ack cx repr s = Some (a, s') \<Longrightarrow> s' = s\<lparr>rtte := rtte s'\<rparr>"
  by (auto simp: account_ack_def bind_eq_Some_conv Let_def split: option.splits if_splits)

lemma account_ack_rtte: "account_ack cx repr s = Some (a, s') \<Longrightarrow> \<exists>r. s' = s\<lparr>rtte := r\<rparr>"
  using account_ack_frame by blast

section \<open>Edges\<close>

text \<open>The transitions of RFC 793 on the arrival of a segment.\<close>

fun segment_edge :: "tcp_state \<Rightarrow> tcp_state \<Rightarrow> bool" where
  "segment_edge Listen t = (t \<in> {SynReceived})"
| "segment_edge SynSent t = (t \<in> {Established, SynReceived, Closed})"
| "segment_edge SynReceived t = (t \<in> {Established, CloseWait, Listen, Closed})"
| "segment_edge Established t = (t \<in> {CloseWait, Closed})"
| "segment_edge FinWait1 t = (t \<in> {FinWait2, Closing, TimeWait, Closed})"
| "segment_edge FinWait2 t = (t \<in> {TimeWait, Closed})"
| "segment_edge Closing t = (t \<in> {TimeWait, Closed})"
| "segment_edge CloseWait t = (t \<in> {Closed})"
| "segment_edge LastAck t = (t \<in> {Closed})"
| "segment_edge TimeWait t = (t \<in> {Closed})"
| "segment_edge Closed t = False"

lemma learn_options_state [simp]: "state (learn_options repr s) = state s"
  by (simp add: learn_options_def Let_def)

lemma transition_state:
  assumes "transition cx ip repr ctl a s = Some (f, s', cx')"
  shows "state s' = state s \<or> segment_edge (state s) (state s')"
proof -
  have c: "challenge_ack_reply cx ip repr s = Some (r, s1) \<Longrightarrow> state s1 = state s" for r s1
    using challenge_ack_reply_core by (auto simp: core_eq_def)
  show ?thesis
    using assms unfolding transition_def Let_def
    by (cases "state s"; cases ctl)
      (auto simp: set_state_def got_fin_def enter_time_wait_def listen_syn_def syn_sent_syn_def
        bind_eq_Some_conv Let_def dest!: c split: if_splits option.splits prod.splits)
qed

lemma advance_ack_state [simp]: "state (advance_ack repr ack w s) = state s"
  by (simp add: advance_ack_def Let_def)

lemma update_send_side_state: "update_send_side cx repr a s = Some s' \<Longrightarrow> state s' = state s"
  by (auto simp: update_send_side_def bind_eq_Some_conv Let_def split: option.splits if_splits)

lemma update_timers_frame: "update_timers cx a s = s\<lparr>timer := timer (update_timers cx a s)\<rparr>"
  by (simp add: update_timers_def Let_def split: timer.splits)

text \<open>What the reception of payload leaves alone.\<close>

definition send_eq :: "tcp_socket \<Rightarrow> tcp_socket \<Rightarrow> bool" where
  "send_eq s s' \<longleftrightarrow> state s' = state s \<and> tuple s' = tuple s \<and> listen_ep s' = listen_ep s \<and>
     tx_buffer s' = tx_buffer s \<and> local_seq_no s' = local_seq_no s \<and> remote_seq_no s' = remote_seq_no s \<and>
     remote_last_seq s' = remote_last_seq s \<and> remote_win_shift s' = remote_win_shift s \<and>
     remote_win_len s' = remote_win_len s \<and> remote_mss s' = remote_mss s \<and>
     rtte s' = rtte s \<and> rx_fin_received s' = rx_fin_received s"

lemma core_send_eq: "core_eq s s' \<Longrightarrow> send_eq s s'"
  by (simp add: core_eq_def send_eq_def)

lemma send_eq_trans: "send_eq s s1 \<Longrightarrow> send_eq s1 s2 \<Longrightarrow> send_eq s s2"
  by (simp add: send_eq_def)

lemma send_eq_rx [simp]: "send_eq s (s\<lparr>assembler := a, rx_buffer := b\<rparr>)" "send_eq s s"
  by (simp_all add: send_eq_def)

lemma update_ack_delay_frame:
  "update_ack_delay cx s = Some s' \<Longrightarrow> \<exists>t. s' = s\<lparr>ack_delay_tm := t\<rparr>"
proof -
  have i: "\<exists>t. s = s\<lparr>ack_delay_tm := t\<rparr>" by (rule exI[of _ "ack_delay_tm s"]) simp
  assume "update_ack_delay cx s = Some s'"
  then show ?thesis using i unfolding update_ack_delay_def
    by (auto simp: bind_eq_Some_conv split: option.splits ack_delay_timer.splits if_splits)
qed

lemma update_ack_delay_core: "update_ack_delay cx s = Some s' \<Longrightarrow> core_eq s s'"
  by (drule update_ack_delay_frame) (auto simp: core_eq_def acked_same)

lemma receive_payload_split:
  assumes "receive_payload cx ip repr data offset s = Some (r, s')" "data \<noteq> []"
    "add_then_remove_front (assembler s) offset (length data) = Inr (asm', n)"
  obtains rx1 k rx2 s2 where "write_unallocated (rx_buffer s) offset data = Some (rx1, k)"
    "(if n \<noteq> 0 then enqueue_unallocated rx1 n else Some rx1) = Some rx2"
    "update_ack_delay cx (s\<lparr>assembler := asm', rx_buffer := rx2\<rparr>) = Some s2" "core_eq s2 s'"
proof -
  obtain rx1 k rx2 s2 where w: "write_unallocated (rx_buffer s) offset data = Some (rx1, k)"
    "(if n \<noteq> 0 then enqueue_unallocated rx1 n else Some rx1) = Some rx2"
    "update_ack_delay cx (s\<lparr>assembler := asm', rx_buffer := rx2\<rparr>) = Some s2"
    and t: "(if \<not> asm_is_empty (assembler s2) \<or> \<not> asm_is_empty (assembler s)
       then do { (seg, s3) \<leftarrow> ack_reply ip repr s2; Some (Some seg, s3) } else Some (None, s2)) = Some (r, s')"
    using assms unfolding receive_payload_def Let_def by (auto simp: bind_eq_Some_conv)
  have "core_eq s2 s'"
    using t by (auto simp: bind_eq_Some_conv dest: ack_reply_core split: if_splits)
  then show thesis using that w by blast
qed

lemma receive_payload_send_eq:
  assumes "receive_payload cx ip repr data offset s = Some (r, s')"
  shows "send_eq s s'"
proof (cases "data = [] \<or> (\<exists>e. add_then_remove_front (assembler s) offset (length data) = Inl e)")
  case True
  then show ?thesis using assms unfolding receive_payload_def by (auto split: if_splits)
next
  case False
  then obtain asm' n where a: "data \<noteq> []" "add_then_remove_front (assembler s) offset (length data) = Inr (asm', n)"
    by (metis sum.exhaust prod.exhaust)
  obtain rx1 k rx2 s2 where w:
    "update_ack_delay cx (s\<lparr>assembler := asm', rx_buffer := rx2\<rparr>) = Some s2" "core_eq s2 s'"
    by (rule receive_payload_split[OF assms a]) blast
  have "send_eq (s\<lparr>assembler := asm', rx_buffer := rx2\<rparr>) s2" "send_eq s2 s'"
    using update_ack_delay_core[OF w(1)] w(2) by (auto intro: core_send_eq)
  then show ?thesis using send_eq_rx send_eq_trans by meson
qed

text \<open>The stages of \<open>process\<close>.\<close>

lemma process_cases:
  assumes "process cx ip repr s = Some (r, s', cx')"
  obtains (rejected) "core_eq s s'" "cx' = cx"
  | (stopped) w data offset s1 a s2 where "check_ack cx ip repr s = Some (Cont (), s)"
      "receive_window repr s = Some w" "check_window cx ip repr w s = Some (Cont (data, offset), s1)"
      "account_ack cx repr s1 = Some (a, s2)"
      "transition cx ip repr (effective_control w repr) a s2 = Some (Ret r, s', cx')"
  | (processed) w data offset s1 a s2 s3 s4 where "check_ack cx ip repr s = Some (Cont (), s)"
      "receive_window repr s = Some w" "check_window cx ip repr w s = Some (Cont (data, offset), s1)"
      "account_ack cx repr s1 = Some (a, s2)"
      "transition cx ip repr (effective_control w repr) a s2 = Some (Cont (), s3, cx')"
      "update_send_side cx repr a s3 = Some s4"
      "receive_payload cx ip repr data offset (update_timers cx a s4) = Some (r, s')"
proof -
  obtain f s0 where f: "check_ack cx ip repr s = Some (f, s0)"
    using assms by (auto simp: process_def bind_eq_Some_conv)
  show thesis
  proof (cases f)
    case (Ret x)
    then show thesis using assms f check_ack_core[OF f] rejected by (simp add: process_def)
  next
    case (Cont u)
    then have s0: "s0 = s" using check_ack_Cont f by blast
    obtain w g s1 where w: "receive_window repr s = Some w" "check_window cx ip repr w s = Some (g, s1)"
      using assms f Cont s0 by (auto simp: process_def bind_eq_Some_conv)
    show thesis
    proof (cases g)
      case (Ret x)
      then show thesis using assms f w Cont s0 check_window_core[OF w(2)] rejected by (simp add: process_def)
    next
      case g: (Cont d)
      obtain data offset where d: "d = (data, offset)" by (cases d)
      have p: "process_in_window cx ip repr w data offset s1 = Some (r, s', cx')"
        using assms f w Cont s0 g d by (simp add: process_def)
      obtain a s2 h s3 cx2 where a: "account_ack cx repr s1 = Some (a, s2)"
        "transition cx ip repr (effective_control w repr) a s2 = Some (h, s3, cx2)"
        using p by (auto simp: process_in_window_def bind_eq_Some_conv)
      have c: "check_ack cx ip repr s = Some (Cont (), s)" using f Cont s0 by simp
      show thesis
      proof (cases h)
        case (Ret x)
        then show thesis using p a stopped[OF c w(1) w(2)[unfolded g d] a(1)] by (simp add: process_in_window_def)
      next
        case h: (Cont v)
        then obtain s4 where "update_send_side cx repr a s3 = Some s4"
          "receive_payload cx ip repr data offset (update_timers cx a s4) = Some (r, s')" "cx2 = cx'"
          using p a by (auto simp: process_in_window_def bind_eq_Some_conv Let_def)
        then show thesis using processed[OF c w(1) w(2)[unfolded g d] a(1)] a(2) h by simp
      qed
    qed
  qed
qed

lemma update_timers_state [simp]: "state (update_timers cx a s) = state s"
  by (subst update_timers_frame) simp

lemma process_state:
  assumes "process cx ip repr s = Some (r, s', cx')"
  shows "state s' = state s \<or> segment_edge (state s) (state s')"
  using assms
proof (cases rule: process_cases)
  case rejected
  then show ?thesis by (simp add: core_eq_def)
next
  case (stopped w data offset s1 a s2)
  have "state s2 = state s"
    using check_window_core[OF stopped(3)] account_ack_rtte[OF stopped(4)] by (auto simp: core_eq_def)
  then show ?thesis using transition_state[OF stopped(5)] by simp
next
  case (processed w data offset s1 a s2 s3 s4)
  have "state s2 = state s"
    using check_window_core[OF processed(3)] account_ack_rtte[OF processed(4)] by (auto simp: core_eq_def)
  moreover have "state s' = state s3"
    using update_send_side_state[OF processed(6)] receive_payload_send_eq[OF processed(7)]
    by (simp add: send_eq_def)
  ultimately show ?thesis using transition_state[OF processed(5)] by simp
qed

section \<open>Sending and the state\<close>

lemma run_timers_state:
  "run_timers cx s = Some s' \<Longrightarrow> state s' = state s \<or> state s' = Closed"
  by (auto simp: run_timers_def Let_def bind_eq_Some_conv set_state_def split: if_splits)

text \<open>The segment's effect on the sequence bookkeeping.\<close>

definition note_sent :: "iface_context \<Rightarrow> tcp_repr \<Rightarrow> seq_number \<Rightarrow> tcp_socket \<Rightarrow> tcp_socket" where
  "note_sent cx r seq_end s1 =
     (let s2 = s1\<lparr>remote_last_seq := seq_end, remote_last_ack := ack_number r, remote_last_win := window_len r\<rparr>;
          s3 = (if segment_len r > 0 then s2\<lparr>rtte := rtte_on_send (cx_now cx) seq_end (rtte s2)\<rparr> else s2);
          s4 = (if segment_len r > 0 \<and> \<not> is_retransmit (timer s3)
                then s3\<lparr>timer := set_for_retransmit (cx_now cx) (retransmission_timeout (rtte s3)) (timer s3)\<rparr>
                else s3)
      in if state s4 = Closed then s4\<lparr>tuple := None\<rparr> else s4)"

lemma note_sent_fields [simp]:
  "state (note_sent cx r q s) = state s" "rx_buffer (note_sent cx r q s) = rx_buffer s"
  "tx_buffer (note_sent cx r q s) = tx_buffer s" "assembler (note_sent cx r q s) = assembler s"
  "listen_ep (note_sent cx r q s) = listen_ep s" "local_seq_no (note_sent cx r q s) = local_seq_no s"
  "remote_last_seq (note_sent cx r q s) = q" "rto_ok (rtte (note_sent cx r q s)) = rto_ok (rtte s)"
  "remote_seq_no (note_sent cx r q s) = remote_seq_no s" "remote_last_ack (note_sent cx r q s) = ack_number r"
  "remote_last_win (note_sent cx r q s) = window_len r" "remote_win_shift (note_sent cx r q s) = remote_win_shift s"
  "tuple (note_sent cx r q s) = (if state s = Closed then None else tuple s)"
  by (simp_all add: note_sent_def Let_def)

lemma after_emit_eq:
  "after_emit cx r p k s =
     (let s1 = s\<lparr>timer := rewind_keep_alive (cx_now cx) (keep_alive s) (timer s), ack_delay_tm := AckIdle\<rparr> in
      if p then Some (s1\<lparr>timer := rewind_zero_window_probe (cx_now cx) (timer s1)\<rparr>)
      else if k then Some s1
      else map_option (\<lambda>q. note_sent cx r q s1) (seq_add (seq_number r) (segment_len r)))"
  unfolding after_emit_def note_sent_def Let_def map_conv_bind_option comp_def by (rule refl)

lemma after_emit_state: "after_emit cx r p k s = Some s' \<Longrightarrow> state s' = state s"
  by (auto simp: after_emit_eq Let_def split: if_splits)

lemma socket_reset_state [simp]: "state (socket_reset s) = Closed"
  by (simp add: socket_reset_def)

lemma dispatch_cases:
  assumes "dispatch cx emit s = Some (d, s')"
  obtains (idle) "s' = s" "d = Quiet"
  | (reset) s1 where "s1 = s \<or> run_timers cx s = Some s1" "s' = socket_reset s1" "d = Quiet"
  | (quiet) "run_timers cx s = Some s'" "d = Quiet"
  | (failed) seg where "run_timers cx s = Some s'" "d = EmitFailed seg"
  | (sent) t s1 r p r1 k ip where "tuple s = Some t" "run_timers cx s = Some s1" "decide cx s1 = Some SendNow"
      "build_repr cx t s1 = Some (Some (r, p))" "finish_repr cx s1 r = (r1, k)"
      "after_emit cx r1 p k s1 = Some s'" "d = Emitted (ip, r1)"
proof (cases "tuple s")
  case None
  then show thesis using assms idle by (simp add: dispatch_def)
next
  case (Some t)
  show thesis
  proof (cases "has_ip_addr cx (ep_addr (tup_local t))")
    case False
    then show thesis using assms Some reset[of s] by (simp add: dispatch_def)
  next
    case True
    then obtain s1 e where s1: "run_timers cx s = Some s1" "decide cx s1 = Some e"
      using assms Some by (auto simp: dispatch_def bind_eq_Some_conv)
    show thesis
    proof (cases e)
      case CloseNow
      then show thesis using assms Some True s1 reset[of s1] by (simp add: dispatch_def)
    next
      case SendNothing
      then show thesis using assms Some True s1 quiet by (simp add: dispatch_def)
    next
      case SendNow
      then obtain b where b: "build_repr cx t s1 = Some b"
        using assms Some True s1 by (auto simp: dispatch_def bind_eq_Some_conv)
      show thesis
      proof (cases b)
        case None
        then show thesis using assms Some True s1 SendNow b quiet by (simp add: dispatch_def)
      next
        case bs: (Some rp)
        obtain r p where rp: "rp = (r, p)" by (cases rp)
        obtain r1 k where f: "finish_repr cx s1 r = (r1, k)" by (cases "finish_repr cx s1 r")
        from assms Some True s1 SendNow b bs rp f show thesis
          by (auto simp: dispatch_def Let_def bind_eq_Some_conv split: if_splits
              intro: failed sent[OF Some s1(1) _ _ f])
      qed
    qed
  qed
qed

lemma dispatch_state:
  assumes "dispatch cx emit s = Some (d, s')"
  shows "state s' = state s \<or> state s' = Closed"
  using assms
proof (cases rule: dispatch_cases)
  case (sent t s1 r p r1 k ip)
  then show ?thesis using run_timers_state after_emit_state by metis
qed (auto dest: run_timers_state)

section \<open>The structural invariant\<close>

definition sk_inv :: "tcp_socket \<Rightarrow> bool" where
  "sk_inv s \<longleftrightarrow> rb_wf (rx_buffer s) \<and> rb_wf (tx_buffer s) \<and> asm_wf (assembler s) \<and> rto_ok (rtte s) \<and>
     (state s \<noteq> Closed \<and> state s \<noteq> Listen \<longrightarrow> tuple s \<noteq> None) \<and>
     (state s = Listen \<longrightarrow> tuple s = None \<and> lep_port (listen_ep s) \<noteq> 0)"

lemma sk_inv_core: "core_eq s s' \<Longrightarrow> sk_inv s \<Longrightarrow> sk_inv s'"
  by (simp add: core_eq_def sk_inv_def)

lemma asm_new_wf [simp]: "asm_wf (asm_new 4)"
  by (simp add: asm_wf_def asm_new_def used_ok_def contig_empty_def has_data_def numeral_eq_Suc)

lemma sk_inv_reset: "sk_inv s \<Longrightarrow> sk_inv (socket_reset s)"
  by (simp add: sk_inv_def socket_reset_def rb_clear_wf)

lemma sk_inv_new: "rb_wf rx \<Longrightarrow> rb_wf tx \<Longrightarrow> socket_new rx tx = Some s \<Longrightarrow> sk_inv s"
  by (auto simp: socket_new_def sk_inv_def split: if_splits)

lemma learn_options_fields [simp]:
  "tuple (learn_options repr s) = tuple s" "listen_ep (learn_options repr s) = listen_ep s"
  "rx_buffer (learn_options repr s) = rx_buffer s" "tx_buffer (learn_options repr s) = tx_buffer s"
  "assembler (learn_options repr s) = assembler s" "rtte (learn_options repr s) = rtte s"
  "local_seq_no (learn_options repr s) = local_seq_no s" "remote_seq_no (learn_options repr s) = remote_seq_no s"
  "remote_last_seq (learn_options repr s) = remote_last_seq s" "remote_last_ack (learn_options repr s) = remote_last_ack s"
  by (simp_all add: learn_options_def Let_def)

lemma sk_inv_transition:
  assumes "transition cx ip repr ctl a s = Some (f, s', cx')" "sk_inv s"
  shows "sk_inv s'"
proof -
  have c: "challenge_ack_reply cx ip repr s = Some (r, s1) \<Longrightarrow> sk_inv s1" for r s1
    using challenge_ack_reply_core sk_inv_core assms(2) by blast
  show ?thesis
    using assms unfolding transition_def Let_def
    by (cases "state s"; cases ctl)
      (auto simp: sk_inv_def[of s] set_state_def got_fin_def enter_time_wait_def listen_syn_def syn_sent_syn_def
        bind_eq_Some_conv Let_def dest!: c split: if_splits option.splits prod.splits, simp_all add: sk_inv_def)
qed

lemma advance_ack_fields [simp]:
  "tuple (advance_ack repr ack w s) = tuple s" "listen_ep (advance_ack repr ack w s) = listen_ep s"
  "rx_buffer (advance_ack repr ack w s) = rx_buffer s" "tx_buffer (advance_ack repr ack w s) = tx_buffer s"
  "assembler (advance_ack repr ack w s) = assembler s" "rtte (advance_ack repr ack w s) = rtte s"
  "local_seq_no (advance_ack repr ack w s) = ack" "remote_seq_no (advance_ack repr ack w s) = remote_seq_no s"
  "remote_last_ack (advance_ack repr ack w s) = remote_last_ack s" "remote_last_win (advance_ack repr ack w s) = remote_last_win s"
  "remote_win_shift (advance_ack repr ack w s) = remote_win_shift s" "remote_mss (advance_ack repr ack w s) = remote_mss s"
  "remote_win_len (advance_ack repr ack w s) = remote_win_len s"
  by (simp_all add: advance_ack_def Let_def)

lemma dequeue_allocated_Some:
  assumes "rb_wf rb" "dequeue_allocated rb n = Some rb'"
  shows "n \<le> rlength rb \<and> rb_wf rb' \<and> rlength rb' = rlength rb - n \<and> rb_list rb' = drop n (rb_list rb) \<and>
    storage rb' = storage rb"
proof -
  have n: "n \<le> rlength rb" using assms(2) by (auto simp: dequeue_allocated_def rb_len_def split: if_splits)
  obtain rb1 where "dequeue_allocated rb n = Some rb1" "rb_wf rb1" "storage rb1 = storage rb"
    "rlength rb1 = rlength rb - n" "rb_list rb1 = drop n (rb_list rb)"
    by (rule dequeue_allocated_correct[OF assms(1) n])
  then show ?thesis using assms(2) n by simp
qed

definition tx_after :: "ack_info \<Rightarrow> tcp_socket \<Rightarrow> u8 ring_buffer option" where
  "tx_after a s = (if ack_len a > 0 then dequeue_allocated (tx_buffer s) (ack_len a) else Some (tx_buffer s))"

text \<open>The send-side update with the transmit buffer \<open>tx\<close> after the acknowledgement.\<close>

definition with_ack :: "iface_context \<Rightarrow> tcp_repr \<Rightarrow> u8 ring_buffer \<Rightarrow> tcp_socket \<Rightarrow> tcp_socket" where
  "with_ack cx repr tx s =
     (let win = new_remote_window repr s;
          s3 = s\<lparr>remote_last_ts := Some (cx_now cx), remote_win_len := win, tx_buffer := tx\<rparr>;
          s4 = (case ack_number repr of Some ack \<Rightarrow> advance_ack repr ack (win \<noteq> remote_win_len s) s3 | None \<Rightarrow> s3)
      in (case timestamp repr of Some t \<Rightarrow> s4\<lparr>last_remote_tsval := tsval t\<rparr> | None \<Rightarrow> s4))"

lemma with_ack_fields [simp]:
  "state (with_ack cx repr tx s) = state s" "tuple (with_ack cx repr tx s) = tuple s"
  "listen_ep (with_ack cx repr tx s) = listen_ep s" "rx_buffer (with_ack cx repr tx s) = rx_buffer s"
  "tx_buffer (with_ack cx repr tx s) = tx" "assembler (with_ack cx repr tx s) = assembler s"
  "rtte (with_ack cx repr tx s) = rtte s" "remote_seq_no (with_ack cx repr tx s) = remote_seq_no s"
  "remote_last_ack (with_ack cx repr tx s) = remote_last_ack s"
  "remote_last_win (with_ack cx repr tx s) = remote_last_win s"
  "remote_win_shift (with_ack cx repr tx s) = remote_win_shift s" "remote_mss (with_ack cx repr tx s) = remote_mss s"
  "remote_win_len (with_ack cx repr tx s) = new_remote_window repr s"
  "local_seq_no (with_ack cx repr tx s) = (case ack_number repr of Some a \<Rightarrow> a | None \<Rightarrow> local_seq_no s)"
  by (simp_all add: with_ack_def Let_def split: option.splits)

lemma new_remote_window_ts [simp]:
  "new_remote_window repr (s\<lparr>remote_last_ts := t\<rparr>) = new_remote_window repr s"
  by (simp add: new_remote_window_def)

lemma tx_buffer_same [simp]:
  "s\<lparr>remote_last_ts := t, remote_win_len := w, tx_buffer := tx_buffer s\<rparr> = s\<lparr>remote_last_ts := t, remote_win_len := w\<rparr>"
  by simp

lemma update_send_side_eq:
  "update_send_side cx repr a s = map_option (\<lambda>tx. with_ack cx repr tx s) (tx_after a s)"
  unfolding update_send_side_def tx_after_def with_ack_def Let_def
  by (cases "0 < ack_len a"; cases "dequeue_allocated (tx_buffer s) (ack_len a)";
      cases "ack_number repr"; cases "timestamp repr") simp_all

lemma tx_after_wf:
  assumes "rb_wf (tx_buffer s)" "tx_after a s = Some tx"
  shows "ack_len a \<le> rlength (tx_buffer s) \<and> rb_wf tx \<and> rlength tx = rlength (tx_buffer s) - ack_len a \<and>
    rb_list tx = drop (ack_len a) (rb_list (tx_buffer s)) \<and> storage tx = storage (tx_buffer s)"
  using assms dequeue_allocated_Some[of "tx_buffer s" "ack_len a" tx] by (auto simp: tx_after_def split: if_splits)

lemma sk_inv_update_send_side:
  assumes "update_send_side cx repr a s = Some s'" "sk_inv s"
  shows "sk_inv s'"
proof -
  obtain tx where "tx_after a s = Some tx" "s' = with_ack cx repr tx s"
    using assms(1) by (auto simp: update_send_side_eq)
  then show ?thesis using assms(2) tx_after_wf[of s a tx] by (simp add: sk_inv_def)
qed

lemma sk_inv_update_timers: "sk_inv s \<Longrightarrow> sk_inv (update_timers cx a s)"
  by (subst update_timers_frame) (simp add: sk_inv_def)

text \<open>A payload that does not fit is not written.\<close>

lemma write_unallocated_beyond:
  assumes "rb_wf rb" "offset > rb_window rb"
  shows "write_unallocated rb offset data = Some (rb, 0)"
  using assms by (simp add: write_unallocated_def get_unallocated_def copy_at_def Let_def)

lemma write_unallocated_total:
  assumes "rb_wf rb"
  obtains rb' n where "write_unallocated rb offset data = Some (rb', n)" "rb_wf rb'"
    "rlength rb' = rlength rb" "length (storage rb') = length (storage rb)"
proof (cases "offset \<le> rb_window rb")
  case True
  then show thesis using that write_unallocated_correct[OF assms, of offset data] by metis
next
  case False
  then show thesis using that write_unallocated_beyond[OF assms, of offset data] assms by simp
qed

lemma enqueue_unallocated_Some:
  assumes "rb_wf rb" "enqueue_unallocated rb n = Some rb'"
  shows "n \<le> rb_window rb \<and> rb_wf rb' \<and> rlength rb' = rlength rb + n \<and> storage rb' = storage rb"
proof -
  have n: "n \<le> rb_window rb" using assms(2) by (auto simp: enqueue_unallocated_def split: if_splits)
  then show ?thesis using enqueue_unallocated_correct[OF assms(1) n] assms(2) by (metis option.inject)
qed

lemma sk_inv_receive_payload:
  assumes "receive_payload cx ip repr data offset s = Some (r, s')" "sk_inv s"
  shows "sk_inv s'"
proof (cases "data = [] \<or> (\<exists>e. add_then_remove_front (assembler s) offset (length data) = Inl e)")
  case True
  then show ?thesis using assms unfolding receive_payload_def by (auto split: if_splits)
next
  case False
  then obtain asm' n where a: "data \<noteq> []" "add_then_remove_front (assembler s) offset (length data) = Inr (asm', n)"
    by (metis sum.exhaust prod.exhaust)
  obtain rx1 k rx2 s2 where w: "write_unallocated (rx_buffer s) offset data = Some (rx1, k)"
    "(if n \<noteq> 0 then enqueue_unallocated rx1 n else Some rx1) = Some rx2"
    "update_ack_delay cx (s\<lparr>assembler := asm', rx_buffer := rx2\<rparr>) = Some s2" "core_eq s2 s'"
    by (rule receive_payload_split[OF assms(1) a])
  have "rb_wf rx1" using write_unallocated_total[of "rx_buffer s" offset data] assms(2) w(1)
    by (auto simp: sk_inv_def)
  then have "rb_wf rx2" using w(2) enqueue_unallocated_Some by (auto split: if_splits)
  moreover have "asm_wf asm'" using add_then_remove_front_correct(1)[OF _ a(2)] assms(2) by (simp add: sk_inv_def)
  ultimately have "sk_inv (s\<lparr>assembler := asm', rx_buffer := rx2\<rparr>)" using assms(2) by (simp add: sk_inv_def)
  then show ?thesis using sk_inv_core update_ack_delay_core[OF w(3)] w(4) by blast
qed

lemma sk_inv_rtte_on_ack: "sk_inv s \<Longrightarrow> sk_inv (s\<lparr>rtte := rtte_on_ack t q (rtte s)\<rparr>)"
  by (simp add: sk_inv_def)

lemma sk_inv_account_ack:
  assumes "account_ack cx repr s = Some (a, s')" "sk_inv s"
  shows "sk_inv s'"
  using assms by (auto simp: account_ack_def bind_eq_Some_conv Let_def sk_inv_rtte_on_ack split: option.splits if_splits)

lemma sk_inv_process:
  assumes "process cx ip repr s = Some (r, s', cx')" "sk_inv s"
  shows "sk_inv s'"
  using assms
proof (cases rule: process_cases)
  case rejected
  then show ?thesis using sk_inv_core assms(2) by blast
next
  case (stopped w data offset s1 a s2)
  have "sk_inv s1" using sk_inv_core[OF check_window_core[OF stopped(3)] assms(2)] .
  then show ?thesis using sk_inv_account_ack[OF stopped(4)] sk_inv_transition[OF stopped(5)] by blast
next
  case (processed w data offset s1 a s2 s3 s4)
  have "sk_inv s1" using sk_inv_core[OF check_window_core[OF processed(3)] assms(2)] .
  then have "sk_inv s4" using sk_inv_account_ack[OF processed(4)] sk_inv_transition[OF processed(5)]
      sk_inv_update_send_side[OF processed(6)] by blast
  then show ?thesis using sk_inv_update_timers sk_inv_receive_payload[OF processed(7)] by blast
qed

lemma sk_inv_run_timers: "run_timers cx s = Some s' \<Longrightarrow> sk_inv s \<Longrightarrow> sk_inv s'"
  by (auto simp: run_timers_def Let_def bind_eq_Some_conv set_state_def sk_inv_def split: if_splits)

lemma sk_inv_dispatch:
  assumes "dispatch cx emit s = Some (d, s')" "sk_inv s"
  shows "sk_inv s'"
  using assms
proof (cases rule: dispatch_cases)
  case (reset s1)
  then show ?thesis using sk_inv_reset sk_inv_run_timers assms(2) by blast
next
  case (sent t s1 r p r1 k ip)
  have "sk_inv s1" using sk_inv_run_timers[OF sent(2) assms(2)] .
  then show ?thesis using sent(6) by (auto simp: after_emit_eq Let_def sk_inv_def split: if_splits)
qed (use assms(2) sk_inv_run_timers in blast)+

section \<open>The calls of the application\<close>

lemma sk_inv_set_options:
  assumes "sk_inv s"
  shows "sk_inv (set_timeout d s)" "sk_inv (set_ack_delay d s)" "sk_inv (set_nagle_enabled b s)"
    "sk_inv (set_keep_alive d s)" "sk_inv (set_tsval_generator g s)"
    "set_hop_limit h s = Some s' \<Longrightarrow> sk_inv s'"
  using assms by (auto simp: sk_inv_def set_timeout_def set_ack_delay_def set_nagle_enabled_def
      set_keep_alive_def set_tsval_generator_def set_hop_limit_def Let_def split: if_splits)

lemma sk_inv_listen: "sk_inv s \<Longrightarrow> sk_inv (snd (listen ep s))"
  using sk_inv_reset[of s] by (auto simp: listen_def sk_inv_def set_state_def)

lemma sk_inv_connect: "sk_inv s \<Longrightarrow> sk_inv (fst (snd (connect cx remote ep s)))"
  using sk_inv_reset[of s]
  by (auto simp: connect_def sk_inv_def set_state_def Let_def split: option.splits prod.splits)

lemma sk_inv_close: "sk_inv s \<Longrightarrow> sk_inv (close s)"
  by (auto simp: close_def sk_inv_def set_state_def split: tcp_state.splits)

lemma sk_inv_abort: "sk_inv s \<Longrightarrow> sk_inv (abort s)"
  by (simp add: abort_def sk_inv_def set_state_def)

lemma send_impl_frame:
  assumes "send_impl f s = Some (r, s')"
  shows "s' = s \<or> (\<exists>tx n u. f (tx_buffer s) = Some (tx, n, u) \<and> may_send s \<and> r = Inr u \<and>
    s' = s\<lparr>tx_buffer := tx, remote_last_ts := remote_last_ts s', timer := timer s'\<rparr>)"
  using assms by (auto simp: send_impl_def bind_eq_Some_conv Let_def split: if_splits)

lemma recv_impl_frame:
  assumes "recv_impl f s = Some (r, s')"
  shows "s' = s \<or> (\<exists>rx n u q. f (rx_buffer s) = Some (rx, n, u) \<and> seq_add (remote_seq_no s) n = Some q \<and>
    r = Inr u \<and> s' = s\<lparr>rx_buffer := rx, remote_seq_no := q\<rparr>)"
  using assms by (auto simp: recv_impl_def bind_eq_Some_conv split: sum.splits)

lemma sk_inv_send:
  assumes "send_impl f s = Some (r, s')" "sk_inv s"
    and "\<And>tx n u. f (tx_buffer s) = Some (tx, n, u) \<Longrightarrow> rb_wf tx"
  shows "sk_inv s'"
  using send_impl_frame[OF assms(1)]
proof (elim disjE exE conjE)
  fix tx n u
  assume f: "f (tx_buffer s) = Some (tx, n, u)"
    and s': "s' = s\<lparr>tx_buffer := tx, remote_last_ts := remote_last_ts s', timer := timer s'\<rparr>"
  show ?thesis using assms(2) assms(3)[OF f] by (subst s') (simp add: sk_inv_def)
qed (use assms in simp)

lemma sk_inv_recv:
  assumes "recv_impl f s = Some (r, s')" "sk_inv s"
    and "\<And>rx n u. f (rx_buffer s) = Some (rx, n, u) \<Longrightarrow> rb_wf rx"
  shows "sk_inv s'"
  using recv_impl_frame[OF assms(1)] assms(2,3) by (auto simp: sk_inv_def)

lemma enqueue_slice_wf:
  assumes "rb_wf rb" "enqueue_slice rb data = Some (rb', n)"
  shows "rb_wf rb'"
  by (rule enqueue_slice_correct[OF assms(1), of data]) (use assms(2) in simp)

lemma enqueue_many_with_wf:
  assumes "rb_wf rb" "closure_ok f" "enqueue_many_with rb f = Some (rb', n, u)"
  shows "rb_wf rb'"
  by (rule enqueue_many_with_correct[OF assms(1,2)]) (use assms(3) in simp)

lemma dequeue_slice_wf:
  assumes "rb_wf rb" "dequeue_slice rb data = Some (rb', out, n)"
  shows "rb_wf rb'"
  by (rule dequeue_slice_correct[OF assms(1), of data]) (use assms(2) in simp)

lemma dequeue_many_with_wf:
  assumes wf: "rb_wf rb" and f: "closure_ok f" and d: "dequeue_many_with rb f = Some (rb', n, u)"
  shows "rb_wf rb'"
proof -
  let ?m = "min (rlength rb) (length (storage rb) - read_at rb)"
  define buf where "buf = take ?m (drop (read_at rb) (storage rb))"
  obtain buf' k r where fb: "f buf = (buf', k, r)" by (metis prod_cases3)
  have ra: "read_at rb + ?m \<le> length (storage rb)"
    using wf by (auto simp: rb_wf_def max_def split: if_splits)
  have "length buf' = ?m" "k \<le> ?m"
    using f fb ra by (auto simp: closure_ok_def split_beta buf_def dest: spec[of _ buf])
  moreover have "rb' = rb\<lparr>storage := overwrite (storage rb) (read_at rb) buf',
      read_at := (if rb_capacity rb > 0 then (read_at rb + k) mod rb_capacity rb else 0), rlength := rlength rb - k\<rparr>"
    using d ra fb calculation unfolding dequeue_many_with_def Let_def
    by (auto simp: rb_len_def rb_capacity_def slice_def buf_def[symmetric])
  ultimately show ?thesis
    using wf ra by (auto simp: rb_wf_def rb_capacity_def less_max_iff_disj)
qed

section \<open>Reachable sockets\<close>

text \<open>One step of a socket: a call of the application, a segment handed in by the interface (which
  asks \<open>accepts\<close> first) or an attempt to send.  The closures of \<open>send\<close> and \<open>recv\<close> report a size
  within the slice they are given.\<close>

inductive tcp_step :: "tcp_socket \<Rightarrow> tcp_socket \<Rightarrow> bool" where
  step_listen: "tcp_step s (snd (listen ep s))"
| step_connect: "tcp_step s (fst (snd (connect cx remote ep s)))"
| step_close: "tcp_step s (close s)"
| step_abort: "tcp_step s (abort s)"
| step_send: "closure_ok f \<Longrightarrow> send (f :: bytes \<Rightarrow> bytes \<times> nat \<times> nat) s = Some (r, s') \<Longrightarrow> tcp_step s s'"
| step_send_slice: "send_slice data s = Some (r, s') \<Longrightarrow> tcp_step s s'"
| step_recv: "closure_ok f \<Longrightarrow> recv (f :: bytes \<Rightarrow> bytes \<times> nat \<times> nat) s = Some (r, s') \<Longrightarrow> tcp_step s s'"
| step_recv_slice: "recv_slice data s = Some (r, s') \<Longrightarrow> tcp_step s s'"
| step_timeout: "tcp_step s (set_timeout d s)"
| step_ack_delay: "tcp_step s (set_ack_delay d s)"
| step_nagle: "tcp_step s (set_nagle_enabled b s)"
| step_keep_alive: "tcp_step s (set_keep_alive d s)"
| step_hop_limit: "set_hop_limit h s = Some s' \<Longrightarrow> tcp_step s s'"
| step_tsval: "tcp_step s (set_tsval_generator g s)"
| step_process: "accepts ip repr s \<Longrightarrow> process cx ip repr s = Some (r, s', cx') \<Longrightarrow> tcp_step s s'"
| step_dispatch: "dispatch cx emit s = Some (d, s') \<Longrightarrow> tcp_step s s'"

definition tcp_reachable :: "u8 ring_buffer \<Rightarrow> u8 ring_buffer \<Rightarrow> tcp_socket \<Rightarrow> bool" where
  "tcp_reachable rx tx s \<longleftrightarrow> (\<exists>s0. socket_new rx tx = Some s0 \<and> tcp_step\<^sup>*\<^sup>* s0 s)"

lemma sk_inv_step: "tcp_step s s' \<Longrightarrow> sk_inv s \<Longrightarrow> sk_inv s'"
proof (induction rule: tcp_step.induct)
  case (step_send f s r s')
  then show ?case
    using sk_inv_send[OF step_send(2)[unfolded send_def]] enqueue_many_with_wf by (metis sk_inv_def)
next
  case (step_send_slice data s r s')
  then have "rb_wf (tx_buffer s)" by (simp add: sk_inv_def)
  then show ?case
    using sk_inv_send[OF step_send_slice(1)[unfolded send_slice_def]] step_send_slice(2) enqueue_slice_wf
    by (fastforce simp: bind_eq_Some_conv)
next
  case (step_recv f s r s')
  then show ?case
    using sk_inv_recv[OF step_recv(2)[unfolded recv_def]] dequeue_many_with_wf by (metis sk_inv_def)
next
  case (step_recv_slice data s r s')
  then have "rb_wf (rx_buffer s)" by (simp add: sk_inv_def)
  then show ?case
    using sk_inv_recv[OF step_recv_slice(1)[unfolded recv_slice_def]] step_recv_slice(2) dequeue_slice_wf
    by (fastforce simp: bind_eq_Some_conv)
qed (auto intro: sk_inv_listen sk_inv_connect sk_inv_close sk_inv_abort sk_inv_set_options
    dest: sk_inv_process sk_inv_dispatch)

lemma sk_inv_reachable:
  assumes "rb_wf rx" "rb_wf tx" "tcp_reachable rx tx s"
  shows "sk_inv s"
proof -
  obtain s0 where s0: "socket_new rx tx = Some s0" "tcp_step\<^sup>*\<^sup>* s0 s"
    using assms(3) by (auto simp: tcp_reachable_def)
  from s0(2) show ?thesis
    by (induction rule: rtranclp_induct) (use sk_inv_new[OF assms(1,2) s0(1)] sk_inv_step in auto)
qed

section \<open>Opening\<close>

lemma check_ack_opening:
  assumes "check_ack cx ip repr s = Some (Cont u, s1)" "state s \<in> {SynSent, SynReceived}" "control repr \<noteq> Rst"
  shows "ack_number repr = Some (local_seq_no s + 1) \<or> state s = SynSent \<and> control repr = Syn \<and> ack_number repr = None"
  using assms unfolding check_ack_def Let_def
  by (cases "state s"; cases "control repr"; cases "ack_number repr") (auto simp: bind_eq_Some_conv split: if_splits)

lemma transition_opens:
  assumes "transition cx ip repr ctl a s = Some (f, s', cx')"
    "state s' \<in> {Established, CloseWait}" "state s \<notin> {Established, CloseWait}"
  shows "state s = SynSent \<and> ctl = Syn \<and> ack_number repr \<noteq> None \<or> state s = SynReceived \<and> ctl \<in> {NoControl, Fin}"
proof -
  have c: "challenge_ack_reply cx ip repr s = Some (r, s1) \<Longrightarrow> state s1 = state s" for r s1
    using challenge_ack_reply_core by (auto simp: core_eq_def)
  show ?thesis
    using assms unfolding transition_def Let_def
    by (cases "state s"; cases ctl)
      (auto simp: set_state_def got_fin_def enter_time_wait_def listen_syn_def syn_sent_syn_def
        bind_eq_Some_conv Let_def dest!: c split: if_splits option.splits prod.splits)
qed

lemma effective_control_opening:
  "effective_control w repr = Syn \<Longrightarrow> control repr = Syn"
  "effective_control w repr \<in> {NoControl, Fin} \<Longrightarrow> control repr \<in> {NoControl, Psh, Fin}"
  by (cases "control repr"; auto simp: effective_control_def Let_def split: if_splits)+

lemma opening_segment:
  assumes c: "check_ack cx ip repr s = Some (Cont u, s1)"
    and t: "transition cx ip repr (effective_control w repr) a s2 = Some (f, s3, cx')" and e: "state s2 = state s"
    and o: "state s3 \<in> {Established, CloseWait}" "state s \<notin> {Established, CloseWait}"
  shows "ack_number repr = Some (local_seq_no s + 1) \<and>
    (state s = SynSent \<and> control repr = Syn \<or> state s = SynReceived \<and> control repr \<in> {NoControl, Psh, Fin})"
  using transition_opens[OF t o(1)] o(2) e check_ack_opening[OF c] effective_control_opening[of w repr] by fastforce

section \<open>Edges of every step\<close>

text \<open>The diagram with the calls of the application and the timers: every state may be left for
  CLOSED (\<open>abort\<close>, a timeout, the end of TIME-WAIT, a lost local address).\<close>

definition tcp_edge :: "tcp_state \<Rightarrow> tcp_state \<Rightarrow> bool" where
  "tcp_edge s t \<longleftrightarrow> segment_edge s t \<or> t = Closed \<or>
     (s, t) \<in> {(Closed, Listen), (TimeWait, Listen), (Closed, SynSent), (TimeWait, SynSent),
       (SynReceived, FinWait1), (Established, FinWait1), (CloseWait, LastAck)}"

lemma call_edges:
  "state (snd (listen ep s)) = state s \<or> tcp_edge (state s) (state (snd (listen ep s)))"
  "state (fst (snd (connect cx remote ep s))) = state s \<or> tcp_edge (state s) (state (fst (snd (connect cx remote ep s))))"
  "state (close s) = state s \<or> tcp_edge (state s) (state (close s))"
  "state (abort s) = state s \<or> tcp_edge (state s) (state (abort s))"
  by (auto simp: listen_def connect_def close_def abort_def is_open_def set_state_def tcp_edge_def Let_def
      split: tcp_state.splits option.splits prod.splits)

lemma send_impl_state: "send_impl f s = Some (r, s') \<Longrightarrow> state s' = state s"
  by (auto simp: send_impl_def bind_eq_Some_conv Let_def split: if_splits)

lemma recv_impl_state: "recv_impl f s = Some (r, s') \<Longrightarrow> state s' = state s"
  using recv_impl_frame by fastforce

lemma option_states [simp]:
  "state (set_timeout d s) = state s" "state (set_ack_delay d s) = state s" "state (set_nagle_enabled b s) = state s"
  "state (set_keep_alive d s) = state s" "state (set_tsval_generator g s) = state s"
  by (simp_all add: set_timeout_def set_ack_delay_def set_nagle_enabled_def set_keep_alive_def
      set_tsval_generator_def Let_def)

lemma step_edges: "tcp_step s s' \<Longrightarrow> state s' = state s \<or> tcp_edge (state s) (state s')"
proof (induction rule: tcp_step.induct)
  case (step_process ip repr s cx r s' cx')
  from process_state[OF step_process(2)] show ?case by (auto simp: tcp_edge_def)
next
  case (step_dispatch cx emit s d s')
  from dispatch_state[OF step_dispatch(1)] show ?case by (auto simp: tcp_edge_def)
next
  case (step_hop_limit h s s')
  then show ?case by (auto simp: set_hop_limit_def split: if_splits)
qed (use call_edges send_impl_state recv_impl_state in
    \<open>auto simp: send_def send_slice_def recv_def recv_slice_def\<close>)

section \<open>Properties\<close>

text \<open>C10: the socket's state moves only along the edges of the TCP state diagram.  Whatever the
  application calls, whatever segment arrives and whatever is sent, one step leaves the state alone
  or takes one of the edges of \<open>tcp_edge\<close>.\<close>

theorem tcp_state_diagram:
  assumes "tcp_step s s'"
  shows "state s' = state s \<or> tcp_edge (state s) (state s')"
  by (rule step_edges[OF assms])

text \<open>A closed socket with buffers of eight bytes, and its connection attempt; both ends use the same port.\<close>

definition demo_rb :: "u8 ring_buffer" where "demo_rb = rb_new (replicate 8 0)"

lemma demo_rb_wf: "rb_wf demo_rb"
  by (simp add: demo_rb_def rb_new_wf)

definition demo_cx :: iface_context where
  "demo_cx = \<lparr>cx_now = 1000000, cx_ip_mtu = 1500, cx_rand = 7, cx_ip_addrs = [(0x0a000001, 24)], cx_any_ip = False\<rparr>"

definition demo_connected :: "tcp_socket" where
  "demo_connected = fst (snd (connect demo_cx \<lparr>ep_addr = 0x0a000002, ep_port = 50000\<rparr>
     \<lparr>lep_addr = None, lep_port = 50000\<rparr> (the (socket_new demo_rb demo_rb))))"

theorem tcp_state_diagram_witness:
  "state demo_connected = state (the (socket_new demo_rb demo_rb)) \<or>
   tcp_edge (state (the (socket_new demo_rb demo_rb))) (state demo_connected)"
  using tcp_state_diagram[OF step_connect] by (simp add: demo_connected_def)

text \<open>C11: no connection without the handshake.  A segment brings a socket into ESTABLISHED (or, with
  a FIN, straight into CLOSE-WAIT) from another state only when it acknowledges exactly the SYN sent:
  either it is the SYN-ACK for a SYN, or it answers the socket's own SYN-ACK.\<close>

theorem tcp_handshake_exact:
  assumes "process cx ip repr s = Some (r, s', cx')"
    and "state s' \<in> {Established, CloseWait}" "state s \<notin> {Established, CloseWait}"
  shows "ack_number repr = Some (local_seq_no s + 1) \<and>
    (state s = SynSent \<and> control repr = Syn \<or> state s = SynReceived \<and> control repr \<in> {NoControl, Psh, Fin})"
  using assms(1)
proof (cases rule: process_cases)
  case rejected
  then show ?thesis using assms by (simp add: core_eq_def)
next
  case (stopped w data offset s1 a s2)
  have "state s2 = state s"
    using check_window_core[OF stopped(3)] account_ack_rtte[OF stopped(4)] by (auto simp: core_eq_def)
  then show ?thesis using opening_segment[OF stopped(1,5)] assms by blast
next
  case (processed w data offset s1 a s2 s3 s4)
  have "state s2 = state s"
    using check_window_core[OF processed(3)] account_ack_rtte[OF processed(4)] by (auto simp: core_eq_def)
  moreover have "state s' = state s3"
    using update_send_side_state[OF processed(6)] receive_payload_send_eq[OF processed(7)]
    by (simp add: send_eq_def)
  ultimately show ?thesis using opening_segment[OF processed(1,5)] assms by simp
qed

text \<open>The answer of the peer of \<open>demo_connected\<close>.\<close>

definition demo_syn_ack :: tcp_repr where
  "demo_syn_ack = \<lparr>src_port = 50000, dst_port = 50000, control = Syn, seq_number = 9000,
     ack_number = Some (local_seq_no demo_connected + 1), window_len = 4000, window_scale = None,
     max_seg_size = Some 1460, sack_permitted = False, sack_ranges = [None, None, None],
     timestamp = None, payload = []\<rparr>"

definition demo_ip :: ip_repr where
  "demo_ip = \<lparr>ip_src = 0x0a000002, ip_dst = 0x0a000001, ip_payload_len = 24, ip_hop_limit = 64\<rparr>"

lemma demo_connected_eq:
  "demo_connected = (the (socket_new demo_rb demo_rb))\<lparr>state := SynSent,
     tuple := Some \<lparr>tup_local = \<lparr>ep_addr = 0x0a000001, ep_port = 50000\<rparr>,
                    tup_remote = \<lparr>ep_addr = 0x0a000002, ep_port = 50000\<rparr>\<rparr>,
     local_seq_no := fst (random_seq_no demo_cx), remote_last_seq := fst (random_seq_no demo_cx)\<rparr>"
proof -
  have "get_source_address demo_cx 0x0a000002 = Some 0x0a000001"
    by (simp add: get_source_address_def demo_cx_def)
  then show ?thesis
    by (simp add: demo_connected_def connect_def socket_new_def demo_rb_def rb_new_def rb_capacity_def is_open_def
        socket_reset_def rb_clear_def set_state_def win_shift_for_def split_beta Let_def)
qed

lemma demo_established:
  "case process demo_cx demo_ip demo_syn_ack demo_connected of
     Some (r, s', cx') \<Rightarrow> state s' = Established | None \<Rightarrow> False" "state demo_connected = SynSent"
  by (simp_all add: demo_connected_eq demo_syn_ack_def process_def check_ack_def receive_window_def seq_add_def
      socket_new_def demo_rb_def rb_new_def rb_query_defs check_window_def process_in_window_def account_ack_def
      sent_syn_def sent_fin_def seq_diff_def effective_control_def transition_def syn_sent_syn_def set_state_def
      update_send_side_eq tx_after_def receive_payload_def Let_def)

theorem tcp_handshake_exact_witness:
  "\<exists>r s' cx'. process demo_cx demo_ip demo_syn_ack demo_connected = Some (r, s', cx') \<and> state s' = Established \<and>
     ack_number demo_syn_ack = Some (local_seq_no demo_connected + 1) \<and> control demo_syn_ack = Syn"
proof -
  obtain r s' cx' where p: "process demo_cx demo_ip demo_syn_ack demo_connected = Some (r, s', cx')"
    "state s' = Established"
    using demo_established(1) by (auto split: option.splits)
  show ?thesis using tcp_handshake_exact[OF p(1)] p demo_established(2) by auto
qed

text \<open>C9: the invariant of every reachable socket.  From a new socket, through any calls, arriving
  segments and transmissions, both ring buffers and the assembler stay well formed, the
  retransmission timeout stays within its bounds, a socket with a connection has its endpoints and a
  listening socket has a port and no connection.\<close>

theorem tcp_reachable_invariant:
  assumes "rb_wf rx" "rb_wf tx" "tcp_reachable rx tx s"
  shows "rb_wf (rx_buffer s) \<and> rb_wf (tx_buffer s) \<and> asm_wf (assembler s) \<and>
    RTTE_MIN_RTO \<le> rto (rtte s) \<and> rto (rtte s) \<le> RTTE_MAX_RTO \<and>
    (state s \<notin> {Closed, Listen} \<longrightarrow> tuple s \<noteq> None) \<and>
    (state s = Listen \<longrightarrow> tuple s = None \<and> lep_port (listen_ep s) \<noteq> 0)"
  using sk_inv_reachable[OF assms] by (simp add: sk_inv_def rto_ok_def)

theorem tcp_reachable_invariant_witness: "rb_wf (rx_buffer demo_connected) \<and> tuple demo_connected \<noteq> None"
proof -
  have new: "socket_new demo_rb demo_rb = Some (the (socket_new demo_rb demo_rb))"
    by (simp add: socket_new_def demo_rb_def rb_new_def rb_capacity_def)
  have "tcp_step (the (socket_new demo_rb demo_rb)) demo_connected"
    unfolding demo_connected_def by (rule step_connect)
  then have r: "tcp_reachable demo_rb demo_rb demo_connected" using new by (auto simp: tcp_reachable_def)
  have "state demo_connected = SynSent" by (rule demo_established(2))
  then show ?thesis
    using tcp_reachable_invariant[OF demo_rb_wf demo_rb_wf r] by simp
qed

end
