(* ===== verification/Tcp_Stream.thy ===== *)
theory Tcp_Stream
  imports Tcp_States
begin

text \<open>
  The byte stream a TCP socket receives.  The peer sends the bytes \<open>stream 0\<close>, \<open>stream 1\<close>, \<dots> up to
  \<open>tot\<close>, cut into segments that may be lost, repeated, reordered and overlapping; position \<open>x\<close> has
  the sequence number \<open>seq_at b x\<close>.  \<open>holds\<close> relates the receive buffer and the assembler to the
  stream, \<open>rx_ok\<close> the whole socket; every step of the socket keeps it, across the wrap of the sequence
  numbers, of the ring buffer and of the window.  What the application reads is the stream, and the
  end of the stream is reported only after all of it.
\<close>

section \<open>Buffer and assembler\<close>

text \<open>The positions, relative to the front of the buffer, whose bytes have arrived.\<close>

definition arrived :: "u8 ring_buffer \<Rightarrow> assembler \<Rightarrow> nat set" where
  "arrived rx a = {..<rlength rx} \<union> (\<lambda>x. rlength rx + x) ` asm_set a"

definition holds :: "(nat \<Rightarrow> u8) \<Rightarrow> nat \<Rightarrow> nat \<Rightarrow> u8 ring_buffer \<Rightarrow> assembler \<Rightarrow> bool" where
  "holds stream e n rx a \<longleftrightarrow> n + rlength rx \<le> e \<and> e \<le> n + length (storage rx) \<and>
     (\<forall>i \<in> arrived rx a. n + i < e \<and> rb_cells rx ! i = stream (n + i))"

lemma holds_list:
  assumes "rb_wf rx" "holds stream e n rx a"
  shows "rb_list rx = map stream [n ..< n + rlength rx]"
proof (rule nth_equalityI)
  show "length (rb_list rx) = length (map stream [n ..< n + rlength rx])"
    using length_rb_list[OF assms(1)] by simp
next
  fix i
  assume "i < length (rb_list rx)"
  then have "i < rlength rx" using length_rb_list[OF assms(1)] by simp
  then show "rb_list rx ! i = map stream [n ..< n + rlength rx] ! i"
    using assms(2) by (simp add: rb_list_def holds_def arrived_def)
qed

text \<open>A piece of the stream written at its place: what has arrived grows by the piece.\<close>

lemma holds_write:
  assumes wf: "rb_wf rx" and h: "holds stream e n rx a"
    and d: "data = map stream [n + rlength rx + off ..< n + rlength rx + off + length data]"
    and fit: "n + rlength rx + off + length data \<le> e"
    and w: "write_unallocated rx off data = Some (rx1, k)"
  shows "rb_wf rx1 \<and> rlength rx1 = rlength rx \<and> length (storage rx1) = length (storage rx) \<and>
    (\<forall>i \<in> arrived rx a \<union> {rlength rx + off ..< rlength rx + off + length data}.
       n + i < e \<and> rb_cells rx1 ! i = stream (n + i))"
proof -
  have cap: "rlength rx + off + length data \<le> length (storage rx)" using h fit by (simp add: holds_def)
  then have off: "off \<le> rb_window rx" and all: "min (rb_window rx - off) (length data) = length data"
    by (auto simp: rb_query_defs)
  have w1: "rb_wf rx1" "rb_cells rx1 = overwrite (rb_cells rx) (rlength rx + off) data"
    "rlength rx1 = rlength rx" "length (storage rx1) = length (storage rx)"
    by (rule write_unallocated_correct[OF wf off, of data]; use w all in simp)+
  have dn: "data ! j = stream (n + rlength rx + off + j)" if "j < length data" for j
    using that by (subst d) simp
  have "n + i < e \<and> rb_cells rx1 ! i = stream (n + i)"
    if "i \<in> arrived rx a \<union> {rlength rx + off ..< rlength rx + off + length data}" for i
  proof (cases "i \<in> {rlength rx + off ..< rlength rx + off + length data}")
    case True
    then have "i - (rlength rx + off) < length data" by auto
    then show ?thesis
      using True w1(2) cap fit dn[of "i - (rlength rx + off)"] by (simp add: nth_overwrite add.assoc)
  next
    case False
    then have i: "n + i < e" "rb_cells rx ! i = stream (n + i)" using that h by (auto simp: holds_def)
    moreover have "i < length (storage rx)" using i(1) h by (simp add: holds_def)
    ultimately show ?thesis using w1(2) cap False by (auto simp: nth_overwrite)
  qed
  then show ?thesis using w1 by blast
qed

text \<open>The run at the front never ends behind what has arrived.\<close>

lemma holds_contig:
  assumes wf: "rb_wf rx" "asm_wf a" and h: "holds stream e n rx a"
    and fit: "n + rlength rx + off + l \<le> e"
    and a: "add_then_remove_front a off l = Inr (a', c)"
  shows "n + rlength rx + c \<le> e"
proof (cases c)
  case 0
  then show ?thesis using h by (simp add: holds_def)
next
  case (Suc j)
  then have "j \<in> asm_set a \<union> {off ..< off + l}" using add_then_remove_front_correct(3)[OF wf(2) a] by auto
  then have "rlength rx + j \<in> arrived rx a \<or> n + (rlength rx + j) < e" using fit by (auto simp: arrived_def)
  then have "n + (rlength rx + j) < e" using h by (auto simp: holds_def)
  then show ?thesis using Suc by simp
qed

lemma holds_receive:
  assumes wf: "rb_wf rx" "asm_wf a" and h: "holds stream e n rx a"
    and d: "data = map stream [n + rlength rx + off ..< n + rlength rx + off + length data]"
    and fit: "n + rlength rx + off + length data \<le> e"
    and a: "add_then_remove_front a off (length data) = Inr (a', c)"
    and w: "write_unallocated rx off data = Some (rx1, k)"
    and q: "(if c \<noteq> 0 then enqueue_unallocated rx1 c else Some rx1) = Some rx2"
  shows "holds stream e n rx2 a' \<and> rlength rx2 = rlength rx + c \<and> length (storage rx2) = length (storage rx) \<and>
    arrived rx2 a' = arrived rx a \<union> {rlength rx + off ..< rlength rx + off + length data} \<and>
    rlength rx2 \<notin> arrived rx2 a'"
proof -
  let ?L = "rlength rx" and ?S = "asm_set a \<union> {off ..< off + length data}"
  note w1 = holds_write[OF wf(1) h d fit w]
  note c = add_then_remove_front_correct[OF wf(2) a]
  have r2: "rlength rx2 = ?L + c" "storage rx2 = storage rx1" "rb_cells rx2 = rb_cells rx1"
    using q w1 by (auto simp: enqueue_unallocated_def rb_cells_def split: if_splits)
  have img: "(\<lambda>x. ?L + x) ` {off ..< off + length data} = {?L + off ..< ?L + off + length data}"
    by (simp add: image_add_atLeastLessThan add.commute add.left_commute)
  have S: "x \<in> ?S \<longleftrightarrow> x < c \<or> (\<exists>y \<in> asm_set a'. x = c + y)" for x
  proof (cases "x < c")
    case True
    then show ?thesis using c(3) by auto
  next
    case False
    then obtain y where "x = y + c" by (metis add.commute le_Suc_ex not_less)
    then show ?thesis using c(5) by (auto simp: add.commute)
  qed
  have "arrived rx2 a' = {..<?L} \<union> (\<lambda>x. ?L + x) ` ?S"
    unfolding arrived_def r2(1)
  proof (rule set_eqI)
    fix i
    show "(i \<in> {..<?L + c} \<union> (\<lambda>x. ?L + c + x) ` asm_set a') = (i \<in> {..<?L} \<union> (\<lambda>x. ?L + x) ` ?S)"
    proof (cases "i < ?L")
      case False
      then have "i \<in> (\<lambda>x. ?L + x) ` ?S \<longleftrightarrow> i - ?L \<in> ?S" by (auto simp: image_iff intro: bexI[of _ "i - ?L"])
      then show ?thesis using False S[of "i - ?L"] by (auto simp: add.assoc)
    qed simp
  qed
  then have arr: "arrived rx2 a' = arrived rx a \<union> {?L + off ..< ?L + off + length data}"
    using img by (auto simp: arrived_def image_Un)
  have "n + (?L + c) \<le> e" using holds_contig[OF wf h fit a] by simp
  then have "holds stream e n rx2 a'"
    using w1 arr r2 h fit by (auto simp: holds_def)
  moreover have "rlength rx2 \<notin> arrived rx2 a'"
  proof -
    have "0 \<notin> asm_set a'" using c(4,5) by simp
    then show ?thesis by (auto simp: arrived_def)
  qed
  ultimately show ?thesis using r2 w1 arr by simp
qed

text \<open>Bytes taken from the front.\<close>

lemma holds_dequeue:
  assumes h: "holds stream e n rx a" and k: "k \<le> rlength rx"
    and r: "storage rx' = storage rx" "rlength rx' = rlength rx - k" "rb_cells rx' = rotate k (rb_cells rx)"
  shows "holds stream e (n + k) rx' a"
proof -
  have arr: "i \<in> arrived rx' a \<longleftrightarrow> i + k \<in> arrived rx a" for i
  proof -
    have "i + k = rlength rx + x \<longleftrightarrow> i = rlength rx - k + x" for x using k by auto
    then show ?thesis using k r(2) by (auto simp: arrived_def image_iff)
  qed
  have "n + k + i < e \<and> rb_cells rx' ! i = stream (n + k + i)" if "i \<in> arrived rx' a" for i
  proof -
    have i: "n + (i + k) < e" "rb_cells rx ! (i + k) = stream (n + (i + k))"
      using that arr h by (auto simp: holds_def)
    then have "i + k < length (rb_cells rx)" using h by (simp add: holds_def)
    then show ?thesis using i r(3) by (simp add: nth_rotate add.commute add.left_commute)
  qed
  then show ?thesis using h k r by (auto simp: holds_def)
qed

section \<open>The receive window\<close>

definition win_end :: "tcp_socket \<Rightarrow> seq_number" where
  "win_end s = (case remote_last_ack s of
     Some la \<Rightarrow> la + of_nat (shl_usize (unat (remote_last_win s)) (remote_win_shift s))
   | None \<Rightarrow> remote_seq_no s + of_nat (rb_len (rx_buffer s)))"

lemma receive_window_fields:
  assumes "receive_window repr s = Some w"
  shows "window_start w = remote_seq_no s + of_nat (rb_len (rx_buffer s))" "window_end w = win_end s"
    "segment_start w = seq_number repr" "segment_end w = seq_number repr + of_nat (length (payload repr))"
  using assms
  by (auto simp: receive_window_def bind_eq_Some_conv seq_add_def win_end_def split: option.splits if_splits)

text \<open>A segment at the positions from \<open>p\<close> on, and a window that starts at \<open>S\<close>.\<close>

definition placed :: "seq_number \<Rightarrow> int \<Rightarrow> int \<Rightarrow> nat \<Rightarrow> rx_window \<Rightarrow> bool" where
  "placed b S p l w \<longleftrightarrow> window_start w = seq_at b S \<and> segment_start w = seq_at b p \<and>
     segment_end w = seq_at b (p + int l) \<and> \<bar>p - S\<bar> < 2 ^ 29 \<and> l \<le> 65535"

lemma placed_near:
  assumes "placed b S p l w" "\<bar>W - S\<bar> \<le> 2 ^ 30 + 1"
  shows "near S p" "near W (p + int l)" "near S (p + int l)" "near (max S p) p" "near (max S p) S"
    "near (min W (p + int l)) p" "near p (p + int l)" "near (p + int l) W"
  using assms by (auto simp: placed_def near_def)

text \<open>What is left of the payload lies between the window's start and its end \<open>W\<close>.\<close>

lemma clip_payload_part:
  assumes pl: "placed b S p l w" and W: "window_end w = seq_at b W" "\<bar>W - S\<bar> \<le> 2 ^ 30 + 1"
    and l: "length data = l" and c: "clip_payload w data = Some (part, off)"
  shows "part = take (length part) (drop (nat (max S p - p)) data) \<and> int off = max S p - S \<and>
    int (length part) = min W (p + int l) - max S p"
proof -
  note n = placed_near[OF pl W(2)]
  have "seq_diff (seq_at b (max S p)) (seq_at b p) = Some (nat (max S p - p))"
    "seq_diff (seq_at b (max S p)) (seq_at b S) = Some (nat (max S p - S))"
    using n by (simp_all add: seq_at_diff)
  moreover obtain k where "seq_diff (seq_at b (min W (p + int l))) (seq_at b p) = Some k"
    "k = nat (min W (p + int l) - p)" "p \<le> min W (p + int l)"
    using c pl W n unfolding clip_payload_def placed_def
    by (auto simp: bind_eq_Some_conv seq_at_min_max seq_at_diff Let_def split: if_splits)
  ultimately have s: "slice data (nat (max S p - p)) k = Some part" "off = nat (max S p - S)"
    "k = nat (min W (p + int l) - p)" "p \<le> min W (p + int l)"
    using c pl W n unfolding clip_payload_def placed_def
    by (auto simp: bind_eq_Some_conv seq_at_min_max Let_def)
  let ?A = "nat (max S p - p)"
  from s(1) have part: "?A \<le> k" "k \<le> length data" "part = take (k - ?A) (drop ?A data)"
    by (auto simp: slice_eq_Some)
  then have len: "length part = k - ?A" by simp
  have "int k = min W (p + int l) - p" "int ?A = max S p - p" using s(3,4) by auto
  then have "int (length part) = min W (p + int l) - max S p" using len part(1) by linarith
  moreover have "int off = max S p - S" using s(2) by simp
  ultimately show ?thesis using part(3) len by simp
qed

lemma clip_payload_Nil: "clip_payload w [] = Some (part, off) \<Longrightarrow> part = []"
  by (auto simp: clip_payload_def bind_eq_Some_conv Let_def slice_eq_Some)

text \<open>The part of a segment of the stream is a piece of the stream at the offset.\<close>

lemma clip_payload_stream:
  assumes pl: "placed b (int S) (int p) l w" and W: "window_end w = seq_at b W" "\<bar>W - int S\<bar> \<le> 2 ^ 30 + 1"
    and c: "clip_payload w (map stream [p ..< p + l]) = Some (part, off)"
  shows "part = map stream [S + off ..< S + off + length part]" "int (S + off + length part) \<le> W"
    "S + off + length part \<le> p + l" "p \<le> S \<Longrightarrow> off = 0"
    "p \<le> S \<Longrightarrow> int (p + l) \<le> W \<Longrightarrow> S + length part = p + l"
proof -
  have a: "part = take (length part) (drop (nat (max (int S) (int p) - int p)) (map stream [p ..< p + l]))"
    "int off = max (int S) (int p) - int S"
    "int (length part) = min W (int p + int l) - max (int S) (int p)"
    using clip_payload_part[OF pl W _ c] by simp_all
  have o: "S + off = p + nat (max (int S) (int p) - int p)" using a(2) by auto
  have e: "S + off + length part \<le> p + l" using a(2,3) by linarith
  then have "take (length part) (drop (nat (max (int S) (int p) - int p)) [p ..< p + l]) =
      [S + off ..< S + off + length part]"
    unfolding o by (simp add: take_upt)
  then show "part = map stream [S + off ..< S + off + length part]"
    using a(1) by (metis drop_map take_map)
  show "int (S + off + length part) \<le> W" "p \<le> S \<Longrightarrow> off = 0" using a(2,3) by linarith+
  show "S + off + length part \<le> p + l" by (rule e)
  show "p \<le> S \<Longrightarrow> int (p + l) \<le> W \<Longrightarrow> S + length part = p + l" using a(3) by linarith
qed

text \<open>A segment that ends before the window is not in it.\<close>

lemma segment_past:
  assumes pl: "placed b S p l w" and l: "0 < l \<or> p = S - 1" and e: "p + int l < S"
  shows "\<not> segment_in_window w"
proof -
  note n = placed_near[OF pl, of S, simplified]
  have "segment_start w = segment_end w \<longleftrightarrow> l = 0"
    using pl seq_at_cmp(5)[OF n(7), of b] by (auto simp: placed_def)
  moreover have "\<not> seq_le (window_start w) (segment_start w)" "\<not> seq_lt (window_start w) (segment_end w)"
    using pl e seq_at_cmp[OF n(1), of b] seq_at_cmp[OF n(3), of b] by (auto simp: placed_def)
  moreover have "l = 0 \<Longrightarrow> segment_end w = window_start w - 1"
    using pl l by (auto simp: placed_def seq_at_succ)
  ultimately show ?thesis using l by (auto simp: segment_in_window_def)
qed

section \<open>The invariant\<close>

text \<open>An open direction: \<open>m\<close> is what the application had read when the window was last announced, and
  \<open>W\<close> the position of the window's end.\<close>

definition rx_open :: "(nat \<Rightarrow> u8) \<Rightarrow> nat \<Rightarrow> seq_number \<Rightarrow> nat \<Rightarrow> tcp_socket \<Rightarrow> bool" where
  "rx_open stream tot b n s \<longleftrightarrow> remote_seq_no s = seq_at b (int n) \<and>
     (\<exists>m W. m \<le> n \<and> int m \<le> W + 1 \<and> W \<le> int (m + rb_capacity (rx_buffer s)) \<and>
        (remote_last_ack s \<noteq> None \<longrightarrow> win_end s = seq_at b W) \<and>
        holds stream (min (m + rb_capacity (rx_buffer s)) tot) n (rx_buffer s) (assembler s))"

text \<open>The socket after the application has read \<open>n\<close> bytes.  The FIN takes one sequence number.\<close>

definition rx_ok :: "(nat \<Rightarrow> u8) \<Rightarrow> nat \<Rightarrow> seq_number \<Rightarrow> nat \<Rightarrow> tcp_socket \<Rightarrow> bool" where
  "rx_ok stream tot b n s \<longleftrightarrow> sk_inv s \<and> state s \<notin> {Listen, SynSent, SynReceived} \<and>
     rb_capacity (rx_buffer s) \<le> 2 ^ 30 \<and>
     rb_list (rx_buffer s) = map stream [n ..< n + rb_len (rx_buffer s)] \<and>
     n + rb_len (rx_buffer s) \<le> tot \<and>
     (rx_fin_received s \<longrightarrow> n + rb_len (rx_buffer s) = tot) \<and>
     (state s \<noteq> Closed \<longrightarrow>
       (if rx_fin_received s then remote_seq_no s = seq_at b (int n + 1) else rx_open stream tot b n s))"

lemma holds_mono: "holds stream e n rx a \<Longrightarrow> e \<le> e' \<Longrightarrow> e' \<le> n + length (storage rx) \<Longrightarrow> holds stream e' n rx a"
  by (force simp: holds_def)

text \<open>Steps that leave the receive side alone, up to a new acknowledgement.\<close>

definition rx_same :: "tcp_socket \<Rightarrow> tcp_socket \<Rightarrow> bool" where
  "rx_same s s' \<longleftrightarrow> rx_buffer s' = rx_buffer s \<and> assembler s' = assembler s \<and>
     remote_seq_no s' = remote_seq_no s \<and> remote_win_shift s' = remote_win_shift s \<and>
     rx_fin_received s' = rx_fin_received s \<and> remote_last_ack s' = remote_last_ack s \<and>
     remote_last_win s' = remote_last_win s"

definition rx_eq :: "tcp_socket \<Rightarrow> tcp_socket \<Rightarrow> bool" where
  "rx_eq s s' \<longleftrightarrow> rx_buffer s' = rx_buffer s \<and> assembler s' = assembler s \<and>
     remote_seq_no s' = remote_seq_no s \<and> remote_win_shift s' = remote_win_shift s \<and>
     rx_fin_received s' = rx_fin_received s \<and> acked s s'"

lemma rx_same_trans: "rx_same s s1 \<Longrightarrow> rx_same s1 s2 \<Longrightarrow> rx_same s s2"
  by (simp add: rx_same_def)

lemma rx_same_eq: "rx_same s s' \<Longrightarrow> rx_eq s s'"
  by (simp add: rx_same_def rx_eq_def acked_same)

lemma core_rx_eq: "core_eq s s' \<Longrightarrow> rx_eq s s'"
  by (simp add: core_eq_def rx_eq_def)

lemma rx_eq_trans: "rx_eq s s1 \<Longrightarrow> rx_eq s1 s2 \<Longrightarrow> rx_eq s s2"
  by (auto simp: rx_eq_def acked_def scaled_window_def)

text \<open>The announced window never promises more than the buffer has room for.\<close>

lemma shl_shr_le: "x \<le> shr_usize y k \<Longrightarrow> shl_usize x k \<le> y"
proof -
  assume x: "x \<le> shr_usize y k"
  have "shl_usize x k \<le> x * 2 ^ (unat k mod 64)"
    by (simp add: shl_usize_def push_bit_eq_mult)
  also have "\<dots> \<le> y div 2 ^ (unat k mod 64) * 2 ^ (unat k mod 64)"
    using x by (simp add: shr_usize_def drop_bit_eq_div)
  also have "\<dots> \<le> y" by simp
  finally show ?thesis .
qed

lemma unat_sat_u16_le: "unat (sat_u16 n) \<le> n"
  by (simp add: sat_u16_def unat_of_nat)

lemma scaled_window_fits: "shl_usize (unat (scaled_window s)) (remote_win_shift s) \<le> rb_window (rx_buffer s)"
  unfolding scaled_window_def by (rule shl_shr_le) (rule unat_sat_u16_le)

lemma rx_open_eq:
  assumes o: "rx_open stream tot b n s" and e: "rx_eq s s'" and wf: "rb_wf (rx_buffer s)"
  shows "rx_open stream tot b n s'"
proof (cases "remote_last_ack s' = remote_last_ack s \<and> remote_last_win s' = remote_last_win s")
  case True
  then have "win_end s' = win_end s" using e by (simp add: win_end_def rx_eq_def split: option.split)
  then show ?thesis using o e True by (simp add: rx_open_def rx_eq_def)
next
  case False
  let ?rx = "rx_buffer s" and ?win = "shl_usize (unat (scaled_window s)) (remote_win_shift s)"
  obtain m W where m: "m \<le> n" and q: "remote_seq_no s = seq_at b (int n)"
    and h: "holds stream (min (m + rb_capacity ?rx) tot) n ?rx (assembler s)"
    using o by (auto simp: rx_open_def)
  obtain ack where ack: "seq_add (remote_seq_no s) (rb_len ?rx) = Some ack"
    "remote_last_ack s' = Some ack" "remote_last_win s' = scaled_window s"
    using False e by (auto simp: rx_eq_def acked_def)
  have "ack = seq_at b (int (n + rb_len ?rx))"
    using ack(1) q by (simp add: seq_add_def seq_at_def add.assoc split: if_splits)
  then have we: "win_end s' = seq_at b (int (n + rb_len ?rx + ?win))"
    using ack e by (simp add: win_end_def rx_eq_def seq_at_def add.assoc)
  have le: "rb_len ?rx + ?win \<le> rb_capacity ?rx"
    using scaled_window_fits[of s] wf by (auto simp: rb_query_defs rb_wf_def)
  have "holds stream (min (n + rb_capacity ?rx) tot) n ?rx (assembler s)"
    by (rule holds_mono[OF h]) (use m in \<open>auto simp: rb_capacity_def\<close>)
  then show ?thesis
    unfolding rx_open_def using e q we le
    by (intro conjI exI[of _ n] exI[of _ "int (n + rb_len ?rx + ?win)"]) (simp_all add: rx_eq_def)
qed

lemma rx_ok_eq:
  assumes "rx_ok stream tot b n s" "rx_eq s s'" "sk_inv s'"
    and "state s' \<notin> {Listen, SynSent, SynReceived}" "state s = Closed \<longrightarrow> state s' = Closed"
  shows "rx_ok stream tot b n s'"
proof -
  have "rb_wf (rx_buffer s)" using assms(1) by (simp add: rx_ok_def sk_inv_def)
  then have "rx_open stream tot b n s \<Longrightarrow> rx_open stream tot b n s'"
    using rx_open_eq assms(2) by blast
  then show ?thesis using assms by (auto simp: rx_ok_def rx_eq_def split: if_splits)
qed

section \<open>Arriving segments\<close>

text \<open>A segment of the peer: its payload is the piece of the stream at its sequence number, and a FIN
  stands at the end of the stream and inside the window.  Segments come from less than \<open>2 ^ 28\<close>
  positions away and are no longer than an IP packet.\<close>

definition from_stream :: "(nat \<Rightarrow> u8) \<Rightarrow> nat \<Rightarrow> seq_number \<Rightarrow> nat \<Rightarrow> tcp_socket \<Rightarrow> tcp_repr \<Rightarrow> bool" where
  "from_stream stream tot b n s repr \<longleftrightarrow> payload repr = [] \<and> control repr \<noteq> Fin \<or>
     (\<exists>p. seq_number repr = seq_at b (int p) \<and> payload repr = map stream [p ..< p + length (payload repr)] \<and>
        p + length (payload repr) \<le> tot \<and> \<bar>int p - int (n + rb_len (rx_buffer s))\<bar> < 2 ^ 28 \<and>
        length (payload repr) \<le> 65535 \<and>
        (control repr = Fin \<longrightarrow> p + length (payload repr) = tot \<and>
           seq_le (seq_number repr + of_nat (length (payload repr))) (win_end s)))"

lemma transition_rx:
  assumes t: "transition cx ip repr ctl a s = Some (Cont u, s', cx')"
    and st: "state s \<notin> {Listen, SynSent, SynReceived}"
  shows "rx_same s s' \<or> ctl = Fin \<and> rx_same (got_fin s) s'"
  using t st unfolding transition_def Let_def
  by (cases "state s"; cases ctl)
    (auto simp: set_state_def got_fin_def enter_time_wait_def rx_same_def bind_eq_Some_conv split: if_splits)

lemma transition_ret_rx:
  assumes t: "transition cx ip repr ctl a s = Some (Ret r, s', cx')"
    and st: "state s \<notin> {Listen, SynSent, SynReceived}"
  shows "rx_eq s s'"
proof -
  have c: "challenge_ack_reply cx ip repr s = Some (r, s1) \<Longrightarrow> rx_eq s s1" for cx r s1
    using challenge_ack_reply_core core_rx_eq by blast
  have e: "rx_eq t t" "rx_eq t (t\<lparr>state := x, tuple := y\<rparr>)" for t x y
    by (simp_all add: rx_same_eq rx_same_def)
  show ?thesis
    using t st unfolding transition_def Let_def
    by (cases "state s"; cases ctl) (auto simp: set_state_def bind_eq_Some_conv e dest!: c split: if_splits)
qed

lemma segment_edge_opening:
  "segment_edge st st' \<Longrightarrow> st \<notin> {Listen, SynSent, SynReceived} \<Longrightarrow> st' \<notin> {Listen, SynSent, SynReceived}"
  by (cases st) auto

lemma process_opening:
  assumes "process cx ip repr s = Some (r, s', cx')" "state s \<notin> {Listen, SynSent, SynReceived}"
  shows "state s' \<notin> {Listen, SynSent, SynReceived}"
  using process_state[OF assms(1)] segment_edge_opening assms(2) by metis

lemma receive_payload_rx:
  assumes p: "receive_payload cx ip repr data off s = Some (r, s')"
    and wf: "rb_wf (rx_buffer s)" "asm_wf (assembler s)"
    and h: "holds stream e n (rx_buffer s) (assembler s)"
    and d: "data = map stream [n + rb_len (rx_buffer s) + off ..< n + rb_len (rx_buffer s) + off + length data]"
    and fit: "data \<noteq> [] \<Longrightarrow> n + rb_len (rx_buffer s) + off + length data \<le> e"
  shows "\<exists>rx a. holds stream e n rx a \<and> rb_capacity rx = rb_capacity (rx_buffer s) \<and>
    rx_eq (s\<lparr>assembler := a, rx_buffer := rx\<rparr>) s' \<and> (off = 0 \<longrightarrow> rb_len (rx_buffer s) + length data \<le> rb_len rx)"
proof (cases "data = [] \<or> (\<exists>e. add_then_remove_front (assembler s) off (length data) = Inl e)")
  case True
  then have "s' = s" using p unfolding receive_payload_def by (auto split: if_splits)
  moreover have "off = 0 \<Longrightarrow> data = []"
    using True add_then_remove_front_zero[OF wf(2), of "length data"] by auto
  ultimately show ?thesis
    using h by (intro exI[of _ "rx_buffer s"] exI[of _ "assembler s"]) (auto intro: rx_same_eq simp: rx_same_def)
next
  case False
  then obtain a c where a: "data \<noteq> []" "add_then_remove_front (assembler s) off (length data) = Inr (a, c)"
    by (metis sum.exhaust prod.exhaust)
  obtain rx1 k rx2 s2 where w: "write_unallocated (rx_buffer s) off data = Some (rx1, k)"
    "(if c \<noteq> 0 then enqueue_unallocated rx1 c else Some rx1) = Some rx2"
    "update_ack_delay cx (s\<lparr>assembler := a, rx_buffer := rx2\<rparr>) = Some s2" "core_eq s2 s'"
    by (rule receive_payload_split[OF p a])
  let ?L = "rlength (rx_buffer s)"
  have r: "holds stream e n rx2 a" "length (storage rx2) = length (storage (rx_buffer s))"
    "arrived rx2 a = arrived (rx_buffer s) (assembler s) \<union> {?L + off ..< ?L + off + length data}"
    "rlength rx2 \<notin> arrived rx2 a"
    using holds_receive[OF wf h d[unfolded rb_len_def] fit[OF a(1), unfolded rb_len_def] a(2) w(1,2)] by blast+
  have "off = 0 \<Longrightarrow> {..<?L + length data} \<subseteq> arrived rx2 a"
    unfolding r(3) by (auto simp: arrived_def)
  then have "off = 0 \<longrightarrow> ?L + length data \<le> rlength rx2" using r(4) by (metis lessThan_iff not_le subsetD)
  then show ?thesis
    using r(1,2) rx_eq_trans[OF core_rx_eq[OF update_ack_delay_core[OF w(3)]] core_rx_eq[OF w(4)]]
    by (auto simp: rb_capacity_def rb_len_def)
qed

lemma rx_open_window:
  assumes "rx_open stream tot b n s"
  obtains m W where "m \<le> n" "int m \<le> W + 1" "W \<le> int (m + rb_capacity (rx_buffer s))" "win_end s = seq_at b W"
    "holds stream (min (m + rb_capacity (rx_buffer s)) tot) n (rx_buffer s) (assembler s)"
proof (cases "remote_last_ack s = None")
  case True
  obtain m where m: "m \<le> n" "remote_seq_no s = seq_at b (int n)"
    "holds stream (min (m + rb_capacity (rx_buffer s)) tot) n (rx_buffer s) (assembler s)"
    using assms by (auto simp: rx_open_def)
  have "win_end s = seq_at b (int (n + rb_len (rx_buffer s)))"
    using True m(2) by (simp add: win_end_def seq_at_def add.assoc)
  then show thesis using that[of m "int (n + rb_len (rx_buffer s))"] m by (simp add: holds_def rb_len_def)
next
  case False
  then show thesis using that assms by (auto simp: rx_open_def)
qed

lemma effective_control_Fin:
  "effective_control w repr = Fin \<Longrightarrow> control repr = Fin \<and> \<not> seq_lt (window_start w) (segment_start w)"
  by (cases "control repr") (auto simp: effective_control_def Let_def split: if_splits)

lemma advance_ack_fin [simp]: "rx_fin_received (advance_ack repr ack w s) = rx_fin_received s"
  by (simp add: advance_ack_def Let_def)

lemma with_ack_fin [simp]: "rx_fin_received (with_ack cx repr tx s) = rx_fin_received s"
  by (simp add: with_ack_def Let_def split: option.splits)

text \<open>The receive side before the payload is stored, for a segment in the window.\<close>

lemma processed_rx:
  assumes st: "state s \<notin> {Listen, SynSent, SynReceived}"
    and w: "check_window cx ip repr w s = Some (Cont (data, off), s1)"
    and a: "account_ack cx repr s1 = Some (i, s2)"
    and t: "transition cx ip repr ctl i s2 = Some (Cont (), s3, cx')"
    and u: "update_send_side cx repr i s3 = Some s4"
  shows "segment_in_window w" "clip_payload w (payload repr) = Some (data, off)"
    "rx_same s (update_timers cx i s4) \<or> ctl = Fin \<and> rx_same (got_fin s) (update_timers cx i s4)"
proof -
  show "segment_in_window w" "clip_payload w (payload repr) = Some (data, off)"
    using w st by (auto simp: check_window_def bind_eq_Some_conv Let_def split: if_splits)
  have s1: "s1 = s\<lparr>local_rx_last_seq := Some (seq_number repr)\<rparr>"
    using w st by (auto simp: check_window_def bind_eq_Some_conv Let_def split: if_splits)
  obtain q where s2: "s2 = s1\<lparr>rtte := q\<rparr>" using account_ack_rtte[OF a] by blast
  have "rx_same s2 s3 \<or> ctl = Fin \<and> rx_same (got_fin s2) s3"
    using transition_rx[OF t] st s1 s2 by simp
  moreover have "rx_same s s2" "rx_same (got_fin s) (got_fin s2)"
    by (simp_all add: s1 s2 rx_same_def got_fin_def)
  moreover have "rx_same s3 (update_timers cx i s4)"
    using u by (subst update_timers_frame) (auto simp: update_send_side_eq rx_same_def)
  ultimately show "rx_same s (update_timers cx i s4) \<or> ctl = Fin \<and> rx_same (got_fin s) (update_timers cx i s4)"
    using rx_same_trans by blast
qed

text \<open>What is left of a segment in the window is a piece of the stream that fits, and a FIN that counts
  comes with all the data before it.\<close>

lemma segment_piece:
  assumes o: "rx_open stream tot b n s" and cap: "rb_capacity (rx_buffer s) \<le> 2 ^ 30"
    and f: "from_stream stream tot b n s repr" and w: "receive_window repr s = Some w"
    and c: "clip_payload w (payload repr) = Some (data, off)"
    and m: "m \<le> n" "int m \<le> W + 1" "W \<le> int (m + rb_capacity (rx_buffer s))" "win_end s = seq_at b W"
    and h: "holds stream (min (m + rb_capacity (rx_buffer s)) tot) n (rx_buffer s) (assembler s)"
    and S: "S = n + rb_len (rx_buffer s)"
  shows "data = map stream [S + off ..< S + off + length data] \<and>
    (data \<noteq> [] \<longrightarrow> S + off + length data \<le> min (m + rb_capacity (rx_buffer s)) tot) \<and>
    (effective_control w repr = Fin \<longrightarrow> off = 0 \<and> S + length data = tot)"
proof (cases "payload repr = [] \<and> control repr \<noteq> Fin")
  case True
  then show ?thesis using clip_payload_Nil c effective_control_Fin by fastforce
next
  case False
  let ?l = "length (payload repr)"
  obtain p where p: "seq_number repr = seq_at b (int p)" "payload repr = map stream [p ..< p + ?l]"
    "p + ?l \<le> tot" "\<bar>int p - int S\<bar> < 2 ^ 28" "?l \<le> 65535"
    "control repr = Fin \<Longrightarrow> p + ?l = tot \<and> seq_le (seq_number repr + of_nat ?l) (win_end s)"
    using f False S by (auto simp: from_stream_def)
  note rw = receive_window_fields[OF w]
  have pl: "placed b (int S) (int p) ?l w"
    using rw o p S by (simp add: placed_def rx_open_def seq_at_def add.assoc)
  have "S \<le> m + rb_capacity (rx_buffer s)" using h S by (simp add: holds_def rb_len_def)
  then have W: "window_end w = seq_at b W" "\<bar>W - int S\<bar> \<le> 2 ^ 30 + 1"
    using rw(2) m S cap by auto
  note cs = clip_payload_stream[OF pl W, of stream data off]
  have c': "clip_payload w (map stream [p ..< p + ?l]) = Some (data, off)" using c p(2) by simp
  have "off = 0 \<and> S + length data = tot" if fin: "effective_control w repr = Fin"
  proof -
    have k: "control repr = Fin" "\<not> seq_lt (window_start w) (segment_start w)"
      using effective_control_Fin[OF fin] by auto
    have "p \<le> S" using k(2) pl seq_at_cmp(1)[OF placed_near(1)[OF pl W(2)], of b] by (simp add: placed_def)
    moreover have "int (p + ?l) \<le> W"
      using p(6)[OF k(1)] rw(4) pl m(4) seq_at_cmp(2)[OF placed_near(8)[OF pl W(2)], of b]
      by (simp add: placed_def)
    ultimately show ?thesis using cs(4,5)[OF c'] p(6)[OF k(1)] by auto
  qed
  then show ?thesis using cs(1-3)[OF c'] m(3) p(3) by auto
qed

text \<open>Storing the piece, in a socket \<open>s5\<close> whose receive side is still that of \<open>s\<close>.\<close>

lemma piece_stored:
  assumes o: "rx_open stream tot b n s" and wf: "rb_wf (rx_buffer s)" "asm_wf (assembler s)"
    and cap: "rb_capacity (rx_buffer s) \<le> 2 ^ 30"
    and f: "from_stream stream tot b n s repr" and w: "receive_window repr s = Some w"
    and c: "clip_payload w (payload repr) = Some (data, off)"
    and same: "rx_same s s5 \<or> effective_control w repr = Fin \<and> rx_same (got_fin s) s5"
    and p: "receive_payload cx ip repr data off s5 = Some (r, s6)" and wf6: "rb_wf (rx_buffer s6)"
  shows "rb_capacity (rx_buffer s6) \<le> 2 ^ 30 \<and>
    rb_list (rx_buffer s6) = map stream [n ..< n + rb_len (rx_buffer s6)] \<and> n + rb_len (rx_buffer s6) \<le> tot \<and>
    (rx_same s s5 \<longrightarrow> rx_fin_received s6 = rx_fin_received s \<and> rx_open stream tot b n s6) \<and>
    (\<not> rx_same s s5 \<longrightarrow> rx_fin_received s6 \<and> n + rb_len (rx_buffer s6) = tot \<and>
       remote_seq_no s6 = seq_at b (int n + 1))"
proof -
  let ?S = "n + rb_len (rx_buffer s)"
  obtain m W where m: "m \<le> n" "int m \<le> W + 1" "W \<le> int (m + rb_capacity (rx_buffer s))" "win_end s = seq_at b W"
    and h: "holds stream (min (m + rb_capacity (rx_buffer s)) tot) n (rx_buffer s) (assembler s)"
    by (rule rx_open_window[OF o])
  let ?e = "min (m + rb_capacity (rx_buffer s)) tot"
  have d: "data = map stream [?S + off ..< ?S + off + length data]" "data \<noteq> [] \<Longrightarrow> ?S + off + length data \<le> ?e"
    and fin: "effective_control w repr = Fin \<Longrightarrow> off = 0 \<and> ?S + length data = tot"
    using segment_piece[OF o cap f w c m h refl] by blast+
  have s5: "rx_buffer s5 = rx_buffer s" "assembler s5 = assembler s"
    using same by (auto simp: rx_same_def got_fin_def)
  obtain rx a where r: "holds stream ?e n rx a" "rb_capacity rx = rb_capacity (rx_buffer s)"
    "rx_eq (s5\<lparr>assembler := a, rx_buffer := rx\<rparr>) s6" "off = 0 \<longrightarrow> rb_len (rx_buffer s) + length data \<le> rb_len rx"
    using receive_payload_rx[OF p, unfolded s5, OF wf h d] by blast
  have rx: "rx_buffer s6 = rx" "assembler s6 = a" "remote_seq_no s6 = remote_seq_no s5"
    "rx_fin_received s6 = rx_fin_received s5"
    using r(3) by (simp_all add: rx_eq_def)
  have wfx: "rb_wf rx" using wf6 rx by simp
  have le: "n + rb_len rx \<le> tot" using r(1) by (simp add: holds_def rb_len_def)
  have lst: "rb_list rx = map stream [n ..< n + rb_len rx]" using holds_list[OF wfx r(1)] by (simp add: rb_len_def)
  have "rx_open stream tot b n s6" if "rx_same s s5"
  proof (rule rx_open_eq[OF _ r(3)])
    show "rb_wf (rx_buffer (s5\<lparr>assembler := a, rx_buffer := rx\<rparr>))" using wfx by simp
    have "remote_last_ack s5 \<noteq> None \<Longrightarrow> win_end (s5\<lparr>assembler := a, rx_buffer := rx\<rparr>) = win_end s"
      using that by (auto simp: win_end_def rx_same_def)
    then show "rx_open stream tot b n (s5\<lparr>assembler := a, rx_buffer := rx\<rparr>)"
      unfolding rx_open_def using that o m r(1,2)
      by (intro conjI exI[of _ m] exI[of _ W]) (simp_all add: rx_open_def rx_same_def)
  qed
  moreover have "rx_fin_received s6 \<and> n + rb_len rx = tot \<and> remote_seq_no s6 = seq_at b (int n + 1)"
    if "\<not> rx_same s s5"
    using that same fin r(4) le rx o by (auto simp: rx_same_def got_fin_def rx_open_def seq_at_succ)
  moreover have "rx_same s s5 \<Longrightarrow> rx_fin_received s6 = rx_fin_received s" using rx by (simp add: rx_same_def)
  ultimately show ?thesis using rx r(2) cap le lst by simp
qed

text \<open>After the FIN no segment of the stream is in the window.\<close>

lemma segment_after_fin:
  assumes q: "remote_seq_no s = seq_at b (int n + 1)" and S: "n + rb_len (rx_buffer s) = tot"
    and f: "from_stream stream tot b n s repr" and w: "receive_window repr s = Some w"
    and iw: "segment_in_window w"
  shows "payload repr = [] \<and> control repr \<noteq> Fin"
proof (rule ccontr)
  assume not: "\<not> (payload repr = [] \<and> control repr \<noteq> Fin)"
  let ?l = "length (payload repr)"
  obtain p where p: "seq_number repr = seq_at b (int p)" "p + ?l \<le> tot" "\<bar>int p - int tot\<bar> < 2 ^ 28"
    "?l \<le> 65535" "control repr = Fin \<Longrightarrow> p + ?l = tot"
    using f not S by (auto simp: from_stream_def)
  have "placed b (int tot + 1) (int p) ?l w"
    using receive_window_fields[OF w] q p by (simp add: placed_def seq_at_def add.assoc S[symmetric])
  moreover have "0 < ?l \<or> int p = int tot + 1 - 1" using not p(5) by auto
  ultimately have "\<not> segment_in_window w" by (rule segment_past) (use p(2) in simp)
  then show False using iw by simp
qed

lemma rx_ok_process:
  assumes ok: "rx_ok stream tot b n s" and f: "from_stream stream tot b n s repr"
    and op: "state s \<noteq> Closed" and p: "process cx ip repr s = Some (r, s', cx')"
  shows "rx_ok stream tot b n s'"
proof -
  have i: "sk_inv s'" "state s' \<notin> {Listen, SynSent, SynReceived}" "state s \<notin> {Listen, SynSent, SynReceived}"
    using sk_inv_process[OF p] process_opening[OF p] ok by (simp_all add: rx_ok_def)
  have wf: "rb_wf (rx_buffer s)" "asm_wf (assembler s)" "rb_wf (rx_buffer s')"
    using ok i(1) by (simp_all add: rx_ok_def sk_inv_def)
  have eq: "rx_ok stream tot b n s'" if "rx_eq s s'"
    using rx_ok_eq[OF ok that i(1,2)] op by simp
  from p show ?thesis
  proof (cases rule: process_cases)
    case rejected
    then show ?thesis using eq core_rx_eq by blast
  next
    case (stopped w data off s1 a s2)
    have "rx_eq s s1" using check_window_core[OF stopped(3)] core_rx_eq by blast
    moreover have "rx_same s1 s2" using account_ack_rtte[OF stopped(4)] by (auto simp: rx_same_def)
    moreover have "state s2 \<notin> {Listen, SynSent, SynReceived}"
      using check_window_core[OF stopped(3)] account_ack_rtte[OF stopped(4)] i(3) by (auto simp: core_eq_def)
    then have "rx_eq s2 s'" using transition_ret_rx[OF stopped(5)] by blast
    ultimately show ?thesis using eq rx_eq_trans rx_same_eq by blast
  next
    case (processed w data off s1 a s2 s3 s4)
    note pr = processed_rx[OF i(3) processed(3-6)]
    let ?s5 = "update_timers cx a s4"
    show ?thesis
    proof (cases "rx_fin_received s")
      case True
      have "payload repr = [] \<and> control repr \<noteq> Fin"
        using segment_after_fin[OF _ _ f processed(2) pr(1)] ok True op by (simp add: rx_ok_def)
      then have "data = []" "rx_same s ?s5"
        using pr(2,3) clip_payload_Nil effective_control_Fin by fastforce+
      then show ?thesis using processed(7) eq rx_same_eq by (simp add: receive_payload_def)
    next
      case False
      have "rb_capacity (rx_buffer s) \<le> 2 ^ 30" "rx_open stream tot b n s"
        using ok False op by (simp_all add: rx_ok_def)
      then show ?thesis
        using piece_stored[OF _ wf(1,2) _ f processed(2) pr(2,3) processed(7) wf(3)] i False
        by (cases "rx_same s ?s5") (auto simp: rx_ok_def)
    qed
  qed
qed

section \<open>The other steps\<close>

lemma data_repr_ack:
  assumes "data_repr cx s r = Some (r', p)"
  shows "ack_number r' = ack_number r \<and> window_len r' = window_len r"
  using assms unfolding data_repr_def Let_def bind_eq_Some_conv
  by (elim exE conjE) (simp split: if_splits; auto)

lemma build_repr_ack:
  assumes "build_repr cx t s = Some (Some (r, p))" "state s \<notin> {Listen, SynSent, SynReceived}"
  shows "\<exists>ack. seq_add (remote_seq_no s) (rb_len (rx_buffer s)) = Some ack \<and> ack_number r = Some ack \<and>
    window_len r = scaled_window s"
proof -
  obtain r0 where r0: "base_repr t s = Some r0" using assms(1) by (auto simp: build_repr_def bind_eq_Some_conv)
  then have "\<exists>ack. seq_add (remote_seq_no s) (rb_len (rx_buffer s)) = Some ack \<and> ack_number r0 = Some ack \<and>
      window_len r0 = scaled_window s"
    by (auto simp: base_repr_def bind_eq_Some_conv)
  moreover have "ack_number r = ack_number r0 \<and> window_len r = window_len r0"
    using assms r0 by (cases "state s") (auto simp: build_repr_def bind_eq_Some_conv dest: data_repr_ack)
  ultimately show ?thesis by simp
qed

lemma finish_repr_ack:
  assumes "finish_repr cx s r = (r1, k)"
  shows "ack_number r1 = ack_number r" "window_len r1 = window_len r"
  using assms by (auto simp: finish_repr_def Let_def split: if_splits)

lemma run_timers_rx: "run_timers cx s = Some s' \<Longrightarrow> rx_same s s'"
  by (auto simp: run_timers_def Let_def bind_eq_Some_conv set_state_def rx_same_def split: if_splits)

lemma after_emit_rx:
  assumes b: "build_repr cx t s = Some (Some (r, p))" and f: "finish_repr cx s r = (r1, k)"
    and e: "after_emit cx r1 p k s = Some s'" and st: "state s \<notin> {Listen, SynSent, SynReceived}"
  shows "rx_eq s s'"
proof (cases "p \<or> k")
  case True
  then have "rx_same s s'" using e by (auto simp: after_emit_eq Let_def rx_same_def split: if_splits)
  then show ?thesis by (rule rx_same_eq)
next
  case False
  let ?s1 = "s\<lparr>timer := rewind_keep_alive (cx_now cx) (keep_alive s) (timer s), ack_delay_tm := AckIdle\<rparr>"
  obtain q where s': "s' = note_sent cx r1 q ?s1" using e False by (auto simp: after_emit_eq Let_def)
  have "rx_fin_received s' = rx_fin_received s" by (simp add: s' note_sent_def Let_def)
  then show ?thesis
    using build_repr_ack[OF b st] finish_repr_ack[OF f] by (auto simp: s' rx_eq_def acked_def)
qed

lemma rx_ok_reset:
  assumes "rx_ok stream tot b n s"
  shows "rx_ok stream tot b n (socket_reset s)"
proof -
  have "rb_list (rb_clear (rx_buffer s)) = []" by (rule rb_clear_list)
  then show ?thesis using assms sk_inv_reset[of s]
    by (simp add: rx_ok_def socket_reset_def rb_clear_def rb_query_defs)
qed

lemma rx_ok_dispatch:
  assumes ok: "rx_ok stream tot b n s" and d: "dispatch cx emit s = Some (d, s')"
  shows "rx_ok stream tot b n s'"
proof -
  have st: "state s \<notin> {Listen, SynSent, SynReceived}" using ok by (simp add: rx_ok_def)
  have timers: "rx_ok stream tot b n s1" if "run_timers cx s = Some s1" for s1
    using rx_ok_eq[OF ok rx_same_eq[OF run_timers_rx[OF that]] sk_inv_run_timers[OF that]]
      run_timers_state[OF that] ok by (auto simp: rx_ok_def)
  from d show ?thesis
  proof (cases rule: dispatch_cases)
    case (reset s1)
    then show ?thesis using timers ok rx_ok_reset by blast
  next
    case (sent t s1 r p r1 k ip)
    have ok1: "rx_ok stream tot b n s1" by (rule timers[OF sent(2)])
    then have "rx_eq s1 s'" using after_emit_rx[OF sent(4-6)] by (simp add: rx_ok_def)
    then show ?thesis
      using rx_ok_eq[OF ok1] sk_inv_dispatch[OF d] ok ok1 after_emit_state[OF sent(6)] by (auto simp: rx_ok_def)
  qed (use ok timers in auto)
qed

text \<open>Reading: the closure of \<open>recv\<close> sees a prefix of the queue and says how much of it it takes.\<close>

lemma rx_ok_recv:
  assumes ok: "rx_ok stream tot b n s" and g: "\<And>buf. g buf \<le> length buf"
    and r: "recv (\<lambda>buf. (buf, g buf, take (g buf) buf)) s = Some (Inr d, s')"
  shows "d = map stream [n ..< n + length d] \<and> rx_ok stream tot b (n + length d) s'"
proof -
  let ?f = "\<lambda>buf. (buf, g buf, take (g buf) buf)" and ?rx = "rx_buffer s"
  have wf: "rb_wf ?rx" using ok by (simp add: rx_ok_def sk_inv_def)
  have cf: "closure_ok ?f" using g by (simp add: closure_ok_def)
  have ro: "\<And>buf. fst (?f buf) = buf" by simp
  obtain buf rx where b: "buf = take (min (rlength ?rx) (length (storage ?rx) - read_at ?rx)) (rb_list ?rx)"
    and e: "dequeue_many_with ?rx ?f = Some (rx, snd (?f buf))" "rb_wf rx"
      "rb_list rx = drop (fst (snd (?f buf))) (rb_list ?rx)" "storage rx = storage ?rx"
      "rlength rx = rlength ?rx - fst (snd (?f buf))" "read_at rx = rb_get_idx ?rx (fst (snd (?f buf)))"
    by (rule dequeue_many_with_correct[OF wf cf ro])
  define k where "k = g buf"
  have k: "k \<le> rlength ?rx" "k \<le> length buf" using g[of buf] b wf by (auto simp: k_def length_rb_list)
  have fs: "snd (?f buf) = (k, take k buf)" by (simp add: k_def)
  have "\<exists>u. recv_error_check s = Inr u"
    using r by (cases "recv_error_check s") (auto simp: recv_def recv_impl_def)
  then obtain q where q: "seq_add (remote_seq_no s) k = Some q" "d = take k buf"
    "s' = s\<lparr>rx_buffer := rx, remote_seq_no := q\<rparr>"
    using r unfolding recv_def recv_impl_def e(1) fs by (auto simp: bind_eq_Some_conv)
  then have d: "d = take k buf" and s': "s' = s\<lparr>rx_buffer := rx, remote_seq_no := remote_seq_no s + of_nat k\<rparr>"
    by (auto simp: seq_add_def split: if_splits)
  have ld: "length d = k" using d k by simp
  have lst: "rb_list ?rx = map stream [n ..< n + rlength ?rx]" using ok by (simp add: rx_ok_def rb_len_def)
  have "d = take k (rb_list ?rx)" using d b k by (simp add: min_absorb1)
  then have d': "d = map stream [n ..< n + length d]" using lst ld k by (simp add: take_map take_upt)
  have cells: "rb_cells rx = rotate k (rb_cells ?rx)"
    using e(4,6) by (cases "storage ?rx = []") (simp_all add: rb_cells_def rb_get_idx_mod rotate_mod_add k_def)
  have cap: "rb_capacity rx = rb_capacity ?rx" using e(4) by (simp add: rb_capacity_def)
  have rl: "rlength rx = rlength ?rx - k" using e(5) by (simp add: k_def)
  have op: "rx_open stream tot b (n + k) s'" if o: "rx_open stream tot b n s"
  proof -
    obtain m W where m: "m \<le> n" "int m \<le> W + 1" "W \<le> int (m + rb_capacity ?rx)"
      "remote_last_ack s \<noteq> None \<longrightarrow> win_end s = seq_at b W"
      "holds stream (min (m + rb_capacity ?rx) tot) n ?rx (assembler s)"
      using o by (auto simp: rx_open_def)
    have "holds stream (min (m + rb_capacity ?rx) tot) (n + k) rx (assembler s)"
      by (rule holds_dequeue[OF m(5) k(1) e(4) rl cells])
    moreover have "remote_last_ack s \<noteq> None \<longrightarrow> win_end s' = win_end s" by (auto simp: win_end_def s')
    ultimately show ?thesis unfolding rx_open_def using m o cap
      by (intro conjI exI[of _ m] exI[of _ W]) (simp_all add: s' rx_open_def seq_at_def)
  qed
  have "rb_list rx = map stream [n + k ..< n + rlength ?rx]"
    using e(3) lst by (simp add: k_def[symmetric] drop_map)
  moreover have "sk_inv s'" using ok e(2) by (simp add: rx_ok_def sk_inv_def s')
  ultimately have "rx_ok stream tot b (n + k) s'"
    using ok op k(1) rl cap by (auto simp: rx_ok_def s' rb_len_def seq_at_def split: if_splits)
  then show ?thesis using d' ld by simp
qed

text \<open>The other calls.\<close>

inductive idle_step :: "tcp_socket \<Rightarrow> tcp_socket \<Rightarrow> bool" where
  idle_dispatch: "dispatch cx emit s = Some (d, s') \<Longrightarrow> idle_step s s'"
| idle_send: "closure_ok f \<Longrightarrow> send (f :: bytes \<Rightarrow> bytes \<times> nat \<times> nat) s = Some (r, s') \<Longrightarrow> idle_step s s'"
| idle_send_slice: "send_slice data s = Some (r, s') \<Longrightarrow> idle_step s s'"
| idle_close: "idle_step s (close s)"
| idle_abort: "idle_step s (abort s)"
| idle_timeout: "idle_step s (set_timeout d s)"
| idle_ack_delay: "idle_step s (set_ack_delay d s)"
| idle_nagle: "idle_step s (set_nagle_enabled v s)"
| idle_keep_alive: "idle_step s (set_keep_alive d s)"

lemma idle_tcp_step: "idle_step s s' \<Longrightarrow> tcp_step s s'"
  by (induction rule: idle_step.induct) (auto intro: tcp_step.intros)

lemma send_impl_rx: "send_impl f s = Some (r, s') \<Longrightarrow> rx_same s s' \<and> state s' = state s"
  by (auto simp: send_impl_def bind_eq_Some_conv Let_def rx_same_def split: if_splits)

lemma idle_rx:
  assumes "idle_step s s'" "state s \<notin> {Listen, SynSent, SynReceived}"
  shows "(\<exists>cx emit d. dispatch cx emit s = Some (d, s')) \<or>
    rx_same s s' \<and> state s' \<notin> {Listen, SynSent, SynReceived} \<and> (state s = Closed \<longrightarrow> state s' = Closed)"
  using assms
proof (induction rule: idle_step.induct)
  case (idle_close s)
  then show ?case by (cases "state s") (auto simp: close_def rx_same_def set_state_def)
qed (auto simp: send_def send_slice_def abort_def set_state_def set_timeout_def set_ack_delay_def
    set_nagle_enabled_def set_keep_alive_def rx_same_def[of s "s\<lparr>state := x\<rparr>" for s x] Let_def
    dest: send_impl_rx simp: rx_same_def)

lemma rx_ok_idle:
  assumes "rx_ok stream tot b n s" "idle_step s s'"
  shows "rx_ok stream tot b n s'"
proof -
  have "sk_inv s'" using sk_inv_step[OF idle_tcp_step[OF assms(2)]] assms(1) by (simp add: rx_ok_def)
  then show ?thesis
    using idle_rx[OF assms(2)] rx_ok_dispatch[OF assms(1)] rx_ok_eq[OF assms(1) rx_same_eq] assms(1)
    by (auto simp: rx_ok_def)
qed

section \<open>Runs\<close>

text \<open>A connection that has just been established, by a SYN-ACK with the sequence number before \<open>b\<close>, and
  whose announced window fits the receive buffer.  This is so once the acknowledgement of the SYN-ACK
  has been sent, and before that when the window of the SYN fits with the scale applied to it.\<close>

definition rx_fresh :: "seq_number \<Rightarrow> tcp_socket \<Rightarrow> bool" where
  "rx_fresh b s \<longleftrightarrow> state s = Established \<and> rb_len (rx_buffer s) = 0 \<and> asm_is_empty (assembler s) \<and>
     \<not> rx_fin_received s \<and> remote_seq_no s = b \<and> rb_capacity (rx_buffer s) \<le> 2 ^ 30 \<and>
     (let win = shl_usize (unat (remote_last_win s)) (remote_win_shift s) in
      remote_last_ack s = Some b \<and> win \<le> rb_capacity (rx_buffer s) \<or>
      remote_last_ack s = Some (b - 1) \<and> win \<le> rb_capacity (rx_buffer s) + 1)"

text \<open>What the application has read after the steps so far: segments of the peer arrive, the
  application reads, and everything else in any order.\<close>

inductive rx_run :: "(nat \<Rightarrow> u8) \<Rightarrow> nat \<Rightarrow> seq_number \<Rightarrow> tcp_socket \<Rightarrow> bytes \<Rightarrow> tcp_socket \<Rightarrow> bool"
  for stream :: "nat \<Rightarrow> u8" and tot :: nat and b :: seq_number and s0 :: tcp_socket where
  run_start: "rx_run stream tot b s0 [] s0"
| run_segment: "rx_run stream tot b s0 got s \<Longrightarrow> accepts ip repr s \<Longrightarrow>
    from_stream stream tot b (length got) s repr \<Longrightarrow> process cx ip repr s = Some (r, s', cx') \<Longrightarrow>
    rx_run stream tot b s0 got s'"
| run_recv: "rx_run stream tot b s0 got s \<Longrightarrow> (\<And>buf. g buf \<le> length buf) \<Longrightarrow>
    recv (\<lambda>buf. (buf, g buf, take (g buf) buf)) s = Some (Inr d, s') \<Longrightarrow> rx_run stream tot b s0 (got @ d) s'"
| run_idle: "rx_run stream tot b s0 got s \<Longrightarrow> idle_step s s' \<Longrightarrow> rx_run stream tot b s0 got s'"

lemma asm_is_empty_set:
  assumes "asm_wf a" "asm_is_empty a"
  shows "asm_set a = {}"
proof -
  obtain us k where a: "a = us @ replicate k contig_empty" "used_ok us" by (rule asm_wf_split[OF assms(1)])
  then have "us = []" using assms(2) by (cases us) (auto simp: asm_is_empty_def asm_front_def used_ok_def)
  then show ?thesis using a asm_set_used[of us k] by simp
qed

lemma rx_ok_fresh:
  assumes i: "sk_inv s" and f: "rx_fresh b s"
  shows "rx_ok stream tot b 0 s"
proof -
  let ?win = "shl_usize (unat (remote_last_win s)) (remote_win_shift s)"
  have l: "rlength (rx_buffer s) = 0" "asm_set (assembler s) = {}"
    using f i asm_is_empty_set by (auto simp: rx_fresh_def sk_inv_def rb_len_def)
  then have h: "holds stream e 0 (rx_buffer s) (assembler s)" if "e \<le> rb_capacity (rx_buffer s)" for e
    using that by (simp add: holds_def arrived_def rb_capacity_def)
  have "\<exists>W. win_end s = seq_at b W \<and> 0 \<le> W + 1 \<and> W \<le> int (rb_capacity (rx_buffer s))"
  proof (cases "remote_last_ack s = Some b")
    case True
    moreover have "?win \<le> rb_capacity (rx_buffer s)" using f True by (auto simp: rx_fresh_def Let_def)
    ultimately show ?thesis by (intro exI[of _ "int ?win"]) (simp add: win_end_def seq_at_def)
  next
    case False
    then have "remote_last_ack s = Some (b - 1)" "?win \<le> rb_capacity (rx_buffer s) + 1"
      using f by (auto simp: rx_fresh_def Let_def)
    then show ?thesis by (intro exI[of _ "int ?win - 1"]) (simp add: win_end_def seq_at_def)
  qed
  then obtain W where W: "win_end s = seq_at b W" "0 \<le> W + 1" "W \<le> int (rb_capacity (rx_buffer s))" by blast
  have "rx_open stream tot b 0 s"
    unfolding rx_open_def using f h W
    by (intro conjI exI[of _ 0] exI[of _ W]) (simp_all add: rx_fresh_def)
  then show ?thesis using f i l by (auto simp: rx_ok_def rx_fresh_def rb_list_def rb_len_def)
qed

lemma rx_run_ok:
  assumes r: "rx_run stream tot b s0 got s" and s0: "rx_ok stream tot b 0 s0"
  shows "rx_ok stream tot b (length got) s \<and> got = map stream [0 ..< length got]"
  using r
proof (induction rule: rx_run.induct)
  case run_start
  then show ?case using s0 by simp
next
  case (run_segment got s ip repr cx r s' cx')
  have "state s \<noteq> Closed" using run_segment(2) by (auto simp: accepts_def)
  then show ?case using run_segment rx_ok_process by blast
next
  case (run_recv got s g d s')
  have d: "d = map stream [length got ..< length got + length d]"
    "rx_ok stream tot b (length got + length d) s'"
    using rx_ok_recv[OF _ run_recv(2,3)] run_recv.IH by blast+
  have "[0 ..< length got + length d] = [0 ..< length got] @ [length got ..< length got + length d]"
    by (rule upt_add_eq_append) simp
  then have "got @ d = map stream [0 ..< length got + length d]"
    using run_recv.IH d(1) by (metis map_append)
  then show ?case using d(2) by simp
next
  case (run_idle got s s')
  then show ?case using rx_ok_idle by blast
qed

text \<open>The end of the stream is reported when the FIN has been received and everything has been read.\<close>

lemma recv_finished:
  "recv f s = Some (Inl Finished, s') \<Longrightarrow> rx_fin_received s \<and> rb_len (rx_buffer s) = 0"
  by (auto simp: recv_def recv_impl_def recv_error_check_def may_recv_def can_recv_def
      rb_query_defs bind_eq_Some_conv split: if_splits)

lemma rx_ok_recv_some:
  assumes ok: "rx_ok stream tot b n s" and l: "0 < rb_len (rx_buffer s)"
  shows "\<exists>d s'. recv (\<lambda>buf. (buf, length buf, take (length buf) buf)) s = Some (Inr d, s') \<and> d \<noteq> []"
proof -
  let ?f = "\<lambda>buf :: bytes. (buf, length buf, take (length buf) buf)" and ?rx = "rx_buffer s"
  have wf: "rb_wf ?rx" using ok by (simp add: rx_ok_def sk_inv_def)
  have cf: "closure_ok ?f" by (simp add: closure_ok_def)
  have ro: "\<And>buf. fst (?f buf) = buf" by simp
  obtain buf rx where b: "buf = take (min (rlength ?rx) (length (storage ?rx) - read_at ?rx)) (rb_list ?rx)"
    and e: "dequeue_many_with ?rx ?f = Some (rx, snd (?f buf))"
    by (rule dequeue_many_with_correct[OF wf cf ro])
  have ne: "storage ?rx \<noteq> []" using wf l by (auto simp: rb_wf_def rb_len_def)
  have "buf \<noteq> []" using b l rb_wf_read_at[OF wf ne] length_rb_list[OF wf] by (auto simp: rb_len_def)
  moreover have "length buf \<le> I32_MAX"
  proof -
    have "length buf \<le> rlength ?rx" using b length_rb_list[OF wf] by simp
    moreover have "rlength ?rx \<le> 2 ^ 30" using ok wf by (auto simp: rx_ok_def rb_capacity_def rb_wf_def)
    ultimately show ?thesis by simp
  qed
  moreover have "\<exists>u. recv_error_check s = Inr u"
    using l by (auto simp: recv_error_check_def may_recv_def can_recv_def rb_is_empty_def rb_len_def)
  ultimately show ?thesis using e by (auto simp: recv_def recv_impl_def seq_add_def)
qed

end
