(* ===== verification/Tcp_Progress.thy ===== *)
theory Tcp_Progress
  imports Tcp_Stream
begin

text \<open>
  From the handshake to the received stream.  The SYN of a connecting socket and the peer's SYN-ACK
  produce an established socket, from which the runs of \<open>Tcp_Stream\<close> start once its announced window fits
  the buffer; a segment with the next bytes of the stream that fits the window is stored, without a
  panic; and the receive window between the SYN-ACK and the first acknowledgement is computed from an
  unscaled window, so that it can end far behind the buffer.
\<close>

section \<open>The handshake\<close>

text \<open>The SYN announces its window unscaled.\<close>

lemma dispatch_syn:
  assumes "state s = SynSent" "tuple s = Some t" "has_ip_addr cx (ep_addr (tup_local t))"
    and "remote_last_seq s = local_seq_no s" "timeout s = None" "keep_alive s = None" "timer s = timer_new"
    and "rb_len (rx_buffer s) = 0"
  obtains d s' where "dispatch cx (\<lambda>_. True) s = Some (d, s')" "state s' = SynSent" "tuple s' = Some t"
    "rx_buffer s' = rx_buffer s" "tx_buffer s' = tx_buffer s" "assembler s' = assembler s"
    "rx_fin_received s' = rx_fin_received s" "local_seq_no s' = local_seq_no s"
    "remote_last_win s' = sat_u16 (rb_window (rx_buffer s))" "remote_win_shift s' = remote_win_shift s"
    "remote_last_ack s' = None" "timeout s' = None" "keep_alive s' = None" "\<exists>ip r. d = Emitted (ip, r) \<and> control r = Syn"
    "ack_delay_tm s' = AckIdle" "\<forall>now. \<not> should_keep_alive (timer s') now" "remote_mss s' = remote_mss s"
proof -
  let ?s1 = "if remote_last_ts s = None then s\<lparr>remote_last_ts := Some (cx_now cx)\<rparr> else s"
  have s1: "state ?s1 = SynSent" "tuple ?s1 = Some t" "remote_last_seq ?s1 = local_seq_no ?s1" "timeout ?s1 = None"
    "rx_buffer ?s1 = rx_buffer s" "timer ?s1 = timer_new" "remote_seq_no ?s1 = remote_seq_no s" 
    "tx_buffer ?s1 = tx_buffer s" "assembler ?s1 = assembler s" "keep_alive ?s1 = None"
    "rx_fin_received ?s1 = rx_fin_received s" "local_seq_no ?s1 = local_seq_no s" "remote_win_shift ?s1 = remote_win_shift s"
    using assms by simp_all
  have a: "seq_to_transmit cx ?s1 = Some True" using s1 by (simp add: seq_to_transmit_def Let_def)
  have r: "run_timers cx s = Some ?s1"
    unfolding run_timers_def Let_def timed_out_def using s1(4) a by (simp split: option.split)
  have d: "decide cx ?s1 = Some SendNow" using a by (simp add: decide_def)
  obtain br where br: "base_repr t ?s1 = Some br" using assms(8) s1(5,7) by (simp add: base_repr_def seq_add_def)
  have b: "build_repr cx t ?s1 = Some (Some (syn_repr ?s1 br, False))" using br s1(1) by (simp add: build_repr_def)
  obtain r1 where f: "finish_repr cx ?s1 (syn_repr ?s1 br) = (r1, False)" "payload r1 = payload br"
    "window_len r1 = sat_u16 (rb_window (rx_buffer s))" "control r1 = Syn" "ack_number r1 = None"
    using s1 by (auto simp: finish_repr_def Let_def timer_new_def syn_repr_def)
  have "payload br = []" using br by (auto simp: base_repr_def bind_eq_Some_conv)
  then have len: "segment_len r1 = 1" using f by (simp add: segment_len_def)
  obtain s' where e: "after_emit cx r1 False False ?s1 = Some s'" and
    s': "s' = note_sent cx r1 (seq_number r1 + 1) (?s1\<lparr>timer := rewind_keep_alive (cx_now cx) (keep_alive ?s1) (timer ?s1), ack_delay_tm := AckIdle\<rparr>)"
    using len by (simp add: after_emit_eq Let_def seq_add_def)
  have "\<exists>d. dispatch cx (\<lambda>_. True) s = Some (d, s') \<and> (\<exists>ip r. d = Emitted (ip, r) \<and> control r = Syn)"
    unfolding dispatch_def using assms(2,3) r d b f(1,4) e by simp
  moreover have "rx_fin_received s' = rx_fin_received s" "timeout s' = None" "keep_alive s' = None" "ack_delay_tm s' = AckIdle"
    "remote_mss s' = remote_mss s"
    using s1 by (simp_all add: s' note_sent_def Let_def)
  moreover have "\<forall>now. \<not> should_keep_alive (timer s') now"
    using s1(1,6) len by (simp add: s' note_sent_def Let_def timer_new_def)
  ultimately show thesis using that[of _ s'] s1 f(3,5) by (auto simp: s')
qed

text \<open>Without a keep-alive interval no timer asks for a keep-alive probe.\<close>

lemma update_timers_quiet:
  assumes "keep_alive s = None" "\<forall>now. \<not> should_keep_alive (timer s) now"
  shows "\<forall>now. \<not> should_keep_alive (timer (update_timers cx a s)) now"
proof -
  have "should_keep_alive (set_for_retransmit t d x) now = False" for t d x now by (cases x) auto
  then show ?thesis using assms
    by (auto simp: update_timers_def set_for_idle_def set_for_zero_window_probe_def Let_def split: timer.split)
qed

text \<open>The SYN-ACK establishes the connection.\<close>

lemma syn_ack_established:
  assumes st: "state s = SynSent" and c: "control repr = Syn" "ack_number repr = Some (local_seq_no s + 1)"
    and m: "max_seg_size repr \<noteq> Some 0" and p: "payload repr = []" and l: "rb_len (rx_buffer s) = 0"
    and la: "remote_last_ack s = None"
  obtains r s' where "process cx ip repr s = Some (r, s', cx)" "state s' = Established"
    "rx_buffer s' = rx_buffer s" "tx_buffer s' = tx_buffer s" "assembler s' = assembler s"
    "rx_fin_received s' = rx_fin_received s" "remote_seq_no s' = seq_number repr + 1"
    "remote_last_ack s' = Some (seq_number repr)" "remote_last_win s' = remote_last_win s"
    "remote_win_shift s' = (if window_scale repr = None then 0 else remote_win_shift s)" "tuple s' = tuple s"
    "local_seq_no s' = local_seq_no s + 1" "remote_mss s' = (case max_seg_size repr of Some m \<Rightarrow> unat m | None \<Rightarrow> remote_mss s)"
    "remote_last_seq s' = local_seq_no s + 1" "remote_win_len s' = unat (window_len repr)" "timeout s' = timeout s"
    "keep_alive s' = keep_alive s" "ack_delay_tm s' = ack_delay_tm s"
    "keep_alive s = None \<Longrightarrow> \<forall>now. \<not> should_keep_alive (timer s) now \<Longrightarrow> \<forall>now. \<not> should_keep_alive (timer s') now"
proof -
  have a: "check_ack cx ip repr s = Some (Cont (), s)" using st c by (simp add: check_ack_def Let_def)
  obtain w where w: "receive_window repr s = Some w"
    using l la p by (simp add: receive_window_def seq_add_def)
  have cw: "check_window cx ip repr w s = Some (Cont ([], 0), s)" using st by (simp add: check_window_def)
  obtain i s2 where i: "account_ack cx repr s = Some (i, s2)" "ack_len i = 0" "\<exists>q. s2 = s\<lparr>rtte := q\<rparr>"
    using st c by (auto simp: account_ack_def sent_syn_def sent_fin_def seq_ge_def seq_diff_def Let_def)
  have e: "effective_control w repr = Syn" using c by (simp add: effective_control_def Let_def)
  define s3 where "s3 = snd (syn_sent_syn repr s2)"
  have t: "transition cx ip repr Syn i s2 = Some (Cont (), s3, cx)"
    using i(3) st m by (auto simp: transition_def syn_sent_syn_def Let_def s3_def)
  have f: "state s3 = Established" "rx_buffer s3 = rx_buffer s" "tx_buffer s3 = tx_buffer s"
    "assembler s3 = assembler s" "rx_fin_received s3 = rx_fin_received s"
    "remote_seq_no s3 = seq_number repr + 1" "remote_last_ack s3 = Some (seq_number repr)"
    "remote_last_win s3 = remote_last_win s" "tuple s3 = tuple s"
    "remote_win_shift s3 = (if window_scale repr = None then 0 else remote_win_shift s)"
    "remote_mss s3 = (case max_seg_size repr of Some m \<Rightarrow> unat m | None \<Rightarrow> remote_mss s)"
    "remote_last_seq s3 = local_seq_no s + 1" "timeout s3 = timeout s" "keep_alive s3 = keep_alive s"
    using i(3) m c by (auto simp: s3_def syn_sent_syn_def learn_options_def set_state_def Let_def split: option.splits)
  let ?s4 = "with_ack cx repr (tx_buffer s3) s3"
  have u: "update_send_side cx repr i s3 = Some ?s4" using i(2) by (simp add: update_send_side_eq tx_after_def)
  have p': "process cx ip repr s = Some (None, update_timers cx i ?s4, cx)"
    using a w cw i(1) e t u by (simp add: process_def process_in_window_def receive_payload_def Let_def)
  have t3: "timer s3 = timer s" "ack_delay_tm s3 = ack_delay_tm s"
    using i(3) m c by (auto simp: s3_def syn_sent_syn_def learn_options_def set_state_def Let_def split: option.splits)
  have "remote_last_seq ?s4 = local_seq_no s + 1" "timeout ?s4 = timeout s" "keep_alive ?s4 = keep_alive s"
    "ack_delay_tm ?s4 = ack_delay_tm s" "timer ?s4 = timer s \<or> timer ?s4 = FastRetransmit"
    using f c t3 by (simp_all add: with_ack_def advance_ack_def set_for_fast_retransmit_def Let_def split: option.splits)
  note f4 = this
  have "\<forall>now. \<not> should_keep_alive (timer (update_timers cx i ?s4)) now"
    if "keep_alive s = None" "\<forall>now. \<not> should_keep_alive (timer s) now"
    by (rule update_timers_quiet) (use f4 that in auto)
  moreover note f4
  moreover have "new_remote_window repr s3 = unat (window_len repr)"
  proof -
    have "unat (window_len repr) < 2 ^ LENGTH(16)" by (rule unsigned_less)
    then show ?thesis using c by (simp add: new_remote_window_def shl_usize_def)
  qed
  ultimately show thesis
    by (intro that[OF p']) (subst update_timers_frame, simp add: f c)+
qed

section \<open>Progress\<close>

lemma iter_data_bound:
  assumes "\<And>x. x \<in> asm_set a \<Longrightarrow> x < k" "(l, r) \<in> set (iter_data a)"
  shows "l < k \<and> r \<le> k"
proof -
  have ne: "(l, r) \<in> set (iter_data_from o' cs) \<Longrightarrow> l < r" for o' cs
    by (induction o' cs rule: iter_data_from.induct) (auto simp: Let_def split: if_splits)
  have lr: "l < r" using ne assms(2) by (simp add: iter_data_def)
  have "{l ..< r} \<subseteq> asm_set a"
    using assms(2) iter_data_from_ranges[of 0 a] by (auto simp: asm_set_def iter_data_def)
  then have "l \<in> asm_set a" "r - 1 \<in> asm_set a" using lr by auto
  then show ?thesis using assms(1) lr by fastforce
qed

lemma sack_find_total:
  assumes "\<And>l r. (l, r) \<in> set xs \<Longrightarrow> l \<le> I32_MAX \<and> r \<le> I32_MAX"
  shows "\<exists>x. sack_find ack p xs = Some x"
  using assms
proof (induction xs)
  case (Cons y ys)
  obtain l r where y: "y = (l, r)" by (cases y)
  have "l \<le> I32_MAX \<and> r \<le> I32_MAX" using Cons.prems[of l r] y by simp
  moreover have "\<exists>x. sack_find ack p ys = Some x" using Cons by auto
  ultimately show ?case using y by (auto simp: seq_add_def)
qed simp

lemma ack_reply_total:
  assumes "rb_len (rx_buffer s) \<le> I32_MAX" "\<And>x. x \<in> asm_set (assembler s) \<Longrightarrow> x < I32_MAX"
  shows "\<exists>seg s'. ack_reply ip repr s = Some (seg, s')"
proof -
  have b: "\<exists>x. sack_block s1 ack = Some x" if "assembler s1 = assembler s" for s1 ack
  proof -
    have i: "l \<le> I32_MAX \<and> r \<le> I32_MAX" if "(l, r) \<in> set (iter_data (assembler s1))" for l r
      using iter_data_bound[of "assembler s1" I32_MAX l r] assms(2) \<open>assembler s1 = assembler s\<close> that by auto
    have f: "\<exists>x. sack_find ack p (iter_data (assembler s1)) = Some x" for p
      by (rule sack_find_total[OF i])
    obtain x where x: "(case local_rx_last_seq s1 of
        Some q \<Rightarrow> sack_find ack (\<lambda>l r. seq_le l q \<and> seq_ge r q) (iter_data (assembler s1))
      | None \<Rightarrow> Some None) = Some x"
      using f by (cases "local_rx_last_seq s1") auto
    show ?thesis using f[of "\<lambda>_ _. True"] unfolding sack_block_def x by (cases x) auto
  qed
  define ack where "ack = remote_seq_no s + of_nat (rb_len (rx_buffer s))"
  obtain x where "sack_block (s\<lparr>remote_last_ack := Some ack, remote_last_win := scaled_window s\<rparr>) ack = Some x"
    using b[of "s\<lparr>remote_last_ack := Some ack, remote_last_win := scaled_window s\<rparr>" ack] by auto
  moreover have "seq_add (remote_seq_no s) (rb_len (rx_buffer s)) = Some ack"
    using assms(1) by (simp add: seq_add_def ack_def)
  ultimately show ?thesis by (simp add: ack_reply_def tcp_reply_def Let_def)
qed

lemma update_ack_delay_total:
  assumes "rb_len (rx_buffer s) \<le> I32_MAX" "remote_mss s \<le> I32_MAX"
  shows "\<exists>s'. update_ack_delay cx s = Some s'"
  using assms by (auto simp: update_ack_delay_def ack_to_transmit_def immediate_ack_to_transmit_def seq_add_def
      split: option.splits ack_delay_timer.splits)

text \<open>A piece of the stream that fits is stored without a panic.\<close>

lemma receive_payload_total:
  assumes wf: "rb_wf (rx_buffer s)" "asm_wf (assembler s)"
    and h: "holds stream e n (rx_buffer s) (assembler s)" and e: "rb_capacity (rx_buffer s) \<le> 2 ^ 30"
    and d: "data = map stream [n + rb_len (rx_buffer s) + off ..< n + rb_len (rx_buffer s) + off + length data]"
    and fit: "n + rb_len (rx_buffer s) + off + length data \<le> e" and mss: "remote_mss s \<le> I32_MAX"
  shows "\<exists>r s'. receive_payload cx ip repr data off s = Some (r, s')"
proof (cases "data = [] \<or> (\<exists>e. add_then_remove_front (assembler s) off (length data) = Inl e)")
  case True
  then show ?thesis by (auto simp: receive_payload_def)
next
  case False
  let ?rx = "rx_buffer s"
  obtain a c where a: "data \<noteq> []" "add_then_remove_front (assembler s) off (length data) = Inr (a, c)"
    using False by (metis sum.exhaust prod.exhaust)
  obtain rx1 k where w: "write_unallocated ?rx off data = Some (rx1, k)" "rlength rx1 = rlength ?rx"
    "length (storage rx1) = length (storage ?rx)"
    using write_unallocated_total[OF wf(1)] by metis
  note hc = holds_contig[OF wf h fit[unfolded rb_len_def] a(2)]
  then have "c \<le> rb_window rx1" using h w(2,3) by (auto simp: holds_def rb_query_defs)
  then obtain rx2 where q: "(if c \<noteq> 0 then enqueue_unallocated rx1 c else Some rx1) = Some rx2"
    by (cases "c = 0") (auto simp: enqueue_unallocated_def)
  have r: "holds stream e n rx2 a" "length (storage rx2) = length (storage ?rx)"
    using holds_receive[OF wf h d[unfolded rb_len_def] fit[unfolded rb_len_def] a(2) w(1) q] by blast+
  let ?s1 = "s\<lparr>assembler := a, rx_buffer := rx2\<rparr>"
  have "x < I32_MAX" if "x \<in> asm_set a" for x
  proof -
    have "rlength rx2 + x \<in> arrived rx2 a" using that by (simp add: arrived_def)
    then have "n + (rlength rx2 + x) < e" using r(1) by (auto simp: holds_def)
    then show ?thesis using h e by (simp add: holds_def rb_capacity_def)
  qed
  moreover have "rb_len rx2 \<le> I32_MAX" using r e by (auto simp: holds_def rb_query_defs)
  ultimately have len: "rb_len rx2 \<le> I32_MAX" "\<And>x. x \<in> asm_set a \<Longrightarrow> x < I32_MAX" by blast+
  obtain s2 where s2: "update_ack_delay cx ?s1 = Some s2" using update_ack_delay_total[of ?s1] len mss by auto
  have "rx_buffer s2 = rx2" "assembler s2 = a" using update_ack_delay_frame[OF s2] by auto
  then have "\<exists>seg s3. ack_reply ip repr s2 = Some (seg, s3)" by (intro ack_reply_total) (use len in simp_all)
  then show ?thesis using a w(1) q s2 by (auto simp: receive_payload_def Let_def)
qed

text \<open>A data segment with the next bytes of the stream, inside the window, that acknowledges \<open>k\<close> bytes of
  what was sent; it may carry the FIN when the stream ends with it.\<close>

definition next_segment :: "(nat \<Rightarrow> u8) \<Rightarrow> nat \<Rightarrow> seq_number \<Rightarrow> nat \<Rightarrow> nat \<Rightarrow> nat \<Rightarrow> tcp_socket \<Rightarrow> tcp_repr \<Rightarrow> bool" where
  "next_segment stream tot b n p k s repr \<longleftrightarrow> control repr \<in> {NoControl, Psh, Fin} \<and>
     (control repr = Fin \<longrightarrow> p + length (payload repr) = tot) \<and>
     seq_number repr = seq_at b (int p) \<and> payload repr = map stream [p ..< p + length (payload repr)] \<and>
     p \<le> n + rb_len (rx_buffer s) \<and> n + rb_len (rx_buffer s) < p + length (payload repr) \<and>
     p + length (payload repr) \<le> tot \<and> n + rb_len (rx_buffer s) < p + 2 ^ 28 \<and> length (payload repr) \<le> 65535 \<and>
     seq_le (seq_number repr + of_nat (length (payload repr))) (win_end s) \<and>
     ack_number repr = Some (seq_at (local_seq_no s) (int k)) \<and> k \<le> rb_len (tx_buffer s)"

lemma next_from_stream: "next_segment stream tot b n p k s repr \<Longrightarrow> from_stream stream tot b n s repr"
  by (auto simp: next_segment_def from_stream_def)

lemma ack_accepted:
  assumes st: "state s = Established" and c: "control repr \<in> {NoControl, Psh, Fin}"
    and a: "ack_number repr = Some (seq_at (local_seq_no s) (int k))" "k \<le> rb_len (tx_buffer s)"
    and tx: "rb_len (tx_buffer s) \<le> 2 ^ 30"
  shows "check_ack cx ip repr s = Some (Cont (), s)"
    "\<exists>i q. account_ack cx repr s = Some (i, s\<lparr>rtte := q\<rparr>) \<and> ack_len i = k"
proof -
  let ?b = "local_seq_no s" and ?t = "rb_len (tx_buffer s)"
  have n: "near (int k) 0" "near (int k) (int ?t)" using a tx by (auto simp: near_def)
  have s0: "\<not> sent_syn s" "\<not> sent_fin s" using st by (simp_all add: sent_syn_def sent_fin_def)
  have lt: "\<not> seq_lt (seq_at ?b (int k)) ?b" "seq_ge (seq_at ?b (int k)) ?b" "\<not> seq_gt (seq_at ?b (int k)) (seq_at ?b (int ?t))"
    "seq_diff (seq_at ?b (int k)) ?b = Some k"
    using seq_at_cmp[OF n(1), of ?b] seq_at_cmp[OF n(2), of ?b] seq_at_diff[OF n(1), of ?b] a(2) by simp_all
  have "seq_add ?b ?t = Some (seq_at ?b (int ?t))" using tx by (simp add: seq_add_def seq_at_def)
  then have "check_ack_range cx ip repr (seq_at ?b (int k)) s = Some (Cont (), s)"
    using lt s0 by (simp add: check_ack_range_def Let_def)
  then show "check_ack cx ip repr s = Some (Cont (), s)"
    using st c a(1) by (auto simp: check_ack_def Let_def)
  show "\<exists>i q. account_ack cx repr s = Some (i, s\<lparr>rtte := q\<rparr>) \<and> ack_len i = k"
    using c a(1) lt s0 by (auto simp: account_ack_def Let_def)
qed

lemma next_segment_clip:
  assumes o: "rx_open stream tot b n s" and cap: "rb_capacity (rx_buffer s) \<le> 2 ^ 30"
    and x: "next_segment stream tot b n p k s repr" and w: "receive_window repr s = Some w"
    and m: "m \<le> n" "int m \<le> W + 1" "W \<le> int (m + rb_capacity (rx_buffer s))" "win_end s = seq_at b W"
    and h: "holds stream (min (m + rb_capacity (rx_buffer s)) tot) n (rx_buffer s) (assembler s)"
    and S: "S = n + rb_len (rx_buffer s)"
  shows "segment_in_window w" "\<exists>data. clip_payload w (payload repr) = Some (data, 0) \<and>
    S + length data = p + length (payload repr)" "\<not> seq_lt (window_start w) (segment_start w)"
proof -
  let ?l = "length (payload repr)"
  note rw = receive_window_fields[OF w]
  have pl: "placed b (int S) (int p) ?l w"
    using rw o x S by (simp add: placed_def rx_open_def next_segment_def seq_at_def add.assoc)
  have "S \<le> m + rb_capacity (rx_buffer s)" using h S by (simp add: holds_def rb_len_def)
  then have W: "window_end w = seq_at b W" "\<bar>W - int S\<bar> \<le> 2 ^ 30 + 1" using rw(2) m S cap by auto
  note n = placed_near[OF pl W(2)]
  have in_W: "int p + int ?l \<le> W"
  proof -
    have "seq_le (segment_end w) (window_end w)" using x unfolding next_segment_def rw(2,4) by blast
    then show ?thesis using pl W(1) seq_at_cmp(2)[OF n(8), of b] by (simp add: placed_def)
  qed
  have pS: "p \<le> S" "S < p + ?l" using x S by (simp_all add: next_segment_def)
  have "near (int S) W" using W(2) by (auto simp: near_def)
  then have "seq_at b (int S) = seq_at b W \<longleftrightarrow> int S = W" by (rule seq_at_cmp(5))
  then have "window_start w \<noteq> window_end w" using pl W(1) in_W pS(2) by (simp add: placed_def)
  moreover have "segment_start w \<noteq> segment_end w"
  proof -
    have "seq_at b (int p) = seq_at b (int p + int ?l) \<longleftrightarrow> int p = int p + int ?l" by (rule seq_at_cmp(5)[OF n(7)])
    then have "seq_at b (int p) \<noteq> seq_at b (int p + int ?l)" using pS by linarith
    then show ?thesis using pl by (simp add: placed_def)
  qed
  moreover have "seq_lt (window_start w) (segment_end w)" "seq_le (segment_end w) (window_end w)"
    using pl W(1) in_W pS seq_at_cmp(1)[OF n(3), of b] seq_at_cmp(2)[OF n(8), of b] by (simp_all add: placed_def)
  ultimately show "segment_in_window w" by (simp add: segment_in_window_def)
  show "\<not> seq_lt (window_start w) (segment_start w)"
    using pl pS(1) seq_at_cmp(1)[OF n(1), of b] by (simp add: placed_def)
  have "seq_max (window_start w) (segment_start w) = seq_at b (int S)"
    using pl n(1) pS by (simp add: placed_def seq_at_min_max max_def)
  moreover have "seq_min (window_end w) (segment_end w) = seq_at b (int p + int ?l)"
    using pl W n(2) in_W by (simp add: placed_def seq_at_min_max min_def)
  moreover have "seq_diff (seq_at b (int S)) (seq_at b (int p)) = Some (S - p)"
    "seq_diff (seq_at b (int p + int ?l)) (seq_at b (int p)) = Some ?l"
    using seq_at_diff[OF n(1), of b] seq_at_diff[OF near_sym[OF n(7)], of b] pS by (simp_all add: nat_diff_distrib)
  ultimately have "clip_payload w (payload repr) = Some (drop (S - p) (payload repr), 0)"
    using pl pS by (simp add: clip_payload_def Let_def placed_def slice_def seq_at_diff)
  then show "\<exists>data. clip_payload w (payload repr) = Some (data, 0) \<and> S + length data = p + ?l"
    using pS by simp
qed

lemma next_segment_processed:
  assumes ok: "rx_ok stream tot b n s" and st: "state s = Established"
    and x: "next_segment stream tot b n p k s repr"
    and la: "shl_usize (unat (remote_last_win s)) (remote_win_shift s) \<le> I32_MAX"
    and tx: "rb_len (tx_buffer s) \<le> 2 ^ 30" and mss: "remote_mss s \<le> I32_MAX" and fin: "\<not> rx_fin_received s"
  shows "\<exists>r s'. process cx ip repr s = Some (r, s', cx) \<and> rx_ok stream tot b n s' \<and>
    p + length (payload repr) \<le> n + rb_len (rx_buffer s') \<and>
    state s' = (if control repr = Fin then CloseWait else Established)"
proof -
  let ?S = "n + rb_len (rx_buffer s)"
  have o: "rx_open stream tot b n s" and cap: "rb_capacity (rx_buffer s) \<le> 2 ^ 30"
    and wf: "rb_wf (rx_buffer s)" "asm_wf (assembler s)" "rb_wf (tx_buffer s)"
    using ok st fin by (simp_all add: rx_ok_def sk_inv_def)
  obtain m W where m: "m \<le> n" "int m \<le> W + 1" "W \<le> int (m + rb_capacity (rx_buffer s))" "win_end s = seq_at b W"
    and h: "holds stream (min (m + rb_capacity (rx_buffer s)) tot) n (rx_buffer s) (assembler s)"
    by (rule rx_open_window[OF o])
  have xs: "control repr \<in> {NoControl, Psh, Fin}" "ack_number repr = Some (seq_at (local_seq_no s) (int k))"
    "k \<le> rb_len (tx_buffer s)" "length (payload repr) \<le> 65535" "?S < p + length (payload repr)"
    using x by (simp_all add: next_segment_def)
  have rl: "rb_len (rx_buffer s) \<le> 2 ^ 30" using wf(1) cap by (simp add: rb_wf_def rb_query_defs)
  obtain w where w: "receive_window repr s = Some w"
    using rl xs(4) la by (cases "remote_last_ack s") (simp_all add: receive_window_def seq_add_def)
  obtain data where c: "segment_in_window w" "clip_payload w (payload repr) = Some (data, 0)"
    "?S + length data = p + length (payload repr)" "\<not> seq_lt (window_start w) (segment_start w)"
    using next_segment_clip[OF o cap x w m h refl] by blast
  have d: "data = map stream [?S + 0 ..< ?S + 0 + length data]" "data \<noteq> []" "?S + 0 + length data \<le> min (m + rb_capacity (rx_buffer s)) tot"
    using segment_piece[OF o cap next_from_stream[OF x] w c(2) m h refl] xs(5) c(3) by auto
  let ?s1 = "s\<lparr>local_rx_last_seq := Some (seq_number repr)\<rparr>"
  have cw: "check_window cx ip repr w s = Some (Cont (data, 0), ?s1)"
    using st c by (simp add: check_window_def)
  obtain i q where i: "account_ack cx repr ?s1 = Some (i, ?s1\<lparr>rtte := q\<rparr>)" "ack_len i = k"
    using ack_accepted(2)[of ?s1 repr k cx] st xs tx by auto
  let ?s2 = "?s1\<lparr>rtte := q\<rparr>"
  define s3 where "s3 = (if control repr = Fin then set_state CloseWait (got_fin ?s2) else ?s2)"
  have t: "transition cx ip repr (effective_control w repr) i ?s2 = Some (Cont (), s3, cx)"
    using st xs(1) c(4) by (auto simp: transition_def effective_control_def s3_def Let_def)
  have f3: "tx_buffer s3 = tx_buffer s" "rx_buffer s3 = rx_buffer s" "assembler s3 = assembler s" "remote_mss s3 = remote_mss s"
    "state s3 = (if control repr = Fin then CloseWait else Established)"
    using st by (simp_all add: s3_def got_fin_def set_state_def)
  obtain tb where tb: "tx_after i s3 = Some tb"
    using i(2) xs(3) f3(1) by (cases "0 < ack_len i") (auto simp: tx_after_def dequeue_allocated_def)
  let ?s5 = "update_timers cx i (with_ack cx repr tb s3)"
  have u: "update_send_side cx repr i s3 = Some (with_ack cx repr tb s3)" using tb by (simp add: update_send_side_eq)
  have s5: "rx_buffer ?s5 = rx_buffer s" "assembler ?s5 = assembler s" "remote_mss ?s5 = remote_mss s" "state ?s5 = state s3"
    by (subst update_timers_frame, simp add: f3)+
  have rd: "\<exists>r s'. receive_payload cx ip repr data 0 ?s5 = Some (r, s')"
    by (rule receive_payload_total[of ?s5, unfolded s5, OF wf(1,2) h cap d(1) d(3) mss])
  then obtain r s' where r: "receive_payload cx ip repr data 0 ?s5 = Some (r, s')" by blast
  have p: "process cx ip repr s = Some (r, s', cx)"
    using ack_accepted(1)[OF st xs(1-3) tx] w cw i(1) t u r by (simp add: process_def process_in_window_def Let_def)
  have "state s \<noteq> Closed" using st by simp
  then have ok': "rx_ok stream tot b n s'" by (rule rx_ok_process[OF ok next_from_stream[OF x] _ p])
  obtain rx a where "rx_eq (?s5\<lparr>assembler := a, rx_buffer := rx\<rparr>) s'" "rb_len (rx_buffer s) + length data \<le> rb_len rx"
    using receive_payload_rx[OF r, unfolded s5, OF wf(1,2) h d(1) d(3)] by auto
  then have "p + length (payload repr) \<le> n + rb_len (rx_buffer s')" using c(3) by (simp add: rx_eq_def)
  moreover have "state s' = state s3" using receive_payload_send_eq[OF r] s5(4) by (simp add: send_eq_def)
  ultimately show ?thesis using p ok' f3(5) by (intro exI[of _ r] exI[of _ s']) simp
qed

section \<open>Before the first acknowledgement\<close>

text \<open>An established socket with an empty buffer whose receive window ends behind the buffer: a byte
  just behind the buffer is in the window, is recorded as received, and is nowhere.\<close>

lemma byte_behind_buffer:
  assumes st: "state s = Established" and wf: "rb_wf (rx_buffer s)" "rb_len (rx_buffer s) = 0" "assembler s = asm_new 4"
    and cap: "rb_capacity (rx_buffer s) = c" "0 < c" "c < W" "W \<le> 2 ^ 28" "remote_mss s \<le> I32_MAX"
    and q: "remote_seq_no s = b" "remote_last_ack s = Some la" "seq_add la (shl_usize (unat (remote_last_win s)) (remote_win_shift s)) = Some (seq_at b (int W))"
    and r: "control repr = NoControl" "seq_number repr = seq_at b (int c)" "payload repr = [x]"
      "ack_number repr = Some (local_seq_no s)" and tx: "rb_len (tx_buffer s) \<le> 2 ^ 30"
  obtains rep s' where "process cx ip repr s = Some (rep, s', cx)" "asm_set (assembler s') = {c}"
    "rb_capacity (rx_buffer s') = c" "rb_len (rx_buffer s') = 0"
proof -
  define w where "w = \<lparr>window_start = seq_at b 0, window_end = seq_at b (int W), segment_start = seq_at b (int c),
    segment_end = seq_at b (int c + 1)\<rparr>"
  have w: "receive_window repr s = Some w"
    using wf q r by (simp add: receive_window_def w_def seq_add_def seq_at_def add.assoc)
  have n: "near 0 (int c)" "near 0 (int W)" "near (int c) (int W)" "near (int W) (int c + 1)" "near (int c + 1) (int c)"
    "near (int c) 0" "near (int c) (int c + 1)"
    using cap by (auto simp: near_def)
  have nz: "seq_at b (int c) \<noteq> seq_at b (int c + 1)" "seq_at b 0 \<noteq> seq_at b (int W)"
    using seq_at_cmp(5)[OF n(7), of b] seq_at_cmp(5)[OF n(2), of b] cap by simp_all
  have iw: "segment_in_window w"
    using nz seq_at_cmp(2)[OF n(1), of b] seq_at_cmp(1)[OF n(3), of b] cap by (simp add: segment_in_window_def w_def)
  have mx: "seq_max (seq_at b 0) (seq_at b (int c)) = seq_at b (int c)" "seq_min (seq_at b (int W)) (seq_at b (int c + 1)) = seq_at b (int c + 1)"
  proof -
    have "max 0 (int c) = int c" "min (int W) (int c + 1) = int c + 1" using cap by auto
    then show "seq_max (seq_at b 0) (seq_at b (int c)) = seq_at b (int c)"
      "seq_min (seq_at b (int W)) (seq_at b (int c + 1)) = seq_at b (int c + 1)"
      using seq_at_min_max(1)[OF n(1), of b] seq_at_min_max(2)[OF n(4), of b] by simp_all
  qed
  have df: "seq_diff (seq_at b (int c)) (seq_at b (int c)) = Some 0" "seq_diff (seq_at b (int c + 1)) (seq_at b (int c)) = Some 1"
    "seq_diff (seq_at b (int c)) (seq_at b 0) = Some c"
    using seq_at_diff[OF near_refl, of b "int c"] seq_at_diff[OF n(5), of b] seq_at_diff[OF n(6), of b] by simp_all
  have cl: "clip_payload w (payload repr) = Some ([x], c)"
    unfolding clip_payload_def w_def by (simp only: rx_window.simps mx df Let_def bind.bind_lunit r) (simp add: slice_def)
  let ?s1 = "s\<lparr>local_rx_last_seq := Some (seq_number repr)\<rparr>"
  have cw: "check_window cx ip repr w s = Some (Cont ([x], c), ?s1)" using st iw cl by (simp add: check_window_def)
  have ak: "ack_number repr = Some (seq_at (local_seq_no s) (int 0))" using r by simp
  obtain i z where i: "account_ack cx repr ?s1 = Some (i, ?s1\<lparr>rtte := z\<rparr>)" "ack_len i = 0"
    using ack_accepted(2)[of ?s1 repr 0 cx] st r tx by auto
  let ?s2 = "?s1\<lparr>rtte := z\<rparr>"
  have t: "transition cx ip repr (effective_control w repr) i ?s2 = Some (Cont (), ?s2, cx)"
    using st r by (simp add: transition_def effective_control_def Let_def)
  define s5 where "s5 = update_timers cx i (with_ack cx repr (tx_buffer s) ?s2)"
  have u: "update_send_side cx repr i ?s2 = Some (with_ack cx repr (tx_buffer s) ?s2)"
    using i(2) by (simp add: update_send_side_eq tx_after_def)
  have s5: "rx_buffer s5 = rx_buffer s" "assembler s5 = assembler s" "remote_mss s5 = remote_mss s"
    unfolding s5_def by (subst update_timers_frame, simp)+
  have wfa: "asm_wf (assembler s)" using wf by simp
  have "asm_add (asm_new 4) c 1 = Inr ([hole_and_data c 1] @ replicate 3 contig_empty)"
    using asm_add_eq[of "[]" 1 4 c] by (simp add: asm_new_def)
  then have "\<exists>y. add_then_remove_front (assembler s) c 1 = Inr y"
    using cap(2) wf(3) by (simp add: add_then_remove_front_def)
  then obtain a k where a: "add_then_remove_front (assembler s) c 1 = Inr (a, k)" by auto
  note ac = add_then_remove_front_correct[OF wfa a]
  have none: "asm_set (assembler s) = {}" using wf(3) asm_new_correct(2)[of 4] by simp
  have k: "k = 0" using ac(3) none cap(2) by (cases k) auto
  have as: "asm_set a = {c}" using ac(5) none k by auto
  obtain rx1 j where rx: "write_unallocated (rx_buffer s) c [x] = Some (rx1, j)" "rlength rx1 = rlength (rx_buffer s)"
    "length (storage rx1) = length (storage (rx_buffer s))"
    using write_unallocated_total[OF wf(1)] by metis
  let ?s6 = "s5\<lparr>assembler := a, rx_buffer := rx1\<rparr>"
  have l0: "rb_len rx1 = 0" using rx(2) wf(2) by (simp add: rb_len_def)
  obtain s7 where s7: "update_ack_delay cx ?s6 = Some s7"
    using update_ack_delay_total[of ?s6 cx] l0 cap(5) s5(3) by auto
  have f7: "rx_buffer s7 = rx1" "assembler s7 = a" using update_ack_delay_frame[OF s7] by auto
  have "\<exists>seg s8. ack_reply ip repr s7 = Some (seg, s8)"
    by (rule ack_reply_total) (use f7 l0 as cap in auto)
  then obtain seg s8 where s8: "ack_reply ip repr s7 = Some (seg, s8)" by blast
  have f8: "rx_buffer s8 = rx1" "assembler s8 = a" using ack_reply_core[OF s8] f7 by (simp_all add: core_eq_def)
  have "\<exists>rep s'. receive_payload cx ip repr [x] c s5 = Some (rep, s') \<and> (s' = s7 \<or> s' = s8)"
  proof -
    have "receive_payload cx ip repr [x] c s5 =
        (if \<not> asm_is_empty (assembler s7) \<or> \<not> asm_is_empty (assembler s) then Some (Some seg, s8) else Some (None, s7))"
      unfolding receive_payload_def using a rx(1) k s7 s8 s5 by (simp add: Let_def)
    then show ?thesis by simp
  qed
  then obtain rep s' where rp: "receive_payload cx ip repr [x] c s5 = Some (rep, s')" "s' = s7 \<or> s' = s8" by blast
  have ca: "check_ack cx ip repr s = Some (Cont (), s)"
    by (rule ack_accepted(1)[OF st _ ak _ tx]) (use r(1) in simp_all)
  have "process cx ip repr s = Some (rep, s', cx)"
    by (simp add: process_def ca w cw process_in_window_def i(1) t u s5_def[symmetric] rp(1) Let_def)
  moreover have "rx_buffer s' = rx1" "assembler s' = a" using rp(2) f7 f8 by metis+
  moreover have "rb_capacity rx1 = c" using rx(3) cap(1) by (simp add: rb_capacity_def)
  ultimately show thesis using that as l0 by metis
qed

section \<open>Properties\<close>

text \<open>C6: the bytes the application receives.  The run starts with a reachable established socket whose
  receive buffer, at most \<open>2 ^ 30\<close> bytes, is empty and whose announced window fits it: the state of every
  connecting socket once it has acknowledged the SYN-ACK (\<open>handshake_fresh\<close> and \<open>worker_socket_fresh\<close> of
  \<open>Tcp_Open\<close>).  Whatever segments of the peer's stream then arrive (lost, repeated, reordered,
  overlapping, beyond the window, across the wrap of the sequence numbers), provided each starts less
  than \<open>2 ^ 28\<close> bytes from the next expected byte, carries at most 65535 bytes and, when it has a FIN,
  ends inside the window, and whatever is read, sent and closed in between: what the application has
  read followed by what its receive buffer holds is the beginning of the stream, nothing lost, doubled
  or moved; and when \<open>recv\<close> reports the end, the application has read all of the stream.  Without the
  condition on the FIN the end may be reported early: \<open>fin_behind_window_truncates\<close>.\<close>

theorem tcp_receive_stream:
  assumes "rb_wf rx" "rb_wf tx" "tcp_reachable rx tx s0" "rx_fresh b s0" "rx_run stream tot b s0 got s"
  shows "got @ rb_list (rx_buffer s) = map stream [0 ..< length got + rb_len (rx_buffer s)] \<and>
    length got + rb_len (rx_buffer s) \<le> tot \<and>
    (recv f s = Some (Inl Finished, s') \<longrightarrow> got = map stream [0 ..< tot])"
proof -
  have i: "rx_ok stream tot b (length got) s" "got = map stream [0 ..< length got]"
    using rx_run_ok[OF assms(5) rx_ok_fresh[OF sk_inv_reachable[OF assms(1-3)] assms(4)]] by auto
  let ?L = "rb_len (rx_buffer s)"
  have "rb_list (rx_buffer s) = map stream [length got ..< length got + ?L]" using i(1) by (simp add: rx_ok_def)
  moreover have "[0 ..< length got + ?L] = [0 ..< length got] @ [length got ..< length got + ?L]"
    by (rule upt_add_eq_append) simp
  ultimately have l: "got @ rb_list (rx_buffer s) = map stream [0 ..< length got + ?L]"
    using i(2) by (metis map_append)
  have "got = map stream [0 ..< tot]" if "recv f s = Some (Inl Finished, s')"
    using recv_finished[OF that] i by (simp add: rx_ok_def)
  then show ?thesis using l i(1) by (simp add: rx_ok_def)
qed

text \<open>A connection to a peer that sends three bytes.\<close>

definition demo_data :: tcp_repr where
  "demo_data = \<lparr>src_port = 50000, dst_port = 50000, control = NoControl, seq_number = 9001,
     ack_number = Some (local_seq_no demo_connected + 1), window_len = 4000, window_scale = None,
     max_seg_size = None, sack_permitted = False, sack_ranges = [None, None, None],
     timestamp = None, payload = [65, 66, 67]\<rparr>"

definition demo_stream :: "nat \<Rightarrow> u8" where
  "demo_stream i = (if i < 3 then [65, 66, 67] ! i else 0)"

lemma demo_opened:
  fixes q :: seq_number
  obtains s where "tcp_reachable demo_rb demo_rb s" "state s = Established" "rx_buffer s = demo_rb" "tx_buffer s = demo_rb"
    "assembler s = asm_new 4" "\<not> rx_fin_received s" "remote_seq_no s = q + 1" "remote_last_ack s = Some q"
    "shl_usize (unat (remote_last_win s)) (remote_win_shift s) = 8" "remote_mss s = 1460"
    "tuple s = Some \<lparr>tup_local = \<lparr>ep_addr = 0x0a000001, ep_port = 50000\<rparr>, tup_remote = \<lparr>ep_addr = 0x0a000002, ep_port = 50000\<rparr>\<rparr>"
    "local_seq_no s = local_seq_no demo_connected + 1" "remote_last_seq s = local_seq_no s" "remote_win_len s = 4000"
    "timeout s = None" "keep_alive s = None"
proof -
  let ?c = demo_connected and ?sa = "demo_syn_ack\<lparr>seq_number := q\<rparr>" and ?t = "\<lparr>tup_local = \<lparr>ep_addr = 0x0a000001, ep_port = 50000\<rparr>,
    tup_remote = \<lparr>ep_addr = 0x0a000002, ep_port = 50000\<rparr>\<rparr>"
  have new: "socket_new demo_rb demo_rb = Some (the (socket_new demo_rb demo_rb))"
    by (simp add: socket_new_def demo_rb_def rb_new_def rb_capacity_def)
  have ip: "has_ip_addr demo_cx (ep_addr (tup_local ?t))" by (simp add: has_ip_addr_def demo_cx_def)
  have c: "state ?c = SynSent" "tuple ?c = Some ?t" "remote_last_seq ?c = local_seq_no ?c" "timeout ?c = None"
    "keep_alive ?c = None" "timer ?c = timer_new" "rb_len (rx_buffer ?c) = 0" "rx_buffer ?c = demo_rb"
    "tx_buffer ?c = demo_rb" "assembler ?c = asm_new 4" "\<not> rx_fin_received ?c"
    by (simp_all add: demo_connected_eq socket_new_def demo_rb_def rb_new_def rb_query_defs)
  obtain d s1 where s1: "dispatch demo_cx (\<lambda>_. True) ?c = Some (d, s1)" "state s1 = SynSent" "tuple s1 = Some ?t"
    "rx_buffer s1 = demo_rb" "tx_buffer s1 = demo_rb" "assembler s1 = asm_new 4" "\<not> rx_fin_received s1"
    "local_seq_no s1 = local_seq_no ?c" "remote_last_win s1 = sat_u16 (rb_window demo_rb)"
    "remote_last_ack s1 = None" "timeout s1 = None" "keep_alive s1 = None"
    using dispatch_syn[OF c(1,2) ip c(3-7)] c(8-11) by metis
  have sa: "control ?sa = Syn" "ack_number ?sa = Some (local_seq_no s1 + 1)"
    "max_seg_size ?sa \<noteq> Some 0" "payload ?sa = []" "rb_len (rx_buffer s1) = 0"
    using s1 by (simp_all add: demo_syn_ack_def demo_rb_def rb_new_def rb_len_def)
  obtain r s where e: "process demo_cx demo_ip ?sa s1 = Some (r, s, demo_cx)" "state s = Established"
    "rx_buffer s = rx_buffer s1" "tx_buffer s = tx_buffer s1" "assembler s = assembler s1"
    "rx_fin_received s = rx_fin_received s1" "remote_seq_no s = seq_number ?sa + 1"
    "remote_last_ack s = Some (seq_number ?sa)" "remote_last_win s = remote_last_win s1"
    "remote_win_shift s = (if window_scale ?sa = None then 0 else remote_win_shift s1)" "tuple s = tuple s1"
    "local_seq_no s = local_seq_no s1 + 1"
    "remote_mss s = (case max_seg_size ?sa of Some m \<Rightarrow> unat m | None \<Rightarrow> remote_mss s1)"
    "remote_last_seq s = local_seq_no s1 + 1" "remote_win_len s = unat (window_len ?sa)" "timeout s = timeout s1"
    "keep_alive s = keep_alive s1"
    by (rule syn_ack_established[OF s1(2) sa s1(10)])
  have "tcp_step (the (socket_new demo_rb demo_rb)) ?c" unfolding demo_connected_def by (rule step_connect)
  moreover have "tcp_step ?c s1" using s1(1) by (rule step_dispatch)
  moreover have "accepts demo_ip ?sa s1"
    using s1 by (simp add: accepts_def demo_ip_def demo_syn_ack_def)
  then have "tcp_step s1 s" using e(1) by (rule step_process)
  ultimately have "tcp_reachable demo_rb demo_rb s"
    unfolding tcp_reachable_def using new by (meson rtranclp.rtrancl_into_rtrancl rtranclp.rtrancl_refl)
  moreover have "shl_usize (unat (remote_last_win s)) (remote_win_shift s) = 8"
    using e s1 by (simp add: demo_syn_ack_def demo_rb_def rb_new_def rb_query_defs sat_u16_def shl_usize_def)
  ultimately show thesis using that e s1 by (simp add: demo_syn_ack_def)
qed

lemma demo_fresh:
  obtains s where "tcp_reachable demo_rb demo_rb s" "rx_fresh 9001 s" "accepts demo_ip demo_data s"
    "next_segment demo_stream 3 9001 0 0 0 s demo_data" "rb_len (tx_buffer s) = 0" "remote_mss s = 1460"
    "shl_usize (unat (remote_last_win s)) (remote_win_shift s) = 8"
proof -
  obtain s where s: "tcp_reachable demo_rb demo_rb s" "state s = Established" "rx_buffer s = demo_rb" "tx_buffer s = demo_rb"
    "assembler s = asm_new 4" "\<not> rx_fin_received s" "remote_seq_no s = 9000 + 1" "remote_last_ack s = Some 9000"
    "shl_usize (unat (remote_last_win s)) (remote_win_shift s) = 8" "remote_mss s = 1460"
    "tuple s = Some \<lparr>tup_local = \<lparr>ep_addr = 0x0a000001, ep_port = 50000\<rparr>, tup_remote = \<lparr>ep_addr = 0x0a000002, ep_port = 50000\<rparr>\<rparr>"
    "local_seq_no s = local_seq_no demo_connected + 1"
    by (rule demo_opened[of 9000])
  have "asm_is_empty (asm_new 4)"
    by (simp add: asm_is_empty_def asm_new_def asm_front_def numeral_eq_Suc)
  then have "rx_fresh 9001 s"
    using s by (simp add: rx_fresh_def demo_rb_def rb_new_def rb_query_defs)
  moreover have "accepts demo_ip demo_data s" using s by (simp add: accepts_def demo_ip_def demo_data_def)
  moreover have "win_end s = 9008" using s by (simp add: win_end_def)
  then have "next_segment demo_stream 3 9001 0 0 0 s demo_data"
    using s by (simp add: next_segment_def demo_data_def demo_stream_def demo_rb_def rb_new_def rb_len_def seq_le_def
        upt_rec seq_at_def)
  ultimately show thesis using that s by (simp add: demo_rb_def rb_new_def rb_len_def)
qed

theorem tcp_receive_stream_witness:
  "\<exists>s0 s. rx_run demo_stream 3 9001 s0 [] s \<and> rb_list (rx_buffer s) = [65, 66, 67]"
proof -
  obtain s0 where s0: "tcp_reachable demo_rb demo_rb s0" "rx_fresh 9001 s0" "accepts demo_ip demo_data s0"
    "next_segment demo_stream 3 9001 0 0 0 s0 demo_data" "rb_len (tx_buffer s0) = 0" "remote_mss s0 = 1460"
    "shl_usize (unat (remote_last_win s0)) (remote_win_shift s0) = 8"
    by (rule demo_fresh)
  have ok: "rx_ok demo_stream 3 9001 0 s0"
    by (rule rx_ok_fresh[OF sk_inv_reachable[OF demo_rb_wf demo_rb_wf s0(1)] s0(2)])
  obtain r s where s: "process demo_cx demo_ip demo_data s0 = Some (r, s, demo_cx)"
    "0 + length (payload demo_data) \<le> 0 + rb_len (rx_buffer s)"
    using next_segment_processed[OF ok _ s0(4), of demo_cx demo_ip] s0 by (auto simp: rx_fresh_def)
  have run: "rx_run demo_stream 3 9001 s0 [] s"
    using run_segment[OF run_start s0(3) _ s(1)] next_from_stream[OF s0(4)] by simp
  have "[] @ rb_list (rx_buffer s) = map demo_stream [0 ..< length [] + rb_len (rx_buffer s)] \<and>
      length [] + rb_len (rx_buffer s) \<le> 3"
    using tcp_receive_stream[OF demo_rb_wf demo_rb_wf s0(1,2) run] by auto
  moreover from this s(2) have "rb_len (rx_buffer s) = 3" by (simp add: demo_data_def)
  ultimately have "rb_list (rx_buffer s) = [65, 66, 67]" by (simp add: demo_stream_def upt_rec)
  then show ?thesis using run by blast
qed

text \<open>C8: progress of the receive side.  In a run as above (from a fresh socket, segments of one stream
  arriving), while the connection is established, the announced window, the peer's MSS and the
  transmit queue are below \<open>2 ^ 31\<close>, \<open>2 ^ 31\<close> and \<open>2 ^ 30\<close>: a segment that brings the next bytes of the
  stream, ends inside the window, starts less than \<open>2 ^ 28\<close> bytes before the next expected byte, carries
  at most 65535 bytes and acknowledges no more than was sent is processed without a panic, and
  afterwards the receive buffer holds the stream at least up to the end of the segment, whatever had
  been received out of order before; the connection stays established, or goes to CLOSE-WAIT when the
  segment carries the FIN.\<close>

theorem tcp_next_segment_stored:
  assumes "rb_wf rx" "rb_wf tx" "tcp_reachable rx tx s0" "rx_fresh b s0" "rx_run stream tot b s0 got s"
    and "state s = Established" "next_segment stream tot b (length got) p k s repr"
    and "shl_usize (unat (remote_last_win s)) (remote_win_shift s) \<le> I32_MAX"
    and "rb_len (tx_buffer s) \<le> 2 ^ 30" "remote_mss s \<le> I32_MAX"
  shows "\<exists>r s'. process cx ip repr s = Some (r, s', cx) \<and>
    p + length (payload repr) \<le> length got + rb_len (rx_buffer s') \<and>
    state s' = (if control repr = Fin then CloseWait else Established)"
proof -
  have ok: "rx_ok stream tot b (length got) s"
    using rx_run_ok[OF assms(5) rx_ok_fresh[OF sk_inv_reachable[OF assms(1-3)] assms(4)]] by blast
  have "\<not> rx_fin_received s" using ok assms(7) by (auto simp: rx_ok_def next_segment_def)
  then show ?thesis using next_segment_processed[OF ok assms(6-10)] by blast
qed

theorem tcp_next_segment_stored_witness:
  "\<exists>s r s'. rx_fresh 9001 s \<and> process demo_cx demo_ip demo_data s = Some (r, s', demo_cx) \<and> 3 \<le> rb_len (rx_buffer s') \<and>
     state s' = Established"
proof -
  obtain s where s: "tcp_reachable demo_rb demo_rb s" "rx_fresh 9001 s"
    "next_segment demo_stream 3 9001 0 0 0 s demo_data" "rb_len (tx_buffer s) = 0" "remote_mss s = 1460"
    "shl_usize (unat (remote_last_win s)) (remote_win_shift s) = 8"
    by (rule demo_fresh)
  show ?thesis
    using tcp_next_segment_stored[OF demo_rb_wf demo_rb_wf s(1,2) run_start, of demo_stream 3 0 0 demo_data demo_cx demo_ip] s
    by (auto simp: rx_fresh_def demo_data_def)
qed

text \<open>The sockets of the worker have a receive buffer of 4 MiB.\<close>

definition worker_rx :: "u8 ring_buffer" where "worker_rx = rb_new (replicate 4194304 0)"

definition worker_connected :: tcp_socket where
  "worker_connected = fst (snd (connect demo_cx \<lparr>ep_addr = 0x0a000002, ep_port = 50000\<rparr>
     \<lparr>lep_addr = None, lep_port = 50000\<rparr> (the (socket_new worker_rx demo_rb))))"

definition scaling_syn_ack :: tcp_repr where
  "scaling_syn_ack = demo_syn_ack\<lparr>ack_number := Some (local_seq_no worker_connected + 1), window_scale := Some 7\<rparr>"

definition stray_byte :: tcp_repr where
  "stray_byte = demo_data\<lparr>ack_number := Some (local_seq_no worker_connected + 1), seq_number := seq_at 9001 4194304,
     payload := [65]\<rparr>"

lemma worker_connected_fields:
  "state worker_connected = SynSent" "tuple worker_connected = Some \<lparr>tup_local = \<lparr>ep_addr = 0x0a000001, ep_port = 50000\<rparr>,
     tup_remote = \<lparr>ep_addr = 0x0a000002, ep_port = 50000\<rparr>\<rparr>"
  "remote_last_seq worker_connected = local_seq_no worker_connected" "timeout worker_connected = None"
  "keep_alive worker_connected = None" "timer worker_connected = timer_new" "rx_buffer worker_connected = rb_clear worker_rx"
  "tx_buffer worker_connected = rb_clear demo_rb" "assembler worker_connected = asm_new 4"
  "remote_win_shift worker_connected = win_shift_for worker_rx" "\<not> rx_fin_received worker_connected"
proof -
  have "get_source_address demo_cx 0x0a000002 = Some 0x0a000001"
    by (simp add: get_source_address_def demo_cx_def)
  moreover have "rb_capacity worker_rx = 4194304" by (simp add: worker_rx_def rb_new_def rb_capacity_def)
  ultimately show "state worker_connected = SynSent" "tuple worker_connected = Some \<lparr>tup_local = \<lparr>ep_addr = 0x0a000001, ep_port = 50000\<rparr>,
     tup_remote = \<lparr>ep_addr = 0x0a000002, ep_port = 50000\<rparr>\<rparr>"
  "remote_last_seq worker_connected = local_seq_no worker_connected" "timeout worker_connected = None"
  "keep_alive worker_connected = None" "timer worker_connected = timer_new" "rx_buffer worker_connected = rb_clear worker_rx"
  "tx_buffer worker_connected = rb_clear demo_rb" "assembler worker_connected = asm_new 4"
  "remote_win_shift worker_connected = win_shift_for worker_rx" "\<not> rx_fin_received worker_connected"
    by (simp_all add: worker_connected_def connect_def socket_new_def is_open_def socket_reset_def set_state_def
        split_beta Let_def)
qed

lemma worker_rx_fields:
  "rb_wf (rb_clear worker_rx)" "rb_len (rb_clear worker_rx) = 0" "rb_capacity (rb_clear worker_rx) = 4194304"
  "rb_window (rb_clear worker_rx) = 4194304" "win_shift_for worker_rx = 7"
proof -
  have "bit_len 4194304 = 23" by (simp add: bit_len.simps)
  then show "win_shift_for worker_rx = 7"
    by (simp add: win_shift_for_def worker_rx_def rb_new_def rb_capacity_def)
qed (simp_all add: worker_rx_def rb_new_def rb_clear_def rb_query_defs rb_wf_def)

text \<open>The window before the first acknowledgement.  The SYN announces an unscaled window, but the
  window of the segments that follow the SYN-ACK is computed with the scale applied to it: with the
  worker's buffer of 4 MiB it ends 8 MiB ahead.  A byte just behind the buffer is then recorded as
  received, while the buffer has no place for it.  A peer that keeps to the window it was told never
  sends such a byte.\<close>

theorem syn_window_overruns_buffer:
  "\<exists>d s1 r s2 r' s3. dispatch demo_cx (\<lambda>_. True) worker_connected = Some (d, s1) \<and>
     process demo_cx demo_ip scaling_syn_ack s1 = Some (r, s2, demo_cx) \<and>
     process demo_cx demo_ip stray_byte s2 = Some (r', s3, demo_cx) \<and>
     asm_set (assembler s3) = {4194304} \<and> rb_capacity (rx_buffer s3) = 4194304 \<and> rb_len (rx_buffer s3) = 0"
proof -
  let ?c = worker_connected and ?t = "\<lparr>tup_local = \<lparr>ep_addr = 0x0a000001, ep_port = 50000\<rparr>,
    tup_remote = \<lparr>ep_addr = 0x0a000002, ep_port = 50000\<rparr>\<rparr>"
  note c = worker_connected_fields and w = worker_rx_fields
  have ip: "has_ip_addr demo_cx (ep_addr (tup_local ?t))" by (simp add: has_ip_addr_def demo_cx_def)
  have l0: "rb_len (rx_buffer ?c) = 0" using c w by simp
  obtain d s1 where s1: "dispatch demo_cx (\<lambda>_. True) ?c = Some (d, s1)" "state s1 = SynSent"
    "rx_buffer s1 = rb_clear worker_rx" "tx_buffer s1 = rb_clear demo_rb" "assembler s1 = asm_new 4"
    "local_seq_no s1 = local_seq_no ?c" "remote_last_win s1 = 65535" "remote_win_shift s1 = 7" "remote_last_ack s1 = None"
  proof -
    have "sat_u16 (rb_window (rx_buffer ?c)) = 65535" using c w by (simp add: sat_u16_def)
    then show thesis using that dispatch_syn[OF c(1,2) ip c(3-6) l0] c(7-10) w(5) by metis
  qed
  have sa: "control scaling_syn_ack = Syn" "ack_number scaling_syn_ack = Some (local_seq_no s1 + 1)"
    "max_seg_size scaling_syn_ack \<noteq> Some 0" "payload scaling_syn_ack = []" "rb_len (rx_buffer s1) = 0"
    "window_scale scaling_syn_ack \<noteq> None" "seq_number scaling_syn_ack = 9000" "max_seg_size scaling_syn_ack = Some 1460"
    using s1 w by (simp_all add: scaling_syn_ack_def demo_syn_ack_def)
  obtain r s2 where s2: "process demo_cx demo_ip scaling_syn_ack s1 = Some (r, s2, demo_cx)" "state s2 = Established"
    "rx_buffer s2 = rx_buffer s1" "tx_buffer s2 = tx_buffer s1" "assembler s2 = assembler s1"
    "remote_seq_no s2 = seq_number scaling_syn_ack + 1" "remote_last_ack s2 = Some (seq_number scaling_syn_ack)"
    "remote_last_win s2 = remote_last_win s1"
    "remote_win_shift s2 = (if window_scale scaling_syn_ack = None then 0 else remote_win_shift s1)"
    "local_seq_no s2 = local_seq_no s1 + 1"
    "remote_mss s2 = (case max_seg_size scaling_syn_ack of Some m \<Rightarrow> unat m | None \<Rightarrow> remote_mss s1)"
    by (rule syn_ack_established[OF s1(2) sa(1-5) s1(9)])
  have win: "seq_add 9000 (shl_usize (unat (remote_last_win s2)) (remote_win_shift s2)) = Some (seq_at 9001 (int 8388479))"
    using s2 s1 sa(6) by (simp add: shl_usize_def push_bit_eq_mult seq_add_def seq_at_def)
  have mss: "remote_mss s2 \<le> I32_MAX" using s2(11) sa(8) by simp
  have rb: "rb_wf (rx_buffer s2)" "rb_len (rx_buffer s2) = 0" "assembler s2 = asm_new 4" "rb_capacity (rx_buffer s2) = 4194304"
    using s2 s1 w by simp_all
  have q: "remote_seq_no s2 = 9001" "remote_last_ack s2 = Some 9000" using s2(6,7) sa(7) by simp_all
  have sb: "control stray_byte = NoControl" "seq_number stray_byte = seq_at 9001 (int 4194304)" "payload stray_byte = [65]"
    "ack_number stray_byte = Some (local_seq_no s2)"
    using s2(10) s1(6) by (simp_all add: stray_byte_def demo_data_def)
  have tx: "rb_len (tx_buffer s2) \<le> 2 ^ 30" using s2(4) s1(4) by (simp add: rb_clear_def rb_len_def)
  obtain r' s3 where "process demo_cx demo_ip stray_byte s2 = Some (r', s3, demo_cx)" "asm_set (assembler s3) = {4194304}"
    "rb_capacity (rx_buffer s3) = 4194304" "rb_len (rx_buffer s3) = 0"
    by (rule byte_behind_buffer[OF s2(2) rb _ _ _ mss q win sb tx]) simp_all
  then show ?thesis using s1(1) s2(1) by blast
qed

end
