(* ===== verification/Tcp_Send.thy ===== *)
theory Tcp_Send
  imports Tcp_Progress
begin

text \<open>
  The byte stream a TCP socket sends.  \<open>written\<close> is everything the application has handed to
  \<open>send_slice\<close>; position \<open>x\<close> of it has the sequence number \<open>seq_at b x\<close>.  \<open>tx_ok\<close> relates the transmit
  buffer and the two sequence numbers of the send side to it, and every step of the socket keeps it,
  whatever the peer acknowledges.  Every segment put on the wire carries the bytes of the stream at its
  sequence number, and the FIN stands behind the last one.
\<close>

section \<open>The invariant\<close>

text \<open>The states in which data may be on its way.\<close>

definition sending :: "tcp_state \<Rightarrow> bool" where
  "sending st \<longleftrightarrow> st \<in> {Established, CloseWait, FinWait1, LastAck, Closing}"

text \<open>\<open>a\<close> bytes are acknowledged and the next one to send is at \<open>c\<close>; the FIN takes one more number.\<close>

definition tx_pos :: "seq_number \<Rightarrow> bytes \<Rightarrow> nat \<Rightarrow> nat \<Rightarrow> tcp_socket \<Rightarrow> bool" where
  "tx_pos b written a c s \<longleftrightarrow> local_seq_no s = seq_at b (int a) \<and> remote_last_seq s = seq_at b (int c) \<and>
     a \<le> c \<and> c \<le> length written + (if sent_fin s then 1 else 0) \<and> a \<le> length written \<and>
     rb_list (tx_buffer s) = drop a written"

definition tx_ok :: "seq_number \<Rightarrow> bytes \<Rightarrow> tcp_socket \<Rightarrow> bool" where
  "tx_ok b written s \<longleftrightarrow> sk_inv s \<and> state s \<notin> {Listen, SynSent, SynReceived} \<and>
     rb_capacity (tx_buffer s) \<le> 2 ^ 30 \<and> (sending (state s) \<longrightarrow> (\<exists>a c. tx_pos b written a c s))"

lemma tx_len:
  assumes "tx_ok b written s" "tx_pos b written a c s"
  shows "rlength (tx_buffer s) = length written - a" "length written - a \<le> 2 ^ 30" "rb_wf (tx_buffer s)"
proof -
  show wf: "rb_wf (tx_buffer s)" using assms(1) by (simp add: tx_ok_def sk_inv_def)
  show l: "rlength (tx_buffer s) = length written - a"
    using length_rb_list[OF wf] assms(2) by (simp add: tx_pos_def)
  have "rlength (tx_buffer s) \<le> rb_capacity (tx_buffer s)" using wf by (simp add: rb_wf_def rb_capacity_def)
  then show "length written - a \<le> 2 ^ 30" using l assms(1) by (simp add: tx_ok_def)
qed

text \<open>Steps that leave the send side alone.\<close>

definition tx_same :: "tcp_socket \<Rightarrow> tcp_socket \<Rightarrow> bool" where
  "tx_same s s' \<longleftrightarrow> tx_buffer s' = tx_buffer s \<and> local_seq_no s' = local_seq_no s \<and>
     remote_last_seq s' = remote_last_seq s"

definition tx_closer :: "tcp_socket \<Rightarrow> tcp_socket \<Rightarrow> bool" where
  "tx_closer s s' \<longleftrightarrow> state s' \<notin> {Listen, SynSent, SynReceived} \<and>
     (sending (state s') \<longrightarrow> sending (state s) \<and> (sent_fin s \<longrightarrow> sent_fin s'))"

lemma tx_same_trans: "tx_same s s1 \<Longrightarrow> tx_same s1 s2 \<Longrightarrow> tx_same s s2"
  by (simp add: tx_same_def)

lemma core_tx_same: "core_eq s s' \<Longrightarrow> tx_same s s' \<and> state s' = state s"
  by (simp add: core_eq_def tx_same_def)

lemma tx_closer_state: "state s' = state s \<Longrightarrow> state s \<notin> {Listen, SynSent, SynReceived} \<Longrightarrow> tx_closer s s'"
  by (simp add: tx_closer_def sent_fin_def)

lemma tx_closer_closed: "state s' = Closed \<Longrightarrow> tx_closer s s'"
  by (simp add: tx_closer_def sending_def)

lemma tx_pos_same:
  "tx_pos b written a c s \<Longrightarrow> tx_same s s' \<Longrightarrow> (sent_fin s \<longrightarrow> sent_fin s') \<Longrightarrow> tx_pos b written a c s'"
  by (auto simp: tx_pos_def tx_same_def split: if_splits)

lemma tx_ok_same:
  assumes "tx_ok b written s" "tx_same s s'" "tx_closer s s'" "sk_inv s'"
  shows "tx_ok b written s'"
proof -
  have "\<exists>a c. tx_pos b written a c s'" if "sending (state s')"
  proof -
    have "sending (state s)" "sent_fin s \<longrightarrow> sent_fin s'" using assms(3) that by (simp_all add: tx_closer_def)
    then show ?thesis using assms(1) tx_pos_same[OF _ assms(2)] unfolding tx_ok_def by blast
  qed
  then show ?thesis using assms unfolding tx_ok_def tx_closer_def tx_same_def by simp
qed

section \<open>Acknowledgements\<close>

text \<open>An acknowledgement that passes the range test is for one of the outstanding positions.\<close>

lemma ack_position:
  assumes "\<not> seq_lt ack l" "\<not> seq_gt ack (seq_at l (int k))" "k \<le> 2 ^ 30 + 1"
  obtains d where "d \<le> k" "ack = seq_at l (int d)"
proof -
  define e where "e = sint (ack - l)"
  have ack: "ack = seq_at l e" by (simp add: e_def seq_at_def)
  have e: "0 \<le> e" "e < 2 ^ 31" using assms(1) sint_lt[of "ack - l"] by (simp_all add: e_def seq_lt_def)
  then have "near e (int k)" using assms(3) by (auto simp: near_def)
  then have "e \<le> int k" using assms(2) seq_at_cmp(3)[of e "int k" l] by (simp add: ack)
  then show thesis using that[of "nat e"] e ack by simp
qed

lemma check_ack_position:
  assumes c: "check_ack cx ip repr s = Some (Cont (), s)" and st: "sending (state s)" "control repr \<noteq> Rst"
    and l: "rb_len (tx_buffer s) \<le> 2 ^ 30"
  obtains d where "ack_number repr = Some (seq_at (local_seq_no s) (int d))"
    "d \<le> rb_len (tx_buffer s) + (if sent_fin s then 1 else 0)"
proof -
  obtain ack where a: "ack_number repr = Some ack" "check_ack_range cx ip repr ack s = Some (Cont (), s)"
    using c st by (cases "ack_number repr"; cases "state s"; cases "control repr") (auto simp: check_ack_def sending_def Let_def)
  let ?k = "rb_len (tx_buffer s) + (if sent_fin s then 1 else 0)"
  have ss: "\<not> sent_syn s" using st by (auto simp: sent_syn_def sending_def)
  have k: "?k \<le> 2 ^ 30 + 1" "?k \<le> I32_MAX" using l by auto
  have mx: "seq_add (local_seq_no s) ?k = Some (seq_at (local_seq_no s) (int ?k))"
    using k(2) by (simp add: seq_add_def seq_at_def)
  have "\<not> seq_lt ack (local_seq_no s)" "\<not> seq_gt ack (seq_at (local_seq_no s) (int ?k))"
    using a(2) ss unfolding check_ack_range_def Let_def
    by (simp_all add: mx bind_eq_Some_conv split: if_splits)
  then show thesis using ack_position[OF _ _ k(1)] a(1) that by metis
qed

lemma account_ack_position:
  assumes a: "account_ack cx repr s = Some (i, s')" and st: "sending (state s)" "control repr \<noteq> Rst"
    and d: "ack_number repr = Some (seq_at (local_seq_no s) (int d))" "d \<le> 2 ^ 30 + 1"
  shows "ack_of_fin i \<longleftrightarrow> sent_fin s \<and> rb_len (tx_buffer s) + 1 = d" "ack_len i = (if ack_of_fin i then d - 1 else d)"
proof -
  let ?l = "local_seq_no s"
  have ss: "\<not> sent_syn s" using st by (auto simp: sent_syn_def sending_def)
  have n: "near (int d) 0" using d(2) by (simp add: near_def)
  have ge: "seq_ge (seq_at ?l (int d)) ?l" and df: "seq_diff (seq_at ?l (int d)) ?l = Some d"
    using seq_at_cmp(4)[OF n, of ?l] seq_at_diff[OF n, of ?l] by simp_all
  have i: "i = \<lparr>ack_len = (if sent_fin s \<and> rb_len (tx_buffer s) + 1 = d then d - 1 else d),
      ack_of_fin = (sent_fin s \<and> rb_len (tx_buffer s) + 1 = d),
      ack_all = seq_le (remote_last_seq s) (seq_at ?l (int d))\<rparr>"
    using a unfolding account_ack_def by (simp add: st d ss ge df Let_def)
  show "ack_of_fin i \<longleftrightarrow> sent_fin s \<and> rb_len (tx_buffer s) + 1 = d" "ack_len i = (if ack_of_fin i then d - 1 else d)"
    by (simp_all add: i)
qed

lemma advance_ack_seq:
  "remote_last_seq (advance_ack repr ack u s) = (if seq_lt (remote_last_seq s) ack then ack else remote_last_seq s)"
  by (simp add: advance_ack_def Let_def)

lemma with_ack_seq:
  "ack_number repr = Some ack \<Longrightarrow>
     remote_last_seq (with_ack cx repr tx s) = (if seq_lt (remote_last_seq s) ack then ack else remote_last_seq s)"
  by (simp add: with_ack_def advance_ack_seq Let_def split: option.splits)

lemma transition_tx:
  assumes "transition cx ip repr ctl i s = Some (f, s', cx')" "state s \<notin> {Listen, SynSent, SynReceived}"
  shows "tx_same s s' \<and> tx_closer s s' \<and>
    (\<forall>u. f = Cont u \<longrightarrow> ctl \<noteq> Rst \<and> (ack_of_fin i \<and> sent_fin s \<longrightarrow> \<not> sending (state s')))"
proof -
  have c: "tx_same s s1 \<and> state s1 = state s" if "challenge_ack_reply cx ip repr s = Some (r, s1)" for cx r s1
    by (rule core_tx_same[OF challenge_ack_reply_core[OF that]])
  show ?thesis
    using assms unfolding transition_def Let_def
    by (cases "state s"; cases ctl)
      (auto simp: set_state_def got_fin_def enter_time_wait_def tx_same_def tx_closer_def sending_def sent_fin_def
        bind_eq_Some_conv dest!: c split: if_splits)
qed

text \<open>The send side after an acknowledgement of \<open>d\<close> bytes.\<close>

lemma tx_pos_ack:
  assumes ok: "tx_ok b written s" and p: "tx_pos b written a c s"
    and d: "ack_number repr = Some (seq_at (local_seq_no s) (int d))" "d \<le> rb_len (tx_buffer s)"
    and same: "tx_same s s3" "sent_fin s \<longrightarrow> sent_fin s3" and i: "ack_len i = d"
    and t: "tx_after i s3 = Some tx"
  shows "tx_pos b written (a + d) (max c (a + d)) (with_ack cx repr tx s3)"
proof -
  note l = tx_len[OF ok p]
  have q: "local_seq_no s3 = seq_at b (int a)" "remote_last_seq s3 = seq_at b (int c)" "tx_buffer s3 = tx_buffer s"
    using p same(1) by (simp_all add: tx_pos_def tx_same_def)
  have pos: "a \<le> c" "c \<le> length written + (if sent_fin s then 1 else 0)" "a \<le> length written"
    "rb_list (tx_buffer s) = drop a written" "local_seq_no s = seq_at b (int a)"
    using p by (simp_all add: tx_pos_def)
  have ack: "ack_number repr = Some (seq_at b (int (a + d)))" using d(1) pos(5) by (simp add: seq_at_seq_at)
  have dl: "a + d \<le> length written" using d(2) l(1) pos(3) by (simp add: rb_len_def)
  have "int c - int a \<le> 2 ^ 30 + 1" using l(2) pos(2) by (auto split: if_splits)
  then have n: "near (int c) (int (a + d))" using dl l(2) pos(1) by (auto simp: near_def)
  have "remote_last_seq (with_ack cx repr tx s3) = seq_at b (int (max c (a + d)))"
  proof (cases "c < a + d")
    case True
    then show ?thesis using with_ack_seq[OF ack] seq_at_cmp(1)[OF n, of b] q(2) by simp
  next
    case False
    then have "max c (a + d) = c" by simp
    then show ?thesis using False with_ack_seq[OF ack] seq_at_cmp(1)[OF n, of b] q(2) by simp
  qed
  moreover have "rb_list tx = drop (a + d) written"
    using tx_after_wf[OF _ t] l(3) q(3) i pos(4) by (simp add: add.commute)
  moreover have "sent_fin (with_ack cx repr tx s3) = sent_fin s3" by (simp add: sent_fin_def)
  ultimately show ?thesis
    unfolding tx_pos_def using ack dl pos same(2) by (auto split: if_splits)
qed

lemma sending_opening: "sending st \<Longrightarrow> st \<notin> {Listen, SynSent, SynReceived}"
  by (auto simp: sending_def)

lemma tx_ok_process:
  assumes ok: "tx_ok b written s" and p: "process cx ip repr s = Some (r, s', cx')"
  shows "tx_ok b written s'"
proof -
  have i: "sk_inv s'" "state s \<notin> {Listen, SynSent, SynReceived}"
    using sk_inv_process[OF p] ok by (simp_all add: tx_ok_def)
  from p show ?thesis
  proof (cases rule: process_cases)
    case rejected
    then show ?thesis using tx_ok_same[OF ok] core_tx_same tx_closer_state i by blast
  next
    case (stopped w data off s1 a s2)
    have s2: "tx_same s s2" "state s2 = state s"
      using core_tx_same[OF check_window_core[OF stopped(3)]] account_ack_rtte[OF stopped(4)]
      by (auto simp: tx_same_def)
    then have "tx_same s2 s'" "tx_closer s2 s'" using transition_tx[OF stopped(5)] i(2) by simp_all
    then show ?thesis using s2 tx_ok_same[OF ok _ _ i(1)] tx_same_trans
      by (metis tx_closer_def sent_fin_def)
  next
    case (processed w data off s1 j s2 s3 s4)
    have s1: "tx_same s s1" "state s1 = state s" using core_tx_same[OF check_window_core[OF processed(3)]] by auto
    have s2: "tx_same s s2" "state s2 = state s" using s1 account_ack_rtte[OF processed(4)] by (auto simp: tx_same_def)
    have t: "tx_same s2 s3" "tx_closer s2 s3" "effective_control w repr \<noteq> Rst"
      "ack_of_fin j \<and> sent_fin s2 \<longrightarrow> \<not> sending (state s3)"
      using transition_tx[OF processed(5)] i(2) s2 by auto
    have c: "tx_closer s s3" using t(2) s2(2) by (simp add: tx_closer_def sent_fin_def)
    have ss3: "tx_same s s3" using s2 t(1) tx_same_trans by blast
    obtain tx where tx: "tx_after j s3 = Some tx" "s4 = with_ack cx repr tx s3"
      using processed(6) by (auto simp: update_send_side_eq)
    have e: "send_eq (update_timers cx j s4) s'" by (rule receive_payload_send_eq[OF processed(7)])
    have u: "tx_same s4 (update_timers cx j s4)" by (subst update_timers_frame) (simp add: tx_same_def)
    have s4': "tx_same s4 s'" "state s' = state s3"
      using e u by (auto simp: send_eq_def tx_same_def tx(2))
    have cap: "rb_capacity (tx_buffer s') \<le> 2 ^ 30"
      using tx_after_wf[OF _ tx(1)] ok ss3 s4'(1) tx(2) by (simp add: tx_ok_def sk_inv_def tx_same_def rb_capacity_def)
    have "\<exists>a c. tx_pos b written a c s'" if snd: "sending (state s')"
    proof -
      have st: "sending (state s)" "sent_fin s \<longrightarrow> sent_fin s3" using c snd s4'(2) by (simp_all add: tx_closer_def)
      obtain a c where pos: "tx_pos b written a c s" using ok st by (auto simp: tx_ok_def)
      note l = tx_len[OF ok pos]
      have nr: "control repr \<noteq> Rst" using t(3) by (auto simp: effective_control_def Let_def)
      have l30: "rb_len (tx_buffer s) \<le> 2 ^ 30" using l by (simp add: rb_len_def)
      obtain d where d: "ack_number repr = Some (seq_at (local_seq_no s) (int d))"
        "d \<le> rb_len (tx_buffer s) + (if sent_fin s then 1 else 0)"
        by (rule check_ack_position[OF processed(1) st(1) nr l30])
      have d1: "ack_number repr = Some (seq_at (local_seq_no s1) (int d))" using d(1) s1 by (simp add: tx_same_def)
      have "d \<le> 2 ^ 30 + 1" using d(2) l30 by (auto split: if_splits)
      then have j: "ack_of_fin j \<longleftrightarrow> sent_fin s \<and> rb_len (tx_buffer s) + 1 = d" "ack_len j = (if ack_of_fin j then d - 1 else d)"
        using account_ack_position[OF processed(4) _ nr d1] st s1 by (auto simp: sent_fin_def tx_same_def)
      have "sent_fin s2 = sent_fin s" using s2 by (simp add: sent_fin_def)
      then have nf: "\<not> ack_of_fin j" using t(4) snd s4'(2) j(1) by auto
      then have d': "d \<le> rb_len (tx_buffer s)" "ack_len j = d" using j d(2) by (auto split: if_splits)
      have "tx_pos b written (a + d) (max c (a + d)) s4"
        unfolding tx(2) by (rule tx_pos_ack[OF ok pos d(1) d'(1) ss3 st(2) d'(2) tx(1)])
      then have "tx_pos b written (a + d) (max c (a + d)) s'"
        by (rule tx_pos_same[OF _ s4'(1)]) (use s4'(2) tx(2) in \<open>simp add: sent_fin_def\<close>)
      then show ?thesis by blast
    qed
    moreover have "state s' \<notin> {Listen, SynSent, SynReceived}" using c s4'(2) by (simp add: tx_closer_def)
    ultimately show ?thesis using i(1) cap by (simp add: tx_ok_def)
  qed
qed

section \<open>Transmission\<close>

text \<open>The segment carries the bytes of the stream at its sequence number, and a FIN follows the last.\<close>

definition carries :: "seq_number \<Rightarrow> bytes \<Rightarrow> tcp_repr \<Rightarrow> bool" where
  "carries b written r \<longleftrightarrow> (\<exists>p. seq_number r = seq_at b (int p) \<and> p + length (payload r) \<le> length written \<and>
     payload r = take (length (payload r)) (drop p written) \<and> length written \<le> p + 2 ^ 30 \<and>
     (control r = Fin \<longrightarrow> p + length (payload r) = length written))"

lemma base_repr_fields:
  "base_repr t s = Some r \<Longrightarrow> seq_number r = remote_last_seq s \<and> payload r = [] \<and> control r = NoControl"
  by (auto simp: base_repr_def bind_eq_Some_conv)

lemma data_repr_fields:
  assumes "data_repr cx s r = Some (r', p)" "control r = NoControl"
  obtains offset sz where "seq_diff (remote_last_seq s) (local_seq_no s) = Some offset"
    "get_allocated (tx_buffer s) offset sz = Some (payload r')" "seq_number r' = seq_number r"
    "control r' = Fin \<Longrightarrow> offset + length (payload r') = rb_len (tx_buffer s) \<and> sent_fin s"
    "control r' \<noteq> Syn" "control r' \<noteq> Rst"
proof -
  obtain w l offset data where w: "seq_add (local_seq_no s) (remote_win_len s) = Some w"
    "(if seq_ge w (remote_last_seq s) then seq_diff w (remote_last_seq s) else Some 0) = Some l"
    "seq_diff (remote_last_seq s) (local_seq_no s) = Some offset"
    "get_allocated (tx_buffer s) offset (min (min (if l = 0 \<and> should_zero_window_probe (timer s) (cx_now cx) then 1 else l)
       (remote_mss s)) (local_mss cx)) = Some data"
    and r': "r' = (let r1 = r\<lparr>payload := data\<rparr> in if offset + length data = rb_len (tx_buffer s)
           then if state s \<in> {FinWait1, LastAck, Closing} then r1\<lparr>control := Fin\<rparr>
                else if state s \<in> {Established, CloseWait} \<and> data \<noteq> [] then r1\<lparr>control := Psh\<rparr> else r1
           else r1)"
    using assms(1) unfolding data_repr_def Let_def bind_eq_Some_conv by (elim exE conjE) simp
  have "payload r' = data" "seq_number r' = seq_number r"
    "control r' = Fin \<Longrightarrow> offset + length data = rb_len (tx_buffer s) \<and> sent_fin s" "control r' \<noteq> Syn" "control r' \<noteq> Rst"
    using assms(2) by (auto simp: r' Let_def sent_fin_def split: if_splits)
  then show thesis using that w(3,4) by metis
qed

text \<open>A segment in a state with data: the next position \<open>c'\<close> after it, and its contents.\<close>

lemma data_segment:
  assumes ok: "tx_ok b written s" and p: "tx_pos b written a c s" and st: "sending (state s)"
    and d: "data_repr cx s r0 = Some (r, pr)" and r0: "seq_number r0 = remote_last_seq s" "control r0 = NoControl"
  shows "payload r = [] \<and> control r \<noteq> Fin \<or> carries b written r"
    "\<exists>c'. seq_number r + of_nat (segment_len r) = seq_at b (int c') \<and> c \<le> c' \<and>
       c' \<le> length written + (if sent_fin s then 1 else 0)"
proof -
  note l = tx_len[OF ok p]
  have pos: "local_seq_no s = seq_at b (int a)" "remote_last_seq s = seq_at b (int c)" "a \<le> c" "a \<le> length written"
    "c \<le> length written + (if sent_fin s then 1 else 0)" "rb_list (tx_buffer s) = drop a written"
    using p by (simp_all add: tx_pos_def)
  obtain offset sz where o: "seq_diff (remote_last_seq s) (local_seq_no s) = Some offset"
    "get_allocated (tx_buffer s) offset sz = Some (payload r)" "seq_number r = seq_number r0"
    "control r = Fin \<Longrightarrow> offset + length (payload r) = rb_len (tx_buffer s) \<and> sent_fin s" "control r \<noteq> Syn" "control r \<noteq> Rst"
    by (rule data_repr_fields[OF d r0(2)]) blast
  have "near (int c) (int a)" using pos(3,5) l(2) by (auto simp: near_def split: if_splits)
  then have off: "offset = c - a" using o(1) pos(1-3) by (simp add: seq_at_diff)
  have seq: "seq_number r = seq_at b (int c)" using o(3) r0(1) pos(2) by simp
  let ?k = "length (payload r)"
  have len: "segment_len r = ?k + (if control r = Fin then 1 else 0)"
    using o(5) by (cases "control r") (simp_all add: segment_len_def)
  have fin: "control r = Fin \<Longrightarrow> c + ?k = length written \<and> sent_fin s"
    using o(4) off l(1) pos(3,4) by (auto simp: rb_len_def)
  have pl: "payload r = take ?k (drop c written)"
    using get_allocated_prefix(1)[OF l(3) o(2)] pos(3,6) off by simp
  have fits: "c + ?k \<le> length written \<or> ?k = 0 \<and> c = length written + 1 \<and> sent_fin s"
  proof (cases "c \<le> length written")
    case True
    then show ?thesis using get_allocated_prefix(3)[OF l(3) o(2)] off l(1) pos(3) by linarith
  next
    case False
    then have "?k = 0" using pl by (metis drop_all le_cases list.size(3) take_Nil)
    then show ?thesis using False pos(5) by (auto split: if_splits)
  qed
  show "payload r = [] \<and> control r \<noteq> Fin \<or> carries b written r"
  proof (cases "c + ?k \<le> length written")
    case True
    moreover have "length written \<le> c + 2 ^ 30" using l(2) pos(3) by linarith
    ultimately show ?thesis using seq pl fin unfolding carries_def by blast
  next
    case False
    then show ?thesis using fits fin by auto
  qed
  have "seq_number r + of_nat (segment_len r) = seq_at b (int (c + segment_len r))"
    using seq by (simp add: seq_at_def add.assoc)
  moreover have "c + segment_len r \<le> length written + (if sent_fin s then 1 else 0)"
    using fits fin len by (auto split: if_splits)
  ultimately show "\<exists>c'. seq_number r + of_nat (segment_len r) = seq_at b (int c') \<and> c \<le> c' \<and>
       c' \<le> length written + (if sent_fin s then 1 else 0)"
    by (intro exI[of _ "c + segment_len r"]) simp
qed

lemma build_repr_cases:
  assumes "build_repr cx t s = Some (Some (r, pr))" "state s \<notin> {Listen, SynSent, SynReceived}"
  obtains (data) r0 where "sending (state s)" "seq_number r0 = remote_last_seq s" "control r0 = NoControl"
    "data_repr cx s r0 = Some (r, pr)"
  | (plain) "\<not> sending (state s)" "payload r = []" "control r \<noteq> Fin"
proof -
  obtain r0 where r0: "base_repr t s = Some r0" using assms(1) by (auto simp: build_repr_def bind_eq_Some_conv)
  note f = base_repr_fields[OF r0]
  show thesis
    using assms r0 f data[of r0] plain
    by (cases "state s") (auto simp: build_repr_def sending_def bind_eq_Some_conv)
qed

lemma run_timers_tx:
  assumes "run_timers cx s = Some s'" "state s \<notin> {Listen, SynSent, SynReceived}"
  shows "tx_closer s s'" "tx_same s s' \<or> tx_buffer s' = tx_buffer s \<and> local_seq_no s' = local_seq_no s \<and>
    remote_last_seq s' = local_seq_no s \<and> state s' = state s"
  using assms by (auto simp: run_timers_def Let_def bind_eq_Some_conv set_state_def tx_same_def tx_closer_def
      sent_fin_def sending_def split: if_splits)

lemma tx_ok_run_timers:
  assumes ok: "tx_ok b written s" and r: "run_timers cx s = Some s'"
  shows "tx_ok b written s'"
proof -
  have st: "state s \<notin> {Listen, SynSent, SynReceived}" using ok by (simp add: tx_ok_def)
  note t = run_timers_tx[OF r st] and i = sk_inv_run_timers[OF r]
  from t(2) show ?thesis
  proof
    assume "tx_same s s'"
    then show ?thesis using tx_ok_same[OF ok _ t(1)] i ok by (simp add: tx_ok_def)
  next
    assume e: "tx_buffer s' = tx_buffer s \<and> local_seq_no s' = local_seq_no s \<and>
      remote_last_seq s' = local_seq_no s \<and> state s' = state s"
    have "tx_pos b written a a s'" if "tx_pos b written a c s" for a c
      using that e by (auto simp: tx_pos_def sent_fin_def)
    then show ?thesis using ok e i unfolding tx_ok_def by auto
  qed
qed

lemma finish_repr_cases:
  assumes "finish_repr cx s r = (r1, k)" "control r \<noteq> Syn"
  shows "if k then should_keep_alive (timer s) (cx_now cx) \<and> payload r1 = [0] else r1 = r"
  using assms by (auto simp: finish_repr_def Let_def split: if_splits)

text \<open>What a transmission sends, apart from keep-alive probes, and the state after it.\<close>

lemma sent_segment:
  assumes ok: "tx_ok b written s" and bd: "build_repr cx t s = Some (Some (r, pr))"
    and f: "finish_repr cx s r = (r1, k)" and e: "after_emit cx r1 pr k s = Some s'"
  shows "k \<and> should_keep_alive (timer s) (cx_now cx) \<and> payload r1 = [0] \<or>
      payload r1 = [] \<and> control r1 \<noteq> Fin \<or> carries b written r1"
    "tx_ok b written s'"
proof -
  have st: "state s \<notin> {Listen, SynSent, SynReceived}" and i: "sk_inv s" using ok by (simp_all add: tx_ok_def)
  have ns: "control r \<noteq> Syn"
    using bd st by (cases "state s") (auto simp: build_repr_def bind_eq_Some_conv dest!: base_repr_fields
        elim: data_repr_fields)
  note fc = finish_repr_cases[OF f ns]
  have seg: "payload r = [] \<and> control r \<noteq> Fin \<or> carries b written r"
    using bd st
  proof (cases rule: build_repr_cases)
    case (data r0)
    then obtain a c where "tx_pos b written a c s" using ok by (auto simp: tx_ok_def)
    then show ?thesis using data_segment(1)[OF ok _ data(1,4,2,3)] by blast
  qed simp
  then show "k \<and> should_keep_alive (timer s) (cx_now cx) \<and> payload r1 = [0] \<or>
      payload r1 = [] \<and> control r1 \<noteq> Fin \<or> carries b written r1"
    using fc by (cases k) simp_all
  have i': "sk_inv s'" using i e by (auto simp: after_emit_eq Let_def sk_inv_def split: if_splits)
  have st': "state s' = state s" by (rule after_emit_state[OF e])
  show "tx_ok b written s'"
  proof (cases "pr \<or> k")
    case True
    then have "tx_same s s'" using e by (auto simp: after_emit_eq Let_def tx_same_def split: if_splits)
    then show ?thesis using tx_ok_same[OF ok _ tx_closer_state[OF st' st] i'] by blast
  next
    case False
    let ?s1 = "s\<lparr>timer := rewind_keep_alive (cx_now cx) (keep_alive s) (timer s), ack_delay_tm := AckIdle\<rparr>"
    have r1: "r1 = r" using fc False by simp
    have s': "s' = note_sent cx r (seq_number r + of_nat (segment_len r)) ?s1"
      using e False unfolding after_emit_eq Let_def r1 by (auto simp: seq_add_def split: if_splits)
    have fl: "tx_buffer s' = tx_buffer s" "local_seq_no s' = local_seq_no s" "sent_fin s' = sent_fin s"
      "remote_last_seq s' = seq_number r + of_nat (segment_len r)"
      by (simp_all add: s' sent_fin_def)
    have "\<exists>a c. tx_pos b written a c s'" if snd: "sending (state s')"
    proof -
      obtain a c where p: "tx_pos b written a c s" using ok snd st' by (auto simp: tx_ok_def)
      from bd st obtain r0 where d: "sending (state s)" "seq_number r0 = remote_last_seq s" "control r0 = NoControl"
        "data_repr cx s r0 = Some (r, pr)"
        by (cases rule: build_repr_cases) (use snd st' in auto)
      obtain c' where "seq_number r + of_nat (segment_len r) = seq_at b (int c')" "c \<le> c'"
        "c' \<le> length written + (if sent_fin s then 1 else 0)"
        using data_segment(2)[OF ok p d(1,4,2,3)] by blast
      then have "tx_pos b written a c' s'" using p fl by (auto simp: tx_pos_def)
      then show ?thesis by blast
    qed
    then show ?thesis using ok i' st' fl(1) by (simp add: tx_ok_def)
  qed
qed

lemma tx_ok_reset: "tx_ok b written s \<Longrightarrow> tx_ok b written (socket_reset s)"
  using sk_inv_reset[of s] by (simp add: tx_ok_def socket_reset_def rb_clear_def rb_capacity_def sending_def)

lemma tx_ok_dispatch:
  assumes ok: "tx_ok b written s" and d: "dispatch cx emit s = Some (d, s')"
  shows "tx_ok b written s'"
  using d
proof (cases rule: dispatch_cases)
  case (reset s1)
  then show ?thesis using tx_ok_run_timers[OF ok] ok tx_ok_reset by blast
next
  case (sent t s1 r p r1 k ip)
  then show ?thesis using sent_segment(2)[OF tx_ok_run_timers[OF ok sent(2)] sent(4-6)] by blast
qed (use ok tx_ok_run_timers in auto)

section \<open>Runs\<close>

lemma tx_ok_send_slice:
  assumes ok: "tx_ok b written s" and r: "send_slice data s = Some (Inr n, s')"
  shows "tx_ok b (written @ take n data) s'"
proof -
  have ms: "may_send s" using r by (auto simp: send_slice_def send_impl_def split: if_splits)
  then have st: "sending (state s)" by (auto simp: may_send_def sending_def)
  obtain a c where p: "tx_pos b written a c s" using ok st by (auto simp: tx_ok_def)
  note l = tx_len[OF ok p]
  obtain tx where tx: "enqueue_slice (tx_buffer s) data = Some (tx, min (rb_window (tx_buffer s)) (length data))"
    "rb_wf tx" "rb_list tx = rb_list (tx_buffer s) @ take (rb_window (tx_buffer s)) data"
    "length (storage tx) = length (storage (tx_buffer s))"
    by (rule enqueue_slice_correct[OF l(3)])
  have s': "n = min (rb_window (tx_buffer s)) (length data)" "tx_buffer s' = tx" "local_seq_no s' = local_seq_no s"
    "remote_last_seq s' = remote_last_seq s" "state s' = state s"
    using r ms tx(1) by (auto simp: send_slice_def send_impl_def bind_eq_Some_conv Let_def split: if_splits)
  have i: "sk_inv s'" by (rule sk_inv_step[OF step_send_slice[OF r]]) (use ok in \<open>simp add: tx_ok_def\<close>)
  have n: "take n data = take (rb_window (tx_buffer s)) data" using s'(1) by (simp add: min_def)
  have "tx_pos b (written @ take n data) a c s'"
    unfolding n using p s' tx(3) by (auto simp: tx_pos_def sent_fin_def split: if_splits)
  then show ?thesis using ok i s' tx(4) by (auto simp: tx_ok_def rb_capacity_def)
qed

text \<open>Everything but sending.\<close>

inductive tx_other :: "tcp_socket \<Rightarrow> tcp_socket \<Rightarrow> bool" where
  other_segment: "accepts ip repr s \<Longrightarrow> process cx ip repr s = Some (r, s', cx') \<Longrightarrow> tx_other s s'"
| other_dispatch: "dispatch cx emit s = Some (d, s') \<Longrightarrow> tx_other s s'"
| other_recv: "closure_ok f \<Longrightarrow> recv (f :: bytes \<Rightarrow> bytes \<times> nat \<times> nat) s = Some (r, s') \<Longrightarrow> tx_other s s'"
| other_close: "tx_other s (close s)"
| other_abort: "tx_other s (abort s)"
| other_timeout: "tx_other s (set_timeout d s)"
| other_nagle: "tx_other s (set_nagle_enabled v s)"
| other_ack_delay: "tx_other s (set_ack_delay d s)"
| other_keep_alive: "tx_other s (set_keep_alive d s)"

lemma other_tcp_step: "tx_other s s' \<Longrightarrow> tcp_step s s'"
  by (induction rule: tx_other.induct) (auto intro: tcp_step.intros)

lemma recv_impl_tx: "recv_impl f s = Some (r, s') \<Longrightarrow> tx_same s s' \<and> state s' = state s"
  using recv_impl_frame[of f s r s'] by (auto simp: tx_same_def)

lemma tx_ok_other:
  assumes ok: "tx_ok b written s" and o: "tx_other s s'"
  shows "tx_ok b written s'"
proof -
  have i: "sk_inv s'" using sk_inv_step[OF other_tcp_step[OF o]] ok by (simp add: tx_ok_def)
  have st: "state s \<notin> {Listen, SynSent, SynReceived}" using ok by (simp add: tx_ok_def)
  have k: "tx_ok b written s'" if "tx_same s s'" "tx_closer s s'" using tx_ok_same[OF ok that i] .
  from o show ?thesis
  proof (cases rule: tx_other.cases)
    case (other_segment ip repr cx r cx')
    then show ?thesis using tx_ok_process[OF ok] by blast
  next
    case (other_dispatch cx emit d)
    then show ?thesis using tx_ok_dispatch[OF ok] by blast
  next
    case (other_recv f r)
    then have "tx_same s s'" "state s' = state s" using recv_impl_tx unfolding recv_def by blast+
    then show ?thesis using k tx_closer_state[OF _ st] by blast
  next
    case other_close
    then show ?thesis
      using st by (intro k; cases "state s") (simp_all add: close_def tx_same_def tx_closer_def set_state_def sending_def sent_fin_def)
  next
    case other_abort
    then show ?thesis by (intro k tx_closer_closed) (simp_all add: abort_def set_state_def tx_same_def)
  qed (intro k tx_closer_state[OF _ st]; simp add: set_timeout_def set_nagle_enabled_def set_ack_delay_def
      set_keep_alive_def tx_same_def Let_def)+
qed

text \<open>A connection that has just been established and nothing sent.\<close>

definition tx_fresh :: "seq_number \<Rightarrow> tcp_socket \<Rightarrow> bool" where
  "tx_fresh b s \<longleftrightarrow> state s = Established \<and> rb_len (tx_buffer s) = 0 \<and> rb_capacity (tx_buffer s) \<le> 2 ^ 30 \<and>
     local_seq_no s = b \<and> remote_last_seq s = b"

inductive tx_run :: "tcp_socket \<Rightarrow> bytes \<Rightarrow> tcp_socket \<Rightarrow> bool" for s0 :: tcp_socket where
  tx_start: "tx_run s0 [] s0"
| tx_send: "tx_run s0 written s \<Longrightarrow> send_slice data s = Some (Inr n, s') \<Longrightarrow> tx_run s0 (written @ take n data) s'"
| tx_step: "tx_run s0 written s \<Longrightarrow> tx_other s s' \<Longrightarrow> tx_run s0 written s'"

lemma tx_ok_fresh:
  assumes "sk_inv s" "tx_fresh b s"
  shows "tx_ok b [] s"
proof -
  have "tx_pos b [] 0 0 s" using assms(2) by (simp add: tx_fresh_def tx_pos_def rb_list_def rb_len_def)
  then show ?thesis using assms by (auto simp: tx_ok_def tx_fresh_def)
qed

lemma tx_run_ok: "tx_run s0 written s \<Longrightarrow> tx_ok b [] s0 \<Longrightarrow> tx_ok b written s"
  by (induction rule: tx_run.induct) (auto intro: tx_ok_send_slice tx_ok_other)

section \<open>Progress\<close>

text \<open>Data in the buffer, nothing in flight and an open window: the next transmission carries data.\<close>

lemma data_to_transmit:
  assumes st: "state s \<in> {Established, CloseWait}" and t: "tuple s \<noteq> None" and q: "remote_last_seq s = local_seq_no s"
    and l: "0 < rb_len (tx_buffer s)" "0 < remote_win_len s" "rb_len (tx_buffer s) \<le> I32_MAX"
  shows "seq_to_transmit cx s = Some True"
proof -
  let ?l = "local_seq_no s" and ?m = "min (remote_win_len s) (rb_len (tx_buffer s))"
  have n: "near (int ?m) 0" using l by (auto simp: near_def)
  have a: "seq_add ?l ?m = Some (seq_at ?l (int ?m))" using l by (simp add: seq_add_def seq_at_def)
  have "seq_ge (seq_at ?l (int ?m)) ?l" "seq_diff (seq_at ?l (int ?m)) ?l = Some ?m"
    using seq_at_cmp(4)[OF n, of ?l] seq_at_diff[OF n, of ?l] by simp_all
  moreover have "\<not> want_fin s" "\<not> (state s \<in> {SynSent, SynReceived})" using st by (auto simp: want_fin_def)
  moreover have "0 < ?m" using l by simp
  ultimately show ?thesis
    using a t q by (simp add: seq_to_transmit_def Let_def congestion_window_def)
qed

text \<open>How much of the transmit buffer the next segment takes when nothing is in flight.\<close>

definition first_chunk :: "iface_context \<Rightarrow> tcp_socket \<Rightarrow> nat" where
  "first_chunk cx s = min (min (min (min (remote_win_len s) (remote_mss s)) (local_mss cx)) (rb_len (tx_buffer s)))
     (length (storage (tx_buffer s)) - rb_get_idx (tx_buffer s) 0)"

lemma data_repr_total:
  assumes wf: "rb_wf (tx_buffer s)" and q: "remote_last_seq s = local_seq_no s"
    and l: "0 < rb_len (tx_buffer s)" "0 < remote_win_len s" "remote_win_len s \<le> I32_MAX" "0 < remote_mss s" "0 < local_mss cx"
  shows "\<exists>data c. data_repr cx s r = Some (r\<lparr>payload := data, control := c\<rparr>, False) \<and> data \<noteq> [] \<and>
    length data = first_chunk cx s \<and> c \<in> {control r, Fin, Psh} \<and> (c = Fin \<longrightarrow> control r = Fin \<or> sent_fin s) \<and>
    data = take (length data) (rb_list (tx_buffer s))"
proof -
  let ?b = "local_seq_no s" and ?w = "remote_win_len s"
  have n: "near (int ?w) 0" using l by (auto simp: near_def)
  have a: "seq_add ?b ?w = Some (seq_at ?b (int ?w))" using l by (simp add: seq_add_def seq_at_def)
  have d: "seq_ge (seq_at ?b (int ?w)) ?b" "seq_diff (seq_at ?b (int ?w)) ?b = Some ?w" "seq_diff ?b ?b = Some 0"
    using seq_at_cmp(4)[OF n, of ?b] seq_at_diff[OF n, of ?b] by (simp_all add: seq_diff_def)
  let ?sz = "min (min ?w (remote_mss s)) (local_mss cx)"
  have ne: "storage (tx_buffer s) \<noteq> []" using wf l(1) by (auto simp: rb_wf_def rb_len_def)
  have idx: "rb_get_idx (tx_buffer s) 0 < length (storage (tx_buffer s))" using ne by (simp add: rb_get_idx_mod)
  obtain data where g: "get_allocated (tx_buffer s) 0 ?sz = Some data" "data \<noteq> []" "length data = first_chunk cx s"
    "data = take (length data) (rb_list (tx_buffer s))"
  proof -
    let ?n = "min (min ?sz (rlength (tx_buffer s))) (length (storage (tx_buffer s)) - rb_get_idx (tx_buffer s) 0)"
    have g: "get_allocated (tx_buffer s) 0 ?sz = Some (take ?n (rb_list (tx_buffer s)))"
      using get_allocated_correct[OF wf, of 0 ?sz] by simp
    have "0 < ?n" using l idx by (simp add: rb_len_def)
    then have "take ?n (rb_list (tx_buffer s)) \<noteq> []" using l(1) length_rb_list[OF wf] by (auto simp: rb_len_def)
    moreover have "length (take ?n (rb_list (tx_buffer s))) = first_chunk cx s"
      using length_rb_list[OF wf] by (simp add: first_chunk_def rb_len_def)
    ultimately show thesis by (rule that[OF g _ _ get_allocated_prefix(1)[OF wf g, unfolded drop_0]])
  qed
  have "\<exists>c. data_repr cx s r = Some (r\<lparr>payload := data, control := c\<rparr>, False) \<and> c \<in> {control r, Fin, Psh} \<and>
      (c = Fin \<longrightarrow> control r = Fin \<or> sent_fin s)"
  proof -
    have nz: "remote_win_len s \<noteq> 0" using l(2) by simp
    have same: "r\<lparr>payload := data\<rparr> = r\<lparr>payload := data, control := control r\<rparr>" by simp
    show ?thesis unfolding data_repr_def q Let_def using g(2) by (auto simp: a d g(1) nz sent_fin_def intro: same)
  qed
  then show ?thesis using g(2-4) by blast
qed

lemma dispatch_data:
  assumes st: "state s \<in> {Established, CloseWait}" and i: "sk_inv s" and t: "tuple s = Some t"
    and ip: "has_ip_addr cx (ep_addr (tup_local t))" and to: "timeout s = None"
    and q: "remote_last_seq s = local_seq_no s"
    and l: "0 < rb_len (tx_buffer s)" "rb_len (tx_buffer s) \<le> I32_MAX" "rb_len (rx_buffer s) \<le> I32_MAX"
    and w: "0 < remote_win_len s" "remote_win_len s \<le> I32_MAX" "0 < remote_mss s" "0 < local_mss cx" "local_mss cx < I32_MAX"
  shows "\<exists>ip r s'. dispatch cx (\<lambda>_. True) s = Some (Emitted (ip, r), s') \<and> payload r \<noteq> [] \<and>
    seq_number r = local_seq_no s \<and> payload r = take (length (payload r)) (rb_list (tx_buffer s)) \<and>
    control r \<in> {NoControl, Psh} \<and> ack_number r = Some (remote_seq_no s + of_nat (rb_len (rx_buffer s))) \<and>
    src_port r = ep_port (tup_local t) \<and> dst_port r = ep_port (tup_remote t) \<and>
    length (payload r) = first_chunk cx s"
proof -
  define s1 where "s1 = (if remote_last_ts s = None then s\<lparr>remote_last_ts := Some (cx_now cx)\<rparr> else s)"
  have s1: "state s1 = state s" "tuple s1 = Some t" "timeout s1 = None" "remote_last_seq s1 = local_seq_no s1"
    "tx_buffer s1 = tx_buffer s" "rx_buffer s1 = rx_buffer s" "remote_win_len s1 = remote_win_len s"
    "remote_mss s1 = remote_mss s" "local_seq_no s1 = local_seq_no s" "remote_seq_no s1 = remote_seq_no s"
    using t to q by (simp_all add: s1_def)
  have a: "seq_to_transmit cx s1 = Some True"
    by (rule data_to_transmit) (use st s1 l w in simp_all)
  have "\<not> timed_out (cx_now cx) s1" using s1(3) by (simp add: timed_out_def split: option.split)
  then have r: "run_timers cx s = Some s1" using a by (simp add: run_timers_def s1_def[symmetric] Let_def)
  have d: "decide cx s1 = Some SendNow" using a by (simp add: decide_def)
  obtain br where br: "base_repr t s1 = Some br" and bf: "seq_number br = local_seq_no s" "control br = NoControl"
    "ack_number br = Some (remote_seq_no s + of_nat (rb_len (rx_buffer s)))" "src_port br = ep_port (tup_local t)"
    "dst_port br = ep_port (tup_remote t)"
    using l(3) s1 by (simp add: base_repr_def seq_add_def)
  have "rb_wf (tx_buffer s1)" "\<not> sent_fin s1" using i st s1 by (auto simp: sk_inv_def sent_fin_def)
  then obtain data c where dc: "data_repr cx s1 br = Some (br\<lparr>payload := data, control := c\<rparr>, False)" "data \<noteq> []"
    "length data = first_chunk cx s1" "c \<in> {NoControl, Psh}" "data = take (length data) (rb_list (tx_buffer s))"
    using data_repr_total[of s1 cx br] s1 l w bf(2) by auto
  have fc: "first_chunk cx s1 = first_chunk cx s" "first_chunk cx s \<le> local_mss cx" using s1 by (simp_all add: first_chunk_def)
  define r' where "r' = br\<lparr>payload := data, control := c\<rparr>"
  have r': "data_repr cx s1 br = Some (r', False)" "payload r' \<noteq> []" "length (payload r') \<le> local_mss cx"
    "control r' \<in> {NoControl, Psh}"
    using dc fc by (simp_all add: r'_def)
  have b: "build_repr cx t s1 = Some (Some (r', False))" using br r'(1) st s1(1) by (auto simp: build_repr_def)
  have f: "finish_repr cx s1 r' = (r', False)"
    using r'(2,4) by (auto simp: finish_repr_def repr_is_empty_def Let_def)
  have sl: "segment_len r' \<le> I32_MAX" using r'(3,4) w(5) by (auto simp: segment_len_def)
  have "\<exists>s'. after_emit cx r' False False s1 = Some s'" using sl by (simp add: after_emit_eq Let_def seq_add_def)
  then obtain s' where e: "after_emit cx r' False False s1 = Some s'" by blast
  have "\<exists>ip. dispatch cx (\<lambda>_. True) s = Some (Emitted (ip, r'), s')"
    unfolding dispatch_def using t ip r d b f e by simp
  moreover have "payload r' = take (length (payload r')) (rb_list (tx_buffer s))" using dc(5) by (simp add: r'_def)
  moreover have "seq_number r' = local_seq_no s" "ack_number r' = Some (remote_seq_no s + of_nat (rb_len (rx_buffer s)))"
    "src_port r' = ep_port (tup_local t)" "dst_port r' = ep_port (tup_remote t)" "length (payload r') = first_chunk cx s"
    using bf dc(3) fc(1) by (simp_all add: r'_def)
  ultimately show ?thesis using r'(2,4) by blast
qed

section \<open>Properties\<close>

text \<open>C7: the bytes the application sends.  From an established connection on, whatever the peer sends and
  acknowledges, however often segments are lost and sent again, and in whatever order the application
  sends, receives and closes: every segment handed to the device carries, apart from keep-alive probes,
  exactly the bytes written by the application at the position its sequence number says, and a FIN only
  directly behind the last byte written.\<close>

theorem tcp_send_stream:
  assumes "rb_wf rx" "rb_wf tx" "tcp_reachable rx tx s0" "tx_fresh b s0" "tx_run s0 written s"
    and "dispatch cx emit s = Some (Emitted (ip, r), s')"
  shows "(\<exists>s1. run_timers cx s = Some s1 \<and> should_keep_alive (timer s1) (cx_now cx) \<and> payload r = [0]) \<or>
    payload r = [] \<and> control r \<noteq> Fin \<or>
    (\<exists>p. seq_number r = b + of_nat p \<and> p + length (payload r) \<le> length written \<and>
       payload r = take (length (payload r)) (drop p written) \<and>
       (control r = Fin \<longrightarrow> p + length (payload r) = length written))"
proof -
  have ok: "tx_ok b written s"
    by (rule tx_run_ok[OF assms(5) tx_ok_fresh[OF sk_inv_reachable[OF assms(1-3)] assms(4)]])
  from assms(6) show ?thesis
  proof (cases rule: dispatch_cases)
    case (sent t s1 r0 p r1 k ip')
    then have r1: "r1 = r" by simp
    have c: "carries b written r \<Longrightarrow> \<exists>p. seq_number r = b + of_nat p \<and> p + length (payload r) \<le> length written \<and>
       payload r = take (length (payload r)) (drop p written) \<and>
       (control r = Fin \<longrightarrow> p + length (payload r) = length written)"
      by (auto simp: carries_def seq_at_def)
    show ?thesis
      using sent_segment(1)[OF tx_ok_run_timers[OF ok sent(2)] sent(4-6)] sent(2) c unfolding r1 by blast
  qed simp_all
qed

text \<open>An established socket that is handed three bytes, and its first transmission.\<close>

lemma demo_sent:
  assumes "tx_buffer s0 = demo_rb" "state s0 = Established"
  obtains s where "send_slice [71, 69, 84] s0 = Some (Inr 3, s)" "rb_len (tx_buffer s) = 3"
    "rb_list (tx_buffer s) = [71, 69, 84]" "state s = state s0" "rx_buffer s = rx_buffer s0"
    "local_seq_no s = local_seq_no s0" "remote_last_seq s = remote_last_seq s0" "remote_seq_no s = remote_seq_no s0"
    "remote_win_len s = remote_win_len s0" "timeout s = timeout s0" "remote_mss s = remote_mss s0" "tuple s = tuple s0"
proof -
  let ?d = "[71, 69, 84] :: bytes"
  obtain tx where tx: "enqueue_slice demo_rb ?d = Some (tx, min (rb_window demo_rb) (length ?d))"
    "rb_wf tx" "rb_list tx = rb_list demo_rb @ take (rb_window demo_rb) ?d"
    "length (storage tx) = length (storage demo_rb)"
    by (rule enqueue_slice_correct[OF demo_rb_wf])
  have w8: "rb_window demo_rb = 8" "rb_list demo_rb = []" by (simp_all add: demo_rb_def rb_new_def rb_query_defs rb_list_def)
  have len: "rb_len tx = 3" using length_rb_list[OF tx(2)] tx(3) w8 by (simp add: rb_len_def)
  define s where "s = snd (the (send_slice ?d s0))"
  have "send_slice ?d s0 = Some (Inr 3, s)" "tx_buffer s = tx" "state s = state s0" "rx_buffer s = rx_buffer s0"
    "local_seq_no s = local_seq_no s0" "remote_last_seq s = remote_last_seq s0" "remote_seq_no s = remote_seq_no s0"
    "remote_win_len s = remote_win_len s0" "timeout s = timeout s0" "remote_mss s = remote_mss s0" "tuple s = tuple s0"
    using assms tx(1) w8 unfolding s_def send_slice_def send_impl_def by (simp_all add: may_send_def Let_def)
  then show thesis using that len tx(3) w8 by simp
qed

lemma demo_not_probe: "take n [71, 69, 84] \<noteq> [0 :: u8]"
  by (cases n) simp_all

lemma demo_dispatched:
  assumes "sk_inv s" "state s = Established" "tuple s = Some \<lparr>tup_local = \<lparr>ep_addr = 0x0a000001, ep_port = 50000\<rparr>,
      tup_remote = \<lparr>ep_addr = 0x0a000002, ep_port = 50000\<rparr>\<rparr>" "timeout s = None" "remote_last_seq s = local_seq_no s"
    "rb_len (tx_buffer s) = 3" "rb_list (tx_buffer s) = [71, 69, 84]" "rx_buffer s = demo_rb" "remote_win_len s = 4000"
    "remote_mss s = 1460"
  shows "\<exists>ip r s'. dispatch demo_cx (\<lambda>_. True) s = Some (Emitted (ip, r), s') \<and> payload r \<noteq> [] \<and>
    seq_number r = local_seq_no s \<and> payload r = take (length (payload r)) [71, 69, 84] \<and> control r \<in> {NoControl, Psh} \<and>
    ack_number r = Some (remote_seq_no s) \<and> src_port r = 50000 \<and> dst_port r = 50000"
proof -
  have ip: "has_ip_addr demo_cx 0x0a000001" by (simp add: has_ip_addr_def demo_cx_def)
  have mss: "local_mss demo_cx = 1460" by (simp add: local_mss_def demo_cx_def)
  have len: "rb_len (rx_buffer s) = 0" using assms by (simp add: demo_rb_def rb_new_def rb_len_def)
  show ?thesis using dispatch_data[of s _ demo_cx] assms ip mss len by auto
qed

theorem tcp_send_stream_witness:
  "\<exists>s0 s ip r s'. tx_run s0 [71, 69, 84] s \<and> dispatch demo_cx (\<lambda>_. True) s = Some (Emitted (ip, r), s') \<and>
     payload r \<noteq> [] \<and> (\<exists>p. payload r = take (length (payload r)) (drop p [71, 69, 84]))"
proof -
  obtain s0 where s0: "tcp_reachable demo_rb demo_rb s0" "state s0 = Established" "tx_buffer s0 = demo_rb"
    "rx_buffer s0 = demo_rb" "remote_last_seq s0 = local_seq_no s0"
    "remote_win_len s0 = 4000" "timeout s0 = None" "remote_mss s0 = 1460"
    "tuple s0 = Some \<lparr>tup_local = \<lparr>ep_addr = 0x0a000001, ep_port = 50000\<rparr>,
      tup_remote = \<lparr>ep_addr = 0x0a000002, ep_port = 50000\<rparr>\<rparr>"
    by (rule demo_opened[of 9000])
  let ?b = "local_seq_no s0" and ?d = "[71, 69, 84] :: bytes"
  have fresh: "tx_fresh ?b s0" using s0 by (simp add: tx_fresh_def demo_rb_def rb_new_def rb_query_defs)
  obtain s where s: "send_slice ?d s0 = Some (Inr 3, s)" "rb_len (tx_buffer s) = 3" "rb_list (tx_buffer s) = ?d"
    "state s = state s0" "rx_buffer s = rx_buffer s0"
    "local_seq_no s = local_seq_no s0" "remote_last_seq s = remote_last_seq s0" "remote_seq_no s = remote_seq_no s0"
    "remote_win_len s = remote_win_len s0" "timeout s = timeout s0" "remote_mss s = remote_mss s0" "tuple s = tuple s0"
    by (rule demo_sent[OF s0(3,2)])
  have run: "tx_run s0 ?d s" using tx_send[OF tx_start s(1)] by simp
  have "sk_inv s" by (rule sk_inv_step[OF step_send_slice[OF s(1)] sk_inv_reachable[OF demo_rb_wf demo_rb_wf s0(1)]])
  then obtain ip r s' where e: "dispatch demo_cx (\<lambda>_. True) s = Some (Emitted (ip, r), s')" "payload r \<noteq> []"
    "payload r = take (length (payload r)) ?d"
    using demo_dispatched[of s] s s0 by auto
  have "payload r \<noteq> [0]" using e(3) demo_not_probe by metis
  then have "\<exists>p. payload r = take (length (payload r)) (drop p ?d)"
    using tcp_send_stream[OF demo_rb_wf demo_rb_wf s0(1) fresh run e(1)] e(2) by blast
  then show ?thesis using run e by blast
qed

end
