(* ===== verification/Tcp_Link.thy ===== *)
theory Tcp_Link
  imports Tcp_Send
begin

text \<open>
  Two sockets and the network between them, for one direction of the data: the sender's application
  writes, the sender's segments enter the network, and the network delivers them to the receiver in any
  order, any number of times or never.  The receiver may also get any segments without data, from
  anywhere.  The send side of \<open>Tcp_Send\<close> and the receive side of \<open>Tcp_Stream\<close> compose: what the receiver's
  application reads is a prefix of what the sender's application has written.
\<close>

section \<open>The network\<close>

text \<open>A segment on the way, with its position in the stream: the one of the possible positions that is
  near the end of what has been written when it is sent.\<close>

definition sent_at :: "seq_number \<Rightarrow> nat \<Rightarrow> nat \<Rightarrow> tcp_repr \<Rightarrow> bool" where
  "sent_at b l p r \<longleftrightarrow> seq_number r = seq_at b (int p) \<and> p \<le> l + 1 \<and> l \<le> p + 2 ^ 30"

text \<open>What is asked of a delivery: the segment is not older than \<open>2 ^ 28\<close> bytes, no longer than an IP
  packet, and a FIN lies inside the receiver's window.\<close>

definition deliverable :: "nat \<Rightarrow> tcp_socket \<Rightarrow> nat \<Rightarrow> tcp_repr \<Rightarrow> bool" where
  "deliverable n s p r \<longleftrightarrow> \<bar>int p - int (n + rb_len (rx_buffer s))\<bar> < 2 ^ 28 \<and> length (payload r) \<le> 65535 \<and>
     (control r = Fin \<longrightarrow> seq_le (seq_number r + of_nat (length (payload r))) (win_end s))"

inductive link :: "seq_number \<Rightarrow> tcp_socket \<Rightarrow> tcp_socket \<Rightarrow> bytes \<Rightarrow> tcp_socket \<Rightarrow> (nat \<times> tcp_repr) set \<Rightarrow>
    bytes \<Rightarrow> tcp_socket \<Rightarrow> bool"
  for b :: seq_number and A0 B0 :: tcp_socket where
  link_start: "link b A0 B0 [] A0 {} [] B0"
| link_send: "link b A0 B0 written A net got B \<Longrightarrow> send_slice data A = Some (Inr n, A') \<Longrightarrow>
    link b A0 B0 (written @ take n data) A' net got B"
| link_emit: "link b A0 B0 written A net got B \<Longrightarrow> dispatch cx emit A = Some (Emitted (ip, r), A') \<Longrightarrow>
    (\<And>A1. run_timers cx A = Some A1 \<Longrightarrow> \<not> (should_keep_alive (timer A1) (cx_now cx) \<and> payload r = [0])) \<Longrightarrow>
    sent_at b (length written) p r \<Longrightarrow> link b A0 B0 written A' (insert (p, r) net) got B"
| link_sender: "link b A0 B0 written A net got B \<Longrightarrow> tx_other A A' \<Longrightarrow> link b A0 B0 written A' net got B"
| link_deliver: "link b A0 B0 written A net got B \<Longrightarrow> (p, r) \<in> net \<Longrightarrow> accepts ip r B \<Longrightarrow>
    deliverable (length got) B p r \<Longrightarrow> process cx ip r B = Some (x, B', cx') \<Longrightarrow>
    link b A0 B0 written A net got B'"
| link_control: "link b A0 B0 written A net got B \<Longrightarrow> payload r = [] \<Longrightarrow> control r \<noteq> Fin \<Longrightarrow> accepts ip r B \<Longrightarrow>
    process cx ip r B = Some (x, B', cx') \<Longrightarrow> link b A0 B0 written A net got B'"
| link_recv: "link b A0 B0 written A net got B \<Longrightarrow> (\<And>buf. g buf \<le> length buf) \<Longrightarrow>
    recv (\<lambda>buf. (buf, g buf, take (g buf) buf)) B = Some (Inr d, B') \<Longrightarrow>
    link b A0 B0 written A net (got @ d) B'"
| link_receiver: "link b A0 B0 written A net got B \<Longrightarrow> idle_step B B' \<Longrightarrow> link b A0 B0 written A net got B'"

section \<open>The invariant\<close>

text \<open>\<open>W\<close> is what the sender will have written in the end: it extends what is written so far, and is that
  once the sender has closed its direction.\<close>

definition may_become :: "tcp_socket \<Rightarrow> bytes \<Rightarrow> bytes \<Rightarrow> bool" where
  "may_become A written W \<longleftrightarrow> take (length written) W = written \<and> (\<not> may_send A \<longrightarrow> W = written)"

definition net_ok :: "seq_number \<Rightarrow> bytes \<Rightarrow> (nat \<times> tcp_repr) set \<Rightarrow> bool" where
  "net_ok b W net \<longleftrightarrow> (\<forall>(p, r) \<in> net. payload r = [] \<and> control r \<noteq> Fin \<or>
     seq_number r = seq_at b (int p) \<and> p + length (payload r) \<le> length W \<and>
     payload r = take (length (payload r)) (drop p W) \<and> (control r = Fin \<longrightarrow> p + length (payload r) = length W))"

lemma may_become_send:
  "may_become A' (written @ x) W \<Longrightarrow> may_send A \<Longrightarrow> may_become A written W"
  by (auto simp: may_become_def dest: arg_cong[where f = "take (length written)"])

lemma may_become_step:
  "may_become A' written W \<Longrightarrow> (may_send A' \<longrightarrow> may_send A) \<Longrightarrow> may_become A written W"
  by (auto simp: may_become_def)

lemma map_nth_take_drop: "p + k \<le> length W \<Longrightarrow> map ((!) W) [p ..< p + k] = take k (drop p W)"
  by (rule nth_equalityI) simp_all

lemma net_from_stream:
  assumes n: "net_ok b W net" "(p, r) \<in> net" and d: "deliverable n B p r"
  shows "from_stream ((!) W) (length W) b n B r"
proof (cases "payload r = [] \<and> control r \<noteq> Fin")
  case False
  then have r: "seq_number r = seq_at b (int p)" "p + length (payload r) \<le> length W"
    "payload r = take (length (payload r)) (drop p W)" "control r = Fin \<longrightarrow> p + length (payload r) = length W"
    using n by (auto simp: net_ok_def)
  then have "payload r = map ((!) W) [p ..< p + length (payload r)]" by (simp add: map_nth_take_drop)
  then show ?thesis using r d unfolding from_stream_def deliverable_def by blast
qed (simp add: from_stream_def)

text \<open>The position recorded for a segment is the one at which it carries its bytes.\<close>

lemma carries_sent_at:
  assumes c: "carries b written r" and s: "sent_at b (length written) p r"
  shows "p + length (payload r) \<le> length written \<and> payload r = take (length (payload r)) (drop p written) \<and>
    (control r = Fin \<longrightarrow> p + length (payload r) = length written)"
proof -
  obtain p' where p': "seq_number r = seq_at b (int p')" "p' + length (payload r) \<le> length written"
    "payload r = take (length (payload r)) (drop p' written)" "length written \<le> p' + 2 ^ 30"
    "control r = Fin \<longrightarrow> p' + length (payload r) = length written"
    using c by (auto simp: carries_def)
  have n: "near (int p) (int p')" using p'(2,4) s by (auto simp: near_def sent_at_def)
  have "seq_at b (int p) = seq_at b (int p')" using p'(1) s by (simp add: sent_at_def)
  then have "p = p'" using seq_at_cmp(5)[OF n, of b] by simp
  then show ?thesis using p' by simp
qed

lemma may_send_steps:
  assumes "tx_other A A'" "tx_ok b w A"
  shows "may_send A' \<longrightarrow> may_send A"
proof -
  have st: "state A \<notin> {Listen, SynSent, SynReceived}" using assms(2) by (simp add: tx_ok_def)
  then show ?thesis
    using step_edges[OF other_tcp_step[OF assms(1)]]
    by (cases "state A"; cases "state A'") (auto simp: may_send_def tcp_edge_def)
qed

lemma dispatch_emitted:
  assumes ok: "tx_ok b written s" and d: "dispatch cx emit s = Some (Emitted (ip, r), s')"
    and k: "\<And>s1. run_timers cx s = Some s1 \<Longrightarrow> \<not> (should_keep_alive (timer s1) (cx_now cx) \<and> payload r = [0])"
  shows "payload r = [] \<and> control r \<noteq> Fin \<or> carries b written r" "control r = Fin \<Longrightarrow> sent_fin s'"
proof -
  from d obtain t s1 r0 p q where e: "run_timers cx s = Some s1" "build_repr cx t s1 = Some (Some (r0, p))"
    "finish_repr cx s1 r0 = (r, q)" "after_emit cx r p q s1 = Some s'"
    by (cases rule: dispatch_cases) auto
  have ok1: "tx_ok b written s1" by (rule tx_ok_run_timers[OF ok e(1)])
  then have st: "state s1 \<notin> {Listen, SynSent, SynReceived}" by (simp add: tx_ok_def)
  show "payload r = [] \<and> control r \<noteq> Fin \<or> carries b written r"
    using sent_segment(1)[OF ok1 e(2-4)] k[OF e(1)] by blast
  assume f: "control r = Fin"
  have "control r0 = Fin" using e(3) f by (auto simp: finish_repr_def Let_def split: if_splits)
  with e(2) st have "sent_fin s1"
    by (cases rule: build_repr_cases) (auto elim: data_repr_fields)
  then show "sent_fin s'" using after_emit_state[OF e(4)] by (simp add: sent_fin_def)
qed

lemma net_ok_insert:
  assumes n: "net_ok b W net" and m: "take (length written) W = written" "control r = Fin \<Longrightarrow> W = written"
    and s: "sent_at b (length written) p r"
    and c: "payload r = [] \<and> control r \<noteq> Fin \<or> carries b written r"
  shows "net_ok b W (insert (p, r) net)"
proof -
  have "seq_number r = seq_at b (int p) \<and> p + length (payload r) \<le> length W \<and>
     payload r = take (length (payload r)) (drop p W) \<and> (control r = Fin \<longrightarrow> p + length (payload r) = length W)"
    if "carries b written r"
  proof -
    have q: "p + length (payload r) \<le> length written" "payload r = take (length (payload r)) (drop p written)"
      "control r = Fin \<longrightarrow> p + length (payload r) = length written"
      using carries_sent_at[OF that s] by auto
    have l: "length written \<le> length W" using m(1) by (metis length_take min.cobounded1)
    have "take (length (payload r)) (drop p written) = take (length (payload r)) (drop p (take (length written) W))"
      using m(1) by simp
    also have "\<dots> = take (length (payload r)) (drop p W)"
      using q(1) by (simp add: drop_take min_def)
    finally show ?thesis using q s m(2) l by (auto simp: sent_at_def)
  qed
  then show ?thesis using n c by (auto simp: net_ok_def)
qed

lemma link_invariant:
  assumes l: "link b A0 B0 written A net got B" and a: "tx_ok b [] A0" and r: "\<And>stream tot. rx_ok stream tot b 0 B0"
  shows "tx_ok b written A \<and> (\<forall>W. may_become A written W \<longrightarrow> net_ok b W net \<and>
    rx_ok ((!) W) (length W) b (length got) B \<and> got = map ((!) W) [0 ..< length got])"
  using l
proof (induction rule: link.induct)
  case link_start
  then show ?case using a r by (simp add: net_ok_def)
next
  case (link_send written A net got B data n A')
  have "may_send A" using link_send(2) by (auto simp: send_slice_def send_impl_def split: if_splits)
  then show ?case using link_send tx_ok_send_slice may_become_send by blast
next
  case (link_emit written A net got B cx emit ip r A' p)
  have o: "tx_other A A'" by (rule other_dispatch[OF link_emit(2)])
  have ok: "tx_ok b written A" using link_emit.IH by blast
  note c = dispatch_emitted[OF ok link_emit(2,3)]
  have "net_ok b W (insert (p, r) net) \<and> rx_ok ((!) W) (length W) b (length got) B \<and>
      got = map ((!) W) [0 ..< length got]" if m: "may_become A' written W" for W
  proof -
    have "may_become A written W" by (rule may_become_step[OF m may_send_steps[OF o ok]])
    then have ih: "net_ok b W net" "rx_ok ((!) W) (length W) b (length got) B" "got = map ((!) W) [0 ..< length got]"
      using link_emit.IH by blast+
    have w: "take (length written) W = written" and f: "control r = Fin \<Longrightarrow> W = written"
      using c(2) m by (auto simp: may_become_def may_send_def sent_fin_def)
    have "net_ok b W (insert (p, r) net)" by (rule net_ok_insert[OF ih(1) w f link_emit(4) c(1)])
    then show ?thesis using ih by blast
  qed
  then show ?case using tx_ok_other[OF ok o] by blast
next
  case (link_sender written A net got B A')
  then show ?case using tx_ok_other may_become_step[OF _ may_send_steps[OF link_sender(2)]] by blast
next
  case (link_deliver written A net got B p r ip cx x B' cx')
  have "state B \<noteq> Closed" using link_deliver(3) by (auto simp: accepts_def)
  then show ?case using link_deliver rx_ok_process[OF _ net_from_stream] by blast
next
  case (link_control written A net got B r ip cx x B' cx')
  have "state B \<noteq> Closed" using link_control(4) by (auto simp: accepts_def)
  moreover have "from_stream stream tot b n B r" for stream tot n using link_control(2,3) by (simp add: from_stream_def)
  ultimately show ?case using link_control rx_ok_process by blast
next
  case (link_recv written A net got B g d B')
  have "rx_ok ((!) W) (length W) b (length (got @ d)) B' \<and> got @ d = map ((!) W) [0 ..< length (got @ d)] \<and> net_ok b W net"
    if "may_become A written W" for W
  proof -
    have ih: "net_ok b W net" "rx_ok ((!) W) (length W) b (length got) B" "got = map ((!) W) [0 ..< length got]"
      using link_recv.IH that by blast+
    have d: "d = map ((!) W) [length got ..< length got + length d]" "rx_ok ((!) W) (length W) b (length got + length d) B'"
      using rx_ok_recv[OF ih(2) link_recv(2,3)] by blast+
    have "[0 ..< length got + length d] = [0 ..< length got] @ [length got ..< length got + length d]"
      by (rule upt_add_eq_append) simp
    then have "got @ d = map ((!) W) [0 ..< length got + length d]" using ih(3) d(1) by (metis map_append)
    then show ?thesis using d(2) ih(1) by simp
  qed
  then show ?case using link_recv.IH by blast
next
  case (link_receiver written A net got B B')
  then show ?case using rx_ok_idle by blast
qed

section \<open>Properties\<close>

text \<open>C5: end to end.  Two sockets of this stack, both established, the receiver's buffer, at most \<open>2 ^ 30\<close>
  bytes, empty and its announced window within it (as after the acknowledgement of the SYN-ACK:
  \<open>Tcp_Open\<close>), over a network that loses, repeats, delays and reorders segments, where a delivered
  segment starts less than \<open>2 ^ 28\<close> bytes from the next byte the receiver expects, carries at most 65535
  bytes, is no keep-alive probe and, when it has a FIN, ends inside the receiver's window: whatever both
  applications and the network do, the bytes the receiving application has read are a prefix of the
  bytes the sending application has written; and when the receiver's \<open>recv\<close> reports the end of the
  stream, it has read all of them.\<close>

theorem tcp_end_to_end:
  assumes "rb_wf rx" "rb_wf tx" "tcp_reachable rx tx A0" "tx_fresh b A0"
    and "rb_wf rx'" "rb_wf tx'" "tcp_reachable rx' tx' B0" "rx_fresh b B0"
    and "link b A0 B0 written A net got B"
  shows "got = take (length got) written \<and>
    (recv f B = Some (Inl Finished, B') \<longrightarrow> got = written)"
proof -
  have a: "tx_ok b [] A0" by (rule tx_ok_fresh[OF sk_inv_reachable[OF assms(1-3)] assms(4)])
  have r: "rx_ok stream tot b 0 B0" for stream tot
    by (rule rx_ok_fresh[OF sk_inv_reachable[OF assms(5-7)] assms(8)])
  have "may_become A written written" by (simp add: may_become_def)
  then have i: "rx_ok ((!) written) (length written) b (length got) B" "got = map ((!) written) [0 ..< length got]"
    using link_invariant[OF assms(9) a r] by blast+
  have "length got \<le> length written" using i(1) by (simp add: rx_ok_def)
  then have g: "got = take (length got) written"
    using i(2) map_nth_take_drop[of 0 "length got" written] by simp
  have "got = written" if "recv f B = Some (Inl Finished, B')"
    using recv_finished[OF that] i(1) g by (simp add: rx_ok_def)
  then show ?thesis using g by blast
qed

text \<open>One socket plays both ends, so that the bytes it sends come back to it.\<close>

lemma demo_echo:
  obtains s where "tcp_reachable demo_rb demo_rb s" "tx_fresh (local_seq_no s) s" "rx_fresh (local_seq_no s) s"
    "state s = Established" "tx_buffer s = demo_rb" "rx_buffer s = demo_rb" "remote_seq_no s = local_seq_no s"
    "win_end s = seq_at (local_seq_no s) 7" "shl_usize (unat (remote_last_win s)) (remote_win_shift s) = 8"
    "remote_win_len s = 4000" "timeout s = None" "remote_mss s = 1460" "keep_alive s = None"
    "remote_last_seq s = local_seq_no s"
    "tuple s = Some \<lparr>tup_local = \<lparr>ep_addr = 0x0a000001, ep_port = 50000\<rparr>, tup_remote = \<lparr>ep_addr = 0x0a000002, ep_port = 50000\<rparr>\<rparr>"
proof -
  let ?q = "local_seq_no demo_connected"
  obtain s where s: "tcp_reachable demo_rb demo_rb s" "state s = Established" "rx_buffer s = demo_rb" "tx_buffer s = demo_rb"
    "assembler s = asm_new 4" "\<not> rx_fin_received s" "remote_seq_no s = ?q + 1" "remote_last_ack s = Some ?q"
    "shl_usize (unat (remote_last_win s)) (remote_win_shift s) = 8" "remote_mss s = 1460"
    "tuple s = Some \<lparr>tup_local = \<lparr>ep_addr = 0x0a000001, ep_port = 50000\<rparr>, tup_remote = \<lparr>ep_addr = 0x0a000002, ep_port = 50000\<rparr>\<rparr>"
    "local_seq_no s = ?q + 1" "remote_last_seq s = local_seq_no s" "remote_win_len s = 4000"
    "timeout s = None" "keep_alive s = None"
    by (rule demo_opened[of ?q])
  have "asm_is_empty (asm_new 4)" by (simp add: asm_is_empty_def asm_new_def asm_front_def numeral_eq_Suc)
  then have "tx_fresh (local_seq_no s) s" "rx_fresh (local_seq_no s) s"
    using s by (simp_all add: tx_fresh_def rx_fresh_def demo_rb_def rb_new_def rb_query_defs)
  moreover have "win_end s = seq_at (local_seq_no s) 7" using s by (simp add: win_end_def seq_at_def)
  ultimately show thesis using that s by simp
qed

theorem tcp_end_to_end_witness:
  "\<exists>b A0 B0 A net got B. link b A0 B0 [71, 69, 84] A net got B \<and> got \<noteq> [] \<and> got = take (length got) [71, 69, 84]"
proof -
  let ?d = "[71, 69, 84] :: bytes"
  obtain s where s: "tcp_reachable demo_rb demo_rb s" "tx_fresh (local_seq_no s) s" "rx_fresh (local_seq_no s) s"
    "state s = Established" "tx_buffer s = demo_rb" "rx_buffer s = demo_rb" "remote_seq_no s = local_seq_no s"
    "win_end s = seq_at (local_seq_no s) 7" "shl_usize (unat (remote_last_win s)) (remote_win_shift s) = 8"
    "remote_win_len s = 4000" "timeout s = None" "remote_mss s = 1460" "keep_alive s = None"
    "remote_last_seq s = local_seq_no s"
    "tuple s = Some \<lparr>tup_local = \<lparr>ep_addr = 0x0a000001, ep_port = 50000\<rparr>, tup_remote = \<lparr>ep_addr = 0x0a000002, ep_port = 50000\<rparr>\<rparr>"
    by (rule demo_echo)
  let ?b = "local_seq_no s"
  have inv: "sk_inv s" by (rule sk_inv_reachable[OF demo_rb_wf demo_rb_wf s(1)])
  obtain A where A: "send_slice ?d s = Some (Inr 3, A)" "rb_len (tx_buffer A) = 3" "rb_list (tx_buffer A) = ?d"
    "state A = state s" "rx_buffer A = rx_buffer s" "local_seq_no A = ?b" "remote_last_seq A = remote_last_seq s"
    "remote_seq_no A = remote_seq_no s" "remote_win_len A = remote_win_len s" "timeout A = timeout s"
    "remote_mss A = remote_mss s" "tuple A = tuple s"
    by (rule demo_sent[OF s(5,4)])
  have l1: "link ?b s s ?d A {} [] s" using link_send[OF link_start A(1)] by simp
  have inv: "sk_inv s" by (rule sk_inv_reachable[OF demo_rb_wf demo_rb_wf s(1)])
  have okA: "sk_inv A" by (rule sk_inv_step[OF step_send_slice[OF A(1)] inv])
  obtain ip r A' where r: "dispatch demo_cx (\<lambda>_. True) A = Some (Emitted (ip, r), A')" "payload r \<noteq> []"
    "seq_number r = ?b" "payload r = take (length (payload r)) ?d" "control r \<in> {NoControl, Psh}" "ack_number r = Some ?b"
    "src_port r = 50000" "dst_port r = 50000"
    using demo_dispatched[OF okA] A s by auto
  have len: "length (payload r) \<le> 3" using arg_cong[OF r(4), of length] by simp
  have np: "payload r \<noteq> [0]" using r(4) by (metis demo_not_probe)
  have at0: "sent_at ?b (length ?d) 0 r" using r(3) by (simp add: sent_at_def)
  have l2: "link ?b s s ?d A' {(0, r)} [] s"
    using link_emit[OF l1 r(1) _ at0] np by simp
  let ?W = ?d
  have x: "next_segment ((!) ?W) 3 ?b 0 0 0 s r"
  proof -
    have "near (int (length (payload r))) 7" using len by (auto simp: near_def)
    then have "seq_le (seq_at ?b (int (length (payload r)))) (seq_at ?b 7)"
      using seq_at_cmp(2) len by simp
    then have "seq_le (seq_number r + of_nat (length (payload r))) (win_end s)"
      using r(3) s(8) by (simp add: seq_at_def)
    moreover have "payload r = map ((!) ?W) [0 ..< 0 + length (payload r)]"
      using r(4) len map_nth_take_drop[of 0 "length (payload r)" ?W] by simp
    ultimately show ?thesis
      using r(2,3,5,6) s(5,6) len by (auto simp: next_segment_def demo_rb_def rb_new_def rb_len_def)
  qed
  have ok: "rx_ok ((!) ?W) 3 ?b 0 s" by (rule rx_ok_fresh[OF inv s(3)])
  have nf: "\<not> rx_fin_received s" "shl_usize (unat (remote_last_win s)) (remote_win_shift s) \<le> I32_MAX"
    "rb_len (tx_buffer s) \<le> 2 ^ 30" "remote_mss s \<le> I32_MAX"
    using s by (simp_all add: rx_fresh_def demo_rb_def rb_new_def rb_len_def)
  obtain y B where B: "process demo_cx demo_ip r s = Some (y, B, demo_cx)" "rx_ok ((!) ?W) 3 ?b 0 B"
    "0 + length (payload r) \<le> 0 + rb_len (rx_buffer B)"
    using next_segment_processed[OF ok s(4) x nf(2-4,1)] by blast
  have acc: "accepts demo_ip r s" using s(4,15) r(7,8) by (simp add: accepts_def demo_ip_def)
  have dl: "deliverable (length []) s 0 r"
    using s(6) len r(5) by (auto simp: deliverable_def demo_rb_def rb_new_def rb_len_def)
  have l3: "link ?b s s ?d A' {(0, r)} [] B" using link_deliver[OF l2 _ acc dl B(1)] by simp
  have "0 < length (payload r)" using r(2) by simp
  then have "0 < rb_len (rx_buffer B)" using B(3) by linarith
  then obtain d B' where d: "recv (\<lambda>buf. (buf, length buf, take (length buf) buf)) B = Some (Inr d, B')" "d \<noteq> []"
    using rx_ok_recv_some[OF B(2)] by blast
  have l4: "link ?b s s ?d A' {(0, r)} d B'" using link_recv[OF l3 _ d(1)] by simp
  have "d = take (length d) ?d"
    using tcp_end_to_end[OF demo_rb_wf demo_rb_wf s(1,2) demo_rb_wf demo_rb_wf s(1,3) l4] by auto
  then show ?thesis using l4 d(2) by blast
qed

end
