(* ===== verification/Tcp_Wire.thy ===== *)
theory Tcp_Wire
  imports Tcp_Repr
begin

text \<open>
  The TCP segment on the wire (\<open>wire/tcp.rs\<close>): the header fields of \<open>Packet\<close>, \<open>TcpOption\<close>, and
  \<open>Repr::parse\<close> and \<open>Repr::emit\<close>, with the checksum of \<open>wire/ip.rs\<close>.  A packet is its buffer.
  \<open>None\<close> is a panic, \<open>Inl WireError\<close> the \<open>Err(Error)\<close> of the source.  Shown: no buffer makes the parser
  panic, what is emitted parses back to the same segment, with or without checksums, and a packet with
  a valid checksum is rejected when any byte of it is changed.
\<close>

datatype wire_error = WireError

type_synonym 'a wire = "(wire_error + 'a) option"

text \<open>The \<open>?\<close> operator: an error is returned at once.\<close>

definition attempt :: "'a wire \<Rightarrow> ('a \<Rightarrow> 'b wire) \<Rightarrow> 'b wire" where
  "attempt m f = (case m of None \<Rightarrow> None | Some (Inl e) \<Rightarrow> Some (Inl e) | Some (Inr x) \<Rightarrow> f x)"

lemma attempt_simps [simp]:
  "attempt None f = None" "attempt (Some (Inl e)) f = Some (Inl e)" "attempt (Some (Inr x)) f = f x"
  by (simp_all add: attempt_def)

section \<open>Fields\<close>

text \<open>\<open>NetworkEndian\<close> on \<open>&data[k..]\<close>; a range beyond the buffer panics.\<close>

definition read_u16 :: "bytes \<Rightarrow> nat \<Rightarrow> u16 option" where
  "read_u16 b k = (if k + 2 \<le> length b then Some (of_be16 (b ! k) (b ! (k + 1))) else None)"

definition read_u32 :: "bytes \<Rightarrow> nat \<Rightarrow> u32 option" where
  "read_u32 b k = (if k + 4 \<le> length b
     then Some (of_be32 (b ! k) (b ! (k + 1)) (b ! (k + 2)) (b ! (k + 3))) else None)"

definition write_u16 :: "bytes \<Rightarrow> nat \<Rightarrow> u16 \<Rightarrow> bytes option" where
  "write_u16 b k v = copy_at b k (be16 v)"

definition write_u32 :: "bytes \<Rightarrow> nat \<Rightarrow> u32 \<Rightarrow> bytes option" where
  "write_u32 b k v = copy_at b k (be32 v)"

abbreviation (input) FLG_FIN :: u16 where "FLG_FIN \<equiv> 0x001"
abbreviation (input) FLG_SYN :: u16 where "FLG_SYN \<equiv> 0x002"
abbreviation (input) FLG_RST :: u16 where "FLG_RST \<equiv> 0x004"
abbreviation (input) FLG_PSH :: u16 where "FLG_PSH \<equiv> 0x008"
abbreviation (input) FLG_ACK :: u16 where "FLG_ACK \<equiv> 0x010"

definition pkt_src_port :: "bytes \<Rightarrow> u16 option" where "pkt_src_port p = read_u16 p 0"
definition pkt_dst_port :: "bytes \<Rightarrow> u16 option" where "pkt_dst_port p = read_u16 p 2"
definition pkt_seq_number :: "bytes \<Rightarrow> seq_number option" where "pkt_seq_number p = read_u32 p 4"
definition pkt_ack_number :: "bytes \<Rightarrow> seq_number option" where "pkt_ack_number p = read_u32 p 8"
definition pkt_window_len :: "bytes \<Rightarrow> u16 option" where "pkt_window_len p = read_u16 p 14"

definition pkt_flag :: "u16 \<Rightarrow> bytes \<Rightarrow> bool option" where
  "pkt_flag f p = do { raw \<leftarrow> read_u16 p 12; Some (raw AND f \<noteq> 0) }"

definition pkt_fin :: "bytes \<Rightarrow> bool option" where "pkt_fin = pkt_flag FLG_FIN"
definition pkt_syn :: "bytes \<Rightarrow> bool option" where "pkt_syn = pkt_flag FLG_SYN"
definition pkt_rst :: "bytes \<Rightarrow> bool option" where "pkt_rst = pkt_flag FLG_RST"
definition pkt_psh :: "bytes \<Rightarrow> bool option" where "pkt_psh = pkt_flag FLG_PSH"
definition pkt_ack :: "bytes \<Rightarrow> bool option" where "pkt_ack = pkt_flag FLG_ACK"

definition pkt_header_len :: "bytes \<Rightarrow> u8 option" where
  "pkt_header_len p = do { raw \<leftarrow> read_u16 p 12; Some (ucast (drop_bit 12 raw * 4)) }"

definition pkt_check_len :: "bytes \<Rightarrow> unit wire" where
  "pkt_check_len p =
     (if length p < 20 then Some (Inl WireError)
      else do {
        hl \<leftarrow> pkt_header_len p;
        Some (if length p < unat hl \<or> unat hl < 20 then Inl WireError else Inr ())
      })"

definition pkt_options :: "bytes \<Rightarrow> bytes option" where
  "pkt_options p = do { hl \<leftarrow> pkt_header_len p; slice p 20 (unat hl) }"

definition pkt_payload :: "bytes \<Rightarrow> bytes option" where
  "pkt_payload p = do { hl \<leftarrow> pkt_header_len p; slice p (unat hl) (length p) }"

definition set_flag :: "u16 \<Rightarrow> bytes \<Rightarrow> bool \<Rightarrow> bytes option" where
  "set_flag f p v = do {
     raw \<leftarrow> read_u16 p 12;
     write_u16 p 12 (if v then raw OR f else raw AND NOT f)
   }"

definition clear_flags :: "bytes \<Rightarrow> bytes option" where
  "clear_flags p = do { raw \<leftarrow> read_u16 p 12; write_u16 p 12 (raw AND NOT 0x0fff) }"

definition set_header_len :: "bytes \<Rightarrow> u8 \<Rightarrow> bytes option" where
  "set_header_len p v = do {
     raw \<leftarrow> read_u16 p 12;
     write_u16 p 12 ((raw AND NOT 0xf000) OR push_bit 12 (ucast v div 4))
   }"

section \<open>Checksum\<close>

definition propagate_carries :: "u32 \<Rightarrow> u16" where
  "propagate_carries w =
     (let s = drop_bit 16 w + (w AND 0xffff) in ucast (drop_bit 16 s) + ucast s)"

text \<open>The inner loop: two bytes at a time; the rest is the odd byte.\<close>

fun sum_words :: "u32 \<Rightarrow> bytes \<Rightarrow> u32 \<times> bytes" where
  "sum_words accum (a # b # d) = sum_words (accum + ucast (of_be16 a b)) d"
| "sum_words accum d = (accum, d)"

abbreviation (input) CHUNK_SIZE :: nat where "CHUNK_SIZE \<equiv> 32"

function sum_chunks :: "u32 \<Rightarrow> bytes \<Rightarrow> u32 \<times> bytes" where
  "sum_chunks accum d =
     (if length d \<ge> CHUNK_SIZE
      then sum_chunks (fst (sum_words accum (take CHUNK_SIZE d))) (drop CHUNK_SIZE d)
      else (accum, d))"
  by auto
termination by (relation "measure (\<lambda>(_, d). length d)") auto

declare sum_chunks.simps [simp del]

definition checksum_data :: "bytes \<Rightarrow> u16" where
  "checksum_data d =
     (let (accum, d) = sum_chunks 0 d; (accum, d) = sum_words accum d in
      propagate_carries (case d of v # _ \<Rightarrow> accum + push_bit 8 (ucast v) | [] \<Rightarrow> accum))"

definition checksum_combine :: "u16 list \<Rightarrow> u16" where
  "checksum_combine ws = propagate_carries (foldl (\<lambda>accum w. accum + ucast w) 0 ws)"

text \<open>The protocol number of TCP is 6; the length is cut to 16 bits.\<close>

definition pseudo_header_v4 :: "ip_addr \<Rightarrow> ip_addr \<Rightarrow> u8 \<Rightarrow> u32 \<Rightarrow> u16" where
  "pseudo_header_v4 src dst next_header len =
     checksum_combine [checksum_data (be32 src), checksum_data (be32 dst),
       checksum_data ([0, next_header] @ be16 (ucast len))]"

abbreviation (input) PROTO_TCP :: u8 where "PROTO_TCP \<equiv> 6"

definition packet_sum :: "ip_addr \<Rightarrow> ip_addr \<Rightarrow> bytes \<Rightarrow> u16" where
  "packet_sum src dst p =
     checksum_combine [pseudo_header_v4 src dst PROTO_TCP (of_nat (length p)), checksum_data p]"

definition verify_checksum :: "bytes \<Rightarrow> ip_addr \<Rightarrow> ip_addr \<Rightarrow> bool" where
  "verify_checksum p src dst \<longleftrightarrow> packet_sum src dst p = NOT 0"

definition fill_checksum :: "bytes \<Rightarrow> ip_addr \<Rightarrow> ip_addr \<Rightarrow> bytes option" where
  "fill_checksum p src dst = do {
     p \<leftarrow> write_u16 p 16 0;
     write_u16 p 16 (NOT (packet_sum src dst p))
   }"

section \<open>Options\<close>

datatype tcp_option = EndOfList | NoOperation | MaxSegmentSize u16 | WindowScale u8 | SackPermitted
  | SackRange "(u32 \<times> u32) option list" | TimeStamp u32 u32 | Unknown u8 bytes

abbreviation (input) OPT_END :: u8 where "OPT_END \<equiv> 0"
abbreviation (input) OPT_NOP :: u8 where "OPT_NOP \<equiv> 1"
abbreviation (input) OPT_MSS :: u8 where "OPT_MSS \<equiv> 2"
abbreviation (input) OPT_WS :: u8 where "OPT_WS \<equiv> 3"
abbreviation (input) OPT_SACKPERM :: u8 where "OPT_SACKPERM \<equiv> 4"
abbreviation (input) OPT_SACKRNG :: u8 where "OPT_SACKRNG \<equiv> 5"
abbreviation (input) OPT_TSTAMP :: u8 where "OPT_TSTAMP \<equiv> 8"

text \<open>Entry \<open>i\<close> of the array of SACK ranges.\<close>

definition sack_range_at :: "bytes \<Rightarrow> nat \<Rightarrow> (u32 \<times> u32) option option" where
  "sack_range_at d i =
     (if i * 8 < length d
      then do { l \<leftarrow> read_u32 d (i * 8); r \<leftarrow> read_u32 d (i * 8 + 4); Some (Some (l, r)) }
      else Some None)"

text \<open>The match on kind and length, \<open>data\<close> being the bytes of the option after these two.\<close>

definition option_body :: "u8 \<Rightarrow> nat \<Rightarrow> bytes \<Rightarrow> tcp_option wire" where
  "option_body kind len data =
     (if kind = OPT_MSS then
        if len = 4 then do { v \<leftarrow> read_u16 data 0; Some (Inr (MaxSegmentSize v)) }
        else Some (Inl WireError)
      else if kind = OPT_WS then
        if len = 3 then do { v \<leftarrow> slice data 0 1; Some (Inr (WindowScale (hd v))) }
        else Some (Inl WireError)
      else if kind = OPT_SACKPERM then
        if len = 2 then Some (Inr SackPermitted) else Some (Inl WireError)
      else if kind = OPT_SACKRNG then
        if len < 10 \<or> (len - 2) mod 8 \<noteq> 0 then Some (Inl WireError)
        else do {
          r0 \<leftarrow> sack_range_at data 0;
          r1 \<leftarrow> sack_range_at data 1;
          r2 \<leftarrow> sack_range_at data 2;
          Some (Inr (SackRange [r0, r1, r2]))
        }
      else if kind = OPT_TSTAMP \<and> len = 10 then
        do { v \<leftarrow> read_u32 data 0; e \<leftarrow> read_u32 data 4; Some (Inr (TimeStamp v e)) }
      else Some (Inr (Unknown kind data)))"

definition option_rest :: "bytes \<Rightarrow> nat \<Rightarrow> tcp_option \<Rightarrow> (bytes \<times> tcp_option) wire" where
  "option_rest b len opt = do { rest \<leftarrow> slice b len (length b); Some (Inr (rest, opt)) }"

text \<open>\<open>buffer.first()\<close>, \<open>buffer.get(1)\<close> and \<open>buffer.get(2..length)\<close> return an error out of range.\<close>

definition option_parse :: "bytes \<Rightarrow> (bytes \<times> tcp_option) wire" where
  "option_parse b =
     (case b of [] \<Rightarrow> Some (Inl WireError)
      | kind # _ \<Rightarrow>
          if kind = OPT_END then option_rest b 1 EndOfList
          else if kind = OPT_NOP then option_rest b 1 NoOperation
          else if length b < 2 then Some (Inl WireError)
          else let len = unat (b ! 1) in
            case slice b 2 len of None \<Rightarrow> Some (Inl WireError)
            | Some data \<Rightarrow> attempt (option_body kind len data) (option_rest b len))"

fun option_len :: "tcp_option \<Rightarrow> nat" where
  "option_len EndOfList = 1"
| "option_len NoOperation = 1"
| "option_len (MaxSegmentSize _) = 4"
| "option_len (WindowScale _) = 3"
| "option_len SackPermitted = 2"
| "option_len (SackRange s) = length (filter (\<lambda>x. \<not> Option.is_none x) s) * 8 + 2"
| "option_len (TimeStamp _ _) = 10"
| "option_len (Unknown _ data) = 2 + length data"

fun write_ranges :: "bytes \<Rightarrow> nat \<Rightarrow> (u32 \<times> u32) list \<Rightarrow> bytes option" where
  "write_ranges b pos [] = Some b"
| "write_ranges b pos ((l, r) # rs) =
     do { b \<leftarrow> write_u32 b pos l; b \<leftarrow> write_u32 b (pos + 4) r; write_ranges b (pos + 8) rs }"

definition put_byte :: "bytes \<Rightarrow> nat \<Rightarrow> u8 \<Rightarrow> bytes option" where
  "put_byte b k v = copy_at b k [v]"

text \<open>The bytes an option writes; \<open>copy_from_slice\<close> panics when the lengths differ.\<close>

fun option_write :: "tcp_option \<Rightarrow> bytes \<Rightarrow> bytes option" where
  "option_write EndOfList b = Some (replicate (length b) OPT_END)"
| "option_write NoOperation b = put_byte b 0 OPT_NOP"
| "option_write (MaxSegmentSize v) b =
     do { b \<leftarrow> put_byte b 1 4; b \<leftarrow> put_byte b 0 OPT_MSS; write_u16 b 2 v }"
| "option_write (WindowScale v) b =
     do { b \<leftarrow> put_byte b 1 3; b \<leftarrow> put_byte b 0 OPT_WS; put_byte b 2 v }"
| "option_write SackPermitted b =
     do { b \<leftarrow> put_byte b 1 2; put_byte b 0 OPT_SACKPERM }"
| "option_write (SackRange s) b =
     do { b \<leftarrow> put_byte b 1 (of_nat (option_len (SackRange s)));
          b \<leftarrow> put_byte b 0 OPT_SACKRNG;
          write_ranges b 2 (map the (filter (\<lambda>x. \<not> Option.is_none x) s)) }"
| "option_write (TimeStamp v e) b =
     do { b \<leftarrow> put_byte b 1 10; b \<leftarrow> put_byte b 0 OPT_TSTAMP; b \<leftarrow> write_u32 b 2 v; write_u32 b 6 e }"
| "option_write (Unknown kind data) b =
     do { b \<leftarrow> put_byte b 1 (of_nat (option_len (Unknown kind data)));
          b \<leftarrow> put_byte b 0 kind;
          if length b - 2 = length data then copy_at b 2 data else None }"

text \<open>\<open>emit\<close> returns the rest of the buffer; here the written part comes with it.\<close>

definition option_emit :: "tcp_option \<Rightarrow> bytes \<Rightarrow> (bytes \<times> bytes) option" where
  "option_emit opt b = do {
     b \<leftarrow> option_write opt b;
     rest \<leftarrow> slice b (option_len opt) (length b);
     Some (take (option_len opt) b, rest)
   }"

section \<open>Segments\<close>

record tcp_options =
  opt_mss :: "u16 option"
  opt_scale :: "u8 option"
  opt_sack_permitted :: bool
  opt_sack_ranges :: "(u32 \<times> u32) option list"
  opt_timestamp :: "timestamp_repr option"

definition no_options :: tcp_options where
  "no_options = \<lparr>opt_mss = None, opt_scale = None, opt_sack_permitted = False,
     opt_sack_ranges = [None, None, None], opt_timestamp = None\<rparr>"

text \<open>The match on a parsed option other than the end of the list.\<close>

fun note_option :: "tcp_option \<Rightarrow> tcp_options \<Rightarrow> tcp_options" where
  "note_option (MaxSegmentSize v) a = a\<lparr>opt_mss := Some v\<rparr>"
| "note_option (WindowScale v) a = a\<lparr>opt_scale := Some (if v > 14 then 14 else v)\<rparr>"
| "note_option SackPermitted a = a\<lparr>opt_sack_permitted := True\<rparr>"
| "note_option (SackRange s) a = a\<lparr>opt_sack_ranges := s\<rparr>"
| "note_option (TimeStamp v e) a = a\<lparr>opt_timestamp := Some \<lparr>tsval = v, tsecr = e\<rparr>\<rparr>"
| "note_option _ a = a"

lemma option_rest_Some: "option_rest b len opt = Some r \<longleftrightarrow> len \<le> length b \<and> r = Inr (drop len b, opt)"
  by (auto simp: option_rest_def slice_def split: Option.bind_split)

lemma attempt_Inr: "attempt m f = Some (Inr y) \<longleftrightarrow> (\<exists>x. m = Some (Inr x) \<and> f x = Some (Inr y))"
  by (auto simp: attempt_def split: option.splits sum.splits)

text \<open>Every option takes at least one byte, so the loop over the options ends.\<close>

lemma option_parse_shorter:
  "option_parse b = Some (Inr (rest, opt)) \<Longrightarrow> length rest < length b"
  by (auto simp: option_parse_def option_rest_Some attempt_Inr Let_def slice_eq_Some
      split: list.splits if_splits option.splits)

function parse_options :: "tcp_options \<Rightarrow> bytes \<Rightarrow> tcp_options wire" where
  "parse_options a options =
     (if options = [] then Some (Inr a)
      else case option_parse options of
        None \<Rightarrow> None
      | Some (Inl e) \<Rightarrow> Some (Inl e)
      | Some (Inr (next_options, opt)) \<Rightarrow>
          if opt = EndOfList then Some (Inr a) else parse_options (note_option opt a) next_options)"
  by auto
termination
  by (relation "measure (\<lambda>(_, b). length b)") (auto dest: option_parse_shorter)

declare parse_options.simps [simp del]

text \<open>The capabilities that matter here: whether TCP checksums are verified and computed.\<close>

record checksum_caps =
  tcp_rx :: bool
  tcp_tx :: bool

definition parse_control :: "bool \<Rightarrow> bool \<Rightarrow> bool \<Rightarrow> bool \<Rightarrow> wire_error + control" where
  "parse_control syn fin rst psh =
     (case (syn, fin, rst, psh) of
        (False, False, False, False) \<Rightarrow> Inr NoControl
      | (False, False, False, True) \<Rightarrow> Inr Psh
      | (True, False, False, _) \<Rightarrow> Inr Syn
      | (False, True, False, _) \<Rightarrow> Inr Fin
      | (False, False, True, _) \<Rightarrow> Inr Rst
      | _ \<Rightarrow> Inl WireError)"

definition repr_parse :: "bytes \<Rightarrow> ip_addr \<Rightarrow> ip_addr \<Rightarrow> checksum_caps \<Rightarrow> tcp_repr wire" where
  "repr_parse p src dst caps = attempt (pkt_check_len p) (\<lambda>_. do {
     sp \<leftarrow> pkt_src_port p;
     dp \<leftarrow> pkt_dst_port p;
     if sp = 0 then Some (Inl WireError)
     else if dp = 0 then Some (Inl WireError)
     else if tcp_rx caps \<and> \<not> verify_checksum p src dst then Some (Inl WireError)
     else do {
       syn \<leftarrow> pkt_syn p;
       fin \<leftarrow> pkt_fin p;
       rst \<leftarrow> pkt_rst p;
       psh \<leftarrow> pkt_psh p;
       attempt (Some (parse_control syn fin rst psh)) (\<lambda>control. do {
         has_ack \<leftarrow> pkt_ack p;
         an \<leftarrow> (if has_ack then map_option Some (pkt_ack_number p) else Some None);
         options \<leftarrow> pkt_options p;
         attempt (parse_options no_options options) (\<lambda>a. do {
           sn \<leftarrow> pkt_seq_number p;
           wl \<leftarrow> pkt_window_len p;
           pl \<leftarrow> pkt_payload p;
           Some (Inr \<lparr>src_port = sp, dst_port = dp, control = control, seq_number = sn,
             ack_number = an, window_len = wl,
             window_scale = opt_scale a, max_seg_size = opt_mss a, sack_permitted = opt_sack_permitted a,
             sack_ranges = opt_sack_ranges a, timestamp = opt_timestamp a, payload = pl\<rparr>)
         })
       })
     }
   })"

definition set_control :: "bytes \<Rightarrow> control \<Rightarrow> bytes option" where
  "set_control p c =
     (case c of NoControl \<Rightarrow> Some p | Psh \<Rightarrow> set_flag FLG_PSH p True | Syn \<Rightarrow> set_flag FLG_SYN p True
      | Fin \<Rightarrow> set_flag FLG_FIN p True | Rst \<Rightarrow> set_flag FLG_RST p True)"

text \<open>The options \<open>emit\<close> writes, in order.\<close>

definition emitted_options :: "tcp_repr \<Rightarrow> tcp_option list" where
  "emitted_options r =
     (case max_seg_size r of Some v \<Rightarrow> [MaxSegmentSize v] | None \<Rightarrow> []) @
     (case window_scale r of Some v \<Rightarrow> [WindowScale v] | None \<Rightarrow> []) @
     (if sack_permitted r then [SackPermitted]
      else if ack_number r \<noteq> None \<and> (\<exists>x\<in>set (sack_ranges r). x \<noteq> None)
      then [SackRange (sack_ranges r)] else []) @
     (case timestamp r of Some t \<Rightarrow> [TimeStamp (tsval t) (tsecr t)] | None \<Rightarrow> [])"

text \<open>The options area after they are written one behind the other and the rest is filled.\<close>

fun emit_options :: "tcp_option list \<Rightarrow> bytes \<Rightarrow> bytes option" where
  "emit_options [] b =
     (if b \<noteq> [] then do { (w, rest) \<leftarrow> option_emit EndOfList b; Some (w @ rest) } else Some b)"
| "emit_options (opt # opts) b =
     do { (w, rest) \<leftarrow> option_emit opt b; rest \<leftarrow> emit_options opts rest; Some (w @ rest) }"

definition repr_emit :: "tcp_repr \<Rightarrow> bytes \<Rightarrow> ip_addr \<Rightarrow> ip_addr \<Rightarrow> checksum_caps \<Rightarrow> bytes option" where
  "repr_emit r p src dst caps = do {
     p \<leftarrow> write_u16 p 0 (src_port r);
     p \<leftarrow> write_u16 p 2 (dst_port r);
     p \<leftarrow> write_u32 p 4 (seq_number r);
     p \<leftarrow> write_u32 p 8 (case ack_number r of Some a \<Rightarrow> a | None \<Rightarrow> 0);
     p \<leftarrow> write_u16 p 14 (window_len r);
     p \<leftarrow> set_header_len p (of_nat (header_len r));
     p \<leftarrow> clear_flags p;
     p \<leftarrow> set_control p (control r);
     p \<leftarrow> set_flag FLG_ACK p (ack_number r \<noteq> None);
     area \<leftarrow> pkt_options p;
     options \<leftarrow> emit_options (emitted_options r) area;
     p \<leftarrow> copy_at p 20 options;
     p \<leftarrow> write_u16 p 18 0;
     hl \<leftarrow> pkt_header_len p;
     p \<leftarrow> copy_at p (unat hl) (payload r);
     if tcp_tx caps then fill_checksum p src dst else write_u16 p 16 0
   }"

section \<open>The parser does not panic\<close>

lemma read_total: "k + 2 \<le> length b \<Longrightarrow> \<exists>v. read_u16 b k = Some v"
  "k + 4 \<le> length b \<Longrightarrow> \<exists>w. read_u32 b k = Some w"
  by (simp_all add: read_u16_def read_u32_def)

lemma sack_range_total: "length d mod 8 = 0 \<Longrightarrow> \<exists>r. sack_range_at d i = Some r"
proof (cases "i * 8 < length d")
  case True
  assume "length d mod 8 = 0"
  then have "i * 8 + 8 \<le> length d" using True by presburger
  then show ?thesis by (simp add: sack_range_at_def read_u32_def)
qed (simp add: sack_range_at_def)

lemma option_body_total: "length data = len - 2 \<Longrightarrow> \<exists>r. option_body kind len data = Some r"
  using sack_range_total[of data 0] sack_range_total[of data 1] sack_range_total[of data 2]
  by (auto simp: option_body_def read_u16_def read_u32_def slice_def)

lemma option_parse_total: "\<exists>r. option_parse b = Some r"
proof -
  have "\<exists>r. attempt (option_body kind len data) (option_rest b len) = Some r"
    if "slice b 2 len = Some data" for kind len data
  proof -
    have l: "length data = len - 2" "len \<le> length b" using that by (auto simp: slice_eq_Some)
    obtain x where "option_body kind len data = Some x" using option_body_total[OF l(1)] by blast
    then show ?thesis using l(2) by (cases x) (auto simp: option_rest_def slice_def)
  qed
  then show ?thesis
    by (auto simp: option_parse_def option_rest_def slice_def Let_def split: list.splits option.splits)
qed

lemma parse_options_total: "\<exists>r. parse_options a b = Some r"
proof (induction a b rule: parse_options.induct)
  case (1 a b)
  obtain r where "option_parse b = Some r" using option_parse_total by blast
  then show ?case using 1 by (subst parse_options.simps) (auto split: sum.splits)
qed

lemma check_len_Inr:
  "pkt_check_len p = Some (Inr ()) \<longleftrightarrow>
     (\<exists>hl. pkt_header_len p = Some hl \<and> 20 \<le> unat hl \<and> unat hl \<le> length p)"
  by (auto simp: pkt_check_len_def pkt_header_len_def read_u16_def)

lemma repr_parse_total: "\<exists>r. repr_parse p src dst caps = Some r"
proof (cases "pkt_check_len p = Some (Inr ())")
  case True
  then obtain hl where hl: "pkt_header_len p = Some hl" "20 \<le> unat hl" "unat hl \<le> length p"
    by (auto simp: check_len_Inr)
  obtain r where "parse_options no_options (take (unat hl - 20) (drop 20 p)) = Some r"
    using parse_options_total by blast
  then show ?thesis
    using hl by (cases r)
      (auto simp: repr_parse_def True pkt_src_port_def pkt_dst_port_def pkt_syn_def pkt_fin_def pkt_rst_def
        pkt_psh_def pkt_ack_def pkt_flag_def pkt_ack_number_def pkt_seq_number_def pkt_window_len_def
        pkt_options_def pkt_payload_def read_u16_def read_u32_def slice_def attempt_def split: sum.splits)
next
  case False
  have "\<exists>r. pkt_check_len p = Some r" by (simp add: pkt_check_len_def pkt_header_len_def read_u16_def)
  then obtain e where "pkt_check_len p = Some (Inl e)" using False by (metis (full_types) old.unit.exhaust sum.exhaust)
  then show ?thesis by (simp add: repr_parse_def)
qed

section \<open>Options on the wire\<close>

lemma be_of_be [simp]: "be16 (of_be16 a b) = [a, b]" "be32 (of_be32 a b c d) = [a, b, c, d]"
  by (simp_all add: be16_def be32_def)
    (intro conjI bit_word_eqI; auto simp: bit_of_be32 of_be16_def bit_simps dest: bit_imp_le_length)+

text \<open>The bytes of an option, and the options for which parsing is the inverse.\<close>

fun option_bytes :: "tcp_option \<Rightarrow> bytes" where
  "option_bytes EndOfList = [OPT_END]"
| "option_bytes NoOperation = [OPT_NOP]"
| "option_bytes (MaxSegmentSize v) = [OPT_MSS, 4] @ be16 v"
| "option_bytes (WindowScale v) = [OPT_WS, 3, v]"
| "option_bytes SackPermitted = [OPT_SACKPERM, 2]"
| "option_bytes (SackRange s) = [OPT_SACKRNG, of_nat (option_len (SackRange s))] @
     concat (map (\<lambda>(l, r). be32 l @ be32 r) (map the (filter (\<lambda>x. \<not> Option.is_none x) s)))"
| "option_bytes (TimeStamp v e) = [OPT_TSTAMP, 10] @ be32 v @ be32 e"
| "option_bytes (Unknown kind data) = [kind, of_nat (2 + length data)] @ data"

text \<open>SACK ranges are kept packed: the array has three entries, used from the front.\<close>

fun packed_ranges :: "(u32 \<times> u32) option list \<Rightarrow> bool" where
  "packed_ranges [a, b, c] \<longleftrightarrow> (a = None \<longrightarrow> b = None) \<and> (b = None \<longrightarrow> c = None)"
| "packed_ranges _ \<longleftrightarrow> False"

fun option_ok :: "tcp_option \<Rightarrow> bool" where
  "option_ok (SackRange s) \<longleftrightarrow> packed_ranges s \<and> hd s \<noteq> None"
| "option_ok (Unknown _ _) \<longleftrightarrow> False"
| "option_ok EndOfList \<longleftrightarrow> False"
| "option_ok _ \<longleftrightarrow> True"

lemma length_ranges:
  "length (concat (map (\<lambda>(l, r). be32 l @ be32 r) rs)) = 8 * length rs"
  by (induction rs) auto

lemma length_option_bytes: "length (option_bytes opt) = option_len opt"
  by (cases opt) (simp_all add: length_ranges mult.commute del: map_map)

lemma write_ranges_eq:
  "length pre = pos \<Longrightarrow> 8 * length rs \<le> length b \<Longrightarrow>
   write_ranges (pre @ b) pos rs =
     Some (pre @ concat (map (\<lambda>(l, r). be32 l @ be32 r) rs) @ drop (8 * length rs) b)"
proof (induction rs arbitrary: pre b pos)
  case (Cons lr rs)
  obtain l r where lr: "lr = (l, r)" by (cases lr)
  have w: "write_u32 (xs @ ys) k v = Some (xs @ be32 v @ drop 4 ys)"
    if "length xs = k" "4 \<le> length ys" for xs ys k v
    using that by (simp add: write_u32_def copy_at_def overwrite_def)
  have 1: "write_u32 (pre @ b) pos l = Some (pre @ be32 l @ drop 4 b)"
    using Cons.prems by (intro w) auto
  have 2: "write_u32 ((pre @ be32 l) @ drop 4 b) (pos + 4) r =
      Some ((pre @ be32 l) @ be32 r @ drop 4 (drop 4 b))"
    using Cons.prems by (intro w) auto
  have 3: "write_ranges ((pre @ be32 l @ be32 r) @ drop 8 b) (pos + 8) rs =
      Some ((pre @ be32 l @ be32 r) @ concat (map (\<lambda>(l, r). be32 l @ be32 r) rs) @
        drop (8 * length rs) (drop 8 b))"
    using Cons.prems by (intro Cons.IH) auto
  show ?case using 1 2 3 by (simp add: lr add.commute)
qed simp

lemma option_write_eq:
  assumes "option_ok opt" "option_len opt \<le> length b"
  shows "option_write opt b = Some (option_bytes opt @ drop (option_len opt) b)"
proof -
  obtain xs ys where b: "b = xs @ ys" "length xs = option_len opt"
    using assms(2) by (metis append_take_drop_id length_take min.absorb2)
  show ?thesis
  proof (cases opt)
    case (SackRange s)
    let ?rs = "map the (filter (\<lambda>x. \<not> Option.is_none x) s)"
    obtain x y zs where xs: "xs = x # y # zs" "length zs = 8 * length ?rs"
      using b(2) SackRange by (cases xs; cases "tl xs") auto
    have "option_write opt b = write_ranges ([OPT_SACKRNG, of_nat (option_len opt)] @ zs @ ys) 2 ?rs"
      by (simp add: SackRange b(1) xs put_byte_def copy_at_def overwrite_def)
    also have "\<dots> = Some (option_bytes opt @ drop (option_len opt) b)"
      using b(2) xs(2) by (subst write_ranges_eq) (simp_all add: SackRange b(1) del: map_map)
    finally show ?thesis .
  qed (use assms(1) b in \<open>auto simp: put_byte_def write_u16_def write_u32_def copy_at_def overwrite_def
      length_Suc_conv numeral_eq_Suc be16_def be32_def\<close>)
qed

lemma option_emit_eq:
  "option_ok opt \<Longrightarrow> option_len opt \<le> length b \<Longrightarrow>
   option_emit opt b = Some (option_bytes opt, drop (option_len opt) b)"
  by (simp add: option_emit_def option_write_eq slice_def length_option_bytes)

lemma read_be [simp]:
  "read_u32 (be32 v @ xs) 0 = Some v" "read_u32 (be32 v) 0 = Some v" "read_u16 (be16 w @ ys) 0 = Some w"
  by (simp_all add: read_u32_def read_u16_def be32_def be16_def)

lemma read_skip [simp]:
  "4 \<le> k \<Longrightarrow> read_u32 (be32 v @ xs) k = read_u32 xs (k - 4)"
  by (drule le_Suc_ex) (auto simp: read_u32_def nth_append add.assoc)

lemma packed_cases:
  assumes "packed_ranges s" "hd s \<noteq> None"
  obtains l r where "s = [Some (l, r), None, None]"
  | l r l' r' where "s = [Some (l, r), Some (l', r'), None]"
  | l r l' r' l'' r'' where "s = [Some (l, r), Some (l', r'), Some (l'', r'')]"
  using assms by (cases s rule: packed_ranges.cases) (auto, (metis option.exhaust surj_pair)+)

lemma option_parse_bytes:
  assumes "option_ok opt"
  shows "option_parse (option_bytes opt @ rest) = Some (Inr (rest, opt))"
proof (cases opt)
  case (SackRange s)
  then have "packed_ranges s" "hd s \<noteq> None" using assms by auto
  then show ?thesis
    by (cases rule: packed_cases)
      (simp_all add: SackRange option_parse_def option_body_def option_rest_def slice_def sack_range_at_def)
qed (use assms in \<open>simp_all add: option_parse_def option_body_def option_rest_def slice_def be16_def be32_def
      read_u16_def read_u32_def\<close>)

lemma emit_options_eq:
  "\<forall>opt\<in>set opts. option_ok opt \<Longrightarrow> length (concat (map option_bytes opts)) \<le> length b \<Longrightarrow>
   emit_options opts b = Some (concat (map option_bytes opts) @
     replicate (length b - length (concat (map option_bytes opts))) OPT_END)"
proof (induction opts arbitrary: b)
  case Nil
  then show ?case by (cases b) (simp_all add: option_emit_def slice_def)
next
  case (Cons opt opts)
  then have "option_emit opt b = Some (option_bytes opt, drop (option_len opt) b)"
    by (intro option_emit_eq) (auto simp: length_option_bytes)
  then show ?case using Cons by (simp add: length_option_bytes)
qed

lemma parse_options_bytes:
  "\<forall>opt\<in>set opts. option_ok opt \<Longrightarrow>
   parse_options a (concat (map option_bytes opts) @ replicate n OPT_END) = Some (Inr (fold note_option opts a))"
proof (induction opts arbitrary: a)
  case Nil
  show ?case
    by (cases n) (simp_all add: parse_options.simps option_parse_def option_rest_def slice_def)
next
  case (Cons opt opts)
  then have ok: "option_ok opt" by simp
  then have ne: "option_bytes opt \<noteq> []" "opt \<noteq> EndOfList" by (cases opt; simp)+
  show ?case
    using Cons ne by (subst parse_options.simps) (simp add: option_parse_bytes[OF ok])
qed

section \<open>Headers\<close>

definition header_bytes :: "u16 \<Rightarrow> u16 \<Rightarrow> u32 \<Rightarrow> u32 \<Rightarrow> u16 \<Rightarrow> u16 \<Rightarrow> u16 \<Rightarrow> u16 \<Rightarrow> bytes" where
  "header_bytes sp dp sn an fl wl ck ur =
     be16 sp @ be16 dp @ be32 sn @ be32 an @ be16 fl @ be16 wl @ be16 ck @ be16 ur"

lemma length_header [simp]: "length (header_bytes sp dp sn an fl wl ck ur) = 20"
  by (simp add: header_bytes_def)

lemma header_exists:
  assumes "20 \<le> length p"
  obtains sp dp sn an fl wl ck ur where "p = header_bytes sp dp sn an fl wl ck ur @ drop 20 p"
proof -
  define h where "h = take 20 p"
  have "length h = 20" using assms by (simp add: h_def)
  then have "h = header_bytes (of_be16 (h!0) (h!1)) (of_be16 (h!2) (h!3))
     (of_be32 (h!4) (h!5) (h!6) (h!7)) (of_be32 (h!8) (h!9) (h!10) (h!11)) (of_be16 (h!12) (h!13))
     (of_be16 (h!14) (h!15)) (of_be16 (h!16) (h!17)) (of_be16 (h!18) (h!19))"
    by (auto simp: header_bytes_def length_Suc_conv numeral_eq_Suc)
  then show thesis by (metis that append_take_drop_id h_def)
qed

lemma read_header [simp]:
  "read_u16 (header_bytes sp dp sn an fl wl ck ur @ x) 0 = Some sp"
  "read_u16 (header_bytes sp dp sn an fl wl ck ur @ x) 2 = Some dp"
  "read_u32 (header_bytes sp dp sn an fl wl ck ur @ x) 4 = Some sn"
  "read_u32 (header_bytes sp dp sn an fl wl ck ur @ x) 8 = Some an"
  "read_u16 (header_bytes sp dp sn an fl wl ck ur @ x) 12 = Some fl"
  "read_u16 (header_bytes sp dp sn an fl wl ck ur @ x) 14 = Some wl"
  by (simp_all add: header_bytes_def read_u16_def read_u32_def be16_def be32_def)

lemma write_header [simp]:
  "write_u16 (header_bytes sp dp sn an fl wl ck ur @ x) 0 v = Some (header_bytes v dp sn an fl wl ck ur @ x)"
  "write_u16 (header_bytes sp dp sn an fl wl ck ur @ x) 2 v = Some (header_bytes sp v sn an fl wl ck ur @ x)"
  "write_u32 (header_bytes sp dp sn an fl wl ck ur @ x) 4 w = Some (header_bytes sp dp w an fl wl ck ur @ x)"
  "write_u32 (header_bytes sp dp sn an fl wl ck ur @ x) 8 w = Some (header_bytes sp dp sn w fl wl ck ur @ x)"
  "write_u16 (header_bytes sp dp sn an fl wl ck ur @ x) 12 v = Some (header_bytes sp dp sn an v wl ck ur @ x)"
  "write_u16 (header_bytes sp dp sn an fl wl ck ur @ x) 14 v = Some (header_bytes sp dp sn an fl v ck ur @ x)"
  "write_u16 (header_bytes sp dp sn an fl wl ck ur @ x) 16 v = Some (header_bytes sp dp sn an fl wl v ur @ x)"
  "write_u16 (header_bytes sp dp sn an fl wl ck ur @ x) 18 v = Some (header_bytes sp dp sn an fl wl ck v @ x)"
  by (simp_all add: header_bytes_def write_u16_def write_u32_def copy_at_def overwrite_def be16_def be32_def)

text \<open>The flags word of an emitted segment, whatever the buffer held before.\<close>

fun control_bits :: "control \<Rightarrow> u16" where
  "control_bits NoControl = 0"
| "control_bits Psh = FLG_PSH"
| "control_bits Syn = FLG_SYN"
| "control_bits Fin = FLG_FIN"
| "control_bits Rst = FLG_RST"

definition flags_word :: "nat \<Rightarrow> control \<Rightarrow> bool \<Rightarrow> u16" where
  "flags_word hl c a = push_bit 12 (of_nat (hl div 4)) OR control_bits c OR (if a then FLG_ACK else 0)"

lemma header_len_word:
  assumes "hl mod 4 = 0" "20 \<le> hl" "hl \<le> 60"
  shows "((raw AND NOT 0xf000) OR push_bit 12 (ucast (of_nat hl :: u8) div 4)) AND NOT 0x0fff =
    (push_bit 12 (of_nat (hl div 4)) :: u16)"
proof -
  have "hl \<in> {20, 24, 28, 32, 36, 40, 44, 48, 52, 56, 60}" using assms by (simp; presburger)
  then have d: "ucast (of_nat hl :: u8) div 4 = (of_nat (hl div 4) :: u16)"
    by (elim insertE) simp_all
  have m: "(0x0fff :: u16) = mask 12" "(0xf000 :: u16) = push_bit 12 (mask 4)"
    by (simp_all add: mask_eq_exp_minus_1 push_bit_eq_mult)
  show ?thesis unfolding d m by (rule bit_word_eqI) (auto simp: bit_simps)
qed

lemma flags_word_read:
  assumes "hl mod 4 = 0" "20 \<le> hl" "hl \<le> 60"
  shows "unat (ucast (drop_bit 12 (flags_word hl c a) * 4) :: u8) = hl"
    and "flags_word hl c a AND FLG_ACK \<noteq> 0 \<longleftrightarrow> a"
    and "flags_word hl c a AND FLG_SYN \<noteq> 0 \<longleftrightarrow> c = Syn"
    and "flags_word hl c a AND FLG_FIN \<noteq> 0 \<longleftrightarrow> c = Fin"
    and "flags_word hl c a AND FLG_RST \<noteq> 0 \<longleftrightarrow> c = Rst"
    and "flags_word hl c a AND FLG_PSH \<noteq> 0 \<longleftrightarrow> c = Psh"
proof -
  have "hl \<in> {20, 24, 28, 32, 36, 40, 44, 48, 52, 56, 60}" using assms by (simp; presburger)
  then show "unat (ucast (drop_bit 12 (flags_word hl c a) * 4) :: u8) = hl"
    "flags_word hl c a AND FLG_ACK \<noteq> 0 \<longleftrightarrow> a"
    "flags_word hl c a AND FLG_SYN \<noteq> 0 \<longleftrightarrow> c = Syn"
    "flags_word hl c a AND FLG_FIN \<noteq> 0 \<longleftrightarrow> c = Fin"
    "flags_word hl c a AND FLG_RST \<noteq> 0 \<longleftrightarrow> c = Rst"
    "flags_word hl c a AND FLG_PSH \<noteq> 0 \<longleftrightarrow> c = Psh"
    by (elim insertE; cases c; cases a; simp add: flags_word_def push_bit_eq_mult)+
qed

section \<open>Round trip\<close>

text \<open>A segment the wire format can carry: the ports are set, the header fits its length field, the shift
  is in its range, and SACK ranges are packed and sent only where \<open>emit\<close> writes them.\<close>

definition wire_ok :: "tcp_repr \<Rightarrow> bool" where
  "wire_ok r \<longleftrightarrow> src_port r \<noteq> 0 \<and> dst_port r \<noteq> 0 \<and> header_len r \<le> 60 \<and>
     (\<forall>v. window_scale r = Some v \<longrightarrow> v \<le> 14) \<and> packed_ranges (sack_ranges r) \<and>
     (hd (sack_ranges r) \<noteq> None \<longrightarrow> ack_number r \<noteq> None \<and> \<not> sack_permitted r)"

lemma ranges_used:
  "packed_ranges s \<Longrightarrow> (\<exists>x\<in>set s. x \<noteq> None) \<longleftrightarrow> hd s \<noteq> None"
  "packed_ranges s \<Longrightarrow> hd s = None \<Longrightarrow> s = [None, None, None]"
  by (cases s rule: packed_ranges.cases; auto)+

lemma emitted_options_eq:
  "wire_ok r \<Longrightarrow> emitted_options r =
     (case max_seg_size r of Some v \<Rightarrow> [MaxSegmentSize v] | None \<Rightarrow> []) @
     (case window_scale r of Some v \<Rightarrow> [WindowScale v] | None \<Rightarrow> []) @
     (if sack_permitted r then [SackPermitted]
      else if hd (sack_ranges r) \<noteq> None then [SackRange (sack_ranges r)] else []) @
     (case timestamp r of Some t \<Rightarrow> [TimeStamp (tsval t) (tsecr t)] | None \<Rightarrow> [])"
  unfolding emitted_options_def using ranges_used(1)[of "sack_ranges r"] by (auto simp: wire_ok_def)

lemma emitted_ok: "wire_ok r \<Longrightarrow> \<forall>opt\<in>set (emitted_options r). option_ok opt"
  by (auto simp: emitted_options_eq wire_ok_def split: option.splits)

lemma round4_le: "l \<le> round4 l"
  by (simp add: round4_def del: One_nat_def) presburger

lemma ranges_length:
  "packed_ranges s \<Longrightarrow> sum_list (map (\<lambda>x. case x of Some _ \<Rightarrow> 8 | None \<Rightarrow> 0) s) =
     8 * length (filter (\<lambda>x. \<not> Option.is_none x) s)"
  by (cases s rule: packed_ranges.cases) (auto split: option.splits)

lemma emitted_fits:
  assumes "wire_ok r"
  shows "20 + length (concat (map option_bytes (emitted_options r))) \<le> header_len r"
proof -
  have p: "packed_ranges (sack_ranges r)" using assms by (simp add: wire_ok_def)
  have "length (concat (map option_bytes (emitted_options r))) = sum_list (map option_len (emitted_options r))"
    by (simp add: length_concat length_option_bytes comp_def)
  also have "20 + \<dots> \<le> 20 + (if max_seg_size r \<noteq> None then 4 else 0)
      + (if window_scale r \<noteq> None then 3 else 0) + (if sack_permitted r then 2 else 0)
      + (if timestamp r \<noteq> None then 10 else 0)
      + (let s = sum_list (map (\<lambda>x. case x of Some _ \<Rightarrow> 8 | None \<Rightarrow> 0) (sack_ranges r)) in
         if s > 0 then s + 2 else 0)"
    unfolding ranges_length[OF p]
    by (auto simp: emitted_options_def filter_empty_conv split: option.splits)
  also have "\<dots> \<le> header_len r" by (simp add: header_len_def Let_def round4_le)
  finally show ?thesis .
qed

lemma noted_options:
  assumes "wire_ok r"
  shows "fold note_option (emitted_options r) no_options =
    \<lparr>opt_mss = max_seg_size r, opt_scale = window_scale r, opt_sack_permitted = sack_permitted r,
     opt_sack_ranges = sack_ranges r, opt_timestamp = timestamp r\<rparr>"
proof -
  have p: "packed_ranges (sack_ranges r)" and w: "window_scale r = Some v \<Longrightarrow> \<not> 14 < v" for v
    using assms by (auto simp: wire_ok_def)
  show ?thesis
  proof (cases "hd (sack_ranges r) = None")
    case True
    have "sack_ranges r = [None, None, None]" using ranges_used(2)[OF p True] .
    then show ?thesis unfolding emitted_options_eq[OF assms] no_options_def using w
      by (cases "max_seg_size r"; cases "window_scale r"; cases "timestamp r"; cases "sack_permitted r") simp_all
  next
    case False
    then have "\<not> sack_permitted r" using assms unfolding wire_ok_def by blast
    then show ?thesis unfolding emitted_options_eq[OF assms] no_options_def using w False
      by (cases "max_seg_size r"; cases "window_scale r"; cases "timestamp r") simp_all
  qed
qed

text \<open>What \<open>emit\<close> writes into a buffer of the right length.\<close>

definition wire_body :: "tcp_repr \<Rightarrow> bytes" where
  "wire_body r = (let w = concat (map option_bytes (emitted_options r)) in
     w @ replicate (header_len r - 20 - length w) OPT_END @ payload r)"

definition wire_packet :: "tcp_repr \<Rightarrow> u16 \<Rightarrow> bytes" where
  "wire_packet r ck = header_bytes (src_port r) (dst_port r) (seq_number r)
     (case ack_number r of Some a \<Rightarrow> a | None \<Rightarrow> 0)
     (flags_word (header_len r) (control r) (ack_number r \<noteq> None)) (window_len r) ck 0 @ wire_body r"

lemma header_len_bounds: "wire_ok r \<Longrightarrow> header_len r mod 4 = 0 \<and> 20 \<le> header_len r \<and> header_len r \<le> 60"
  using emitted_fits[of r] by (simp add: header_len_mult4 wire_ok_def)

lemma wire_body_eq:
  assumes "wire_ok r"
  obtains opts where "wire_body r = opts @ payload r" "length opts = header_len r - 20"
    "\<And>a. length a = header_len r - 20 \<Longrightarrow> emit_options (emitted_options r) a = Some opts"
    "parse_options no_options opts = Some (Inr \<lparr>opt_mss = max_seg_size r, opt_scale = window_scale r,
       opt_sack_permitted = sack_permitted r, opt_sack_ranges = sack_ranges r, opt_timestamp = timestamp r\<rparr>)"
proof (rule that)
  let ?w = "concat (map option_bytes (emitted_options r))"
  let ?o = "?w @ replicate (header_len r - 20 - length ?w) OPT_END"
  note fits = emitted_fits[OF assms] and ok = emitted_ok[OF assms]
  show "wire_body r = ?o @ payload r" by (simp add: wire_body_def Let_def)
  show "length ?o = header_len r - 20" using fits by simp
  show "emit_options (emitted_options r) a = Some ?o" if "length a = header_len r - 20" for a
    using emit_options_eq[OF ok, of a] fits that by simp
  show "parse_options no_options ?o = Some (Inr \<lparr>opt_mss = max_seg_size r, opt_scale = window_scale r,
       opt_sack_permitted = sack_permitted r, opt_sack_ranges = sack_ranges r, opt_timestamp = timestamp r\<rparr>)"
    using parse_options_bytes[OF ok] noted_options[OF assms] by simp
qed

lemma pkt_header_len_flags [simp]:
  "pkt_header_len (header_bytes sp dp sn an fl wl ck ur @ x) = Some (ucast (drop_bit 12 fl * 4))"
  by (simp add: pkt_header_len_def)

lemma set_flags:
  assumes "hl mod 4 = 0" "20 \<le> hl" "hl \<le> 60"
  shows "(do { p \<leftarrow> set_header_len (header_bytes sp dp sn an fl wl ck ur @ x) (of_nat hl);
       p \<leftarrow> clear_flags p; p \<leftarrow> set_control p c; p \<leftarrow> set_flag FLG_ACK p a; f p }) =
     f (header_bytes sp dp sn an (flags_word hl c a) wl ck ur @ x)"
proof -
  have m: "\<not> bit (16 :: int) n \<and> \<not> bit (16 :: nat) n \<and> \<not> bit FLG_ACK n" if "12 \<le> n" "n < 16" for n
  proof -
    have "n \<in> {12, 13, 14, 15}" using that by auto
    then show ?thesis by (elim insertE) simp_all
  qed
  let ?b = "push_bit 12 (of_nat (hl div 4)) :: u16"
  have "?b AND NOT FLG_ACK = ?b"
    by (rule bit_word_eqI) (auto simp: bit_simps m)
  moreover have "control_bits c AND NOT FLG_ACK = control_bits c" by (cases c) simp_all
  ultimately have w: "(if a then (?b OR control_bits c) OR FLG_ACK else (?b OR control_bits c) AND NOT FLG_ACK) =
      flags_word hl c a"
    by (simp only: flags_word_def bit.conj_disj_distrib2 or.assoc if_False if_True split: if_split) simp
  let ?H = "\<lambda>fl. header_bytes sp dp sn an fl wl ck ur @ x"
  have 1: "set_header_len (?H fl) (of_nat hl) =
      Some (?H ((fl AND NOT 0xf000) OR push_bit 12 (ucast (of_nat hl :: u8) div 4)))"
    by (simp only: set_header_len_def read_header write_header Option.bind.simps)
  have 2: "clear_flags (?H ((fl AND NOT 0xf000) OR push_bit 12 (ucast (of_nat hl :: u8) div 4))) = Some (?H ?b)"
    by (simp only: clear_flags_def read_header write_header Option.bind.simps header_len_word[OF assms])
  have 3: "set_control (?H b) c = Some (?H (b OR control_bits c))" for b
    by (cases c) (simp_all add: set_control_def set_flag_def)
  have 4: "set_flag FLG_ACK (?H b) a = Some (?H (if a then b OR FLG_ACK else b AND NOT FLG_ACK))" for b
    by (simp only: set_flag_def read_header write_header Option.bind.simps)
  show ?thesis by (simp only: 1 2 3 4 w Option.bind.simps)
qed

lemma repr_emit_eq:
  assumes ok: "wire_ok r" and len: "length p = buffer_len r"
  shows "repr_emit r p src dst caps =
    Some (wire_packet r (if tcp_tx caps then NOT (packet_sum src dst (wire_packet r 0)) else 0))"
proof -
  note hl = header_len_bounds[OF ok]
  obtain opts where o: "wire_body r = opts @ payload r" "length opts = header_len r - 20"
    "\<And>a. length a = header_len r - 20 \<Longrightarrow> emit_options (emitted_options r) a = Some opts"
    by (rule wire_body_eq[OF ok]) blast
  have "20 \<le> length p" using len hl by (simp add: buffer_len_def)
  then obtain sp dp sn an fl wl ck ur q where p: "p = header_bytes sp dp sn an fl wl ck ur @ q"
    by (rule header_exists)
  have l: "length q = header_len r - 20 + length (payload r)"
    using len hl by (simp add: p buffer_len_def)
  have h: "unat (ucast (drop_bit 12 (flags_word (header_len r) c a) * 4) :: u8) = header_len r" for c a
    by (rule flags_word_read(1)) (use hl in auto)
  show ?thesis
    using hl l by (simp add: p repr_emit_def set_flags[simplified] pkt_options_def h slice_def o wire_packet_def
        copy_at_def overwrite_def fill_checksum_def)
qed

lemma repr_parse_eq:
  assumes ok: "wire_ok r" and ck: "tcp_rx caps \<Longrightarrow> verify_checksum (wire_packet r ck) src dst"
  shows "repr_parse (wire_packet r ck) src dst caps = Some (Inr r)"
proof -
  have hl: "header_len r mod 4 = 0" "20 \<le> header_len r" "header_len r \<le> 60"
    using header_len_bounds[OF ok] by auto
  obtain opts where o: "wire_body r = opts @ payload r" "length opts = header_len r - 20"
    "parse_options no_options opts = Some (Inr \<lparr>opt_mss = max_seg_size r, opt_scale = window_scale r,
       opt_sack_permitted = sack_permitted r, opt_sack_ranges = sack_ranges r, opt_timestamp = timestamp r\<rparr>)"
    by (rule wire_body_eq[OF ok]) blast
  have ports: "src_port r \<noteq> 0" "dst_port r \<noteq> 0" using ok by (auto simp: wire_ok_def)
  note f = flags_word_read[OF hl, of "control r" "ack_number r \<noteq> None"]
  have len: "length (wire_packet r ck) = header_len r + length (payload r)"
    using hl by (simp add: wire_packet_def o(1,2))
  have check: "pkt_check_len (wire_packet r ck) = Some (Inr ())"
    unfolding check_len_Inr using f(1) hl(2) len by (auto simp: wire_packet_def)
  have flag: "pkt_flag m (wire_packet r ck) =
      Some (flags_word (header_len r) (control r) (ack_number r \<noteq> None) AND m \<noteq> 0)" for m
    by (simp add: pkt_flag_def wire_packet_def)
  have area: "pkt_options (wire_packet r ck) = Some opts" "pkt_payload (wire_packet r ck) = Some (payload r)"
    using hl f(1) by (simp_all add: pkt_options_def pkt_payload_def wire_packet_def slice_def o(1,2))
  have ctl: "parse_control (control r = Syn) (control r = Fin) (control r = Rst) (control r = Psh) = Inr (control r)"
    by (cases "control r") (simp_all add: parse_control_def)
  have fields: "pkt_src_port (wire_packet r ck) = Some (src_port r)" "pkt_dst_port (wire_packet r ck) = Some (dst_port r)"
    "pkt_seq_number (wire_packet r ck) = Some (seq_number r)" "pkt_window_len (wire_packet r ck) = Some (window_len r)"
    "pkt_ack_number (wire_packet r ck) = Some (case ack_number r of Some a \<Rightarrow> a | None \<Rightarrow> 0)"
    by (simp_all add: wire_packet_def pkt_src_port_def pkt_dst_port_def pkt_seq_number_def pkt_window_len_def
        pkt_ack_number_def)
  show ?thesis
    using ports ck
    by (simp add: repr_parse_def check fields pkt_syn_def pkt_fin_def pkt_rst_def pkt_psh_def pkt_ack_def flag
        f(2-) ctl area o(3) del: not_None_eq split: option.split)
qed

section \<open>The checksum as a sum modulo 65535\<close>

fun word_sum :: "bytes \<Rightarrow> nat" where
  "word_sum (a # b # d) = 256 * unat a + unat b + word_sum d"
| "word_sum [v] = 256 * unat v"
| "word_sum [] = 0"

lemma unat_u8_less: "unat (a :: u8) < 256"
  using unsigned_less[of a] by simp

lemma unat_of_be16: "unat (of_be16 a b) = 256 * unat a + unat b"
proof -
  have d: "push_bit 8 (ucast a :: u16) AND ucast b = 0"
    by (rule bit_word_eqI) (auto simp: bit_simps dest: bit_imp_le_length)
  have "of_be16 a b = push_bit 8 (ucast a) + ucast b"
    unfolding of_be16_def using disjunctive_add_eq_or[OF d] by simp
  also have "\<dots> = of_nat (256 * unat a + unat b)"
    by (simp add: push_bit_eq_mult mult.commute)
  finally have "unat (of_be16 a b) = (256 * unat a + unat b) mod 2 ^ 16"
    by (simp only: unsigned_of_nat take_bit_eq_mod) simp
  then show ?thesis using unat_u8_less[of a] unat_u8_less[of b] by simp
qed

lemma sum_words_word_sum:
  "sum_words acc d = (acc', d') \<Longrightarrow>
   (case d' of v # _ \<Rightarrow> acc' + push_bit 8 (ucast v) | [] \<Rightarrow> acc') = acc + of_nat (word_sum d)"
proof (induction acc d rule: sum_words.induct)
  case (1 acc a b d)
  have "ucast (of_be16 a b) = (of_nat (256 * unat a + unat b) :: u32)"
    by (simp only: of_nat_unat flip: unat_of_be16)
  then show ?case using 1 by (simp add: add.assoc)
qed (auto simp: push_bit_eq_mult mult.commute)

lemma sum_words_append:
  "even (length xs) \<Longrightarrow> sum_words acc (xs @ ys) = sum_words (fst (sum_words acc xs)) ys"
  by (induction acc xs rule: sum_words.induct) auto

lemma sum_chunks_words:
  "sum_chunks acc d = (acc', d') \<Longrightarrow> sum_words acc' d' = sum_words acc d"
proof (induction acc d rule: sum_chunks.induct)
  case (1 acc d)
  show ?case
  proof (cases "CHUNK_SIZE \<le> length d")
    case True
    then have "sum_words (fst (sum_words acc (take CHUNK_SIZE d))) (drop CHUNK_SIZE d) = sum_words acc d"
      using sum_words_append[of "take CHUNK_SIZE d" acc "drop CHUNK_SIZE d"] by simp
    then show ?thesis using 1 True by (simp add: sum_chunks.simps[of acc d])
  qed (use 1 in \<open>simp add: sum_chunks.simps[of acc d]\<close>)
qed

lemma checksum_data_eq: "checksum_data d = propagate_carries (of_nat (word_sum d))"
proof -
  obtain acc r where c: "sum_chunks 0 d = (acc, r)" by (cases "sum_chunks 0 d")
  obtain acc' r' where w: "sum_words acc r = (acc', r')" by (cases "sum_words acc r")
  have "sum_words 0 d = (acc', r')" using sum_chunks_words[OF c] w by simp
  from sum_words_word_sum[OF this] show ?thesis by (simp add: checksum_data_def c w)
qed

lemma word_sum_le: "word_sum d \<le> 65535 * ((length d + 1) div 2)"
proof (induction d rule: word_sum.induct)
  case (1 a b d)
  then show ?case using unat_u8_less[of a] unat_u8_less[of b] by simp
next
  case (2 v)
  then show ?case using unat_u8_less[of v] by simp
qed simp

lemma fold_mod: "(x div 65536 + x mod 65536) mod 65535 = x mod (65535 :: nat)"
proof -
  have "x = x div 65536 + x mod 65536 + 65535 * (x div 65536)" by simp
  then show ?thesis by (metis mod_mult_self2)
qed

lemma split_zero: "x div 65536 + x mod 65536 = 0 \<longleftrightarrow> x = (0 :: nat)"
  by (metis add_is_0 div_0 mod_0 mult_0_right mult_div_mod_eq)

text \<open>Folding the carries keeps the value modulo 65535, and zero only for zero.\<close>

lemma propagate_carries_mod:
  assumes "n < 2 ^ 32"
  shows "unat (propagate_carries (of_nat n)) mod 65535 = n mod 65535"
    and "unat (propagate_carries (of_nat n)) = 0 \<longleftrightarrow> n = 0"
proof -
  let ?w = "of_nat n :: u32"
  define s where "s = n div 65536 + n mod 65536"
  have n: "unat ?w = n" using assms by (simp add: unsigned_of_nat take_bit_eq_mod)
  have s: "s < 2 * 65536 - 1" using assms by (simp add: s_def; linarith)
  have m: "(0xffff :: u32) = mask 16" by (simp add: mask_eq_exp_minus_1)
  have "unat (drop_bit 16 ?w) = n div 65536" by (simp only: unat_drop_bit_eq n) (simp add: drop_bit_eq_div)
  moreover have "unat (?w AND 0xffff) = n mod 65536"
    unfolding m take_bit_eq_mask[symmetric] by (simp only: unsigned_take_bit_eq n) (simp add: take_bit_eq_mod)
  ultimately have t: "unat (drop_bit 16 ?w + (?w AND 0xffff)) = s"
    using s by (simp add: unat_word_ariths s_def)
  define v where "v = drop_bit 16 ?w + (?w AND 0xffff)"
  have q: "s div 65536 mod 4294967296 = s div 65536" using s by simp
  have "unat (propagate_carries ?w) = (s div 65536 mod 65536 + s mod 65536) mod 65536"
    unfolding propagate_carries_def Let_def v_def[symmetric] using t[folded v_def]
    by (simp add: unat_word_ariths unsigned_ucast_eq take_bit_eq_mod unat_drop_bit_eq drop_bit_eq_div mod_simps q)
  also have "\<dots> = s div 65536 + s mod 65536"
  proof (cases "s < 65536")
    case False
    then have "s div 65536 = 1" "s mod 65536 = s - 65536" using s by (simp_all add: mod_if div_if)
    then show ?thesis using s False by simp
  qed simp
  finally have c: "unat (propagate_carries ?w) = s div 65536 + s mod 65536" .
  show "unat (propagate_carries ?w) mod 65535 = n mod 65535" unfolding c s_def fold_mod ..
  show "unat (propagate_carries ?w) = 0 \<longleftrightarrow> n = 0" unfolding c s_def split_zero ..
qed

lemma unat_u16_less: "unat (a :: u16) < 65536"
  using unsigned_less[of a] by simp

lemma combine_pair: "checksum_combine [a, b] = propagate_carries (of_nat (unat a + unat b))"
  by (simp add: checksum_combine_def)

lemma pseudo_header_nonzero: "unat (pseudo_header_v4 src dst PROTO_TCP len) \<noteq> 0"
proof -
  define a b c where "a = checksum_data (be32 src)" and "b = checksum_data (be32 dst)"
    and "c = checksum_data ([0, PROTO_TCP] @ be16 (ucast len))"
  have "word_sum ([0, PROTO_TCP] @ be16 (ucast len)) \<noteq> 0" by simp
  moreover have "word_sum ([0, PROTO_TCP] @ be16 (ucast len)) < 2 ^ 32"
    using word_sum_le[of "[0, PROTO_TCP] @ be16 (ucast len)"] by simp
  ultimately have c: "unat c \<noteq> 0"
    unfolding c_def checksum_data_eq by (simp only: propagate_carries_mod(2) not_False_eq_True)
  have n: "unat a + unat b + unat c < 2 ^ 32"
    using unat_u16_less[of a] unat_u16_less[of b] unat_u16_less[of c] by simp
  have "pseudo_header_v4 src dst PROTO_TCP len = propagate_carries (of_nat (unat a + unat b + unat c))"
    by (simp add: pseudo_header_v4_def checksum_combine_def a_def b_def c_def)
  then show ?thesis using c by (simp only: propagate_carries_mod(2)[OF n] add_is_0 simp_thms)
qed

text \<open>A packet verifies exactly when its words and the pseudo header add up to a multiple of 65535.\<close>

lemma packet_sum_mod:
  fixes src dst :: ip_addr
  assumes "length p < 2 ^ 16"
  defines "h \<equiv> unat (pseudo_header_v4 src dst PROTO_TCP (of_nat (length p)))"
  shows "unat (packet_sum src dst p) mod 65535 = (h + word_sum p) mod 65535"
    and "unat (packet_sum src dst p) \<noteq> 0"
proof -
  have "word_sum p < 2 ^ 32" using word_sum_le[of p] assms(1) by simp
  then have d: "unat (checksum_data p) mod 65535 = word_sum p mod 65535"
    unfolding checksum_data_eq by (rule propagate_carries_mod)
  have n: "h + unat (checksum_data p) < 2 ^ 32"
    using unat_u16_less[of "checksum_data p"] unat_u16_less[of "pseudo_header_v4 src dst PROTO_TCP (of_nat (length p))"]
    unfolding h_def by simp
  have c: "packet_sum src dst p = propagate_carries (of_nat (h + unat (checksum_data p)))"
    by (simp add: packet_sum_def combine_pair h_def)
  show "unat (packet_sum src dst p) mod 65535 = (h + word_sum p) mod 65535"
    unfolding c propagate_carries_mod(1)[OF n] using d by (metis mod_add_right_eq)
  have "h \<noteq> 0" unfolding h_def by (rule pseudo_header_nonzero)
  then show "unat (packet_sum src dst p) \<noteq> 0" unfolding c propagate_carries_mod(2)[OF n] by simp
qed

lemma unat_not: "unat (NOT c) + unat (c :: u16) = 65535"
proof -
  have "uint (NOT c) = (- uint c - 1) mod 65536"
    by (simp only: unsigned_not_eq take_bit_eq_mod) (simp add: not_eq_complement)
  also have "\<dots> = 65535 - uint c"
    using mod_add_self2[of "- uint c - 1" 65536] unsigned_less[of c, where ?'a = int]
      mod_pos_pos_trivial[of "65535 - uint c" 65536] unsigned_greater_eq[of c, where ?'a = int] by simp
  finally have "int (unat (NOT c)) + int (unat c) = 65535" by simp
  then show ?thesis by linarith
qed

lemma verify_checksum_iff:
  assumes "length p < 2 ^ 16"
  shows "verify_checksum p src dst \<longleftrightarrow>
    (unat (pseudo_header_v4 src dst PROTO_TCP (of_nat (length p))) + word_sum p) mod 65535 = 0"
proof -
  have "verify_checksum p src dst \<longleftrightarrow> unat (packet_sum src dst p) = 65535"
    using unat_not[of 0] by (simp only: verify_checksum_def word_unat_eq_iff) simp
  also have "\<dots> \<longleftrightarrow> unat (packet_sum src dst p) mod 65535 = 0"
    using packet_sum_mod(2)[OF assms, of src dst] unat_u16_less[of "packet_sum src dst p"] by (auto elim!: dvdE)
  finally show ?thesis using packet_sum_mod(1)[OF assms, of src dst] by simp
qed

lemma word_sum_append: "even (length xs) \<Longrightarrow> word_sum (xs @ ys) = word_sum xs + word_sum ys"
  by (induction xs rule: word_sum.induct) auto

lemma word_sum_be16: "word_sum (be16 v) = unat v"
  by (simp add: be16_def flip: unat_of_be16)

lemma wire_packet_sum: "word_sum (wire_packet r ck) = word_sum (wire_packet r 0) + unat ck"
  by (simp add: wire_packet_def header_bytes_def word_sum_append word_sum_be16)

lemma filled_verifies:
  assumes "length (wire_packet r 0) < 2 ^ 16"
  shows "verify_checksum (wire_packet r (NOT (packet_sum src dst (wire_packet r 0)))) src dst"
proof -
  let ?h = "unat (pseudo_header_v4 src dst PROTO_TCP (of_nat (length (wire_packet r 0))))"
  let ?c = "packet_sum src dst (wire_packet r 0)"
  have l: "length (wire_packet r ck) = length (wire_packet r 0)" for ck by (simp add: wire_packet_def)
  have n: "unat (NOT ?c) + unat ?c = 65535" by (rule unat_not)
  have "(?h + word_sum (wire_packet r 0) + unat (NOT ?c)) mod 65535 = (unat ?c + unat (NOT ?c)) mod 65535"
    using packet_sum_mod(1)[OF assms, of src dst] by (metis mod_add_left_eq)
  also have "\<dots> = 0" using n by (simp only: add.commute[of "unat ?c"]) simp
  finally show ?thesis
    unfolding verify_checksum_iff[OF assms[folded l[of "NOT ?c"]]] wire_packet_sum[of r "NOT ?c"] l[of "NOT ?c"]
    by (simp only: add.assoc)
qed

text \<open>A changed byte changes the sum by a nonzero amount smaller than 65535.\<close>

lemma word_sum_update:
  "i < length p \<Longrightarrow> int (word_sum (p[i := b])) =
     int (word_sum p) + (if even i then 256 else 1) * (int (unat b) - int (unat (p ! i)))"
proof (induction p arbitrary: i rule: word_sum.induct)
  case (1 x y d)
  consider "i = 0" | "i = 1" | j where "i = Suc (Suc j)" by (metis One_nat_def not0_implies_Suc)
  then show ?case
  proof cases
    case 3
    then show ?thesis using 1 by simp
  qed simp_all
qed simp_all

lemma changed_byte_fails:
  assumes ok: "verify_checksum p src dst" and len: "length p < 2 ^ 16" and i: "i < length p" "b \<noteq> p ! i"
  shows "\<not> verify_checksum (p[i := b]) src dst"
proof
  let ?h = "unat (pseudo_header_v4 src dst PROTO_TCP (of_nat (length p)))"
  define e where "e = (if even i then 256 else 1) * (int (unat b) - int (unat (p ! i)))"
  assume bad: "verify_checksum (p[i := b]) src dst"
  have "(?h + word_sum (p[i := b])) mod 65535 = 0"
    using verify_checksum_iff[of "p[i := b]" src dst] len bad unfolding length_list_update by blast
  then have x: "65535 dvd int ?h + int (word_sum (p[i := b]))"
    by (metis int_dvd_int_iff mod_0_imp_dvd of_nat_add of_nat_numeral)
  have "(?h + word_sum p) mod 65535 = 0" using verify_checksum_iff[OF len] ok by blast
  then have y: "65535 dvd int ?h + int (word_sum p)"
    by (metis int_dvd_int_iff mod_0_imp_dvd of_nat_add of_nat_numeral)
  have d: "65535 dvd e"
    using x y dvd_add_right_iff[OF y, of e] unfolding word_sum_update[OF i(1)] e_def[symmetric] add.assoc by blast
  have "k * (int x - int y) \<noteq> 0 \<and> \<bar>k * (int x - int y)\<bar> < 65535"
    if "x \<noteq> y" "x < 256" "y < 256" "k = 256 \<or> k = 1" for x y k
    using that by auto
  moreover have "unat b \<noteq> unat (p ! i)" using i(2) by (simp add: word_unat_eq_iff)
  ultimately have "e \<noteq> 0" "\<bar>e\<bar> < 65535"
    unfolding e_def using unat_u8_less[of b] unat_u8_less[of "p ! i"] by presburger+
  then show False using d zdvd_imp_le[of 65535 "\<bar>e\<bar>"] by simp
qed

lemma bad_checksum_rejected:
  assumes "tcp_rx caps" "\<not> verify_checksum p src dst"
  shows "repr_parse p src dst caps = Some (Inl WireError)"
proof -
  obtain c where c: "pkt_check_len p = Some c"
    using pkt_check_len_def[of p] by (cases "pkt_check_len p") (auto simp: pkt_header_len_def read_u16_def split: if_splits)
  show ?thesis
  proof (cases c)
    case (Inr u)
    then have "20 \<le> length p" using c by (auto simp: pkt_check_len_def split: if_splits)
    then show ?thesis
      using assms c Inr by (simp add: repr_parse_def pkt_src_port_def pkt_dst_port_def read_u16_def)
  next
    case (Inl e)
    then show ?thesis using c by (cases e) (simp add: repr_parse_def)
  qed
qed

section \<open>What is parsed\<close>

lemma option_body_range:
  assumes "option_body kind len data = Some (Inr (SackRange s))" "length data = len - 2"
  shows "packed_ranges s"
proof -
  have "\<not> len < 10" "(len - 2) mod 8 = 0" and s: "\<exists>r0 r1 r2. sack_range_at data 0 = Some r0 \<and>
      sack_range_at data 1 = Some r1 \<and> sack_range_at data 2 = Some r2 \<and> s = [r0, r1, r2]"
    using assms(1) by (auto simp: option_body_def split: if_splits Option.bind_splits)
  then show ?thesis using assms(2) s
    by (auto simp: sack_range_at_def read_u32_def split: if_splits)
qed

lemma option_parse_range:
  assumes "option_parse b = Some (Inr (rest, SackRange s))"
  shows "packed_ranges s"
proof -
  obtain kind len data where "slice b 2 len = Some data" "option_body kind len data = Some (Inr (SackRange s))"
    using assms by (auto simp: option_parse_def option_rest_Some attempt_Inr Let_def
        split: list.splits if_splits option.splits)
  then show ?thesis by (intro option_body_range) (auto simp: slice_eq_Some)
qed

definition options_ok :: "tcp_options \<Rightarrow> bool" where
  "options_ok a \<longleftrightarrow> (\<forall>v. opt_scale a = Some v \<longrightarrow> v \<le> 14) \<and> packed_ranges (opt_sack_ranges a)"

lemma options_ok_note:
  "options_ok a \<Longrightarrow> option_parse b = Some (Inr (rest, opt)) \<Longrightarrow> options_ok (note_option opt a)"
  using option_parse_range by (cases opt) (auto simp: options_ok_def)

lemma parse_options_ok: "parse_options a b = Some (Inr a') \<Longrightarrow> options_ok a \<Longrightarrow> options_ok a'"
proof (induction a b rule: parse_options.induct)
  case (1 a b)
  show ?case
  proof (cases "b = []")
    case False
    obtain r where r: "option_parse b = Some r" using option_parse_total by blast
    show ?thesis
    proof (cases r)
      case (Inr x)
      obtain rest opt where x: "x = (rest, opt)" by (cases x)
      have "options_ok (note_option opt a)" using 1(3) options_ok_note r Inr x by blast
      then show ?thesis
        using 1 False r Inr x by (subst (asm) (2) parse_options.simps) (auto split: if_splits)
    qed (use 1 False r in \<open>simp add: parse_options.simps[of a b]\<close>)
  qed (use 1 in \<open>simp add: parse_options.simps[of _ "[]"]\<close>)
qed

lemma repr_parse_Inr:
  assumes "repr_parse p src dst caps = Some (Inr r)"
  obtains hl a where "pkt_header_len p = Some hl" "20 \<le> unat hl" "unat hl \<le> length p"
    "parse_options no_options (take (unat hl - 20) (drop 20 p)) = Some (Inr a)"
    "src_port r \<noteq> 0" "dst_port r \<noteq> 0" "tcp_rx caps \<longrightarrow> verify_checksum p src dst"
    "window_scale r = opt_scale a" "sack_ranges r = opt_sack_ranges a" "payload r = drop (unat hl) p"
proof -
  have "pkt_check_len p = Some (Inr ())" using assms by (auto simp: repr_parse_def attempt_Inr)
  then obtain hl where hl: "pkt_header_len p = Some hl" "20 \<le> unat hl" "unat hl \<le> length p"
    by (auto simp: check_len_Inr)
  have "\<exists>a. parse_options no_options (take (unat hl - 20) (drop 20 p)) = Some (Inr a) \<and>
    src_port r \<noteq> 0 \<and> dst_port r \<noteq> 0 \<and> (tcp_rx caps \<longrightarrow> verify_checksum p src dst) \<and>
    window_scale r = opt_scale a \<and> sack_ranges r = opt_sack_ranges a \<and> payload r = drop (unat hl) p"
    using assms hl unfolding repr_parse_def attempt_Inr
    by (auto simp: bind_eq_Some_conv attempt_Inr pkt_options_def pkt_payload_def slice_eq_Some split: if_splits)
  then show thesis using that hl by blast
qed

section \<open>The interface of a wire format\<close>

text \<open>What the layers that exchange packets rely on: a representation that is \<open>valid\<close> can be written into
  any buffer of its length, and is read back.\<close>

locale wire_format =
  fixes emit :: "'r \<Rightarrow> bytes \<Rightarrow> bytes option" and parse :: "bytes \<Rightarrow> 'r wire"
    and valid :: "'r \<Rightarrow> bool" and len :: "'r \<Rightarrow> nat"
  assumes emit_parse: "valid r \<Longrightarrow> length buf = len r \<Longrightarrow>
    \<exists>p. emit r buf = Some p \<and> length p = len r \<and> parse p = Some (Inr r)"
    and parse_total: "parse p \<noteq> None"
begin

lemma emitted_parses:
  "valid r \<Longrightarrow> length buf = len r \<Longrightarrow> emit r buf = Some p \<Longrightarrow> parse p = Some (Inr r)"
  using emit_parse by fastforce

text \<open>Different representations never share a packet, whatever the buffers held.\<close>

lemma emit_injective:
  assumes "valid r" "length buf = len r" "valid r'" "length buf' = len r'" "emit r buf = emit r' buf'"
  shows "r = r'"
  using emit_parse[OF assms(1,2)] emit_parse[OF assms(3,4)] assms(5) by auto

end

lemma length_wire_packet: "wire_ok r \<Longrightarrow> length (wire_packet r ck) = buffer_len r"
  using header_len_bounds[of r]
  by (auto simp: wire_packet_def buffer_len_def elim!: wire_body_eq)

lemma tcp_wire_format:
  assumes "tcp_rx rx_caps \<Longrightarrow> tcp_tx tx_caps"
  shows "wire_format (\<lambda>r buf. repr_emit r buf src dst tx_caps) (\<lambda>p. repr_parse p src dst rx_caps)
    (\<lambda>r. wire_ok r \<and> buffer_len r < 2 ^ 16) buffer_len"
proof
  fix r and buf :: bytes
  assume r: "wire_ok r \<and> buffer_len r < 2 ^ 16" and l: "length buf = buffer_len r"
  let ?ck = "if tcp_tx tx_caps then NOT (packet_sum src dst (wire_packet r 0)) else 0"
  have "repr_emit r buf src dst tx_caps = Some (wire_packet r ?ck)" using repr_emit_eq r l by blast
  moreover have "tcp_rx rx_caps \<Longrightarrow> verify_checksum (wire_packet r ?ck) src dst"
    using assms filled_verifies[of r src dst] r length_wire_packet[of r 0] by simp
  then have "repr_parse (wire_packet r ?ck) src dst rx_caps = Some (Inr r)"
    using repr_parse_eq[of r rx_caps ?ck src dst] r by blast
  ultimately show "\<exists>p. repr_emit r buf src dst tx_caps = Some p \<and> length p = buffer_len r \<and>
      repr_parse p src dst rx_caps = Some (Inr r)"
    using length_wire_packet r by blast
qed (use repr_parse_total in auto)

text \<open>The capabilities of the interface of this program: the device leaves checksums to the NIC.\<close>

definition checksum_ignored :: checksum_caps where
  "checksum_ignored = \<lparr>tcp_rx = False, tcp_tx = False\<rparr>"

interpretation plain_wire: wire_format "\<lambda>r buf. repr_emit r buf src dst checksum_ignored"
  "\<lambda>p. repr_parse p src dst checksum_ignored" "\<lambda>r. wire_ok r \<and> buffer_len r < 2 ^ 16" buffer_len
  for src dst
  by (rule tcp_wire_format) (simp add: checksum_ignored_def)

definition checksum_both :: checksum_caps where
  "checksum_both = \<lparr>tcp_rx = True, tcp_tx = True\<rparr>"

interpretation checked_wire: wire_format "\<lambda>r buf. repr_emit r buf src dst checksum_both"
  "\<lambda>p. repr_parse p src dst checksum_both" "\<lambda>r. wire_ok r \<and> buffer_len r < 2 ^ 16" buffer_len
  for src dst
  by (rule tcp_wire_format) (simp add: checksum_both_def)

section \<open>Properties\<close>

text \<open>C21: a TCP segment on the wire.  Every segment with ports, a header of at most 60 bytes, a window shift
  of at most 14 and packed SACK ranges in an acknowledgement can be written into a buffer of its length,
  whatever the buffer held, without a panic; and the parser reads exactly this segment back, also when
  it verifies the checksum, provided the sender computed one.\<close>

theorem tcp_wire_roundtrip:
  assumes "wire_ok r" "buffer_len r < 2 ^ 16" "length buf = buffer_len r" "tcp_rx rx_caps \<Longrightarrow> tcp_tx tx_caps"
  shows "\<exists>p. repr_emit r buf src dst tx_caps = Some p \<and> length p = length buf \<and>
    repr_parse p src dst rx_caps = Some (Inr r)"
  using wire_format.emit_parse[OF tcp_wire_format[OF assms(4)]] assms(1-3) by simp

definition demo_segment :: tcp_repr where
  "demo_segment = \<lparr>src_port = 50000, dst_port = 443, control = Psh, seq_number = 0xfffffffe,
     ack_number = Some 7, window_len = 1024, window_scale = Some 7, max_seg_size = Some 1460,
     sack_permitted = False, sack_ranges = [Some (100, 200), None, None],
     timestamp = Some \<lparr>tsval = 1, tsecr = 2\<rparr>, payload = [71, 69, 84]\<rparr>"

lemma demo_segment_ok: "wire_ok demo_segment" "buffer_len demo_segment = 51"
  by (simp_all add: demo_segment_def wire_ok_def header_len_def buffer_len_def round4_def)

theorem tcp_wire_roundtrip_witness:
  "\<exists>p. repr_emit demo_segment (replicate 51 0xff) 0x0a000001 0x0a000002 checksum_both = Some p \<and>
    length p = length (replicate 51 (0xff :: u8)) \<and>
    repr_parse p 0x0a000001 0x0a000002 checksum_both = Some (Inr demo_segment)"
  by (rule tcp_wire_roundtrip) (simp_all add: demo_segment_ok checksum_both_def)

text \<open>C23: the parser on arbitrary bytes.  No input makes it panic.  What it accepts is well formed: the ports
  are set, the window shift is at most 14, there are three SACK entries used from the front, the payload
  is the end of the packet behind a header of at least 20 bytes, and the checksum is right where it is
  verified.\<close>

theorem tcp_parse_well_formed:
  "\<exists>x. repr_parse p src dst caps = Some x \<and>
    (\<forall>r. x = Inr r \<longrightarrow> src_port r \<noteq> 0 \<and> dst_port r \<noteq> 0 \<and> (\<forall>v. window_scale r = Some v \<longrightarrow> v \<le> 14) \<and>
      packed_ranges (sack_ranges r) \<and> (\<exists>header. p = header @ payload r \<and> 20 \<le> length header) \<and>
      (tcp_rx caps \<longrightarrow> verify_checksum p src dst))"
proof -
  obtain x where x: "repr_parse p src dst caps = Some x" using repr_parse_total by blast
  have "src_port r \<noteq> 0 \<and> dst_port r \<noteq> 0 \<and> (\<forall>v. window_scale r = Some v \<longrightarrow> v \<le> 14) \<and>
      packed_ranges (sack_ranges r) \<and> (\<exists>header. p = header @ payload r \<and> 20 \<le> length header) \<and>
      (tcp_rx caps \<longrightarrow> verify_checksum p src dst)" if r: "x = Inr r" for r
  proof -
    obtain hl a where h: "pkt_header_len p = Some hl" "20 \<le> unat hl" "unat hl \<le> length p"
      "parse_options no_options (take (unat hl - 20) (drop 20 p)) = Some (Inr a)"
      "src_port r \<noteq> 0" "dst_port r \<noteq> 0" "tcp_rx caps \<longrightarrow> verify_checksum p src dst"
      "window_scale r = opt_scale a" "sack_ranges r = opt_sack_ranges a" "payload r = drop (unat hl) p"
      by (rule repr_parse_Inr[OF x[unfolded r]])
    have "options_ok a" by (rule parse_options_ok[OF h(4)]) (simp add: options_ok_def no_options_def)
    moreover have "p = take (unat hl) p @ payload r" "20 \<le> length (take (unat hl) p)" using h(2,3,10) by simp_all
    ultimately show ?thesis using h(5-9) unfolding options_ok_def by metis
  qed
  then show ?thesis using x by blast
qed

theorem tcp_parse_well_formed_witness:
  "\<exists>p. repr_parse p 0x0a000001 0x0a000002 checksum_both = Some (Inr demo_segment) \<and>
    (\<exists>header. p = header @ payload demo_segment \<and> 20 \<le> length header) \<and> verify_checksum p 0x0a000001 0x0a000002"
proof -
  obtain p where p: "repr_parse p 0x0a000001 0x0a000002 checksum_both = Some (Inr demo_segment)"
    using checked_wire.emit_parse[of demo_segment "replicate 51 0"] demo_segment_ok by auto
  then show ?thesis
    using tcp_parse_well_formed[of p "0x0a000001" "0x0a000002" checksum_both] by (auto simp: checksum_both_def)
qed

text \<open>C24: corruption is detected.  A packet emitted with its checksum is rejected by a parser that verifies
  checksums when any single byte of it has been changed in any way.\<close>

theorem tcp_checksum_detects:
  assumes "wire_ok r" "buffer_len r < 2 ^ 16" "length buf = buffer_len r" "tcp_tx tx_caps" "tcp_rx rx_caps"
    and "repr_emit r buf src dst tx_caps = Some p" "i < length p" "b \<noteq> p ! i"
  shows "repr_parse (p[i := b]) src dst rx_caps = Some (Inl WireError)"
proof -
  have p: "p = wire_packet r (NOT (packet_sum src dst (wire_packet r 0)))"
    using repr_emit_eq[OF assms(1,3)] assms(4,6) by simp
  have l: "length p < 2 ^ 16" "length (wire_packet r 0) < 2 ^ 16"
    using length_wire_packet[OF assms(1)] assms(2) by (simp_all add: p)
  have "verify_checksum p src dst" unfolding p by (rule filled_verifies[OF l(2)])
  then show ?thesis using bad_checksum_rejected[OF assms(5)] changed_byte_fails[OF _ l(1) assms(7,8)] by blast
qed

theorem tcp_checksum_detects_witness:
  "\<exists>p. repr_emit demo_segment (replicate 51 0) 0x0a000001 0x0a000002 checksum_both = Some p \<and>
    repr_parse (p[50 := p ! 50 + 1]) 0x0a000001 0x0a000002 checksum_both = Some (Inl WireError)"
proof -
  obtain p where p: "repr_emit demo_segment (replicate 51 0) 0x0a000001 0x0a000002 checksum_both = Some p" "length p = 51"
    using checked_wire.emit_parse[of demo_segment "replicate 51 0"] demo_segment_ok by auto
  have n: "p ! 50 + 1 \<noteq> p ! 50" by simp
  have "repr_parse (p[50 := p ! 50 + 1]) 0x0a000001 0x0a000002 checksum_both = Some (Inl WireError)"
    by (rule tcp_checksum_detects[OF demo_segment_ok(1) _ _ _ _ p(1)])
      (use n p(2) in \<open>simp_all add: demo_segment_ok(2) checksum_both_def\<close>)
  then show ?thesis using p(1) by blast
qed

end
