(* ===== verification/Tcp_Segments.thy ===== *)
theory Tcp_Segments
  imports Tcp_Link Tcp_Wire
begin

text \<open>
  From the socket to the wire: the segments \<open>dispatch\<close> hands to the device, as \<open>wire/tcp.rs\<close> writes them.
  Shown: each of them fits the MTU and is read back unchanged by the peer's parser, so that the network of
  \<open>Tcp_Link\<close>, which carries segments, may as well carry their bytes; and that it is not so for the MTU when
  timestamps are enabled.
\<close>

section \<open>The segments of \<open>dispatch\<close>\<close>

text \<open>A segment with the options and the payload length \<open>dispatch\<close> can produce.\<close>

definition plain_segment :: "nat \<Rightarrow> u32 option \<Rightarrow> u8 \<Rightarrow> tcp_repr \<Rightarrow> bool" where
  "plain_segment mss g shift r \<longleftrightarrow> sack_ranges r = [None, None, None] \<and>
     window_scale r \<in> {None, Some shift} \<and> (timestamp r \<noteq> None \<longleftrightarrow> g \<noteq> None) \<and>
     (control r \<noteq> Syn \<longrightarrow> window_scale r = None \<and> max_seg_size r = None \<and> \<not> sack_permitted r) \<and>
     (control r = Syn \<longrightarrow> payload r = []) \<and> length (payload r) \<le> max 1 mss"

lemma base_repr_plain:
  "base_repr t s = Some r \<Longrightarrow> plain_segment mss (tsval_generator s) shift r \<and> payload r = [] \<and> control r = NoControl \<and>
     src_port r = ep_port (tup_local t) \<and> dst_port r = ep_port (tup_remote t)"
  by (auto simp: base_repr_def bind_eq_Some_conv plain_segment_def generate_reply_with_tsval_def split: option.splits)

lemma data_repr_plain:
  assumes "data_repr cx s r0 = Some (r, p)" "rb_wf (tx_buffer s)" "control r0 = NoControl"
    and "plain_segment (local_mss cx) g shift r0"
  shows "plain_segment (local_mss cx) g shift r \<and> src_port r = src_port r0 \<and> dst_port r = dst_port r0"
proof -
  obtain n offset data where d: "get_allocated (tx_buffer s) offset (min n (local_mss cx)) = Some data"
    and r: "(if offset + length data = rb_len (tx_buffer s)
           then if state s \<in> {FinWait1, LastAck, Closing} then r0\<lparr>payload := data, control := Fin\<rparr>
                else if state s \<in> {Established, CloseWait} \<and> data \<noteq> [] then r0\<lparr>payload := data, control := Psh\<rparr>
                else r0\<lparr>payload := data\<rparr>
           else r0\<lparr>payload := data\<rparr>) = r"
    using assms(1) unfolding data_repr_def Let_def bind_eq_Some_conv
    by (elim exE conjE) (rule that, assumption, simp)
  have "length data \<le> local_mss cx" using get_allocated_prefix(2)[OF assms(2) d] by simp
  moreover have "r \<in> {r0\<lparr>payload := data\<rparr>, r0\<lparr>payload := data, control := Fin\<rparr>, r0\<lparr>payload := data, control := Psh\<rparr>}"
    unfolding r[symmetric] by simp
  ultimately show ?thesis using assms(3,4) by (auto simp: plain_segment_def)
qed

lemma syn_repr_plain:
  "plain_segment mss g (remote_win_shift s) r \<Longrightarrow> payload r = [] \<Longrightarrow>
   plain_segment mss g (remote_win_shift s) (syn_repr s r) \<and> src_port (syn_repr s r) = src_port r \<and>
   dst_port (syn_repr s r) = dst_port r"
  by (auto simp: syn_repr_def Let_def plain_segment_def)

lemma build_repr_plain:
  assumes "build_repr cx t s = Some (Some (r, p))" "rb_wf (tx_buffer s)"
  shows "plain_segment (local_mss cx) (tsval_generator s) (remote_win_shift s) r \<and>
    src_port r = ep_port (tup_local t) \<and> dst_port r = ep_port (tup_remote t)"
proof -
  obtain r0 where b: "base_repr t s = Some r0" using assms(1) by (auto simp: build_repr_def bind_eq_Some_conv)
  note f = base_repr_plain[OF b, of "local_mss cx" "remote_win_shift s"]
  have "r = r0\<lparr>control := Rst\<rparr> \<or> r = syn_repr s r0 \<or> r = r0 \<or> data_repr cx s r0 = Some (r, p)"
    using assms(1) b by (cases "state s") (auto simp: build_repr_def bind_eq_Some_conv)
  then consider "r = r0\<lparr>control := Rst\<rparr>" | "r = syn_repr s r0" | "r = r0" | "data_repr cx s r0 = Some (r, p)"
    by blast
  then show ?thesis
  proof cases
    case 1
    then show ?thesis using f by (simp add: plain_segment_def)
  next
    case 2
    then show ?thesis using f syn_repr_plain by metis
  next
    case 4
    then show ?thesis using f data_repr_plain[OF 4 assms(2)] by metis
  qed (use f in simp)
qed

lemma finish_repr_plain:
  assumes "finish_repr cx s r = (r1, k)" "plain_segment mss g shift r"
  shows "plain_segment mss g shift r1 \<and> src_port r1 = src_port r \<and> dst_port r1 = dst_port r"
  using assms by (auto simp: finish_repr_def Let_def plain_segment_def repr_is_empty_def split: if_splits)

lemma dispatch_plain:
  assumes d: "dispatch cx emit s = Some (Emitted (ip, r), s')" and t: "tuple s = Some t" and i: "sk_inv s"
  shows "plain_segment (local_mss cx) (tsval_generator s) (remote_win_shift s) r \<and>
    src_port r = ep_port (tup_local t) \<and> dst_port r = ep_port (tup_remote t)"
  using d
proof (cases rule: dispatch_cases)
  case (sent t' s1 r0 p r1 k ip')
  have "sk_inv s1" by (rule sk_inv_run_timers[OF sent(2) i])
  then have wf: "rb_wf (tx_buffer s1)" by (simp add: sk_inv_def)
  have "remote_win_shift s1 = remote_win_shift s" using run_timers_rx[OF sent(2)] by (simp add: rx_same_def)
  moreover have "tsval_generator s1 = tsval_generator s"
    using sent(2) by (auto simp: run_timers_def Let_def bind_eq_Some_conv set_state_def split: if_splits)
  ultimately show ?thesis
    using build_repr_plain[OF sent(4) wf] finish_repr_plain[OF sent(5)] sent(1,7) t by auto
qed simp_all

lemma dispatch_payload_len:
  assumes d: "dispatch cx emit s = Some (Emitted (ip, r), s')"
  shows "ip_payload_len ip = buffer_len r"
proof -
  obtain t where t: "tuple s = Some t" using d by (cases "tuple s") (simp_all add: dispatch_def)
  have ip: "has_ip_addr cx (ep_addr (tup_local t))" using d t by (auto simp: dispatch_def split: if_splits)
  obtain s1 e where s1: "run_timers cx s = Some s1" "decide cx s1 = Some e"
    using d t ip by (auto simp: dispatch_def bind_eq_Some_conv)
  have e: "e = SendNow" using d t ip s1 by (cases e) (simp_all add: dispatch_def)
  obtain b where b: "build_repr cx t s1 = Some b" using d t ip s1 e by (auto simp: dispatch_def bind_eq_Some_conv)
  obtain r0 p where r0: "b = Some (r0, p)" using d t ip s1 e b by (cases b) (auto simp: dispatch_def)
  obtain r1 k where f: "finish_repr cx s1 r0 = (r1, k)" by (cases "finish_repr cx s1 r0")
  show ?thesis
    using d t ip s1 e b r0 f by (auto simp: dispatch_def bind_eq_Some_conv Let_def split: if_splits)
qed

section \<open>Their size\<close>

lemma plain_segment_size:
  assumes "plain_segment mss g shift r"
  shows "header_len r \<le> 40" and "g = None \<Longrightarrow> header_len r \<le> (if control r = Syn then 32 else 20)"
    and "g \<noteq> None \<Longrightarrow> control r \<noteq> Syn \<Longrightarrow> header_len r = 32"
  using assms by (auto simp: plain_segment_def header_len_def round4_def Let_def)

lemma plain_segment_wire_ok:
  assumes "plain_segment mss g shift r" "shift \<le> 14" "src_port r \<noteq> 0" "dst_port r \<noteq> 0"
  shows "wire_ok r"
  using assms plain_segment_size(1)[OF assms(1)] by (auto simp: plain_segment_def wire_ok_def)

lemma plain_segment_fits:
  assumes "plain_segment (local_mss cx) None shift r" "52 \<le> cx_ip_mtu cx"
  shows "IPV4_HEADER_LEN + buffer_len r \<le> cx_ip_mtu cx"
  using plain_segment_size(2)[OF assms(1)] assms
  by (cases "control r = Syn") (auto simp: plain_segment_def buffer_len_def local_mss_def max_def split: if_splits)

section \<open>Timestamps\<close>

text \<open>The payload is cut to the MTU without the options, so that with timestamps enabled a full segment is
  twelve bytes longer than the MTU.  The interface drops such a packet when fragmentation is not compiled
  in (\<open>dispatch_ip\<close>), as in this program, whose own sockets leave timestamps off.\<close>

lemma timestamps_exceed_mtu:
  assumes st: "state s \<in> {Established, CloseWait}" and i: "sk_inv s" and t: "tuple s = Some t"
    and ip: "has_ip_addr cx (ep_addr (tup_local t))" and to: "timeout s = None"
    and q: "remote_last_seq s = local_seq_no s" and g: "tsval_generator s \<noteq> None"
    and l: "rb_len (tx_buffer s) \<le> I32_MAX" "rb_len (rx_buffer s) \<le> I32_MAX" "remote_win_len s \<le> I32_MAX"
    and m: "40 < cx_ip_mtu cx" "local_mss cx < I32_MAX" and full: "first_chunk cx s = local_mss cx"
  shows "\<exists>ip r s'. dispatch cx (\<lambda>_. True) s = Some (Emitted (ip, r), s') \<and>
    IPV4_HEADER_LEN + buffer_len r = cx_ip_mtu cx + 12"
proof -
  have p: "0 < local_mss cx" using m(1) by (simp add: local_mss_def)
  then have "0 < rb_len (tx_buffer s)" "0 < remote_win_len s" "0 < remote_mss s"
    using full by (auto simp: first_chunk_def min_def split: if_splits)
  then obtain ip r s' where d: "dispatch cx (\<lambda>_. True) s = Some (Emitted (ip, r), s')" "control r \<in> {NoControl, Psh}"
    "length (payload r) = first_chunk cx s"
    using dispatch_data[OF st i t ip to q _ l(1,2) _ l(3) _ p m(2)] by blast
  have "header_len r = 32"
    using plain_segment_size(3)[OF conjunct1[OF dispatch_plain[OF d(1) t i]] g] d(2) by auto
  then have "IPV4_HEADER_LEN + buffer_len r = cx_ip_mtu cx + 12"
    using d(3) full m(1) by (simp add: buffer_len_def local_mss_def)
  then show ?thesis using d(1) by blast
qed

section \<open>Properties\<close>

text \<open>C22: from the socket to the peer.  Every segment a socket hands to the device, timestamps being off as in
  this program, fits an IP packet of the MTU; it is written without a panic into a buffer of the length
  announced in its IP header; and the peer's parser reads back exactly this segment.\<close>

theorem dispatched_segment_on_wire:
  assumes "rb_wf rx" "rb_wf tx" "tcp_reachable rx tx s" "tuple s = Some t"
    and "ep_port (tup_local t) \<noteq> 0" "ep_port (tup_remote t) \<noteq> 0" "remote_win_shift s \<le> 14" "tsval_generator s = None"
    and "52 \<le> cx_ip_mtu cx" "cx_ip_mtu cx < 2 ^ 16"
    and "dispatch cx emit s = Some (Emitted (ip, r), s')" "length buf = ip_payload_len ip"
  shows "IPV4_HEADER_LEN + ip_payload_len ip \<le> cx_ip_mtu cx \<and>
    (\<exists>p. repr_emit r buf (ip_src ip) (ip_dst ip) checksum_ignored = Some p \<and>
       repr_parse p (ip_src ip) (ip_dst ip) checksum_ignored = Some (Inr r))"
proof -
  have i: "sk_inv s" by (rule sk_inv_reachable[OF assms(1-3)])
  have r: "plain_segment (local_mss cx) None (remote_win_shift s) r" "src_port r \<noteq> 0" "dst_port r \<noteq> 0"
    using dispatch_plain[OF assms(11,4) i] assms(5,6,8) by auto
  have ip: "ip_payload_len ip = buffer_len r" using assms(11) by (rule dispatch_payload_len)
  have fits: "IPV4_HEADER_LEN + buffer_len r \<le> cx_ip_mtu cx" by (rule plain_segment_fits[OF r(1) assms(9)])
  have "wire_ok r \<and> buffer_len r < 2 ^ 16"
    using plain_segment_wire_ok[OF r(1) assms(7) r(2,3)] fits assms(10) by simp
  then show ?thesis using plain_wire.emit_parse[of r buf] fits ip assms(12) by auto
qed

theorem dispatched_segment_on_wire_witness:
  "\<exists>ip r s' p. dispatch demo_cx (\<lambda>_. True) demo_connected = Some (Emitted (ip, r), s') \<and> control r = Syn \<and>
    IPV4_HEADER_LEN + ip_payload_len ip \<le> cx_ip_mtu demo_cx \<and>
    repr_emit r (replicate (ip_payload_len ip) 0) (ip_src ip) (ip_dst ip) checksum_ignored = Some p \<and>
    repr_parse p (ip_src ip) (ip_dst ip) checksum_ignored = Some (Inr r)"
proof -
  let ?c = demo_connected and ?t = "\<lparr>tup_local = \<lparr>ep_addr = 0x0a000001, ep_port = 50000\<rparr>,
    tup_remote = \<lparr>ep_addr = 0x0a000002, ep_port = 50000\<rparr>\<rparr>"
  have ip: "has_ip_addr demo_cx (ep_addr (tup_local ?t))" by (simp add: has_ip_addr_def demo_cx_def)
  have c: "state ?c = SynSent" "tuple ?c = Some ?t" "remote_last_seq ?c = local_seq_no ?c" "timeout ?c = None"
    "keep_alive ?c = None" "timer ?c = timer_new" "rb_len (rx_buffer ?c) = 0" "tsval_generator ?c = None"
    "remote_win_shift ?c \<le> 14"
    by (simp_all add: demo_connected_eq socket_new_def demo_rb_def rb_new_def rb_query_defs win_shift_for_def bit_len.simps)
  have "tcp_reachable demo_rb demo_rb ?c"
    unfolding tcp_reachable_def demo_connected_def
    using step_connect by (fastforce simp: socket_new_def demo_rb_def rb_new_def rb_capacity_def)
  moreover obtain ip r s' where d: "dispatch demo_cx (\<lambda>_. True) ?c = Some (Emitted (ip, r), s')" "control r = Syn"
    using dispatch_syn[OF c(1,2) ip c(3-7)] by metis
  ultimately show ?thesis
    using dispatched_segment_on_wire[OF demo_rb_wf demo_rb_wf _ c(2) _ _ c(9,8) _ _ d(1), of "replicate (ip_payload_len ip) 0"]
      d by (auto simp: demo_cx_def)
qed

end
