(* ===== verification/Iface_Tables.thy ===== *)
theory Iface_Tables
  imports Tcp_Socket App_Arp "HOL-Library.AList"
begin

text \<open>
  The tables of a network interface: subnets (\<open>wire/ipv4.rs\<close>), routes (\<open>iface/route.rs\<close>) and the
  neighbour cache (\<open>iface/neighbor.rs\<close>).  The routes are a \<open>heapless::Vec\<close>, a list with a capacity; the
  cache is a \<open>heapless::LinearMap\<close>, a finite map with a capacity.  In which order such a map iterates is
  left open by its documentation and matters only when several entries expire at the same instant: the
  choice among them is the argument \<open>pick\<close>.  Shown: a route lookup is a longest-prefix match, and the
  cache keeps what it is told until the entry expires or is evicted as the oldest of a full cache.
\<close>

section \<open>Addresses and subnets\<close>

text \<open>\<open>Ipv4Address::is_unicast\<close>: not broadcast, multicast or unspecified.\<close>

definition addr_unicast :: "ip_addr \<Rightarrow> bool" where
  "addr_unicast a \<longleftrightarrow> a \<noteq> 0xffffffff \<and> drop_bit 28 a \<noteq> 0xe \<and> a \<noteq> 0"

text \<open>A shift by 32 is excluded by the first branch.\<close>

definition netmask :: "ip_addr \<times> nat \<Rightarrow> ip_addr" where
  "netmask c = (if snd c = 0 then 0 else push_bit (32 - snd c) 0xffffffff)"

definition network :: "ip_addr \<times> nat \<Rightarrow> ip_addr \<times> nat" where
  "network c = (fst c AND netmask c, snd c)"

definition broadcast :: "ip_addr \<times> nat \<Rightarrow> ip_addr option" where
  "broadcast c =
     (let n = network c in
      if snd n = 31 \<or> snd n = 32 then None else Some (fst n OR drop_bit (snd n) 0xffffffff))"

lemma ones_mask: "(0xffffffff :: ip_addr) = mask 32"
  by (simp add: mask_eq_exp_minus_1)

lemma bit_netmask: "snd c \<le> 32 \<Longrightarrow> bit (netmask c) n \<longleftrightarrow> 32 - snd c \<le> n \<and> n < 32"
  unfolding netmask_def ones_mask by (auto simp: bit_simps)

text \<open>\<open>contains_addr\<close> compares under the mask; it compares the first \<open>prefix_len\<close> bits.\<close>

lemma contains_bits:
  assumes "snd c \<le> 32"
  shows "cidr_contains c a \<longleftrightarrow> (\<forall>n. 32 - snd c \<le> n \<and> n < 32 \<longrightarrow> bit (fst c) n = bit a n)"
proof (cases "snd c = 0")
  case False
  show ?thesis
  proof
    assume "cidr_contains c a"
    then have d: "drop_bit (32 - snd c) (fst c) = drop_bit (32 - snd c) a" using False by (simp add: cidr_contains_def)
    have b: "bit (drop_bit k x) n = bit x (k + n)" for k n and x :: ip_addr by (simp add: bit_drop_bit_eq)
    have e: "bit (fst c) (32 - snd c + n) = bit a (32 - snd c + n)" for n by (simp only: b[symmetric] d)
    have "bit (fst c) n = bit a n" if "32 - snd c \<le> n" for n
      using e[of "n - (32 - snd c)"] that by simp
    then show "\<forall>n. 32 - snd c \<le> n \<and> n < 32 \<longrightarrow> bit (fst c) n = bit a n" by blast
  next
    assume e: "\<forall>n. 32 - snd c \<le> n \<and> n < 32 \<longrightarrow> bit (fst c) n = bit a n"
    have "bit (fst c) (32 - snd c + n) = bit a (32 - snd c + n)" for n
    proof (cases "32 - snd c + n < 32")
      case False
      then show ?thesis by (auto dest: bit_imp_le_length)
    qed (use e in simp)
    then have "drop_bit (32 - snd c) (fst c) = drop_bit (32 - snd c) a"
      by (intro bit_word_eqI) (simp add: bit_drop_bit_eq)
    then show "cidr_contains c a" by (simp add: cidr_contains_def)
  qed
qed (auto simp: cidr_contains_def)

lemma contains_netmask:
  assumes "snd c \<le> 32"
  shows "cidr_contains c a \<longleftrightarrow> fst c AND netmask c = a AND netmask c"
  unfolding contains_bits[OF assms] by (auto simp: bit_eq_iff bit_and_iff bit_netmask[OF assms])

lemma broadcast_contained:
  assumes "snd c \<le> 32" "broadcast c = Some b"
  shows "cidr_contains c b"
proof -
  have b: "b = (fst c AND netmask c) OR drop_bit (snd c) 0xffffffff"
    using assms(2) by (auto simp: broadcast_def network_def Let_def split: if_splits)
  show ?thesis
    unfolding contains_netmask[OF assms(1)] b ones_mask
    by (rule bit_word_eqI) (auto simp: bit_simps bit_netmask[OF assms(1)])
qed

section \<open>Routes\<close>

record route =
  route_cidr :: "ip_addr \<times> nat"
  via_router :: ip_addr
  preferred_until :: "instant option"
  route_expires_at :: "instant option"

definition IFACE_MAX_ROUTE_COUNT :: nat where "IFACE_MAX_ROUTE_COUNT = 2"

definition new_ipv4_gateway :: "ip_addr \<Rightarrow> route" where
  "new_ipv4_gateway gateway =
     \<lparr>route_cidr = (0, 0), via_router = gateway, preferred_until = None, route_expires_at = None\<rparr>"

definition is_ipv4_gateway :: "route \<Rightarrow> bool" where
  "is_ipv4_gateway r \<longleftrightarrow> route_cidr r = (0, 0)"

fun remove_default_ipv4_route :: "route list \<Rightarrow> route option \<times> route list" where
  "remove_default_ipv4_route [] = (None, [])"
| "remove_default_ipv4_route (r # rs) =
     (if is_ipv4_gateway r then (Some r, rs)
      else let (old, rs') = remove_default_ipv4_route rs in (old, r # rs'))"

datatype route_error = RouteTableFull

definition add_default_ipv4_route :: "ip_addr \<Rightarrow> route list \<Rightarrow> (route_error + route option) \<times> route list" where
  "add_default_ipv4_route gateway rs =
     (let (old, rs') = remove_default_ipv4_route rs in
      if length rs' < IFACE_MAX_ROUTE_COUNT then (Inr old, rs' @ [new_ipv4_gateway gateway])
      else (Inl RouteTableFull, rs'))"

definition get_default_ipv4_route :: "route list \<Rightarrow> route option" where
  "get_default_ipv4_route rs = find is_ipv4_gateway rs"

text \<open>\<open>Iterator::max_by_key\<close>: the last of the elements with the greatest key.\<close>

fun max_by_key :: "('a \<Rightarrow> nat) \<Rightarrow> 'a list \<Rightarrow> 'a option" where
  "max_by_key f [] = None"
| "max_by_key f (x # xs) = Some (foldl (\<lambda>best y. if f best \<le> f y then y else best) x xs)"

definition route_matches :: "ip_addr \<Rightarrow> instant \<Rightarrow> route \<Rightarrow> bool" where
  "route_matches addr now r =
     (case route_expires_at r of
        Some e \<Rightarrow> if now > e then False else cidr_contains (route_cidr r) addr
      | None \<Rightarrow> cidr_contains (route_cidr r) addr)"

definition routes_lookup :: "route list \<Rightarrow> ip_addr \<Rightarrow> instant \<Rightarrow> ip_addr option option" where
  "routes_lookup rs addr now = do {
     assert_that (addr_unicast addr);
     Some (map_option via_router (max_by_key (\<lambda>r. snd (route_cidr r)) (filter (route_matches addr now) rs)))
   }"

lemma foldl_max:
  fixes f :: "'a \<Rightarrow> nat"
  shows "foldl (\<lambda>best y. if f best \<le> f y then y else best) x xs \<in> insert x (set xs) \<and>
    (\<forall>y \<in> insert x (set xs). f y \<le> f (foldl (\<lambda>best y. if f best \<le> f y then y else best) x xs))"
proof (induction xs arbitrary: x)
  case (Cons y ys)
  show ?case using Cons[of y] Cons[of x] by (auto intro: order_trans)
qed simp

lemma max_by_key_Some:
  "max_by_key f xs = Some x \<Longrightarrow> x \<in> set xs \<and> (\<forall>y \<in> set xs. f y \<le> f x)"
  using foldl_max[of f] by (cases xs) auto

lemma max_by_key_None [simp]: "max_by_key f xs = None \<longleftrightarrow> xs = []"
  by (cases xs) simp_all

lemma routes_lookup_default:
  assumes "addr_unicast a" "rs = snd (add_default_ipv4_route gw [])"
  shows "routes_lookup rs a now = Some (Some gw)"
  using assms by (simp add: routes_lookup_def add_default_ipv4_route_def IFACE_MAX_ROUTE_COUNT_def new_ipv4_gateway_def
      route_matches_def cidr_contains_def)

section \<open>Neighbour cache\<close>

record neighbor =
  hardware_addr :: mac
  expires_at :: instant

datatype answer = Found mac | NotFound | RateLimited

record neighbor_cache =
  nb_storage :: "(ip_addr \<times> neighbor) list"
  silent_until :: instant

definition IFACE_NEIGHBOR_CACHE_COUNT :: nat where "IFACE_NEIGHBOR_CACHE_COUNT = 8"
definition SILENT_TIME :: duration where "SILENT_TIME = duration_from_millis 1000"
definition ENTRY_LIFETIME :: duration where "ENTRY_LIFETIME = duration_from_millis 60000"

definition cache_new :: neighbor_cache where
  "cache_new = \<lparr>nb_storage = [], silent_until = instant_from_millis 0\<rparr>"

definition reset_expiry_if_existing :: "ip_addr \<Rightarrow> mac \<Rightarrow> instant \<Rightarrow> neighbor_cache \<Rightarrow> neighbor_cache" where
  "reset_expiry_if_existing a h now c =
     (case map_of (nb_storage c) a of
        Some n \<Rightarrow>
          if h = hardware_addr n
          then c\<lparr>nb_storage := AList.update a (n\<lparr>expires_at := instant_add now ENTRY_LIFETIME\<rparr>) (nb_storage c)\<rparr>
          else c
      | None \<Rightarrow> c)"

text \<open>\<open>LinearMap::insert\<close>: \<open>None\<close> is the error of a full map without the key.\<close>

definition map_insert :: "ip_addr \<Rightarrow> neighbor \<Rightarrow> (ip_addr \<times> neighbor) list \<Rightarrow> (ip_addr \<times> neighbor) list option" where
  "map_insert a n xs =
     (if map_of xs a \<noteq> None \<or> length xs < IFACE_NEIGHBOR_CACHE_COUNT then Some (AList.update a n xs) else None)"

text \<open>\<open>min_by_key(expires_at)\<close>: one of the entries that expire first.\<close>

definition oldest :: "nat \<Rightarrow> (ip_addr \<times> neighbor) list \<Rightarrow> ip_addr" where
  "oldest pick xs =
     (let m = Min (set (map (expires_at \<circ> snd) xs));
          ys = filter (\<lambda>e. expires_at (snd e) = m) xs
      in fst (ys ! (pick mod length ys)))"

text \<open>\<open>None\<close> is the panic of \<open>expect\<close> or \<open>unreachable!\<close>.\<close>

definition fill_with_expiration ::
  "nat \<Rightarrow> ip_addr \<Rightarrow> mac \<Rightarrow> instant \<Rightarrow> neighbor_cache \<Rightarrow> neighbor_cache option" where
  "fill_with_expiration pick a h e c =
     (let n = \<lparr>hardware_addr = h, expires_at = e\<rparr> in
      case map_insert a n (nb_storage c) of
        Some xs \<Rightarrow> Some (c\<lparr>nb_storage := xs\<rparr>)
      | None \<Rightarrow> do {
          assert_that (nb_storage c \<noteq> []);
          xs \<leftarrow> map_insert a n (AList.delete (oldest pick (nb_storage c)) (nb_storage c));
          Some (c\<lparr>nb_storage := xs\<rparr>)
        })"

definition cache_fill :: "nat \<Rightarrow> ip_addr \<Rightarrow> mac \<Rightarrow> instant \<Rightarrow> neighbor_cache \<Rightarrow> neighbor_cache option" where
  "cache_fill pick a h now c = fill_with_expiration pick a h (instant_add now ENTRY_LIFETIME) c"

definition cache_lookup :: "neighbor_cache \<Rightarrow> ip_addr \<Rightarrow> instant \<Rightarrow> answer option" where
  "cache_lookup c a now = do {
     assert_that (addr_unicast a);
     Some (case map_of (nb_storage c) a of
        Some n \<Rightarrow> if now < expires_at n then Found (hardware_addr n)
                  else if now < silent_until c then RateLimited else NotFound
      | None \<Rightarrow> if now < silent_until c then RateLimited else NotFound)
   }"

definition limit_rate :: "instant \<Rightarrow> neighbor_cache \<Rightarrow> neighbor_cache" where
  "limit_rate now c = c\<lparr>silent_until := instant_add now SILENT_TIME\<rparr>"

definition cache_flush :: "neighbor_cache \<Rightarrow> neighbor_cache" where
  "cache_flush c = c\<lparr>nb_storage := []\<rparr>"

section \<open>The cache as a table\<close>

definition nb_wf :: "neighbor_cache \<Rightarrow> bool" where
  "nb_wf c \<longleftrightarrow> distinct (map fst (nb_storage c)) \<and> length (nb_storage c) \<le> IFACE_NEIGHBOR_CACHE_COUNT"

lemma cache_new_wf: "nb_wf cache_new"
  by (simp add: nb_wf_def cache_new_def)

lemma length_update: "length (AList.update k v xs) = (if map_of xs k \<noteq> None then length xs else Suc (length xs))"
  by (induction xs) auto

lemma map_insert_Some:
  "map_insert a n xs = Some ys \<Longrightarrow> distinct (map fst xs) \<Longrightarrow> length xs \<le> IFACE_NEIGHBOR_CACHE_COUNT \<Longrightarrow>
   map_of ys = (map_of xs)(a \<mapsto> n) \<and> distinct (map fst ys) \<and> length ys \<le> IFACE_NEIGHBOR_CACHE_COUNT"
  by (auto simp: map_insert_def length_update update_conv' distinct_update split: if_splits)

text \<open>The entry that makes room is in the cache and expires first.\<close>

lemma oldest_entry:
  assumes "xs \<noteq> []"
  shows "\<exists>n. (oldest pick xs, n) \<in> set xs \<and> (\<forall>e \<in> set xs. expires_at n \<le> expires_at (snd e))"
proof -
  define m where "m = Min (set (map (expires_at \<circ> snd) xs))"
  define ys where "ys = filter (\<lambda>e. expires_at (snd e) = m) xs"
  have "m \<in> set (map (expires_at \<circ> snd) xs)" unfolding m_def using assms by (intro Min_in) auto
  then have "ys \<noteq> []" by (auto simp: ys_def filter_empty_conv)
  then have "ys ! (pick mod length ys) \<in> set ys" by (intro nth_mem) simp
  moreover obtain k n where k: "ys ! (pick mod length ys) = (k, n)" by (cases "ys ! (pick mod length ys)")
  ultimately have e: "(k, n) \<in> set xs" "expires_at n = m" by (auto simp: ys_def)
  have "oldest pick xs = k" using k by (simp add: oldest_def Let_def m_def ys_def)
  moreover have "m \<le> expires_at (snd x)" if "x \<in> set xs" for x unfolding m_def using that by (intro Min_le) auto
  ultimately show ?thesis using e by blast
qed

lemma length_delete_mem:
  "distinct (map fst xs) \<Longrightarrow> k \<in> set (map fst xs) \<Longrightarrow> Suc (length (AList.delete k xs)) = length xs"
  by (induction xs) auto

lemma fill_result:
  assumes wf: "nb_wf c"
  obtains c' where "fill_with_expiration pick a h e c = Some c'" "nb_wf c'" "silent_until c' = silent_until c"
    "map_of (nb_storage c') a = Some \<lparr>hardware_addr = h, expires_at = e\<rparr>"
    "map_of (nb_storage c') = (map_of (nb_storage c))(a \<mapsto> \<lparr>hardware_addr = h, expires_at = e\<rparr>) \<or>
     length (nb_storage c) = IFACE_NEIGHBOR_CACHE_COUNT \<and>
     (\<exists>k n. map_of (nb_storage c) k = Some n \<and> (\<forall>k' n'. map_of (nb_storage c) k' = Some n' \<longrightarrow> expires_at n \<le> expires_at n') \<and>
        map_of (nb_storage c') = ((map_of (nb_storage c))(k := None))(a \<mapsto> \<lparr>hardware_addr = h, expires_at = e\<rparr>))"
proof (cases "map_insert a \<lparr>hardware_addr = h, expires_at = e\<rparr> (nb_storage c)")
  case (Some xs)
  then show thesis
    using that[of "c\<lparr>nb_storage := xs\<rparr>"] map_insert_Some[OF Some] wf
    by (simp add: fill_with_expiration_def nb_wf_def del: map_of_eq_Some_iff)
next
  case None
  let ?n = "\<lparr>hardware_addr = h, expires_at = e\<rparr>" and ?xs = "nb_storage c" and ?k = "oldest pick (nb_storage c)"
  have full: "length ?xs = IFACE_NEIGHBOR_CACHE_COUNT" and d: "distinct (map fst ?xs)"
    using None wf by (auto simp: map_insert_def nb_wf_def split: if_splits)
  then have ne: "?xs \<noteq> []" by (auto simp: IFACE_NEIGHBOR_CACHE_COUNT_def)
  obtain n where n: "(?k, n) \<in> set ?xs" "\<forall>x \<in> set ?xs. expires_at n \<le> expires_at (snd x)"
    using oldest_entry[OF ne] by blast
  have "Suc (length (AList.delete ?k ?xs)) = length ?xs"
    using n(1) by (intro length_delete_mem[OF d]) force
  then have l: "length (AList.delete ?k ?xs) < IFACE_NEIGHBOR_CACHE_COUNT" using full by simp
  then obtain ys where ys: "map_insert a ?n (AList.delete ?k ?xs) = Some ys" by (simp add: map_insert_def)
  have dd: "distinct (map fst (AList.delete ?k ?xs))" by (simp add: distinct_delete d)
  have k: "map_of ?xs ?k = Some n" using n(1) d by simp
  have "\<forall>k' n'. map_of ?xs k' = Some n' \<longrightarrow> expires_at n \<le> expires_at n'"
    using n(2) map_of_SomeD by fastforce
  moreover have m: "map_of ys = ((map_of ?xs)(?k := None))(a \<mapsto> ?n)" "nb_wf (c\<lparr>nb_storage := ys\<rparr>)"
    using map_insert_Some[OF ys dd] l by (simp_all add: nb_wf_def delete_conv')
  moreover have "fill_with_expiration pick a h e c = Some (c\<lparr>nb_storage := ys\<rparr>)"
    using None ys ne by (simp add: fill_with_expiration_def)
  ultimately show thesis using that[of "c\<lparr>nb_storage := ys\<rparr>"] k full by (auto simp del: map_of_eq_Some_iff)
qed

lemma lifetime_exact: "0 \<le> t \<Longrightarrow> t < 2 ^ 62 \<Longrightarrow> instant_add t ENTRY_LIFETIME = t + 60000000"
  by (subst instant_add_exact) (simp_all add: ENTRY_LIFETIME_def duration_from_millis_def i64_range_def)

lemma cache_lookup_Some:
  "addr_unicast a \<Longrightarrow> cache_lookup c a u = Some (Found h) \<longleftrightarrow>
     (\<exists>n. map_of (nb_storage c) a = Some n \<and> u < expires_at n \<and> hardware_addr n = h)"
  by (auto simp: cache_lookup_def simp del: map_of_eq_Some_iff split: option.splits)

lemma cache_lookup_cong:
  "map_of (nb_storage c') a = map_of (nb_storage c) a \<Longrightarrow> silent_until c' = silent_until c \<Longrightarrow>
   cache_lookup c' a u = cache_lookup c a u"
  by (simp add: cache_lookup_def)

text \<open>What the interface relies on: an entry that is filled in is found for its lifetime and no longer, and a
  packet from another address leaves it alone.\<close>

locale neighbour_table =
  fixes wf :: "'c \<Rightarrow> bool" and fill :: "ip_addr \<Rightarrow> mac \<Rightarrow> instant \<Rightarrow> 'c \<Rightarrow> 'c option"
    and touch :: "ip_addr \<Rightarrow> mac \<Rightarrow> instant \<Rightarrow> 'c \<Rightarrow> 'c" and look :: "'c \<Rightarrow> ip_addr \<Rightarrow> instant \<Rightarrow> answer option"
    and lifetime :: int
  assumes fill_found: "wf c \<Longrightarrow> addr_unicast a \<Longrightarrow> 0 \<le> t \<Longrightarrow> t < 2 ^ 62 \<Longrightarrow>
      \<exists>c'. fill a h t c = Some c' \<and> wf c' \<and> (\<forall>u k. look c' a u = Some (Found k) \<longleftrightarrow> u < t + lifetime \<and> k = h)"
    and touch_other: "b \<noteq> a \<Longrightarrow> look (touch b h u c) a v = look c a v"
begin

definition touches :: "(ip_addr \<times> mac \<times> instant) list \<Rightarrow> 'c \<Rightarrow> 'c" where
  "touches ps c = fold (\<lambda>(b, h, u). touch b h u) ps c"

lemma touches_others:
  "a \<notin> fst ` set ps \<Longrightarrow> look (touches ps c) a v = look c a v"
  unfolding touches_def by (induction ps arbitrary: c) (auto simp: touch_other)

text \<open>However long packets of other addresses arrive, the entry lives exactly its lifetime.\<close>

lemma entry_lifetime:
  assumes "wf c" "addr_unicast a" "0 \<le> t" "t < 2 ^ 62" "fill a h t c = Some c'" "a \<notin> fst ` set ps"
  shows "look (touches ps c') a u = Some (Found k) \<longleftrightarrow> u < t + lifetime \<and> k = h"
  unfolding touches_others[OF assms(6)] using fill_found[OF assms(1-4), of h] assms(5) by simp

end

lemma touch_map:
  "map_of (nb_storage (reset_expiry_if_existing b h u c)) = (map_of (nb_storage c))
     (b := (case map_of (nb_storage c) b of
        Some n \<Rightarrow> Some (if h = hardware_addr n then n\<lparr>expires_at := instant_add u ENTRY_LIFETIME\<rparr> else n) | None \<Rightarrow> None))"
  by (auto simp: reset_expiry_if_existing_def update_conv' fun_eq_iff simp del: map_of_eq_Some_iff split: option.splits)

interpretation neighbors: neighbour_table nb_wf "cache_fill pick" reset_expiry_if_existing cache_lookup 60000000
  for pick
proof
  fix c a h and t :: instant
  assume wf: "nb_wf c" and a: "addr_unicast a" and t: "0 \<le> t" "t < 2 ^ 62"
  obtain c' where c': "cache_fill pick a h t c = Some c'" "nb_wf c'"
    "map_of (nb_storage c') a = Some \<lparr>hardware_addr = h, expires_at = t + 60000000\<rparr>"
    using fill_result[OF wf, of pick a h "t + 60000000"] lifetime_exact[OF t] unfolding cache_fill_def by metis
  then show "\<exists>c'. cache_fill pick a h t c = Some c' \<and> nb_wf c' \<and>
      (\<forall>u k. cache_lookup c' a u = Some (Found k) \<longleftrightarrow> u < t + 60000000 \<and> k = h)"
    unfolding cache_lookup_Some[OF a] by auto
next
  fix b a h u c v
  assume "(b :: ip_addr) \<noteq> a"
  then show "cache_lookup (reset_expiry_if_existing b h u c) a v = cache_lookup c a v"
    by (intro cache_lookup_cong) (simp_all only: touch_map fun_upd_other, simp add: reset_expiry_if_existing_def split: option.split)
qed

section \<open>Properties\<close>

text \<open>A route that may be used at \<open>now\<close>: it has no end or its end is not past.  It covers an address whose
  first \<open>prefix_len\<close> bits, counted from the top, are those of the route's network.\<close>

definition route_live :: "instant \<Rightarrow> route \<Rightarrow> bool" where
  "route_live now r \<longleftrightarrow> (\<forall>t. route_expires_at r = Some t \<longrightarrow> now \<le> t)"

definition route_covers :: "ip_addr \<Rightarrow> route \<Rightarrow> bool" where
  "route_covers a r \<longleftrightarrow> (\<forall>n. 32 - snd (route_cidr r) \<le> n \<and> n < 32 \<longrightarrow> bit (fst (route_cidr r)) n = bit a n)"

lemma route_matches_iff:
  "snd (route_cidr r) \<le> 32 \<Longrightarrow> route_matches a now r \<longleftrightarrow> route_live now r \<and> route_covers a r"
  by (auto simp: route_matches_def route_live_def route_covers_def contains_bits split: option.splits)

text \<open>C32: routing.  In a table whose prefixes have at most 32 bits, looking up a unicast address does not
  panic and yields the gateway of a route that has not expired, whose first \<open>prefix_len\<close> bits are those
  of the address, and whose prefix is the longest of all such routes; it yields nothing exactly when no
  such route exists.\<close>

theorem route_longest_prefix:
  assumes "addr_unicast a" "\<forall>r \<in> set rs. snd (route_cidr r) \<le> 32"
  shows "\<exists>x. routes_lookup rs a now = Some x \<and>
    (case x of
       Some gw \<Rightarrow> \<exists>r \<in> set rs. route_live now r \<and> route_covers a r \<and> via_router r = gw \<and>
         (\<forall>r' \<in> set rs. route_live now r' \<and> route_covers a r' \<longrightarrow> snd (route_cidr r') \<le> snd (route_cidr r))
     | None \<Rightarrow> \<forall>r \<in> set rs. \<not> (route_live now r \<and> route_covers a r))"
proof -
  let ?m = "max_by_key (\<lambda>r. snd (route_cidr r)) (filter (route_matches a now) rs)"
  have m: "route_matches a now r \<longleftrightarrow> route_live now r \<and> route_covers a r" if "r \<in> set rs" for r
    by (rule route_matches_iff) (use assms(2) that in blast)
  have l: "routes_lookup rs a now = Some (map_option via_router ?m)" using assms by (simp add: routes_lookup_def)
  show ?thesis
  proof (cases ?m)
    case None
    then show ?thesis using l m by (auto simp: filter_empty_conv)
  next
    case (Some r)
    then show ?thesis using l m max_by_key_Some[OF Some] by auto
  qed
qed

text \<open>A default route, a longer one that has expired and one that covers another network.\<close>

definition demo_routes :: "route list" where
  "demo_routes = [new_ipv4_gateway 1, (new_ipv4_gateway 2)\<lparr>route_cidr := (0x0a000000, 8)\<rparr>,
     (new_ipv4_gateway 3)\<lparr>route_cidr := (0x0a000000, 24), route_expires_at := Some 5\<rparr>,
     (new_ipv4_gateway 4)\<lparr>route_cidr := (0x0a000100, 24)\<rparr>]"

theorem route_longest_prefix_witness: "routes_lookup demo_routes 0x0a000005 6 = Some (Some 2)"
proof -
  have u: "addr_unicast 0x0a000005" by (simp add: addr_unicast_def)
  have p: "\<forall>r \<in> set demo_routes. snd (route_cidr r) \<le> 32" by (simp add: demo_routes_def new_ipv4_gateway_def)
  have c: "route_covers 0x0a000005 r \<longleftrightarrow> cidr_contains (route_cidr r) 0x0a000005" if "r \<in> set demo_routes" for r
    using p that contains_bits[of "route_cidr r" "0x0a000005"] by (simp add: route_covers_def)
  obtain x where x: "routes_lookup demo_routes 0x0a000005 6 = Some x" "case x of
       Some gw \<Rightarrow> \<exists>r \<in> set demo_routes. route_live 6 r \<and> cidr_contains (route_cidr r) 0x0a000005 \<and> via_router r = gw \<and>
         (\<forall>r' \<in> set demo_routes. route_live 6 r' \<and> cidr_contains (route_cidr r') 0x0a000005 \<longrightarrow> snd (route_cidr r') \<le> snd (route_cidr r))
     | None \<Rightarrow> \<forall>r \<in> set demo_routes. \<not> (route_live 6 r \<and> cidr_contains (route_cidr r) 0x0a000005)"
    using route_longest_prefix[OF u p, of 6] c by (simp cong: option.case_cong bex_cong ball_cong) blast
  have "x = Some 2" using x(2)
    by (cases x) (auto simp: demo_routes_def new_ipv4_gateway_def route_live_def cidr_contains_def)
  then show ?thesis using x(1) by simp
qed

text \<open>C31: the neighbour cache.  Filling in an address never panics and keeps the cache within its capacity;
  the address is then answered with exactly this hardware address for 60 seconds and not after; every
  other address is answered as before, unless the cache was full and its entry was the one to expire
  first.\<close>

theorem neighbor_cache_contract:
  assumes "nb_wf c" "addr_unicast a" "0 \<le> t" "t < 2 ^ 62"
  shows "\<exists>c'. cache_fill pick a h t c = Some c' \<and> nb_wf c' \<and>
    (\<forall>u k. cache_lookup c' a u = Some (Found k) \<longleftrightarrow> u < t + 60000000 \<and> k = h) \<and>
    (\<forall>b. b \<noteq> a \<longrightarrow> (\<forall>u. cache_lookup c' b u = cache_lookup c b u) \<or>
       length (nb_storage c) = IFACE_NEIGHBOR_CACHE_COUNT \<and>
       (\<exists>n. map_of (nb_storage c) b = Some n \<and> (\<forall>k m. map_of (nb_storage c) k = Some m \<longrightarrow> expires_at n \<le> expires_at m)))"
proof -
  let ?n = "\<lparr>hardware_addr = h, expires_at = t + 60000000\<rparr>" and ?m = "map_of (nb_storage c)"
  obtain c' where c': "cache_fill pick a h t c = Some c'" "nb_wf c'" "silent_until c' = silent_until c"
    "map_of (nb_storage c') = ?m(a \<mapsto> ?n) \<or> length (nb_storage c) = IFACE_NEIGHBOR_CACHE_COUNT \<and>
     (\<exists>k n. ?m k = Some n \<and> (\<forall>k' n'. ?m k' = Some n' \<longrightarrow> expires_at n \<le> expires_at n') \<and>
        map_of (nb_storage c') = (?m(k := None))(a \<mapsto> ?n))"
    using fill_result[OF assms(1), of pick a h "t + 60000000"] lifetime_exact[OF assms(3,4)] unfolding cache_fill_def by metis
  have other: "(\<forall>u. cache_lookup c' b u = cache_lookup c b u) \<or> length (nb_storage c) = IFACE_NEIGHBOR_CACHE_COUNT \<and>
       (\<exists>n. ?m b = Some n \<and> (\<forall>k m. ?m k = Some m \<longrightarrow> expires_at n \<le> expires_at m))" if "b \<noteq> a" for b
    using c'(4)
  proof (elim disjE conjE exE)
    assume "map_of (nb_storage c') = ?m(a \<mapsto> ?n)"
    then show ?thesis using that cache_lookup_cong[OF _ c'(3), of b] by simp
  next
    fix k n
    assume k: "length (nb_storage c) = IFACE_NEIGHBOR_CACHE_COUNT" "?m k = Some n"
      "\<forall>k' n'. ?m k' = Some n' \<longrightarrow> expires_at n \<le> expires_at n'" "map_of (nb_storage c') = (?m(k := None))(a \<mapsto> ?n)"
    show ?thesis
    proof (cases "b = k")
      case False
      then have "map_of (nb_storage c') b = ?m b" using k(4) that by simp
      then show ?thesis using cache_lookup_cong[OF _ c'(3)] by blast
    qed (use k in blast)
  qed
  have "\<forall>u k. cache_lookup c' a u = Some (Found k) \<longleftrightarrow> u < t + 60000000 \<and> k = h"
    using neighbors.fill_found[OF assms, of pick h] c'(1) by simp
  then show ?thesis using c'(1,2) other by blast
qed

theorem neighbor_cache_contract_witness:
  "\<exists>c'. cache_fill 0 0x0a000001 [2, 0, 0, 0, 0, 1] 5 cache_new = Some c' \<and>
    cache_lookup c' 0x0a000001 7 = Some (Found [2, 0, 0, 0, 0, 1])"
proof -
  have u: "addr_unicast 0x0a000001" by (simp add: addr_unicast_def)
  show ?thesis using neighbor_cache_contract[OF cache_new_wf u, of 5 0 "[2, 0, 0, 0, 0, 1]"] by auto
qed

end
