(* ===== verification/Iface_Arp.thy ===== *)
theory Iface_Arp
  imports Iface_Tables Tcp_Wire
begin

text \<open>
  How the interface finds the hardware address for a packet: Ethernet and ARP frames (\<open>wire/ethernet.rs\<close>,
  \<open>wire/arp.rs\<close>), the parts of \<open>iface/interface\<close> that read and write the neighbour cache (\<open>process_ethernet\<close>,
  \<open>process_arp\<close>, the head of \<open>process_ipv4\<close>), and \<open>route\<close> and \<open>lookup_hardware_addr\<close>.  What \<open>process_ipv4\<close> does with
  the sockets is not part of this theory.  Shown: parsing never panics and inverts emitting, and the
  frames the benchmark builds by hand are those of the stack.
\<close>

section \<open>Ethernet frames\<close>

definition eth_check_len :: "bytes \<Rightarrow> wire_error + unit" where
  "eth_check_len f = (if length f < 14 then Inl WireError else Inr ())"

definition eth_dst_addr :: "bytes \<Rightarrow> mac option" where "eth_dst_addr f = slice f 0 6"
definition eth_src_addr :: "bytes \<Rightarrow> mac option" where "eth_src_addr f = slice f 6 12"
definition eth_ethertype :: "bytes \<Rightarrow> u16 option" where "eth_ethertype f = read_u16 f 12"
definition eth_payload :: "bytes \<Rightarrow> bytes option" where "eth_payload f = slice f 14 (length f)"

abbreviation (input) ETHERTYPE_IPV4 :: u16 where "ETHERTYPE_IPV4 \<equiv> 0x0800"
abbreviation (input) ETHERTYPE_ARP :: u16 where "ETHERTYPE_ARP \<equiv> 0x0806"

definition mac_broadcast :: mac where "mac_broadcast = replicate 6 0xff"

definition mac_is_multicast :: "mac \<Rightarrow> bool" where "mac_is_multicast m \<longleftrightarrow> hd m AND 1 \<noteq> 0"

definition mac_is_unicast :: "mac \<Rightarrow> bool" where
  "mac_is_unicast m \<longleftrightarrow> \<not> (m = mac_broadcast \<or> mac_is_multicast m)"

section \<open>ARP packets\<close>

datatype operation = Request | Reply | UnknownOp u16

definition operation_from :: "u16 \<Rightarrow> operation" where
  "operation_from v = (if v = 1 then Request else if v = 2 then Reply else UnknownOp v)"

fun operation_into :: "operation \<Rightarrow> u16" where
  "operation_into Request = 1"
| "operation_into Reply = 2"
| "operation_into (UnknownOp v) = v"

record arp_repr =
  operation :: operation
  source_hardware_addr :: mac
  source_protocol_addr :: ip_addr
  target_hardware_addr :: mac
  target_protocol_addr :: ip_addr

text \<open>The offsets of the four addresses for the address lengths \<open>h\<close> and \<open>p\<close>.\<close>

definition SHA :: "nat \<Rightarrow> nat \<Rightarrow> nat \<times> nat" where "SHA h p = (8, 8 + h)"
definition SPA :: "nat \<Rightarrow> nat \<Rightarrow> nat \<times> nat" where "SPA h p = (8 + h, 8 + h + p)"
definition THA :: "nat \<Rightarrow> nat \<Rightarrow> nat \<times> nat" where "THA h p = (8 + h + p, 8 + h + p + h)"
definition TPA :: "nat \<Rightarrow> nat \<Rightarrow> nat \<times> nat" where "TPA h p = (8 + h + p + h, 8 + h + p + h + p)"

definition get_byte :: "bytes \<Rightarrow> nat \<Rightarrow> u8 option" where
  "get_byte b k = (if k < length b then Some (b ! k) else None)"

definition arp_hardware_len :: "bytes \<Rightarrow> nat option" where "arp_hardware_len b = map_option unat (get_byte b 4)"
definition arp_protocol_len :: "bytes \<Rightarrow> nat option" where "arp_protocol_len b = map_option unat (get_byte b 5)"

definition arp_check_len :: "bytes \<Rightarrow> unit wire" where
  "arp_check_len b =
     (if length b < 8 then Some (Inl WireError)
      else do {
        h \<leftarrow> arp_hardware_len b;
        p \<leftarrow> arp_protocol_len b;
        Some (if length b < snd (TPA h p) then Inl WireError else Inr ())
      })"

definition arp_field :: "(nat \<Rightarrow> nat \<Rightarrow> nat \<times> nat) \<Rightarrow> bytes \<Rightarrow> bytes option" where
  "arp_field fld b = do {
     h \<leftarrow> arp_hardware_len b;
     p \<leftarrow> arp_protocol_len b;
     slice b (fst (fld h p)) (snd (fld h p))
   }"

text \<open>\<open>EthernetAddress::from_bytes\<close> and the conversion to four octets panic on other lengths.\<close>

definition mac_from_bytes :: "bytes \<Rightarrow> mac option" where
  "mac_from_bytes b = (if length b = 6 then Some b else None)"

definition ip_from_octets :: "bytes \<Rightarrow> ip_addr option" where
  "ip_from_octets b = (if length b = 4 then Some (of_be32 (b ! 0) (b ! 1) (b ! 2) (b ! 3)) else None)"

definition arp_parse :: "bytes \<Rightarrow> arp_repr wire" where
  "arp_parse b = attempt (arp_check_len b) (\<lambda>_. do {
     ht \<leftarrow> read_u16 b 0;
     pt \<leftarrow> read_u16 b 2;
     h \<leftarrow> arp_hardware_len b;
     p \<leftarrow> arp_protocol_len b;
     if ht = 1 \<and> pt = ETHERTYPE_IPV4 \<and> h = 6 \<and> p = 4
     then do {
       op \<leftarrow> read_u16 b 6;
       sha \<leftarrow> arp_field SHA b \<bind> mac_from_bytes;
       spa \<leftarrow> arp_field SPA b \<bind> ip_from_octets;
       tha \<leftarrow> arp_field THA b \<bind> mac_from_bytes;
       tpa \<leftarrow> arp_field TPA b \<bind> ip_from_octets;
       Some (Inr \<lparr>operation = operation_from op, source_hardware_addr = sha, source_protocol_addr = spa,
         target_hardware_addr = tha, target_protocol_addr = tpa\<rparr>)
     }
     else Some (Inl WireError)
   })"

text \<open>\<open>data[a..b].copy_from_slice(value)\<close> panics when the lengths differ.\<close>

definition set_arp_field :: "(nat \<Rightarrow> nat \<Rightarrow> nat \<times> nat) \<Rightarrow> bytes \<Rightarrow> bytes \<Rightarrow> bytes option" where
  "set_arp_field fld b v = do {
     h \<leftarrow> arp_hardware_len b;
     p \<leftarrow> arp_protocol_len b;
     let (x, y) = fld h p;
     assert_that (length v = y - x);
     copy_at b x v
   }"

definition arp_emit :: "arp_repr \<Rightarrow> bytes \<Rightarrow> bytes option" where
  "arp_emit r b = do {
     b \<leftarrow> write_u16 b 0 1;
     b \<leftarrow> write_u16 b 2 ETHERTYPE_IPV4;
     b \<leftarrow> put_byte b 4 6;
     b \<leftarrow> put_byte b 5 4;
     b \<leftarrow> write_u16 b 6 (operation_into (operation r));
     b \<leftarrow> set_arp_field SHA b (source_hardware_addr r);
     b \<leftarrow> set_arp_field SPA b (be32 (source_protocol_addr r));
     b \<leftarrow> set_arp_field THA b (target_hardware_addr r);
     set_arp_field TPA b (be32 (target_protocol_addr r))
   }"

section \<open>The interface\<close>

record iface =
  if_cx :: iface_context
  if_hw :: mac
  if_routes :: "route list"
  if_cache :: neighbor_cache

definition at_time :: "instant \<Rightarrow> iface \<Rightarrow> iface" where
  "at_time now i = i\<lparr>if_cx := (if_cx i)\<lparr>cx_now := now\<rparr>\<rparr>"

definition in_same_network :: "iface \<Rightarrow> ip_addr \<Rightarrow> bool" where
  "in_same_network i a \<longleftrightarrow> (\<exists>c \<in> set (cx_ip_addrs (if_cx i)). cidr_contains c a)"

definition is_broadcast_v4 :: "iface \<Rightarrow> ip_addr \<Rightarrow> bool" where
  "is_broadcast_v4 i a \<longleftrightarrow> a = 0xffffffff \<or> (\<exists>c \<in> set (cx_ip_addrs (if_cx i)). broadcast c = Some a)"

definition is_unicast_v4 :: "iface \<Rightarrow> ip_addr \<Rightarrow> bool" where
  "is_unicast_v4 i a \<longleftrightarrow> addr_unicast a \<and> \<not> is_broadcast_v4 i a"

definition iface_route :: "iface \<Rightarrow> ip_addr \<Rightarrow> instant \<Rightarrow> ip_addr option option" where
  "iface_route i a now =
     (if in_same_network i a \<or> a = 0xffffffff then Some (Some a) else routes_lookup (if_routes i) a now)"

definition has_neighbor :: "iface \<Rightarrow> ip_addr \<Rightarrow> bool option" where
  "has_neighbor i a = do {
     r \<leftarrow> iface_route i a (cx_now (if_cx i));
     (case r of
        Some routed \<Rightarrow> do { x \<leftarrow> cache_lookup (if_cache i) routed (cx_now (if_cx i));
          Some (case x of Found _ \<Rightarrow> True | _ \<Rightarrow> False) }
      | None \<Rightarrow> Some False)
   }"

datatype dispatch_error = NoRoute | NeighborPending

text \<open>The result, the ARP request handed to the device, and the interface afterwards.  \<open>dispatch_ethernet\<close>
  always succeeds.\<close>

definition lookup_hardware_addr ::
  "iface \<Rightarrow> ip_addr \<Rightarrow> ((dispatch_error + mac) \<times> arp_repr option \<times> iface) option" where
  "lookup_hardware_addr i dst =
     (if is_broadcast_v4 i dst then Some (Inr mac_broadcast, None, i)
      else if drop_bit 28 dst = 0xe
      then let b = be32 dst in Some (Inr [0x01, 0x00, 0x5e, b ! 1 AND 0x7f, b ! 2, b ! 3], None, i)
      else do {
        r \<leftarrow> iface_route i dst (cx_now (if_cx i));
        (case r of
           None \<Rightarrow> Some (Inl NoRoute, None, i)
         | Some routed \<Rightarrow> do {
             x \<leftarrow> cache_lookup (if_cache i) routed (cx_now (if_cx i));
             (case x of
                Found h \<Rightarrow> Some (Inr h, None, i)
              | RateLimited \<Rightarrow> Some (Inl NeighborPending, None, i)
              | NotFound \<Rightarrow>
                  (case get_source_address (if_cx i) routed of
                     None \<Rightarrow> Some (Inl NoRoute, None, i)
                   | Some src \<Rightarrow>
                       Some (Inl NeighborPending,
                         Some \<lparr>operation = Request, source_hardware_addr = if_hw i, source_protocol_addr = src,
                               target_hardware_addr = mac_broadcast, target_protocol_addr = routed\<rparr>,
                         i\<lparr>if_cache := limit_rate (cx_now (if_cx i)) (if_cache i)\<rparr>)))
           })
      })"

definition process_arp :: "nat \<Rightarrow> instant \<Rightarrow> bytes \<Rightarrow> iface \<Rightarrow> (arp_repr option \<times> iface) option" where
  "process_arp pick now arp i = do {
     c \<leftarrow> arp_check_len arp;
     (case c of
        Inl _ \<Rightarrow> Some (None, i)
      | Inr _ \<Rightarrow> do {
          p \<leftarrow> arp_parse arp;
          (case p of
             Inl _ \<Rightarrow> Some (None, i)
           | Inr r \<Rightarrow>
               if \<not> has_ip_addr (if_cx i) (target_protocol_addr r) then Some (None, i)
               else if (case operation r of UnknownOp _ \<Rightarrow> True | _ \<Rightarrow> False) then Some (None, i)
               else if \<not> addr_unicast (source_protocol_addr r) \<or> \<not> mac_is_unicast (source_hardware_addr r)
               then Some (None, i)
               else if \<not> in_same_network i (source_protocol_addr r) then Some (None, i)
               else do {
                 cache \<leftarrow> cache_fill pick (source_protocol_addr r) (source_hardware_addr r) now (if_cache i);
                 Some (if operation r = Request
                   then Some \<lparr>operation = Reply, source_hardware_addr = if_hw i,
                              source_protocol_addr = target_protocol_addr r,
                              target_hardware_addr = source_hardware_addr r,
                              target_protocol_addr = source_protocol_addr r\<rparr>
                   else None, i\<lparr>if_cache := cache\<rparr>)
               })
        })
   }"

text \<open>What an IPv4 packet whose header parses does to the cache before it reaches a socket.  \<open>bad_udp\<close> says
  that it carries UDP and the UDP header is malformed, which is checked because the stack is built with
  its DHCP client; a worker has no DHCP socket.  The only multicast group is \<open>ALL_SYSTEMS\<close>.\<close>

definition touch_neighbor :: "bool \<Rightarrow> mac \<Rightarrow> ip_addr \<Rightarrow> ip_addr \<Rightarrow> iface \<Rightarrow> iface" where
  "touch_neighbor bad_udp hw src dst i =
     (if \<not> is_unicast_v4 i src \<and> src \<noteq> 0 then i
      else if bad_udp then i
      else if \<not> has_ip_addr (if_cx i) dst \<and> dst \<noteq> 0xe0000001 \<and> \<not> is_broadcast_v4 i dst then i
      else if is_unicast_v4 i dst
      then i\<lparr>if_cache := reset_expiry_if_existing src hw (cx_now (if_cx i)) (if_cache i)\<rparr>
      else i)"

text \<open>The ARP reply to send and the interface afterwards; \<open>ipv4\<close> is what \<open>process_ipv4\<close> does to the interface.\<close>

definition process_ethernet ::
  "nat \<Rightarrow> (bytes \<Rightarrow> mac \<Rightarrow> iface \<Rightarrow> iface) \<Rightarrow> bytes \<Rightarrow> iface \<Rightarrow> (arp_repr option \<times> iface) option" where
  "process_ethernet pick ipv4 f i =
     (case eth_check_len f of
        Inl _ \<Rightarrow> Some (None, i)
      | Inr _ \<Rightarrow> do {
          dst \<leftarrow> eth_dst_addr f;
          if dst \<noteq> mac_broadcast \<and> \<not> mac_is_multicast dst \<and> dst \<noteq> if_hw i then Some (None, i)
          else do {
            t \<leftarrow> eth_ethertype f;
            payload \<leftarrow> eth_payload f;
            if t = ETHERTYPE_ARP then process_arp pick (cx_now (if_cx i)) payload i
            else if t = ETHERTYPE_IPV4 then do { src \<leftarrow> eth_src_addr f; Some (None, ipv4 payload src i) }
            else Some (None, i)
          }
        })"

section \<open>ARP packets on the wire\<close>

definition arp_bytes :: "u16 \<Rightarrow> mac \<Rightarrow> ip_addr \<Rightarrow> mac \<Rightarrow> ip_addr \<Rightarrow> bytes" where
  "arp_bytes op sha spa tha tpa = [0, 1, 8, 0, 6, 4] @ be16 op @ sha @ be32 spa @ tha @ be32 tpa"

lemma arp_parse_bytes:
  assumes "is_mac sha" "is_mac tha"
  shows "arp_parse (arp_bytes op sha spa tha tpa @ rest) = Some (Inr \<lparr>operation = operation_from op,
    source_hardware_addr = sha, source_protocol_addr = spa, target_hardware_addr = tha, target_protocol_addr = tpa\<rparr>)"
proof -
  obtain a b c d e f where s: "sha = [a, b, c, d, e, f]" using assms(1) by (auto simp: is_mac_def list_len6)
  obtain a' b' c' d' e' f' where t: "tha = [a', b', c', d', e', f']" using assms(2) by (auto simp: is_mac_def list_len6)
  have w: "of_be16 0 1 = 1" "of_be16 8 0 = 0x0800" by (simp_all add: of_be16_def)
  show ?thesis
    unfolding s t arp_bytes_def
    by (simp add: arp_parse_def arp_check_len_def arp_hardware_len_def arp_protocol_len_def get_byte_def TPA_def THA_def
        SPA_def SHA_def arp_field_def slice_def read_u16_def mac_from_bytes_def ip_from_octets_def be16_def be32_def w)
qed

lemma arp_emit_bytes:
  assumes "is_mac (source_hardware_addr r)" "is_mac (target_hardware_addr r)" "length b = 28"
  shows "arp_emit r b = Some (arp_bytes (operation_into (operation r)) (source_hardware_addr r)
    (source_protocol_addr r) (target_hardware_addr r) (target_protocol_addr r))"
proof -
  obtain x0 x1 x2 x3 x4 x5 x6 x7 rest where b: "b = x0 # x1 # x2 # x3 # x4 # x5 # x6 # x7 # rest" "length rest = 20"
    using assms(3) by (auto simp: length_Suc_conv numeral_eq_Suc)
  have w: "be16 1 = [0, 1]" "be16 0x0800 = [8, 0]" by (simp_all add: be16_def)
  define hd8 where "hd8 = [0, 1, 8, 0, 6, 4] @ be16 (operation_into (operation r))"
  have n: "length hd8 = 8" by (simp add: hd8_def)
  have 1: "(do { b \<leftarrow> write_u16 b 0 1; b \<leftarrow> write_u16 b 2 ETHERTYPE_IPV4; b \<leftarrow> put_byte b 4 6; b \<leftarrow> put_byte b 5 4;
      b \<leftarrow> write_u16 b 6 (operation_into (operation r)); f b }) = f (hd8 @ rest)" for f :: "bytes \<Rightarrow> bytes option"
    by (simp add: b(1) write_u16_def put_byte_def copy_at_def overwrite_def w hd8_def)
  have l: "arp_hardware_len (hd8 @ y) = Some 6" "arp_protocol_len (hd8 @ y) = Some 4" for y
    by (simp_all add: arp_hardware_len_def arp_protocol_len_def get_byte_def hd8_def)
  have f: "set_arp_field fld (hd8 @ done' @ y) v = Some (hd8 @ done' @ v @ drop (length v) y)"
    if "fld 6 4 = (8 + length done', 8 + length done' + length v)" "length v \<le> length y" for fld done' v y
    using that by (simp add: set_arp_field_def l copy_at_def overwrite_def n)
  have m: "length (source_hardware_addr r) = 6" "length (target_hardware_addr r) = 6" using assms by (simp_all add: is_mac_def)
  have s1: "set_arp_field SHA (hd8 @ rest) (source_hardware_addr r) = Some (hd8 @ source_hardware_addr r @ drop 6 rest)"
    using f[of SHA "[]" "source_hardware_addr r" rest] b(2) m by (simp add: SHA_def)
  have s2: "set_arp_field SPA (hd8 @ source_hardware_addr r @ drop 6 rest) (be32 (source_protocol_addr r)) =
      Some (hd8 @ source_hardware_addr r @ be32 (source_protocol_addr r) @ drop 10 rest)"
    using f[of SPA "source_hardware_addr r" "be32 (source_protocol_addr r)" "drop 6 rest"] b(2) m by (simp add: SPA_def)
  have s3: "set_arp_field THA (hd8 @ source_hardware_addr r @ be32 (source_protocol_addr r) @ drop 10 rest) (target_hardware_addr r) =
      Some (hd8 @ source_hardware_addr r @ be32 (source_protocol_addr r) @ target_hardware_addr r @ drop 16 rest)"
    using f[of THA "source_hardware_addr r @ be32 (source_protocol_addr r)" "target_hardware_addr r" "drop 10 rest"] b(2) m
    by (simp add: THA_def)
  have s4: "set_arp_field TPA (hd8 @ source_hardware_addr r @ be32 (source_protocol_addr r) @ target_hardware_addr r @ drop 16 rest)
      (be32 (target_protocol_addr r)) =
      Some (hd8 @ source_hardware_addr r @ be32 (source_protocol_addr r) @ target_hardware_addr r @ be32 (target_protocol_addr r))"
    using f[of TPA "source_hardware_addr r @ be32 (source_protocol_addr r) @ target_hardware_addr r"
        "be32 (target_protocol_addr r)" "drop 16 rest"] b(2) m
    by (simp add: TPA_def)
  show ?thesis unfolding arp_emit_def 1 by (simp only: s1 s2 s3 s4 Option.bind.simps) (simp add: arp_bytes_def hd8_def)
qed

lemma operation_roundtrip: "operation_from (operation_into op) = op \<longleftrightarrow> op \<notin> {UnknownOp 1, UnknownOp 2}"
  by (cases op) (auto simp: operation_from_def)

text \<open>The wire format of ARP.\<close>

definition arp_ok :: "arp_repr \<Rightarrow> bool" where
  "arp_ok r \<longleftrightarrow> is_mac (source_hardware_addr r) \<and> is_mac (target_hardware_addr r) \<and>
     operation r \<notin> {UnknownOp 1, UnknownOp 2}"

lemma arp_parse_total: "\<exists>r. arp_parse b = Some r"
proof (cases "arp_check_len b = Some (Inr ())")
  case True
  then have l: "8 \<le> length b" "8 + unat (b ! 4) + unat (b ! 5) + unat (b ! 4) + unat (b ! 5) \<le> length b"
    by (auto simp: arp_check_len_def arp_hardware_len_def arp_protocol_len_def get_byte_def TPA_def split: if_splits)
  show ?thesis
    using l by (auto simp: arp_parse_def True read_u16_def arp_hardware_len_def arp_protocol_len_def get_byte_def arp_field_def
        SHA_def SPA_def THA_def TPA_def slice_def mac_from_bytes_def ip_from_octets_def)
next
  case False
  have "\<exists>r. arp_check_len b = Some r"
    by (simp add: arp_check_len_def arp_hardware_len_def arp_protocol_len_def get_byte_def)
  then obtain e where "arp_check_len b = Some (Inl e)" using False by (metis (full_types) old.unit.exhaust sum.exhaust)
  then show ?thesis by (simp add: arp_parse_def)
qed

interpretation arp_wire: wire_format arp_emit arp_parse arp_ok "\<lambda>_. 28"
proof
  fix r and buf :: bytes
  assume ok: "arp_ok r" and l: "length buf = 28"
  have m: "is_mac (source_hardware_addr r)" "is_mac (target_hardware_addr r)" "operation_from (operation_into (operation r)) = operation r"
    using ok by (auto simp: arp_ok_def operation_roundtrip)
  show "\<exists>p. arp_emit r buf = Some p \<and> length p = 28 \<and> arp_parse p = Some (Inr r)"
    using arp_emit_bytes[OF m(1,2) l] arp_parse_bytes[OF m(1,2), of _ _ _ "[]"] m
    by (simp add: arp_bytes_def is_mac_def)
qed (use arp_parse_total in auto)

end
