(* ===== verification/App_Alloc.thy ===== *)
theory App_Alloc
  imports Prelude
begin

text \<open>
  The global allocator of \<open>src/lib.rs\<close> (\<open>ShimAllocator\<close>): requests of alignment up to 16 go straight to
  the C allocator, larger ones are over-allocated, aligned by hand, and the raw pointer is stashed in
  the eight bytes below the block.  Memory is a function from addresses to bytes; what the C allocator
  returns is an argument.  Shown: the block handed out is aligned and lies inside the raw allocation,
  \<open>dealloc\<close> frees the raw pointer again, and \<open>realloc\<close> moves the contents.
\<close>

unbundle bit_operations_syntax

type_synonym memory = "u64 \<Rightarrow> u8"

record layout =
  lsize :: u64
  lalign :: u64

abbreviation PTR_SIZE :: u64 where "PTR_SIZE \<equiv> 8"

section \<open>Pointers in memory\<close>

definition store_ptr :: "memory \<Rightarrow> u64 \<Rightarrow> u64 \<Rightarrow> memory" where
  "store_ptr mem a v = (\<lambda>x. if unat (x - a) < 8 then ucast (drop_bit (8 * unat (x - a)) v) else mem x)"

definition load_ptr :: "memory \<Rightarrow> u64 \<Rightarrow> u64" where
  "load_ptr mem a = fold (\<lambda>i v. v OR push_bit (8 * i) (ucast (mem (a + of_nat i)))) [0..<8] 0"

definition copy_bytes :: "memory \<Rightarrow> u64 \<Rightarrow> u64 \<Rightarrow> u64 \<Rightarrow> memory" where
  "copy_bytes mem src dst n = (\<lambda>x. if x - dst < n then mem (src + (x - dst)) else mem x)"

section \<open>The allocator\<close>

text \<open>\<open>(raw_addr + align - 1) & !(align - 1)\<close>.\<close>

definition align_up :: "u64 \<Rightarrow> u64 \<Rightarrow> u64" where
  "align_up a al = (a + al - 1) AND NOT (al - 1)"

text \<open>\<open>malloc\<close> is what \<open>shim_malloc\<close> returns for a size; 0 is the null pointer.\<close>

definition shim_alloc :: "(u64 \<Rightarrow> u64) \<Rightarrow> layout \<Rightarrow> memory \<Rightarrow> u64 \<times> memory" where
  "shim_alloc malloc l mem =
     (if lalign l \<le> 16 then (malloc (lsize l), mem)
      else
        let extra = lalign l + PTR_SIZE;
            raw = malloc (lsize l + extra)
        in if raw = 0 then (raw, mem)
           else
             let raw_addr = raw + PTR_SIZE;
                 aligned = align_up raw_addr (lalign l)
             in (aligned, store_ptr mem (aligned - PTR_SIZE) raw))"

text \<open>The pointer handed to \<open>shim_free\<close>.\<close>

definition shim_dealloc :: "u64 \<Rightarrow> layout \<Rightarrow> memory \<Rightarrow> u64" where
  "shim_dealloc p l mem = (if lalign l \<le> 16 then p else load_ptr mem (p - PTR_SIZE))"

text \<open>\<open>realloc_c\<close> is what \<open>shim_realloc\<close> returns.  The result is the new pointer, the memory and the
  pointer freed, if any.\<close>

definition shim_realloc_rust ::
  "(u64 \<Rightarrow> u64) \<Rightarrow> (u64 \<Rightarrow> u64 \<Rightarrow> u64 \<times> memory) \<Rightarrow> u64 \<Rightarrow> layout \<Rightarrow> u64 \<Rightarrow> memory \<Rightarrow>
     u64 \<times> memory \<times> u64 option" where
  "shim_realloc_rust malloc realloc_c p l new_size mem =
     (if lalign l \<le> 16 then (let (q, mem') = realloc_c p new_size in (q, mem', None))
      else
        let new_layout = \<lparr>lsize = new_size, lalign = lalign l\<rparr>;
            (new_ptr, mem1) = shim_alloc malloc new_layout mem
        in if new_ptr \<noteq> 0
           then let copy = min (lsize l) new_size;
                    mem2 = copy_bytes mem1 p new_ptr copy
                in (new_ptr, mem2, Some (shim_dealloc p l mem2))
           else (new_ptr, mem1, None))"

section \<open>Alignment\<close>

lemma and_not_mask: "(x :: u64) AND NOT (mask k) = x - take_bit k x"
proof -
  have "x AND NOT (mask k) = push_bit k (drop_bit k x)"
    by (rule bit_word_eqI) (auto simp: bit_simps)
  then show ?thesis using bits_ident[of k x] by (metis add_diff_cancel_right')
qed

lemma unat_take_bit: "unat (take_bit k (x :: u64)) = unat x mod 2 ^ k"
  unfolding unsigned_take_bit_eq by (rule take_bit_eq_mod)

lemma unat_and_not_mask: "unat ((x :: u64) AND NOT (mask k)) = unat x - unat x mod 2 ^ k"
proof -
  have "unat (take_bit k x) \<le> unat x" by (simp add: unat_take_bit)
  then have "take_bit k x \<le> x" by (simp add: word_le_nat_alt)
  then show ?thesis by (simp add: and_not_mask unat_sub unat_take_bit)
qed

lemma unat_u64_less: "unat (x :: u64) < 2 ^ 64"
proof -
  have "unat x < 2 ^ LENGTH(64)" by (rule unsigned_less)
  then show ?thesis by simp
qed

lemma unat_pow2:
  assumes "k < 64"
  shows "unat (2 ^ k :: u64) = 2 ^ k"
proof -
  have "(2 :: nat) ^ k < 2 ^ 64" using assms by (intro power_strict_increasing) auto
  then have "unat (of_nat (2 ^ k) :: u64) = 2 ^ k" by (simp only: unat_of_nat) simp
  then show ?thesis by simp
qed

lemma align_up_correct:
  assumes "k < 64" "unat a + 2 ^ k \<le> 2 ^ 64"
  shows "unat (align_up a (2 ^ k)) mod 2 ^ k = 0" "unat a \<le> unat (align_up a (2 ^ k))"
    "unat (align_up a (2 ^ k)) < unat a + 2 ^ k"
proof -
  have s: "unat (a + 2 ^ k - 1) = unat a + 2 ^ k - 1"
  proof -
    have "unat (2 ^ k - 1 :: u64) = 2 ^ k - 1"
      using assms(1) unat_pow2[of k] by (simp add: unat_sub word_le_nat_alt)
    moreover have "a + 2 ^ k - 1 = a + (2 ^ k - 1)" by simp
    moreover have "unat a + (2 ^ k - 1) < 2 ^ LENGTH(64)" using assms(2) by simp
    ultimately show ?thesis by (metis (no_types, lifting) Nat.add_diff_assoc one_le_numeral one_le_power unat_add_lem)
  qed
  have u: "unat (align_up a (2 ^ k)) = (unat a + 2 ^ k - 1) - (unat a + 2 ^ k - 1) mod 2 ^ k"
    using unat_and_not_mask[of "a + 2 ^ k - 1" k] s by (simp add: align_up_def mask_eq_exp_minus_1)
  have m: "(unat a + 2 ^ k - 1) mod 2 ^ k < 2 ^ k" by simp
  show "unat (align_up a (2 ^ k)) mod 2 ^ k = 0" unfolding u by (simp add: minus_mod_eq_mult_div)
  show "unat a \<le> unat (align_up a (2 ^ k))" "unat (align_up a (2 ^ k)) < unat a + 2 ^ k"
    unfolding u using m by linarith+
qed

section \<open>The stashed pointer\<close>

lemma take_bit_next_byte:
  "take_bit (8 * m) v OR push_bit (8 * m) (ucast (ucast (drop_bit (8 * m) v) :: u8)) = take_bit (8 * Suc m) (v :: u64)"
  by (rule bit_word_eqI) (auto simp: bit_simps)

lemma load_prefix:
  fixes mem :: memory
  assumes "\<And>i. i < m \<Longrightarrow> mem (a + of_nat i) = ucast (drop_bit (8 * i) (v :: u64))"
  shows "fold (\<lambda>i w. w OR push_bit (8 * i) (ucast (mem (a + of_nat i)))) [0..<m] 0 = take_bit (8 * m) v"
  using assms
proof (induction m)
  case 0
  then show ?case by simp
next
  case (Suc m)
  then show ?case using take_bit_next_byte[of m v] by simp
qed

lemma load_store:
  assumes "\<And>i. i < 8 \<Longrightarrow> mem' (a + of_nat i) = store_ptr mem a v (a + of_nat i)"
  shows "load_ptr mem' a = v"
proof -
  have "unat (a + of_nat i - a) = i" if "i < 8" for i using that by (simp add: unat_of_nat)
  then have "mem' (a + of_nat i) = ucast (drop_bit (8 * i) v)" if "i < 8" for i
    using assms[OF that] that by (simp add: store_ptr_def unat_of_nat)
  then have "load_ptr mem' a = take_bit (8 * 8) v" unfolding load_ptr_def by (rule load_prefix)
  then show ?thesis using take_bit_length_eq[of v] by simp
qed

lemma unat_sub_8: "8 \<le> unat p \<Longrightarrow> unat (p - 8 :: u64) = unat p - 8"
  by (simp add: unat_sub word_le_nat_alt)

lemma store_ptr_outside:
  assumes "8 \<le> unat p" "unat x \<notin> {unat p - 8 ..< unat p}"
  shows "store_ptr mem (p - 8) v x = mem x"
proof -
  have "\<not> unat (x - (p - 8)) < 8"
  proof
    assume l: "unat (x - (p - 8)) < 8"
    have x: "x = (p - 8) + (x - (p - 8))" by simp
    have "unat (p - 8) + unat (x - (p - 8)) < 2 ^ LENGTH(64)"
      using l unat_sub_8[OF assms(1)] assms(1) unat_u64_less[of p] by simp
    then have "unat x = unat (p - 8) + unat (x - (p - 8))" by (metis x unat_add_lem)
    then show False using l assms unat_sub_8[OF assms(1)] by auto
  qed
  then show ?thesis by (simp add: store_ptr_def)
qed

text \<open>The block behind an over-aligned allocation.\<close>

lemma shim_alloc_large:
  assumes al: "lalign l = 2 ^ k" "4 < k" "k < 64"
    and raw: "malloc (lsize l + (lalign l + 8)) = raw" "raw \<noteq> 0"
    and fits: "unat raw + unat (lsize l) + 2 ^ k + 8 \<le> 2 ^ 64"
  obtains p where "shim_alloc malloc l mem = (p, store_ptr mem (p - 8) raw)" "unat p mod 2 ^ k = 0"
    "unat raw + 8 \<le> unat p" "unat p < unat raw + 2 ^ k + 8"
proof -
  have "(2 :: nat) ^ 5 \<le> 2 ^ k" using al(2) by (intro power_increasing) auto
  then have "\<not> lalign l \<le> 16" using al unat_pow2[of k] by (simp add: word_le_nat_alt)
  then have e: "shim_alloc malloc l mem = (align_up (raw + 8) (2 ^ k), store_ptr mem (align_up (raw + 8) (2 ^ k) - 8) raw)"
    using raw al(1) by (simp add: shim_alloc_def Let_def)
  have r: "unat (raw + 8) = unat raw + 8"
  proof -
    have "0 < (2 :: nat) ^ k" by simp
    then have "unat raw + 8 < 2 ^ 64" using fits by linarith
    then have "unat raw + unat (8 :: u64) < 2 ^ LENGTH(64)" by simp
    then show ?thesis using unat_add_lem[of raw 8] by simp
  qed
  have f: "unat (raw + 8) + 2 ^ k \<le> 2 ^ 64" using fits r by simp
  show thesis using that[OF e] align_up_correct[OF al(3) f] r by simp
qed

section \<open>Moving a block\<close>

lemma load_ptr_cong:
  assumes "\<And>i. i < 8 \<Longrightarrow> mem1 (a + of_nat i) = mem2 (a + of_nat i)"
  shows "load_ptr mem1 a = load_ptr mem2 a"
  using assms unfolding load_ptr_def by (intro fold_cong) auto

lemma unat_offset: "unat a + unat i < 2 ^ 64 \<Longrightarrow> unat (a + i :: u64) = unat a + unat i"
  using unat_add_lem[of a i] by simp

lemma large_alignment: "4 < k \<Longrightarrow> k < 64 \<Longrightarrow> \<not> (2 ^ k :: u64) \<le> 16"
proof -
  assume k: "4 < k" "k < 64"
  then have "(2 :: nat) ^ 5 \<le> 2 ^ k" by (intro power_increasing) auto
  then show ?thesis using unat_pow2[OF k(2)] by (simp add: word_le_nat_alt)
qed

text \<open>Copying \<open>n\<close> bytes to \<open>q\<close> after stashing a pointer below it: what lies outside the block of \<open>q\<close>
  is not written, and the stash survives.\<close>

lemma copy_outside:
  assumes "8 \<le> unat q" "unat q + unat n \<le> 2 ^ 64" "unat x \<notin> {unat q - 8 ..< unat q + unat n}"
  shows "copy_bytes (store_ptr mem (q - 8) v) p q n x = mem x"
proof -
  have "\<not> x - q < n"
  proof
    assume l: "x - q < n"
    then have "unat q + unat (x - q) < 2 ^ 64" using assms(2) by (simp add: word_less_nat_alt)
    then have "unat x = unat q + unat (x - q)" using unat_offset[of q "x - q"] by simp
    then show False using l assms(3) by (simp add: word_less_nat_alt)
  qed
  moreover have "unat x \<notin> {unat q - 8 ..< unat q}" using assms(3) by auto
  ultimately show ?thesis using store_ptr_outside[OF assms(1)] by (simp add: copy_bytes_def)
qed

lemma copy_stash:
  assumes "8 \<le> unat q" "unat n \<le> 2 ^ 64 - 8"
  shows "load_ptr (copy_bytes (store_ptr mem (q - 8) v) p q n) (q - 8) = v"
proof (rule load_store[where mem = mem])
  fix i :: nat assume i: "i < 8"
  have "uint (q - 8 + of_nat i - q) = (int i - 8) mod 18446744073709551616"
    using unsigned_of_int[of "int i - 8", where ?'b = 64 and ?'a = int] by (simp add: take_bit_eq_mod)
  also have "\<dots> = (int i - 8 + 18446744073709551616) mod 18446744073709551616" by (rule mod_add_self2[symmetric])
  also have "\<dots> = int i + 18446744073709551608" using i by (subst mod_pos_pos_trivial) auto
  finally have "uint (q - 8 + of_nat i - q) = int i + 18446744073709551608" .
  moreover have "m \<le> 18446744073709551608 \<Longrightarrow> int m \<le> 18446744073709551608" for m by simp
  then have "int (unat n) \<le> 18446744073709551608" by this (use assms(2) in simp)
  ultimately have "\<not> uint (q - 8 + of_nat i - q) < uint n" unfolding uint_nat[of n] by linarith
  then have "\<not> q - 8 + of_nat i - q < n" unfolding word_less_def .
  then show "copy_bytes (store_ptr mem (q - 8) v) p q n (q - 8 + of_nat i) =
      store_ptr mem (q - 8) v (q - 8 + of_nat i)" by (simp add: copy_bytes_def)
qed

section \<open>Properties\<close>

text \<open>C37: over-aligned allocation.  For an alignment \<open>2 ^ k\<close> above 16 and a raw block that the C
  allocator returned inside the address space, the pointer handed out is a multiple of the alignment,
  the requested bytes and the stashed pointer lie inside the raw block, nothing outside the bytes
  before the block is written, and \<open>dealloc\<close> frees the raw pointer again whatever the program wrote
  in the meantime, as long as it left the eight bytes below the block alone.\<close>

theorem alloc_dealloc_roundtrip:
  assumes "lalign l = 2 ^ k" "4 < k" "k < 64"
    and "malloc (lsize l + (lalign l + 8)) = raw" "raw \<noteq> 0"
    and "unat raw + unat (lsize l) + 2 ^ k + 8 \<le> 2 ^ 64"
  shows "\<exists>p mem'. shim_alloc malloc l mem = (p, mem') \<and> unat p mod 2 ^ k = 0 \<and>
    unat raw + 8 \<le> unat p \<and> unat p + unat (lsize l) \<le> unat raw + (unat (lsize l) + 2 ^ k + 8) \<and>
    (\<forall>x. unat x \<notin> {unat raw ..< unat p} \<longrightarrow> mem' x = mem x) \<and>
    (\<forall>mem2. (\<forall>i < 8. mem2 (p - 8 + of_nat i) = mem' (p - 8 + of_nat i)) \<longrightarrow> shim_dealloc p l mem2 = raw)"
proof -
  obtain p where p: "shim_alloc malloc l mem = (p, store_ptr mem (p - 8) raw)" "unat p mod 2 ^ k = 0"
    "unat raw + 8 \<le> unat p" "unat p < unat raw + 2 ^ k + 8"
    by (rule shim_alloc_large[of l k malloc raw mem, OF assms])
  have o: "store_ptr mem (p - 8) raw x = mem x" if "unat x \<notin> {unat raw ..< unat p}" for x
    using p(3) that by (intro store_ptr_outside) auto
  have "(2 :: nat) ^ 5 \<le> 2 ^ k" using assms(2) by (intro power_increasing) auto
  then have "\<not> lalign l \<le> 16" using assms(1,3) unat_pow2[of k] by (simp add: word_le_nat_alt)
  then have d: "shim_dealloc p l mem2 = raw"
    if "\<forall>i < 8. mem2 (p - 8 + of_nat i) = store_ptr mem (p - 8) raw (p - 8 + of_nat i)" for mem2
    using that load_store[of mem2 "p - 8" mem raw] by (simp add: shim_dealloc_def)
  show ?thesis using p o d by (intro exI[of _ p] exI[of _ "store_ptr mem (p - 8) raw"]) auto
qed

theorem alloc_dealloc_roundtrip_witness:
  "\<exists>p mem'. shim_alloc (\<lambda>n. if n = 172 then 0x1010 else 0) \<lparr>lsize = 100, lalign = 64\<rparr> (\<lambda>_. 0) = (p, mem') \<and>
     unat p mod 64 = 0 \<and> shim_dealloc p \<lparr>lsize = 100, lalign = 64\<rparr> mem' = 0x1010"
  using alloc_dealloc_roundtrip[of "\<lparr>lsize = 100, lalign = 64\<rparr>" 6 "\<lambda>n. if n = 172 then 0x1010 else 0" "0x1010" "\<lambda>_. 0"]
  by auto

text \<open>Over-aligned reallocation.  If the C allocator returns a block that does not overlap the old
  one, \<open>realloc\<close> moves the common prefix of the contents into a block of the new size with the same
  alignment and frees exactly the raw pointer of the old block; if it returns null, nothing is
  written or freed.\<close>

theorem realloc_moves_contents:
  assumes al: "lalign l = 2 ^ k" "4 < k" "k < 64"
    and raw: "malloc (new_size + (lalign l + 8)) = raw"
    and fits: "unat raw + unat new_size + 2 ^ k + 8 \<le> 2 ^ 64"
    and old: "load_ptr mem (p - 8) = old" "8 \<le> unat p" "unat p + unat (lsize l) \<le> 2 ^ 64"
    and disj: "{unat p - 8 ..< unat p + unat (lsize l)} \<inter> {unat raw ..< unat raw + (unat new_size + 2 ^ k + 8)} = {}"
  shows "if raw = 0 then shim_realloc_rust malloc rc p l new_size mem = (0, mem, None)
    else \<exists>q mem'. shim_realloc_rust malloc rc p l new_size mem = (q, mem', Some old) \<and> unat q mod 2 ^ k = 0 \<and>
      unat raw + 8 \<le> unat q \<and> unat q + unat new_size \<le> unat raw + (unat new_size + 2 ^ k + 8) \<and>
      (\<forall>i < min (lsize l) new_size. mem' (q + i) = mem (p + i)) \<and>
      shim_dealloc q \<lparr>lsize = new_size, lalign = lalign l\<rparr> mem' = raw"
proof (cases "raw = 0")
  case True
  then show ?thesis
    using al raw large_alignment[OF al(2,3)] by (simp add: shim_realloc_rust_def shim_alloc_def Let_def)
next
  case False
  let ?n = "min (lsize l) new_size"
  obtain q where q: "shim_alloc malloc \<lparr>lsize = new_size, lalign = lalign l\<rparr> mem = (q, store_ptr mem (q - 8) raw)"
    "unat q mod 2 ^ k = 0" "unat raw + 8 \<le> unat q" "unat q < unat raw + 2 ^ k + 8"
    by (rule shim_alloc_large[of "\<lparr>lsize = new_size, lalign = lalign l\<rparr>" k malloc raw mem])
      (use al raw False fits in simp_all)
  define mem' where "mem' = copy_bytes (store_ptr mem (q - 8) raw) p q ?n"
  have n: "unat ?n \<le> unat new_size" "unat ?n \<le> unat (lsize l)" by (simp_all add: min_def word_le_nat_alt)
  have same: "mem' x = mem x" if "unat x \<notin> {unat raw ..< unat raw + (unat new_size + 2 ^ k + 8)}" for x
    unfolding mem'_def by (rule copy_outside) (use q n fits that in auto)
  have old_in: "mem' (p - 8 + of_nat i) = mem (p - 8 + of_nat i)" if "i < 8" for i
  proof -
    have u: "unat (of_nat i :: u64) = i" using that by (simp add: unat_of_nat)
    have "unat (p - 8 + of_nat i) = unat p - 8 + i"
      using unat_offset[of "p - 8" "of_nat i"] unat_sub_8[OF old(2)] u that unat_u64_less[of p] old(2) by simp
    then have "unat (p - 8 + of_nat i) \<in> {unat p - 8 ..< unat p + unat (lsize l)}" using that old(2) by auto
    then show ?thesis using disj by (intro same) blast
  qed
  have "shim_dealloc p l mem' = old"
    using load_ptr_cong[of mem' "p - 8" mem, OF old_in] old(1) al large_alignment[OF al(2,3)]
    by (simp add: shim_dealloc_def)
  moreover have "shim_dealloc q \<lparr>lsize = new_size, lalign = lalign l\<rparr> mem' = raw"
    using copy_stash[of q ?n mem raw p] q n fits al large_alignment[OF al(2,3)]
    by (simp add: shim_dealloc_def mem'_def)
  moreover have "mem' (q + i) = mem (p + i)" if "i < ?n" for i
  proof -
    have i: "unat i < unat (lsize l)" using that n(2) by (simp add: word_less_nat_alt)
    then have "unat (p + i) = unat p + unat i" using old(3) by (intro unat_offset) simp
    then have "unat (p + i) \<in> {unat p - 8 ..< unat p + unat (lsize l)}" using i by simp
    then have "unat (p + i) \<notin> {unat raw ..< unat raw + (unat new_size + 2 ^ k + 8)}" using disj by blast
    then have "unat (p + i) \<notin> {unat q - 8 ..< unat q}" using q by auto
    then show ?thesis using that store_ptr_outside[of q "p + i"] q(3) by (simp add: mem'_def copy_bytes_def)
  qed
  moreover have "q \<noteq> 0" using q(3) by auto
  moreover have "shim_realloc_rust malloc rc p l new_size mem = (q, mem', Some (shim_dealloc p l mem'))"
    using q(1) \<open>q \<noteq> 0\<close> al large_alignment[OF al(2,3)] by (simp add: shim_realloc_rust_def mem'_def Let_def)
  ultimately show ?thesis using False q by auto
qed

theorem realloc_moves_contents_witness:
  "\<exists>q mem'. shim_realloc_rust (\<lambda>_. 0x9000) (\<lambda>_ _. (0, \<lambda>_. 0)) 0x1040 \<lparr>lsize = 32, lalign = 64\<rparr> 64
      (store_ptr (\<lambda>x. ucast x) 0x1038 0x1010) = (q, mem', Some 0x1010) \<and>
     (\<forall>i < min 32 64. mem' (q + i) = store_ptr (\<lambda>x. ucast x) 0x1038 0x1010 (0x1040 + i))"
proof -
  have "load_ptr (store_ptr (\<lambda>x. ucast x) 0x1038 0x1010) (0x1040 - 8) = 0x1010"
    using load_store[of "store_ptr (\<lambda>x. ucast x) 0x1038 0x1010" "0x1038"] by simp
  from realloc_moves_contents[OF _ _ _ refl _ this, of "\<lparr>lsize = 32, lalign = 64\<rparr>" 6 "\<lambda>_. 0x9000" 64 "\<lambda>_ _. (0, \<lambda>_. 0)"]
  show ?thesis by auto
qed

end
