(* ===== verification/App_Request.thy ===== *)
theory App_Request
  imports App_Config App_Console App_Http App_Rss
begin

text \<open>
  What a connection of the benchmark asks for (\<open>src/lib.rs\<close>): the block of the object assigned to it,
  the HTTP request naming that block, and the monotonic clock.  Shown: the 384-byte request buffer
  always holds the whole request, which is one complete header; a block lies inside the object and has
  exactly the configured size; blocks are consecutive and disjoint until the object wraps, and not
  beyond.
\<close>

section \<open>Target\<close>

definition ascii :: "string \<Rightarrow> bytes" where
  "ascii = map of_char"

definition TARGET_HOST :: "bytes \<Rightarrow> bytes \<Rightarrow> bytes" where
  "TARGET_HOST bucket region = bucket @ ascii ''.s3.'' @ region @ ascii ''.amazonaws.com''"

definition TARGET_PATH :: bytes where
  "TARGET_PATH = ascii ''/blob.bin''"

section \<open>The request\<close>

text \<open>The fragments the formatter hands to \<open>write_str\<close>; the path is valid UTF-8.\<close>

definition request_fragments :: "bytes \<Rightarrow> u64 \<Rightarrow> u64 \<Rightarrow> bytes list" where
  "request_fragments host start end_inclusive =
     [ascii ''GET '', TARGET_PATH, ascii '' HTTP/1.1'' @ [CR, LF] @ ascii ''Host: '', host,
      [CR, LF] @ ascii ''User-Agent: minidpdk-smoltcp/0.1'' @ [CR, LF] @ ascii ''Range: bytes='',
      dec (unat start), ascii ''-'', dec (unat end_inclusive),
      [CR, LF] @ ascii ''Connection: close'' @ [CR, LF, CR, LF]]"

definition build_range_request :: "bytes \<Rightarrow> bytes \<Rightarrow> u64 \<Rightarrow> u64 \<Rightarrow> (bytes \<times> nat) option" where
  "build_range_request host b start end_inclusive = do {
     w \<leftarrow> write_fmt (bw_new b) (request_fragments host start end_inclusive);
     Some (buf w, used w)
   }"

text \<open>The caller's buffer and the request it keeps (\<open>request_buf[..n].to_vec()\<close>).\<close>

definition REQUEST_BUF :: nat where "REQUEST_BUF = 384"

definition conn_request :: "bytes \<Rightarrow> u64 \<Rightarrow> u64 \<Rightarrow> bytes option" where
  "conn_request host start end_inclusive = do {
     (b, n) \<leftarrow> build_range_request host (replicate REQUEST_BUF 0) start end_inclusive;
     slice b 0 n
   }"

section \<open>Blocks\<close>

text \<open>\<open>block_range\<close> is the range of the \<open>i\<close>-th connection of a worker whose first block is
  \<open>first_block\<close>; all arithmetic wraps at 64 bits, \<open>saturating_sub\<close> stops at 0.\<close>

definition sat_sub :: "u64 \<Rightarrow> u64 \<Rightarrow> u64" where
  "sat_sub a b = (if b \<le> a then a - b else 0)"

definition block_range :: "build_env \<Rightarrow> u64 \<Rightarrow> u64 \<Rightarrow> u64 \<times> u64" where
  "block_range e first_block i =
     (let block = first_block + i;
          stride = sat_sub (OBJECT_SIZE e) (BLOCK_SIZE e) + 1;
          start = (if stride = 0 then 0 else (block * BLOCK_SIZE e) mod stride)
      in (start, start + BLOCK_SIZE e - 1))"

section \<open>The clock\<close>

record mono_clock =
  epoch_ns :: u64

text \<open>\<open>now\<close> is what \<open>shim_time_ns\<close> returns.\<close>

definition clock_new :: "u64 \<Rightarrow> mono_clock" where
  "clock_new now = \<lparr>epoch_ns = now\<rparr>"

definition elapsed_ns :: "mono_clock \<Rightarrow> u64 \<Rightarrow> u64" where
  "elapsed_ns c now = sat_sub now (epoch_ns c)"

definition elapsed_ms :: "mono_clock \<Rightarrow> u64 \<Rightarrow> int" where
  "elapsed_ms c now = sint (elapsed_ns c now div 1000000)"

section \<open>The request buffer\<close>

lemma dec_length_le: "n < 10 ^ Suc k \<Longrightarrow> length (dec n) \<le> Suc k"
proof (induction k arbitrary: n)
  case 0
  then show ?case by (subst dec.simps) simp
next
  case (Suc k)
  show ?case
  proof (cases "n < 10")
    case True
    then show ?thesis by (subst dec.simps) simp
  next
    case False
    have "n div 10 < 10 ^ Suc k" using Suc.prems by (simp add: less_mult_imp_div_less mult.commute)
    then have "length (dec (n div 10)) \<le> Suc k" by (rule Suc.IH)
    then show ?thesis using False by (subst dec.simps) simp
  qed
qed

lemma dec_u64_length: "length (dec (unat (x :: u64))) \<le> 20"
proof -
  have "unat x < 2 ^ LENGTH(64)" by (rule unsigned_less)
  then have "unat x < 10 ^ Suc 19" by simp
  then show ?thesis using dec_length_le[of "unat x" 19] by simp
qed

lemma length_ascii [simp]: "length (ascii s) = length s"
  by (simp add: ascii_def)

lemma request_length: "length (concat (request_fragments host start stop)) =
   103 + length host + length (dec (unat start)) + length (dec (unat stop))"
  by (simp add: request_fragments_def TARGET_PATH_def)

lemma conn_request_text:
  assumes "length host \<le> 241"
  shows "conn_request host start stop = Some (concat (request_fragments host start stop))"
proof -
  let ?t = "concat (request_fragments host start stop)"
  have wf: "bw_wf (bw_new (replicate REQUEST_BUF 0))" by (simp add: bw_wf_def bw_new_def)
  obtain w where w: "write_fmt (bw_new (replicate REQUEST_BUF 0)) (request_fragments host start stop) = Some w"
    "bw_wf w" "bw_text w = take REQUEST_BUF (bw_text (bw_new (replicate REQUEST_BUF 0)) @ ?t)"
    by (rule write_fmt_correct[OF wf, of "request_fragments host start stop"])
      (simp add: bw_new_def)
  have "length ?t \<le> REQUEST_BUF"
    using assms dec_u64_length[of start] dec_u64_length[of stop] by (simp add: request_length REQUEST_BUF_def)
  then have "take (used w) (buf w) = ?t" using w(3) by (simp add: bw_text_def bw_new_def)
  then show ?thesis using w(1,2) by (simp add: conn_request_def build_range_request_def slice_def bw_wf_def)
qed

section \<open>The request is one header\<close>

lemma after_header_no_CR: "CR \<notin> set xs \<Longrightarrow> after_header (xs @ ys) = after_header ys"
  by (induction xs) (auto simp: header_end_def)

lemma after_header_line:
  assumes "y \<noteq> CR" "CR \<notin> set ys"
  shows "after_header (CR # LF # y # ys @ zs) = after_header zs"
  using assms after_header_no_CR[of "LF # y # ys" zs] by (simp add: header_end_def)

lemma dec_no_CR: "CR \<notin> set (dec n)"
  using dec_digits[of n] by auto

lemma request_is_header:
  assumes "CR \<notin> set host"
  shows "after_header (concat (request_fragments host start stop)) = Some []"
proof -
  have e: "concat (request_fragments host start stop) =
      (ascii ''GET '' @ TARGET_PATH @ ascii '' HTTP/1.1'') @
      CR # LF # 72 # (ascii ''ost: '' @ host) @
      CR # LF # 85 # ascii ''ser-Agent: minidpdk-smoltcp/0.1'' @
      CR # LF # 82 # (ascii ''ange: bytes='' @ dec (unat start) @ ascii ''-'' @ dec (unat stop)) @
      CR # LF # 67 # ascii ''onnection: close'' @ header_end"
    by (simp add: request_fragments_def header_end_def ascii_def)
  have n: "CR \<notin> set (ascii ''GET '' @ TARGET_PATH @ ascii '' HTTP/1.1'')" "CR \<notin> set (ascii ''ost: '' @ host)"
    "CR \<notin> set (ascii ''ser-Agent: minidpdk-smoltcp/0.1'')"
    "CR \<notin> set (ascii ''ange: bytes='' @ dec (unat start) @ ascii ''-'' @ dec (unat stop))"
    "CR \<notin> set (ascii ''onnection: close'')"
    using assms dec_no_CR[of "unat start"] dec_no_CR[of "unat stop"] by (simp_all add: TARGET_PATH_def ascii_def)
  show ?thesis unfolding e
    using n after_header_no_CR after_header_line by (simp add: header_end_def)
qed

section \<open>Blocks inside the object\<close>

lemma unat_stride:
  assumes "b \<le> ob" "0 < b"
  shows "unat (sat_sub ob b + 1 :: u64) = unat ob - unat b + 1"
proof -
  have "unat (ob - b) = unat ob - unat b" using assms(1) by (rule unat_sub)
  moreover have "unat ob < 2 ^ LENGTH(64)" by (rule unsigned_less)
  moreover have "0 < unat b" using assms(2) by (simp add: word_less_nat_alt)
  moreover have "unat b \<le> unat ob" using assms(1) by (simp add: word_le_nat_alt)
  ultimately have "unat (ob - b) + unat (1 :: u64) < 2 ^ LENGTH(64)" by simp
  then show ?thesis using unat_add_lem[of "ob - b" 1] assms(1) \<open>unat (ob - b) = unat ob - unat b\<close>
    by (simp add: sat_sub_def)
qed

text \<open>Start and end of a block as natural numbers.\<close>

lemma block_range_nat:
  assumes "0 < BLOCK_SIZE e" "BLOCK_SIZE e \<le> OBJECT_SIZE e" "block_range e f i = (start, stop)"
  shows "unat start = unat ((f + i) * BLOCK_SIZE e) mod (unat (OBJECT_SIZE e) - unat (BLOCK_SIZE e) + 1)"
    "unat stop = unat start + unat (BLOCK_SIZE e) - 1" "unat stop < unat (OBJECT_SIZE e)"
proof -
  let ?b = "BLOCK_SIZE e" and ?o = "OBJECT_SIZE e"
  have s: "unat (sat_sub ?o ?b + 1) = unat ?o - unat ?b + 1" by (rule unat_stride[OF assms(2,1)])
  then have nz: "sat_sub ?o ?b + 1 \<noteq> 0" by (metis Suc_eq_plus1 nat.distinct(1) unat_0)
  have st: "start = ((f + i) * ?b) mod (sat_sub ?o ?b + 1)" "stop = start + ?b - 1"
    using assms(3) nz by (auto simp: block_range_def Let_def)
  show u: "unat start = unat ((f + i) * ?b) mod (unat ?o - unat ?b + 1)"
    unfolding st(1) unat_mod s ..
  have l: "unat start < unat ?o - unat ?b + 1" unfolding u by simp
  have b: "0 < unat ?b" "unat ?b \<le> unat ?o" using assms(1,2) by (simp_all add: word_less_nat_alt word_le_nat_alt)
  have o: "unat ?o < 2 ^ LENGTH(64)" by (rule unsigned_less)
  have "unat start + unat ?b < 2 ^ LENGTH(64)" using l b o by linarith
  then have a: "unat (start + ?b) = unat start + unat ?b" using unat_add_lem[of start ?b] by simp
  then have "1 \<le> start + ?b" using b by (simp add: word_le_nat_alt)
  then show "unat stop = unat start + unat ?b - 1" using a unat_sub[of 1 "start + ?b"] by (simp add: st(2))
  then show "unat stop < unat ?o" using l b by linarith
qed

lemma block_start_linear:
  assumes "0 < BLOCK_SIZE e" "(unat (f + i) + 1) * unat (BLOCK_SIZE e) \<le> unat (OBJECT_SIZE e)"
    "block_range e f i = (start, stop)"
  shows "unat start = unat (f + i) * unat (BLOCK_SIZE e)"
proof -
  let ?b = "BLOCK_SIZE e" and ?o = "OBJECT_SIZE e"
  have le: "unat (f + i) * unat ?b + unat ?b \<le> unat ?o" using assms(2) by simp
  have b: "?b \<le> ?o" using le by (simp add: word_le_nat_alt)
  have "unat ?o < 2 ^ LENGTH(64)" by (rule unsigned_less)
  then have "unat (f + i) * unat ?b < 2 ^ LENGTH(64)" using le by linarith
  then have "unat ((f + i) * ?b) = unat (f + i) * unat ?b" using unat_mult_lem by blast
  moreover have "unat (f + i) * unat ?b < unat ?o - unat ?b + 1" using le by linarith
  ultimately show ?thesis using block_range_nat(1)[OF assms(1) b assms(3)] by simp
qed

lemma multiples_disjoint:
  assumes "(x :: nat) \<noteq> y" "0 < n"
  shows "{x * n .. x * n + n - 1} \<inter> {y * n .. y * n + n - 1} = {}"
proof -
  have "x * n + n \<le> y * n \<or> y * n + n \<le> x * n"
  proof (cases "x < y")
    case True
    then have "(x + 1) * n \<le> y * n" by (intro mult_le_mono1) simp
    then show ?thesis by simp
  next
    case False
    with assms(1) have "(y + 1) * n \<le> x * n" by (intro mult_le_mono1) simp
    then show ?thesis by simp
  qed
  then show ?thesis using assms(2) by auto
qed

section \<open>The clock\<close>

lemma sint_u64_small: "0 \<le> d \<Longrightarrow> d < 2 ^ 63 \<Longrightarrow> sint (word_of_int d :: u64) = d"
  by (simp add: signed_of_int signed_take_bit_int_eq_self)

lemma elapsed_ms_eq: "elapsed_ms c now = uint (elapsed_ns c now) div 1000000"
proof -
  let ?x = "elapsed_ns c now"
  have u: "uint (?x div 1000000) = uint ?x div 1000000" by (simp add: uint_div)
  have "uint ?x < 2 ^ LENGTH(64)" by (rule unsigned_less)
  then have "uint ?x div 1000000 < 2 ^ 63" by simp
  then have "sint (word_of_int (uint (?x div 1000000)) :: u64) = uint ?x div 1000000"
    unfolding u by (intro sint_u64_small) (simp_all add: pos_imp_zdiv_nonneg_iff)
  then show ?thesis by (simp add: elapsed_ms_def)
qed

lemma elapsed_ms_nonneg: "0 \<le> elapsed_ms c now"
  by (simp add: elapsed_ms_eq pos_imp_zdiv_nonneg_iff)

section \<open>Properties\<close>

text \<open>C38: the request.  For a bucket and region name of up to 223 bytes together and without carriage
  return, \<open>build_range_request\<close> fits its 384-byte buffer: the request kept is the whole text, names
  exactly the range asked for, and is one HTTP header that ends with its only CRLFCRLF.\<close>

theorem request_complete:
  assumes "length bucket + length region \<le> 223" "CR \<notin> set bucket" "CR \<notin> set region"
  shows "\<exists>req. conn_request (TARGET_HOST bucket region) start stop = Some req \<and>
    req = concat (request_fragments (TARGET_HOST bucket region) start stop) \<and> length req \<le> REQUEST_BUF \<and>
    (\<exists>pre post. req = pre @ ascii ''Range: bytes='' @ dec (unat start) @ ascii ''-'' @ dec (unat stop) @ [CR, LF] @ post) \<and>
    after_header req = Some []"
proof -
  let ?h = "TARGET_HOST bucket region"
  let ?req = "concat (request_fragments ?h start stop)"
  have l: "length ?h \<le> 241" using assms(1) by (simp add: TARGET_HOST_def)
  have "?req = (ascii ''GET '' @ TARGET_PATH @ ascii '' HTTP/1.1'' @ [CR, LF] @ ascii ''Host: '' @ ?h @
      [CR, LF] @ ascii ''User-Agent: minidpdk-smoltcp/0.1'' @ [CR, LF]) @
      ascii ''Range: bytes='' @ dec (unat start) @ ascii ''-'' @ dec (unat stop) @ [CR, LF] @
      (ascii ''Connection: close'' @ [CR, LF, CR, LF])"
    by (simp add: request_fragments_def)
  moreover have "length ?req \<le> REQUEST_BUF"
    using l dec_u64_length[of start] dec_u64_length[of stop] by (simp add: request_length REQUEST_BUF_def)
  moreover have "CR \<notin> set ?h" using assms(2,3) by (simp add: TARGET_HOST_def ascii_def)
  ultimately show ?thesis using conn_request_text[OF l] request_is_header by metis
qed

theorem request_complete_witness:
  "\<exists>req. conn_request (TARGET_HOST (ascii ''bench'') (ascii ''eu-west-1'')) 0 67108863 = Some req \<and>
     after_header req = Some []"
  using request_complete[of "ascii ''bench''" "ascii ''eu-west-1''" 0 67108863] by (auto simp: ascii_def)

text \<open>The blocks.  When the object is at least one block long, every connection is assigned a range
  of exactly \<open>BLOCK_SIZE\<close> bytes inside the object, and two different blocks that end before the object
  wraps have no byte in common.\<close>

theorem blocks_inside_object:
  assumes "0 < BLOCK_SIZE e" "BLOCK_SIZE e \<le> OBJECT_SIZE e"
    and "block_range e f i = (a, b)" "block_range e f' j = (c, d)"
  shows "unat a \<le> unat b \<and> unat b < unat (OBJECT_SIZE e) \<and> unat b + 1 - unat a = unat (BLOCK_SIZE e) \<and>
    b - a + 1 = BLOCK_SIZE e \<and>
    (f + i \<noteq> f' + j \<and> (unat (f + i) + 1) * unat (BLOCK_SIZE e) \<le> unat (OBJECT_SIZE e) \<and>
      (unat (f' + j) + 1) * unat (BLOCK_SIZE e) \<le> unat (OBJECT_SIZE e) \<longrightarrow>
      {unat a .. unat b} \<inter> {unat c .. unat d} = {})"
proof -
  let ?b = "BLOCK_SIZE e"
  have b: "0 < unat ?b" using assms(1) by (simp add: word_less_nat_alt)
  note r = block_range_nat[OF assms(1,2,3)] and r' = block_range_nat[OF assms(1,2,4)]
  have "b - a + 1 = ?b" using assms(3) by (auto simp: block_range_def Let_def)
  moreover have "{unat a .. unat b} \<inter> {unat c .. unat d} = {}"
    if "f + i \<noteq> f' + j" "(unat (f + i) + 1) * unat ?b \<le> unat (OBJECT_SIZE e)"
      "(unat (f' + j) + 1) * unat ?b \<le> unat (OBJECT_SIZE e)"
    using block_start_linear[OF assms(1) that(2) assms(3)] block_start_linear[OF assms(1) that(3) assms(4)]
      r(2) r'(2) that(1) b multiples_disjoint[of "unat (f + i)" "unat (f' + j)" "unat ?b"]
    by (simp add: word_unat_eq_iff)
  moreover have "unat a \<le> unat b" "unat b + 1 - unat a = unat ?b" using r(2) b by linarith+
  ultimately show ?thesis using r(3) by blast
qed

theorem blocks_inside_object_witness:
  "{unat (fst (block_range demo_env 0 0)) .. unat (snd (block_range demo_env 0 0))} \<inter>
   {unat (fst (block_range demo_env 24 1)) .. unat (snd (block_range demo_env 24 1))} = {}"
proof -
  have "OBJECT_SIZE demo_env = 10737418240" "BLOCK_SIZE demo_env = 67108864"
    by (simp_all add: OBJECT_SIZE_def BLOCK_SIZE_def demo_env_def parse_size_def)
  then show ?thesis
    using blocks_inside_object[of demo_env 0 0 "fst (block_range demo_env 0 0)" "snd (block_range demo_env 0 0)"
        24 1 "fst (block_range demo_env 24 1)" "snd (block_range demo_env 24 1)"] by simp
qed

text \<open>The default configuration (8 workers of 24 connections, 64 MiB blocks, a 10 GiB object) has 192
  blocks where 160 fit: block 160, the 17th connection of the seventh worker, wraps and shares a byte
  with block 0, so the ranges the connections fetch are not disjoint.\<close>

theorem default_blocks_overlap:
  "block_range demo_env 0 0 = (0, 67108863) \<and> block_range demo_env (6 * CONNS_PER_WORKER demo_env) 16 = (67108863, 134217726) \<and>
   6 < N_WORKERS_REQ demo_env \<and> 16 < CONNS_PER_WORKER demo_env"
  by (simp add: block_range_def OBJECT_SIZE_def BLOCK_SIZE_def CONNS_PER_WORKER_def N_WORKERS_REQ_def demo_env_def
      parse_size_def sat_sub_def)

end
