(* ===== verification/App_Probe.thy ===== *)
theory App_Probe
  imports App_Request App_Device
begin

text \<open>
  Opening the NIC (\<open>probe_and_open\<close> and \<open>PktPool\<close> of \<open>src/lib.rs\<close>).  The driver is the record \<open>nic\<close> of
  what its calls return; the calls made are recorded in order in a trace, the pool creations with the
  pointer they returned (0 is null).  Leaving the function early drops the vector of pools, which frees
  them.  Shown: on success every queue is set up with a pool of its own, large enough for all its
  simultaneous holders, before the port is started; on failure the port is not started and every pool
  created has been freed exactly once.
\<close>

section \<open>The driver\<close>

type_synonym pool = nat

record nic =
  pool_ret :: "u16 \<Rightarrow> pool"
  configure_ret :: int
  adjusted :: "u16 \<times> u16 \<Rightarrow> u16 \<times> u16"
  rx_setup_ret :: "u16 \<Rightarrow> int"
  tx_setup_ret :: "u16 \<Rightarrow> int"
  start_ret :: int
  nic_mac :: bytes

datatype nic_call =
    Pool_create bytes u32 u32 u16 u16 pool
  | Mempool_free pool
  | Dev_configure u16 u16 u16
  | Adjust_desc u16 u16 u16
  | Rx_queue_setup u16 u16 u16 pool
  | Tx_queue_setup u16 u16 u16
  | Dev_start u16
  | Macaddr_get u16

section \<open>Pools\<close>

text \<open>\<open>Drop for PktPool\<close>, and the drop of a vector of them, front to back.\<close>

definition drop_pool :: "pool \<Rightarrow> nic_call list" where
  "drop_pool p = (if p \<noteq> 0 then [Mempool_free p] else [])"

definition drop_pools :: "pool list \<Rightarrow> nic_call list" where
  "drop_pools ps = concat (map drop_pool ps)"

definition PORT :: u16 where "PORT = 0"
definition DATA_ROOM_SIZE :: u16 where "DATA_ROOM_SIZE = 1536"
definition DESC_NUM :: u16 where "DESC_NUM = 4096"
definition CACHE :: u32 where "CACHE = 64"

definition per_queue_size :: u32 where
  "per_queue_size = ucast DESC_NUM * 2 + CACHE + of_nat RX_BURST + 512"

text \<open>The 32-byte name buffer after \<open>write!(.., "bench-pool-{}\0", q)\<close>.\<close>

definition pool_name :: "u16 \<Rightarrow> bytes option" where
  "pool_name q = do {
     w \<leftarrow> write_fmt (bw_new (replicate 32 0)) [ascii ''bench-pool-'', dec (unat q), [0]];
     Some (buf w)
   }"

text \<open>The first loop: \<open>Inl\<close> is the early return with the pools dropped.  The outer \<open>None\<close> is a panic.\<close>

fun create_pools :: "nic \<Rightarrow> u16 list \<Rightarrow> pool list \<Rightarrow> nic_call list \<Rightarrow> (nic_call list + pool list \<times> nic_call list) option" where
  "create_pools n [] pools tr = Some (Inr (pools, tr))"
| "create_pools n (q # qs) pools tr = do {
     name \<leftarrow> pool_name q;
     let raw = pool_ret n q;
     let tr1 = tr @ [Pool_create name per_queue_size CACHE 0 DATA_ROOM_SIZE raw];
     if raw = 0 then Some (Inl (tr1 @ drop_pools pools))
     else create_pools n qs (pools @ [raw]) tr1
   }"

section \<open>Queues\<close>

text \<open>The second loop; \<open>Inl\<close> is the early return, \<open>pools[q as usize]\<close> is bounds-checked.\<close>

fun setup_queues :: "nic \<Rightarrow> u16 \<Rightarrow> u16 \<Rightarrow> pool list \<Rightarrow> u16 list \<Rightarrow> nic_call list \<Rightarrow> (nic_call list + nic_call list) option" where
  "setup_queues n rx_desc tx_desc pools [] tr = Some (Inr tr)"
| "setup_queues n rx_desc tx_desc pools (q # qs) tr = do {
     assert_that (unat q < length pools);
     let tr1 = tr @ [Rx_queue_setup PORT q rx_desc (pools ! unat q)];
     if rx_setup_ret n q \<noteq> 0 then Some (Inl (tr1 @ drop_pools pools))
     else do {
       let tr2 = tr1 @ [Tx_queue_setup PORT q tx_desc];
       if tx_setup_ret n q \<noteq> 0 then Some (Inl (tr2 @ drop_pools pools))
       else setup_queues n rx_desc tx_desc pools qs tr2
     }
   }"

section \<open>probe_and_open\<close>

definition queue_ids :: "u16 \<Rightarrow> u16 list" where
  "queue_ids n_queues = map of_nat [0..<unat n_queues]"

definition probe_and_open :: "nic \<Rightarrow> u16 \<Rightarrow> ((pool list \<times> bytes) option \<times> nic_call list) option" where
  "probe_and_open n n_queues = do {
     r \<leftarrow> create_pools n (queue_ids n_queues) [] [];
     (case r of
        Inl tr \<Rightarrow> Some (None, tr)
      | Inr (pools, tr) \<Rightarrow>
          let tr1 = tr @ [Dev_configure PORT n_queues n_queues] in
          if configure_ret n \<noteq> 0 then Some (None, tr1 @ drop_pools pools)
          else do {
            let (rx_desc, tx_desc) = adjusted n (DESC_NUM, DESC_NUM);
            let tr2 = tr1 @ [Adjust_desc PORT DESC_NUM DESC_NUM];
            s \<leftarrow> setup_queues n rx_desc tx_desc pools (queue_ids n_queues) tr2;
            (case s of
               Inl tr3 \<Rightarrow> Some (None, tr3)
             | Inr tr3 \<Rightarrow>
                 let tr4 = tr3 @ [Dev_start PORT] in
                 if start_ret n \<noteq> 0 then Some (None, tr4 @ drop_pools pools)
                 else Some (Some (pools, nic_mac n), tr4 @ [Macaddr_get PORT]))
          })
   }"

section \<open>What the calls amount to\<close>

text \<open>The pools a trace created (null returns left out) and those it freed.\<close>

fun created :: "nic_call list \<Rightarrow> pool list" where
  "created [] = []"
| "created (Pool_create _ _ _ _ _ p # tr) = (if p \<noteq> 0 then p # created tr else created tr)"
| "created (_ # tr) = created tr"

fun pools_freed :: "nic_call list \<Rightarrow> pool list" where
  "pools_freed [] = []"
| "pools_freed (Mempool_free p # tr) = p # pools_freed tr"
| "pools_freed (_ # tr) = pools_freed tr"

lemma created_append [simp]: "created (a @ b) = created a @ created b"
  by (induction a rule: created.induct) auto

lemma pools_freed_append [simp]: "pools_freed (a @ b) = pools_freed a @ pools_freed b"
  by (induction a rule: pools_freed.induct) auto

lemma drop_pools_trace:
  "created (drop_pools ps) = [] \<and> pools_freed (drop_pools ps) = filter (\<lambda>p. p \<noteq> 0) ps \<and> Dev_start p \<notin> set (drop_pools ps)"
  by (induction ps) (simp_all add: drop_pools_def drop_pool_def)

text \<open>Formatting leaves the rest of the buffer alone.\<close>

lemma write_fmt_keeps_rest:
  "bw_wf w \<Longrightarrow> write_fmt w ss = Some w' \<Longrightarrow> used w \<le> used w' \<and> drop (used w') (buf w') = drop (used w') (buf w)"
proof (induction ss arbitrary: w)
  case Nil
  then show ?case by simp
next
  case (Cons s ss)
  let ?n = "min (length s) (length (buf w) - used w)"
  let ?w = "w\<lparr>buf := overwrite (buf w) (used w) (take ?n s), used := used w + ?n\<rparr>"
  have e: "write_str w s = Some ?w" using Cons.prems(1)
    by (simp add: write_str_def bw_wf_def slice_def copy_at_def Let_def)
  have 1: "bw_wf ?w" "drop (used ?w) (buf ?w) = drop (used ?w) (buf w)"
    using Cons.prems(1) by (simp_all add: bw_wf_def overwrite_def)
  have 2: "used ?w \<le> used w'" "drop (used w') (buf w') = drop (used w') (buf ?w)"
    using Cons.IH[OF 1(1)] Cons.prems(2) e by auto
  have "drop (used w') (buf ?w) = drop (used w') (buf w)"
    using arg_cong[OF 1(2), of "drop (used w' - used ?w)"] 2(1) by (simp add: add.commute)
  then show ?case using 2 by simp
qed

lemma dec_le_u16: "length (dec (unat (q :: u16))) \<le> 5"
proof -
  have "unat q < 2 ^ LENGTH(16)" by (rule unsigned_less)
  then show ?thesis using dec_length_le[of "unat q" 4] by simp
qed

definition pool_label :: "u16 \<Rightarrow> bytes" where
  "pool_label q = ascii ''bench-pool-'' @ dec (unat q)"

lemma pool_name_eq: "pool_name q = Some (pool_label q @ replicate (32 - length (pool_label q)) 0)"
proof -
  let ?fs = "[ascii ''bench-pool-'', dec (unat q), [0]]"
  have l: "length (pool_label q) \<le> 16" using dec_le_u16[of q] by (simp add: pool_label_def ascii_def)
  have wf: "bw_wf (bw_new (replicate 32 0))" by (simp add: bw_wf_def bw_new_def)
  obtain w where w: "write_fmt (bw_new (replicate 32 0)) ?fs = Some w" "bw_wf w" "length (buf w) = length (buf (bw_new (replicate 32 0)))"
    "bw_text w = take (length (buf (bw_new (replicate 32 0)))) (bw_text (bw_new (replicate 32 0)) @ concat ?fs)"
    by (rule write_fmt_correct[OF wf])
  have r: "drop (used w) (buf w) = drop (used w) (replicate 32 0)"
    using write_fmt_keeps_rest[OF wf w(1)] by (simp add: bw_new_def)
  have t: "bw_text w = pool_label q @ [0]"
    using w(4) l by (simp add: bw_text_def bw_new_def pool_label_def)
  have u: "used w = length (pool_label q) + 1"
    using arg_cong[OF t, of length] w(2) by (simp add: bw_text_def bw_wf_def)
  have "buf w = bw_text w @ drop (used w) (buf w)" by (simp add: bw_text_def)
  also have "\<dots> = pool_label q @ replicate (32 - length (pool_label q)) 0"
    using t u r l by (simp flip: replicate_Suc add: Suc_diff_Suc)
  finally show ?thesis using w(1) by (simp add: pool_name_def)
qed

lemma pool_label_inj: "pool_label a = pool_label b \<Longrightarrow> a = b"
  unfolding pool_label_def same_append_eq by (metis dec_value_dec word_unat_eq_iff)

section \<open>The two loops\<close>

text \<open>The calls for one queue.\<close>

definition create_call :: "nic \<Rightarrow> u16 \<Rightarrow> nic_call" where
  "create_call n q = Pool_create (pool_label q @ replicate (32 - length (pool_label q)) 0) per_queue_size CACHE 0 DATA_ROOM_SIZE (pool_ret n q)"

definition setup_calls :: "u16 \<times> u16 \<Rightarrow> pool list \<Rightarrow> u16 \<Rightarrow> nic_call list" where
  "setup_calls descs ps q = [Rx_queue_setup PORT q (fst descs) (ps ! unat q), Tx_queue_setup PORT q (snd descs)]"

text \<open>Calls that neither create nor free a pool nor start the port.\<close>

definition quiet :: "nic_call list \<Rightarrow> bool" where
  "quiet tr \<longleftrightarrow> created tr = [] \<and> pools_freed tr = [] \<and> Dev_start PORT \<notin> set tr"

lemma quiet_append [simp]: "quiet (a @ b) \<longleftrightarrow> quiet a \<and> quiet b"
  by (auto simp: quiet_def)

lemma created_creates:
  "\<forall>q \<in> set qs. pool_ret n q \<noteq> 0 \<Longrightarrow> created (map (create_call n) qs) = map (pool_ret n) qs"
  by (induction qs) (simp_all add: create_call_def)

lemma created_nonzero:
  "\<forall>q \<in> set qs. pool_ret n q \<noteq> 0 \<Longrightarrow> filter (\<lambda>p. p \<noteq> 0) (map (pool_ret n) qs) = map (pool_ret n) qs"
  by (induction qs) simp_all

lemma freed_creates: "pools_freed (map (create_call n) qs) = []" "Dev_start p \<notin> set (map (create_call n) qs)"
  by (induction qs) (simp_all add: create_call_def)

lemma quiet_setups: "quiet (concat (map (setup_calls descs ps) qs))"
  by (induction qs) (simp_all add: quiet_def setup_calls_def)

lemma create_pools_cases:
  "create_pools n qs ps tr =
     (if \<forall>q \<in> set qs. pool_ret n q \<noteq> 0 then Some (Inr (ps @ map (pool_ret n) qs, tr @ map (create_call n) qs))
      else let ok = takeWhile (\<lambda>q. pool_ret n q \<noteq> 0) qs; bad = hd (dropWhile (\<lambda>q. pool_ret n q \<noteq> 0) qs)
        in Some (Inl (tr @ map (create_call n) (ok @ [bad]) @ drop_pools (ps @ map (pool_ret n) ok))))"
  by (induction qs arbitrary: ps tr) (simp_all add: pool_name_eq create_call_def Let_def)

lemma setup_queues_cases:
  assumes "\<forall>q \<in> set qs. unat q < length ps"
  shows "if \<forall>q \<in> set qs. rx_setup_ret n q = 0 \<and> tx_setup_ret n q = 0
    then setup_queues n rxd txd ps qs tr = Some (Inr (tr @ concat (map (setup_calls (rxd, txd) ps) qs)))
    else \<exists>more. setup_queues n rxd txd ps qs tr = Some (Inl (tr @ more @ drop_pools ps)) \<and> quiet more"
  using assms
proof (induction qs arbitrary: tr)
  case Nil
  then show ?case by simp
next
  case (Cons q qs)
  have q1: "quiet [Rx_queue_setup PORT q rxd (ps ! unat q)]"
    and q2: "quiet [Rx_queue_setup PORT q rxd (ps ! unat q), Tx_queue_setup PORT q txd]" by (simp_all add: quiet_def)
  let ?tr = "tr @ setup_calls (rxd, txd) ps q"
  have IH: "if \<forall>q \<in> set qs. rx_setup_ret n q = 0 \<and> tx_setup_ret n q = 0
    then setup_queues n rxd txd ps qs ?tr = Some (Inr (?tr @ concat (map (setup_calls (rxd, txd) ps) qs)))
    else \<exists>more. setup_queues n rxd txd ps qs ?tr = Some (Inl (?tr @ more @ drop_pools ps)) \<and> quiet more"
    using Cons.IH[of ?tr] Cons.prems by simp
  consider (rx) "rx_setup_ret n q \<noteq> 0" | (tx) "rx_setup_ret n q = 0" "tx_setup_ret n q \<noteq> 0"
    | (ok) "rx_setup_ret n q = 0" "tx_setup_ret n q = 0" by blast
  then show ?case
  proof cases
    case rx
    then show ?thesis using Cons.prems q1 by force
  next
    case tx
    then show ?thesis using Cons.prems q2 by force
  next
    case ok
    have s: "setup_queues n rxd txd ps (q # qs) tr = setup_queues n rxd txd ps qs ?tr"
      using ok Cons.prems by (simp add: setup_calls_def)
    show ?thesis
    proof (cases "\<forall>q \<in> set qs. rx_setup_ret n q = 0 \<and> tx_setup_ret n q = 0")
      case True
      then show ?thesis using IH ok s by simp
    next
      case False
      then obtain more where "setup_queues n rxd txd ps qs ?tr = Some (Inl (?tr @ more @ drop_pools ps))" "quiet more"
        using IH[unfolded if_not_P[OF False]] by blast
      then have "setup_queues n rxd txd ps (q # qs) tr = Some (Inl (tr @ (setup_calls (rxd, txd) ps q @ more) @ drop_pools ps)) \<and>
          quiet (setup_calls (rxd, txd) ps q @ more)" using s by (simp add: setup_calls_def quiet_def)
      then show ?thesis using False by (auto simp del: setup_queues.simps)
    qed
  qed
qed

section \<open>Properties\<close>

lemma queue_ids_nth: "i < unat n \<Longrightarrow> unat (of_nat i :: u16) = i" for n :: u16
proof -
  assume "i < unat n"
  moreover have "unat n < 2 ^ LENGTH(16)" by (rule unsigned_less)
  ultimately show ?thesis by (simp add: unat_of_nat)
qed

lemma setup_calls_own:
  "concat (map (setup_calls descs (map (pool_ret n) (queue_ids nq))) (queue_ids nq)) =
   concat (map (\<lambda>q. [Rx_queue_setup PORT q (fst descs) (pool_ret n q), Tx_queue_setup PORT q (snd descs)]) (queue_ids nq))"
  by (rule arg_cong[of _ _ concat], rule map_cong[OF refl])
    (auto simp: setup_calls_def queue_ids_def queue_ids_nth)

definition nic_usable :: "nic \<Rightarrow> u16 \<Rightarrow> bool" where
  "nic_usable n nq \<longleftrightarrow> (\<forall>q \<in> set (queue_ids nq). pool_ret n q \<noteq> 0) \<and> configure_ret n = 0 \<and>
     (\<forall>q \<in> set (queue_ids nq). rx_setup_ret n q = 0 \<and> tx_setup_ret n q = 0) \<and> start_ret n = 0"

lemma queue_ids_inj: "i < unat n \<Longrightarrow> j < unat n \<Longrightarrow> (of_nat i :: u16) = of_nat j \<Longrightarrow> i = j" for n :: u16
  by (metis queue_ids_nth)

lemma queue_ids_bound: "\<forall>q \<in> set (queue_ids nq). unat q < length (map (pool_ret n) (queue_ids nq))"
  by (auto simp: queue_ids_def queue_ids_nth)

text \<open>The outcome of \<open>probe_and_open\<close> by the first call that fails.\<close>

lemma probe_cases:
  fixes n nq
  defines "qs \<equiv> queue_ids nq" and "ps \<equiv> map (pool_ret n) (queue_ids nq)"
  obtains (pool) ok bad where "probe_and_open n nq =
      Some (None, map (create_call n) (ok @ [bad]) @ drop_pools (map (pool_ret n) ok))"
      "\<forall>q \<in> set ok. pool_ret n q \<noteq> 0" "pool_ret n bad = 0" "\<not> nic_usable n nq"
  | (queues) more where "probe_and_open n nq = Some (None, map (create_call n) qs @ more @ drop_pools ps)"
      "quiet more" "\<forall>q \<in> set qs. pool_ret n q \<noteq> 0" "\<not> nic_usable n nq"
  | (start) more where "probe_and_open n nq = Some (None, map (create_call n) qs @ more @ [Dev_start PORT] @ drop_pools ps)"
      "quiet more" "\<forall>q \<in> set qs. pool_ret n q \<noteq> 0" "start_ret n \<noteq> 0" "\<not> nic_usable n nq"
  | (opened) "probe_and_open n nq = Some (Some (ps, nic_mac n), map (create_call n) qs @
      [Dev_configure PORT nq nq, Adjust_desc PORT DESC_NUM DESC_NUM] @
      concat (map (setup_calls (adjusted n (DESC_NUM, DESC_NUM)) ps) qs) @ [Dev_start PORT, Macaddr_get PORT])"
      "nic_usable n nq"
proof -
  obtain rxd txd where d: "adjusted n (DESC_NUM, DESC_NUM) = (rxd, txd)" by force
  show thesis
  proof (cases "\<forall>q \<in> set qs. pool_ret n q \<noteq> 0")
    case False
    let ?P = "\<lambda>q. pool_ret n q \<noteq> 0"
    have "dropWhile ?P qs \<noteq> []" using False by (simp add: dropWhile_eq_Nil_conv)
    then have "pool_ret n (hd (dropWhile ?P qs)) = 0" using hd_dropWhile[of ?P qs] by blast
    moreover have "\<not> nic_usable n nq" using False by (auto simp: nic_usable_def qs_def)
    moreover have "create_pools n qs [] [] = Some (Inl (map (create_call n) (takeWhile ?P qs @ [hd (dropWhile ?P qs)]) @
        drop_pools (map (pool_ret n) (takeWhile ?P qs))))"
      unfolding create_pools_cases if_not_P[OF False] by (simp add: Let_def)
    then have "probe_and_open n nq = Some (None, map (create_call n) (takeWhile ?P qs @ [hd (dropWhile ?P qs)]) @
        drop_pools (map (pool_ret n) (takeWhile ?P qs)))"
      by (simp add: probe_and_open_def qs_def)
    moreover have "\<forall>q \<in> set (takeWhile ?P qs). pool_ret n q \<noteq> 0" by (auto dest: set_takeWhileD)
    ultimately show thesis by (intro pool)
  next
    case p: True
    then have c: "create_pools n qs [] [] = Some (Inr (ps, map (create_call n) qs))"
      by (simp add: create_pools_cases ps_def qs_def)
    show thesis
    proof (cases "configure_ret n = 0")
      case False
      then show thesis using c p queues[of "[Dev_configure PORT nq nq]"]
        by (simp add: probe_and_open_def qs_def quiet_def nic_usable_def)
    next
      case conf: True
      let ?tr = "map (create_call n) qs @ [Dev_configure PORT nq nq, Adjust_desc PORT DESC_NUM DESC_NUM]"
      note sq = setup_queues_cases[OF queue_ids_bound[of nq n], of n rxd txd ?tr, folded ps_def qs_def]
      show thesis
      proof (cases "\<forall>q \<in> set qs. rx_setup_ret n q = 0 \<and> tx_setup_ret n q = 0")
        case False
        then obtain more where "setup_queues n rxd txd ps qs ?tr = Some (Inl (?tr @ more @ drop_pools ps))" "quiet more"
          using sq[unfolded if_not_P[OF False]] by blast
        moreover have "\<not> nic_usable n nq" using False by (auto simp: nic_usable_def qs_def)
        ultimately show thesis
          using c p conf d queues[of "[Dev_configure PORT nq nq, Adjust_desc PORT DESC_NUM DESC_NUM] @ more"]
          by (simp add: probe_and_open_def qs_def[symmetric] quiet_def)
      next
        case True
        let ?s = "concat (map (setup_calls (rxd, txd) ps) qs)"
        have e: "setup_queues n rxd txd ps qs ?tr = Some (Inr (?tr @ ?s))" using sq True by simp
        show thesis
        proof (cases "start_ret n = 0")
          case False
          have "quiet ([Dev_configure PORT nq nq, Adjust_desc PORT DESC_NUM DESC_NUM] @ ?s)"
            using quiet_setups[of "(rxd, txd)" ps qs] by (simp add: quiet_def)
          then show thesis
            using c p conf d e False start[of "[Dev_configure PORT nq nq, Adjust_desc PORT DESC_NUM DESC_NUM] @ ?s"]
            by (simp add: probe_and_open_def qs_def[symmetric] nic_usable_def)
        next
          case st: True
          then have "nic_usable n nq" using p conf True by (simp add: nic_usable_def qs_def)
          then show thesis using c conf d e st opened by (simp add: probe_and_open_def qs_def[symmetric])
        qed
      qed
    qed
  qed
qed

text \<open>Opening the NIC.  \<open>probe_and_open\<close> never panics and succeeds exactly when every driver call
  does.  It then has made, in this order and nothing else: one pool per queue, named after the queue
  and never freed, the port configuration and the descriptor adjustment, the RX and TX setup of
  every queue with the queue's own pool and the adjusted descriptor counts, the start of the port.
  A pool holds every buffer that can be in use at once: an RX ring less one, a TX ring, the cache
  and the prefetch buffer.\<close>

theorem probe_opens_exactly:
  "(\<exists>res tr. probe_and_open n nq = Some (res, tr) \<and> (res \<noteq> None \<longleftrightarrow> nic_usable n nq)) \<and>
   (nic_usable n nq \<longrightarrow> probe_and_open n nq = Some (Some (map (pool_ret n) (queue_ids nq), nic_mac n),
      map (\<lambda>q. Pool_create (pool_label q @ replicate (32 - length (pool_label q)) 0) 8800 64 0 1536 (pool_ret n q)) (queue_ids nq) @
      [Dev_configure 0 nq nq, Adjust_desc 0 4096 4096] @
      concat (map (\<lambda>q. [Rx_queue_setup 0 q (fst (adjusted n (4096, 4096))) (pool_ret n q),
        Tx_queue_setup 0 q (snd (adjusted n (4096, 4096)))]) (queue_ids nq)) @
      [Dev_start 0, Macaddr_get 0])) \<and>
   distinct (map pool_label (queue_ids nq)) \<and> (4096 - 1) + 4096 + 64 + RX_BURST \<le> 8800"
proof -
  have d: "distinct (map pool_label (queue_ids nq))"
    unfolding distinct_map queue_ids_def
    by (intro conjI inj_onI) (auto simp: inj_on_def dest: pool_label_inj intro: queue_ids_inj)
  show ?thesis
  proof (cases rule: probe_cases[of n nq])
    case opened
    then show ?thesis using d
      by (simp add: setup_calls_own create_call_def per_queue_size_def PORT_def DESC_NUM_def CACHE_def DATA_ROOM_SIZE_def RX_BURST_def
          cong: map_cong)
  qed (use d in \<open>auto simp: RX_BURST_def\<close>)
qed


definition demo_nic :: "int \<Rightarrow> nic" where
  "demo_nic rc = \<lparr>pool_ret = (\<lambda>q. unat q + 1), configure_ret = 0, adjusted = (\<lambda>(r, t). (min r 1024, min t 1024)),
     rx_setup_ret = (\<lambda>q. if q = 1 then rc else 0), tx_setup_ret = (\<lambda>q. 0), start_ret = 0, nic_mac = [2, 0, 0, 0, 0, 9]\<rparr>"

lemma demo_queues: "queue_ids 2 = [0, 1]"
  by (simp add: queue_ids_def upt_rec)

theorem probe_opens_exactly_witness:
  "nic_usable (demo_nic 0) 2 \<and> (\<exists>tr. probe_and_open (demo_nic 0) 2 = Some (Some ([1, 2], [2, 0, 0, 0, 0, 9]), tr) \<and>
     Rx_queue_setup 0 1 1024 2 \<in> set tr)"
proof -
  have u: "nic_usable (demo_nic 0) 2" by (simp add: nic_usable_def demo_nic_def)
  show ?thesis using u probe_opens_exactly[of "demo_nic 0" 2] by (simp add: demo_nic_def demo_queues)
qed

text \<open>A NIC that cannot be opened.  Whatever call fails, every pool that was created has been freed
  exactly once, in order, and the port was not started, unless the start itself is what failed.\<close>

theorem probe_failure_frees:
  assumes "probe_and_open n nq = Some (None, tr)"
  shows "pools_freed tr = created tr \<and> (Dev_start PORT \<in> set tr \<longrightarrow> start_ret n \<noteq> 0)"
proof (cases rule: probe_cases[of n nq])
  case (pool ok bad)
  have b: "created [create_call n bad] = []" "pools_freed [create_call n bad] = []" "create_call n bad \<noteq> Dev_start PORT"
    using pool(3) by (simp_all add: create_call_def)
  have tr: "tr = map (create_call n) ok @ [create_call n bad] @ drop_pools (map (pool_ret n) ok)" using assms pool(1) by simp
  show ?thesis unfolding tr created_append pools_freed_append
    using b created_creates[OF pool(2)] freed_creates drop_pools_trace[of _ PORT] created_nonzero[OF pool(2)] by auto
next
  case (queues more)
  then show ?thesis using assms created_creates[OF queues(3)] freed_creates drop_pools_trace[of _ PORT]
      created_nonzero[OF queues(3)] by (simp add: quiet_def)
next
  case (start more)
  then show ?thesis using assms created_creates[OF start(3)] freed_creates drop_pools_trace[of _ PORT]
      created_nonzero[OF start(3)] by (simp add: quiet_def)
next
  case opened
  then show ?thesis using assms by simp
qed

theorem probe_failure_frees_witness:
  "\<exists>tr. probe_and_open (demo_nic 5) 2 = Some (None, tr) \<and> created tr = [1, 2] \<and> pools_freed tr = [1, 2]"
proof -
  let ?tr = "map (create_call (demo_nic 5)) [0, 1] @ [Dev_configure PORT 2 2, Adjust_desc PORT DESC_NUM DESC_NUM,
      Rx_queue_setup PORT 0 1024 1, Tx_queue_setup PORT 0 1024, Rx_queue_setup PORT 1 1024 2, Mempool_free 1, Mempool_free 2]"
  have p: "probe_and_open (demo_nic 5) 2 = Some (None, ?tr)"
    by (simp add: probe_and_open_def demo_queues create_pools_cases create_call_def demo_nic_def drop_pools_def drop_pool_def DESC_NUM_def)
  have "created ?tr = [1, 2]" by (simp add: create_call_def demo_nic_def)
  then show ?thesis using p probe_failure_frees[OF p] by auto
qed

end
