(* ===== verification/App_Conn.thy ===== *)
theory App_Conn
  imports App_Request Tcp_States
begin

text \<open>
  One connection of the benchmark (\<open>Conn\<close> and \<open>conn_step\<close> of \<open>src/lib.rs\<close>): what a worker does with a
  connection after every poll of the interface.  The socket is that of the theories on TCP; the TLS
  session (rustls, unbuffered API) is an argument, a function that says what \<open>process_tls_records\<close>
  returns.  \<open>None\<close> means that the step does not return: a panic, or a pump loop that used up its fuel.
  Shown: a step of a plain connection always returns, empties the receive buffer and counts every byte
  of it exactly once; a connection is reported as closed cleanly only when nothing is left to send or
  to receive; every connection is accounted for once, as established or as failed; a TLS connection
  counts exactly the records its session hands out; and a connection that is reset before its request
  is out never finishes.
\<close>

section \<open>The TLS session\<close>

text \<open>What \<open>process_tls_records\<close> may ask for, with the continuation of the session.  \<open>ReadTraffic\<close> holds
  the payloads \<open>next_record\<close> yields until it is exhausted or fails (the flag); \<open>EncodeTlsData\<close> and
  \<open>WriteTraffic\<close> hold what \<open>encode\<close> and \<open>encrypt\<close> leave in the buffer they are given and the length
  they report, \<open>None\<close> for an error.\<close>

datatype 'tls tls_state =
  ReadTraffic "bytes list" bool 'tls
| EncodeTlsData "bytes \<Rightarrow> bytes \<times> nat option \<times> 'tls"
| TransmitTlsData 'tls
| WriteTraffic 'tls "bytes \<Rightarrow> bytes \<Rightarrow> bytes \<times> nat option \<times> 'tls"
| OtherState 'tls

text \<open>The incoming buffer afterwards (records are decrypted in place), the number of bytes to discard
  and the state, or an error.\<close>

type_synonym 'tls rustls = "'tls \<Rightarrow> bytes \<Rightarrow> bytes \<times> nat \<times> (unit + 'tls tls_state) \<times> 'tls"

section \<open>State\<close>

record 'tls conn =
  tls :: "'tls option"
  incoming :: bytes
  outgoing :: bytes
  request :: bytes
  request_queued :: bool
  handshake_done :: bool
  counter :: body_counter
  conn_done :: bool
  connect_start_ms :: int
  queue_id :: u16
  src_port :: u16
  expected :: u64
  closed_cleanly :: bool
  attempts :: u16
  settled :: bool
  start_ms :: int

text \<open>The global counters the connections share.\<close>

record conn_stats =
  SYN_RETRIES :: u64
  SETUP_MS_TOTAL :: u64
  CONNS_ESTABLISHED :: u64
  CONNS_FAILED :: u64
  http :: http_stats

definition SYN_TIMEOUT_MS :: int where "SYN_TIMEOUT_MS = 5000"
definition TLS_BUF_CAP :: nat where "TLS_BUF_CAP = 256 * 1024"

section \<open>Setup accounting\<close>

definition setup_ms :: "int \<Rightarrow> 'tls conn \<Rightarrow> u64" where
  "setup_ms now c = of_int (max (wrap_i64 (now - start_ms c)) 0)"

definition settle_established :: "tcp_state \<Rightarrow> int \<Rightarrow> 'tls conn \<Rightarrow> conn_stats \<Rightarrow> 'tls conn \<times> conn_stats" where
  "settle_established st now c g =
     (if \<not> settled c \<and> st = Established
      then (c\<lparr>settled := True\<rparr>,
            g\<lparr>SYN_RETRIES := SYN_RETRIES g + ucast (if attempts c = 0 then 0 else attempts c - 1),
              SETUP_MS_TOTAL := SETUP_MS_TOTAL g + setup_ms now c,
              CONNS_ESTABLISHED := CONNS_ESTABLISHED g + 1\<rparr>)
      else (c, g))"

definition syn_timed_out :: "tcp_state \<Rightarrow> int \<Rightarrow> 'tls conn \<Rightarrow> bool" where
  "syn_timed_out st now c \<longleftrightarrow> st = SynSent \<and> wrap_i64 (now - connect_start_ms c) > SYN_TIMEOUT_MS"

definition give_up :: "int \<Rightarrow> 'tls conn \<Rightarrow> conn_stats \<Rightarrow> 'tls conn \<times> conn_stats" where
  "give_up now c g =
     (let (c1, g1) =
        (if \<not> settled c
         then (c\<lparr>settled := True\<rparr>,
               g\<lparr>CONNS_FAILED := CONNS_FAILED g + 1, SETUP_MS_TOTAL := SETUP_MS_TOTAL g + setup_ms now c\<rparr>)
         else (c, g))
      in (c1\<lparr>conn_done := True\<rparr>, g1))"

section \<open>Socket traffic\<close>

definition queue_request :: "build_env \<Rightarrow> tcp_socket \<Rightarrow> 'tls conn \<Rightarrow> 'tls conn" where
  "queue_request e s c =
     (if PLAIN_HTTP e \<and> \<not> request_queued c \<and> may_send s
      then c\<lparr>outgoing := outgoing c @ request c, request_queued := True, handshake_done := True\<rparr> else c)"

definition push_outgoing :: "'tls conn \<Rightarrow> tcp_socket \<Rightarrow> ('tls conn \<times> tcp_socket) option" where
  "push_outgoing c s =
     (if outgoing c \<noteq> [] \<and> can_send s
      then do {
        (r, s1) \<leftarrow> send_slice (outgoing c) s;
        Some (case r of
            Inl _ \<Rightarrow> (c, s1)
          | Inr n \<Rightarrow> (if n > 0 then c\<lparr>outgoing := drop n (outgoing c)\<rparr> else c, s1))
      }
      else Some (c, s))"

text \<open>The loop over \<open>recv\<close>; the closure takes the whole slice.  Each round removes at least a byte, so
  the fuel is the length of the receive queue.\<close>

fun drain_loop :: "nat \<Rightarrow> bytes \<Rightarrow> tcp_socket \<Rightarrow> (bytes \<times> tcp_socket) option" where
  "drain_loop 0 inc s = (if can_recv s then None else Some (inc, s))"
| "drain_loop (Suc k) inc s =
     (if can_recv s
      then do {
        (r, s1) \<leftarrow> recv (\<lambda>buf. (buf, length buf, buf)) s;
        (case r of
           Inl _ \<Rightarrow> Some (inc, s1)
         | Inr data \<Rightarrow> if length data > 0 then drain_loop k (inc @ data) s1 else Some (inc @ data, s1))
      }
      else Some (inc, s))"

definition drain_socket :: "'tls conn \<Rightarrow> tcp_socket \<Rightarrow> ('tls conn \<times> tcp_socket) option" where
  "drain_socket c s = do {
     (inc, s1) \<leftarrow> drain_loop (recv_queue s) (incoming c) s;
     Some (c\<lparr>incoming := inc\<rparr>, s1)
   }"

section \<open>Counting without the record layer\<close>

definition count_stub :: "build_env \<Rightarrow> 'tls conn \<Rightarrow> 'tls conn" where
  "count_stub e c =
     (if STUB_TLS_AFTER_HANDSHAKE e \<and> handshake_done c \<and> request_queued c
      then c\<lparr>counter := (counter c)\<lparr>bytes_received := bytes_received (counter c) + length (incoming c)\<rparr>,
             incoming := []\<rparr>
      else c)"

definition count_plain :: "build_env \<Rightarrow> 'tls conn \<Rightarrow> conn_stats \<Rightarrow> 'tls conn \<times> conn_stats" where
  "count_plain e c g =
     (if PLAIN_HTTP e \<and> incoming c \<noteq> []
      then let (k, h) = count_body (counter c) (http g) (incoming c)
           in (c\<lparr>counter := k, incoming := []\<rparr>, g\<lparr>http := h\<rparr>)
      else (c, g))"

section \<open>The TLS pump\<close>

datatype pump = Again | Stop | Break

text \<open>One round: the connection, the counters and whether to go on.  \<open>Break\<close> leaves the loop at once,
  before the discarded bytes are dropped.  \<open>&mut outgoing[head..]\<close> panics when the buffer was resized
  below \<open>head\<close>, \<open>drain(..discard)\<close> when it is too short.\<close>

definition resize :: "bytes \<Rightarrow> nat \<Rightarrow> bytes" where
  "resize b n = take n b @ replicate (n - length b) 0"

definition read_records :: "bytes list \<Rightarrow> bool \<Rightarrow> 'tls conn \<Rightarrow> conn_stats \<Rightarrow> 'tls conn \<times> conn_stats" where
  "read_records recs failed c g =
     (let (k, h) = count_records (counter c) (http g) recs;
          c1 = c\<lparr>counter := k\<rparr>
      in (if failed then c1\<lparr>conn_done := True\<rparr> else c1, g\<lparr>http := h\<rparr>))"

definition fill_outgoing ::
  "nat \<Rightarrow> nat \<Rightarrow> (bytes \<Rightarrow> bytes \<times> nat option \<times> 'tls) \<Rightarrow> 'tls conn \<Rightarrow> ('tls conn \<times> bool) option" where
  "fill_outgoing head cap f c = do {
     let out = resize (outgoing c) cap;
     assert_that (head \<le> length out);
     let (b, r, t) = f (drop head out);
     let c1 = c\<lparr>outgoing := take head out @ b, tls := Some t\<rparr>;
     Some (case r of
         Some n \<Rightarrow> (c1\<lparr>outgoing := take (head + n) (outgoing c1)\<rparr>, True)
       | None \<Rightarrow> (c1\<lparr>conn_done := True\<rparr>, False))
   }"

definition pump_state ::
  "'tls tls_state \<Rightarrow> 'tls conn \<Rightarrow> conn_stats \<Rightarrow> (pump \<times> 'tls conn \<times> conn_stats) option" where
  "pump_state st c g = (case st of
     ReadTraffic recs failed t \<Rightarrow>
       (let (c1, g1) = read_records recs failed c g in Some (Again, c1\<lparr>tls := Some t\<rparr>, g1))
   | EncodeTlsData f \<Rightarrow> do {
       (c1, ok) \<leftarrow> fill_outgoing (length (outgoing c)) TLS_BUF_CAP f c;
       Some (if ok then Again else Break, c1, g)
     }
   | TransmitTlsData t \<Rightarrow> Some (Again, c\<lparr>tls := Some t\<rparr>, g)
   | WriteTraffic t f \<Rightarrow>
       (let c1 = c\<lparr>handshake_done := True, tls := Some t\<rparr> in
        if request_queued c1 then Some (Stop, c1, g)
        else do {
          (c2, ok) \<leftarrow> fill_outgoing (length (outgoing c1)) (length (outgoing c1) + length (request c1) + 128)
                        (f (request c1)) c1;
          Some (if ok then (Again, c2\<lparr>request_queued := True\<rparr>, g) else (Break, c2, g))
        })
   | OtherState t \<Rightarrow> Some (Stop, c\<lparr>tls := Some t\<rparr>, g))"

definition pump_round ::
  "'tls rustls \<Rightarrow> 'tls \<Rightarrow> 'tls conn \<Rightarrow> conn_stats \<Rightarrow> (pump \<times> 'tls conn \<times> conn_stats) option" where
  "pump_round process_tls_records t c g =
     (let (inc, discard, r, t') = process_tls_records t (incoming c);
          c1 = c\<lparr>incoming := inc, tls := Some t'\<rparr>
      in case r of
           Inl _ \<Rightarrow> Some (Break, c1\<lparr>conn_done := True\<rparr>, g)
         | Inr st \<Rightarrow> do {
             (p, c2, g2) \<leftarrow> pump_state st c1 g;
             if p = Break then Some (Break, c2, g2)
             else do {
               assert_that (discard \<le> length (incoming c2));
               Some (p, c2\<lparr>incoming := drop discard (incoming c2)\<rparr>, g2)
             }
           })"

fun tls_pump ::
  "'tls rustls \<Rightarrow> nat \<Rightarrow> 'tls conn \<Rightarrow> conn_stats \<Rightarrow> ('tls conn \<times> conn_stats) option" where
  "tls_pump ptr 0 c g = None"
| "tls_pump ptr (Suc fuel) c g =
     (case tls c of
        None \<Rightarrow> Some (c, g)
      | Some t \<Rightarrow> do {
          (p, c1, g1) \<leftarrow> pump_round ptr t c g;
          if p = Again then tls_pump ptr fuel c1 g1 else Some (c1, g1)
        })"

section \<open>conn_step\<close>

definition ended :: "tcp_socket \<Rightarrow> bool" where
  "ended s \<longleftrightarrow> state s \<in> {Closed, CloseWait, TimeWait}"

definition finish_conn :: "tcp_socket \<Rightarrow> 'tls conn \<Rightarrow> 'tls conn" where
  "finish_conn s c =
     (if handshake_done c \<and> request_queued c \<and> ended s \<and> outgoing c = [] \<and> \<not> can_recv s
      then c\<lparr>closed_cleanly := True, conn_done := True\<rparr> else c)"

text \<open>The step after the setup accounting, when the connection did not time out.\<close>

definition conn_traffic ::
  "'tls rustls \<Rightarrow> nat \<Rightarrow> build_env \<Rightarrow> 'tls conn \<Rightarrow> tcp_socket \<Rightarrow> conn_stats \<Rightarrow>
     ('tls conn \<times> tcp_socket \<times> conn_stats) option" where
  "conn_traffic ptr fuel e c s g = do {
     let c1 = queue_request e s c;
     (c2, s2) \<leftarrow> push_outgoing c1 s;
     (c3, s3) \<leftarrow> drain_socket c2 s2;
     let c4 = count_stub e c3;
     let (c5, g5) = count_plain e c4 g;
     (c6, g6) \<leftarrow> (if PLAIN_HTTP e then Some (c5, g5) else tls_pump ptr fuel c5 g5);
     Some (finish_conn s3 c6, s3, g6)
   }"

definition conn_step ::
  "'tls rustls \<Rightarrow> nat \<Rightarrow> build_env \<Rightarrow> int \<Rightarrow> 'tls conn \<Rightarrow> tcp_socket \<Rightarrow> conn_stats \<Rightarrow>
     (bool \<times> 'tls conn \<times> tcp_socket \<times> conn_stats) option" where
  "conn_step ptr fuel e now c s g =
     (if conn_done c then Some (True, c, s, g)
      else
        let (c1, g1) = settle_established (state s) now c g in
        if syn_timed_out (state s) now c1
        then (let (c2, g2) = give_up now c1 g1 in Some (True, c2, abort s, g2))
        else do {
          (c2, s2, g2) \<leftarrow> conn_traffic ptr fuel e c1 s g1;
          Some (conn_done c2, c2, s2, g2)
        })"

section \<open>Draining the socket\<close>

definition rx_sane :: "tcp_socket \<Rightarrow> bool" where
  "rx_sane s \<longleftrightarrow> rb_wf (rx_buffer s) \<and> rb_wf (tx_buffer s) \<and> rb_capacity (rx_buffer s) \<le> I32_MAX"

lemma closure_ok_whole: "closure_ok (\<lambda>buf. (buf, length buf, buf))"
  by (simp add: closure_ok_def)

lemma recv_whole:
  assumes "rx_sane s" "can_recv s"
  obtains data rx' q where "recv (\<lambda>buf. (buf, length buf, buf)) s = Some (Inr data, s\<lparr>rx_buffer := rx', remote_seq_no := q\<rparr>)"
    "data \<noteq> []" "rb_list (rx_buffer s) = data @ rb_list rx'" "rb_wf rx'" "rb_capacity rx' = rb_capacity (rx_buffer s)"
proof -
  let ?rx = "rx_buffer s" and ?f = "\<lambda>buf :: bytes. (buf, length buf, buf)"
  let ?m = "min (rlength ?rx) (length (storage ?rx) - read_at ?rx)"
  have wf: "rb_wf ?rx" using assms(1) by (simp add: rx_sane_def)
  obtain rx' where d: "dequeue_many_with ?rx ?f = Some (rx', snd (?f (take ?m (rb_list ?rx))))"
    "rb_wf rx'" "rb_list rx' = drop (fst (snd (?f (take ?m (rb_list ?rx))))) (rb_list ?rx)" "storage rx' = storage ?rx"
    by (rule dequeue_many_with_correct[OF wf closure_ok_whole]) auto
  have l: "length (rb_list ?rx) = rlength ?rx" "rlength ?rx \<le> length (storage ?rx)"
    using wf by (simp_all add: length_rb_list rb_wf_def)
  have nz: "0 < rlength ?rx" using assms(2) by (simp add: can_recv_def rb_is_empty_def rb_len_def)
  then have "0 < ?m" using l wf by (simp add: rb_wf_def max_def split: if_splits)
  moreover have "rb_list ?rx \<noteq> []" using nz l(1) by auto
  moreover have "?m \<le> I32_MAX" using l assms(1) by (simp add: rx_sane_def rb_capacity_def min_def)
  moreover have "recv_error_check s = Inr ()" using assms(2) by (simp add: recv_error_check_def may_recv_def)
  ultimately show thesis
    using that[of "take ?m (rb_list ?rx)" "remote_seq_no s + of_nat ?m" rx'] d l
    by (simp add: recv_def recv_impl_def seq_add_def rb_capacity_def min_def split: if_splits)
qed

lemma can_recv_iff: "rb_wf (rx_buffer s) \<Longrightarrow> can_recv s \<longleftrightarrow> rb_list (rx_buffer s) \<noteq> []"
  using length_rb_list[of "rx_buffer s"]
  by (simp add: can_recv_def rb_is_empty_def rb_len_def length_0_conv[symmetric] del: length_0_conv)

lemma drain_loop_all:
  assumes "rx_sane s" "length (rb_list (rx_buffer s)) \<le> k"
  shows "\<exists>rx' q. drain_loop k inc s = Some (inc @ rb_list (rx_buffer s), s\<lparr>rx_buffer := rx', remote_seq_no := q\<rparr>) \<and>
    rb_wf rx' \<and> rb_list rx' = [] \<and> rb_capacity rx' = rb_capacity (rx_buffer s)"
  using assms
proof (induction k arbitrary: s inc)
  case 0
  then have "\<not> can_recv s" by (simp add: can_recv_iff rx_sane_def)
  then show ?case using 0 by (intro exI[of _ "rx_buffer s"] exI[of _ "remote_seq_no s"]) (simp add: rx_sane_def)
next
  case (Suc k)
  show ?case
  proof (cases "can_recv s")
    case False
    then show ?thesis using Suc.prems
      by (intro exI[of _ "rx_buffer s"] exI[of _ "remote_seq_no s"]) (simp add: rx_sane_def can_recv_iff)
  next
    case True
    obtain data rx' q where r: "recv (\<lambda>buf. (buf, length buf, buf)) s = Some (Inr data, s\<lparr>rx_buffer := rx', remote_seq_no := q\<rparr>)"
      "data \<noteq> []" "rb_list (rx_buffer s) = data @ rb_list rx'" "rb_wf rx'" "rb_capacity rx' = rb_capacity (rx_buffer s)"
      by (rule recv_whole[OF Suc.prems(1) True])
    let ?s = "s\<lparr>rx_buffer := rx', remote_seq_no := q\<rparr>"
    have "rx_sane ?s" "length (rb_list (rx_buffer ?s)) \<le> k"
      using r Suc.prems by (auto simp: rx_sane_def neq_Nil_conv)
    from Suc.IH[OF this, of "inc @ data"] show ?thesis using r True by auto
  qed
qed

section \<open>Handing data to the socket\<close>

lemma send_slice_total:
  assumes "rb_wf (tx_buffer s)" "may_send s"
  obtains n s' where "send_slice data s = Some (Inr n, s')" "n = min (rb_window (tx_buffer s)) (length data)" "rb_wf (tx_buffer s')"
    "rb_list (tx_buffer s') = rb_list (tx_buffer s) @ take n data" "rx_buffer s' = rx_buffer s"
    "state s' = state s"
proof -
  obtain tx' where e: "enqueue_slice (tx_buffer s) data = Some (tx', min (rb_window (tx_buffer s)) (length data))"
    "rb_wf tx'" "rb_list tx' = rb_list (tx_buffer s) @ take (rb_window (tx_buffer s)) data"
    by (rule enqueue_slice_correct[OF assms(1), of data])
  let ?n = "min (rb_window (tx_buffer s)) (length data)"
  obtain s' where s': "send_slice data s = Some (Inr ?n, s')" "tx_buffer s' = tx'" "rx_buffer s' = rx_buffer s" "state s' = state s"
    using e(1) assms(2) by (simp add: send_slice_def send_impl_def Let_def)
  have "take (rb_window (tx_buffer s)) data = take ?n data" by (simp add: min_def)
  then show thesis using that[OF s'(1)] s' e by simp
qed

lemma push_outgoing_total:
  assumes "rx_sane s"
  obtains sent rest s' where "push_outgoing c s = Some (c\<lparr>outgoing := rest\<rparr>, s')" "outgoing c = sent @ rest"
    "rb_list (tx_buffer s') = rb_list (tx_buffer s) @ sent" "rx_sane s'" "rx_buffer s' = rx_buffer s" "state s' = state s"
    "length (outgoing c) \<le> rb_window (tx_buffer s) \<Longrightarrow> may_send s \<Longrightarrow> rest = []"
proof (cases "outgoing c \<noteq> [] \<and> can_send s")
  case False
  then have "push_outgoing c s = Some (c\<lparr>outgoing := outgoing c\<rparr>, s)" by (auto simp: push_outgoing_def)
  moreover have "outgoing c = []" if "length (outgoing c) \<le> rb_window (tx_buffer s)" "may_send s"
    using False that by (auto simp: can_send_def rb_is_full_def)
  ultimately show thesis using that[of "outgoing c" s "[]"] assms by simp
next
  case True
  then obtain n s' where r: "send_slice (outgoing c) s = Some (Inr n, s')" "n = min (rb_window (tx_buffer s)) (length (outgoing c))" "rb_wf (tx_buffer s')"
    "rb_list (tx_buffer s') = rb_list (tx_buffer s) @ take n (outgoing c)" "rx_buffer s' = rx_buffer s" "state s' = state s"
    using send_slice_total[of s "outgoing c"] assms by (auto simp: rx_sane_def can_send_def)
  have "push_outgoing c s = Some (c\<lparr>outgoing := drop n (outgoing c)\<rparr>, s')"
    using True r(1) by (simp add: push_outgoing_def)
  then show thesis using that[of "drop n (outgoing c)" s' "take n (outgoing c)"] r assms by (simp add: rx_sane_def)
qed

section \<open>A plain connection\<close>

lemma count_plain_body:
  assumes "PLAIN_HTTP e" "count_body (counter c) (http g) (incoming c) = (k, h)"
  shows "count_plain e c g = (c\<lparr>counter := k, incoming := []\<rparr>, g\<lparr>http := h\<rparr>)"
proof (cases "incoming c = []")
  case True
  then show ?thesis using assms by (simp add: count_plain_def)
next
  case False
  then show ?thesis using assms by (simp add: count_plain_def)
qed

lemma count_stub_plain: "PLAIN_HTTP e \<Longrightarrow> count_stub e c = c"
  by (simp add: count_stub_def STUB_TLS_AFTER_HANDSHAKE_def)

text \<open>The outgoing bytes once the request is queued.\<close>

definition to_send :: "build_env \<Rightarrow> tcp_socket \<Rightarrow> 'tls conn \<Rightarrow> bytes" where
  "to_send e s c = outgoing (queue_request e s c)"

lemma finish_conn_fields [simp]:
  "counter (finish_conn s c) = counter c" "incoming (finish_conn s c) = incoming c"
  "outgoing (finish_conn s c) = outgoing c" "settled (finish_conn s c) = settled c"
  "request_queued (finish_conn s c) = request_queued c" "handshake_done (finish_conn s c) = handshake_done c"
  "request (finish_conn s c) = request c" "tls (finish_conn s c) = tls c" "expected (finish_conn s c) = expected c"
  by (simp_all add: finish_conn_def)

lemma queue_request_fields [simp]:
  "counter (queue_request e s c) = counter c" "incoming (queue_request e s c) = incoming c"
  "settled (queue_request e s c) = settled c" "closed_cleanly (queue_request e s c) = closed_cleanly c"
  "conn_done (queue_request e s c) = conn_done c" "expected (queue_request e s c) = expected c"
  by (simp_all add: queue_request_def)

lemma conn_traffic_plain:
  assumes "PLAIN_HTTP e" "rx_sane s" "incoming c = []"
  obtains c' s' k h sent where "conn_traffic ptr fuel e c s g = Some (c', s', g\<lparr>http := h\<rparr>)"
    "count_body (counter c) (http g) (rb_list (rx_buffer s)) = (k, h)" "counter c' = k" "incoming c' = []"
    "to_send e s c = sent @ outgoing c'" "rb_list (tx_buffer s') = rb_list (tx_buffer s) @ sent"
    "rx_sane s'" "rb_list (rx_buffer s') = []" "state s' = state s" "settled c' = settled c"
    "c' = finish_conn s' ((queue_request e s c)\<lparr>outgoing := outgoing c', counter := k, incoming := []\<rparr>)" "\<not> can_recv s'"
    "length (to_send e s c) \<le> rb_window (tx_buffer s) \<Longrightarrow> may_send s \<Longrightarrow> outgoing c' = []"
proof -
  let ?c = "queue_request e s c"
  obtain sent rest s1 where p: "push_outgoing ?c s = Some (?c\<lparr>outgoing := rest\<rparr>, s1)" "outgoing ?c = sent @ rest"
    "rb_list (tx_buffer s1) = rb_list (tx_buffer s) @ sent" "rx_sane s1" "rx_buffer s1 = rx_buffer s" "state s1 = state s"
    "length (outgoing ?c) \<le> rb_window (tx_buffer s) \<Longrightarrow> may_send s \<Longrightarrow> rest = []"
    by (rule push_outgoing_total[OF assms(2)]) blast
  have "length (rb_list (rx_buffer s1)) \<le> recv_queue s1"
    using p(4) by (simp add: recv_queue_def rb_len_def length_rb_list rx_sane_def)
  then obtain rx' q where d: "drain_loop (recv_queue s1) [] s1 =
      Some (rb_list (rx_buffer s), s1\<lparr>rx_buffer := rx', remote_seq_no := q\<rparr>)"
    "rb_wf rx'" "rb_list rx' = []" "rb_capacity rx' = rb_capacity (rx_buffer s)"
    using drain_loop_all[OF p(4), of "recv_queue s1" "[]"] p(5) by auto
  let ?s = "s1\<lparr>rx_buffer := rx', remote_seq_no := q\<rparr>"
  obtain k h where kh: "count_body (counter c) (http g) (rb_list (rx_buffer s)) = (k, h)" by force
  let ?c3 = "?c\<lparr>outgoing := rest, incoming := rb_list (rx_buffer s)\<rparr>"
  have cp: "count_plain e ?c3 g = (?c3\<lparr>counter := k, incoming := []\<rparr>, g\<lparr>http := h\<rparr>)"
    using count_plain_body[OF assms(1), of ?c3 g k h] kh by simp
  have "conn_traffic ptr fuel e c s g = Some (finish_conn ?s (?c3\<lparr>counter := k, incoming := []\<rparr>), ?s, g\<lparr>http := h\<rparr>)"
    using p(1) d(1) cp assms by (simp add: conn_traffic_def drain_socket_def Let_def count_stub_plain)
  then show thesis
    using that[of "finish_conn ?s (?c3\<lparr>counter := k, incoming := []\<rparr>)" ?s h k sent] kh p d can_recv_iff[of ?s]
    by (simp add: to_send_def rx_sane_def)
qed

section \<open>A connection over time\<close>

text \<open>The steps of a connection until it is done, each with the time and the socket the interface left
  it; the last result lists what every step took out of the receive buffer.\<close>

definition taken :: "tcp_socket \<Rightarrow> tcp_socket \<Rightarrow> bytes" where
  "taken s s' = take (length (rb_list (rx_buffer s)) - length (rb_list (rx_buffer s'))) (rb_list (rx_buffer s))"

fun conn_run ::
  "'tls rustls \<Rightarrow> nat \<Rightarrow> build_env \<Rightarrow> (int \<times> tcp_socket) list \<Rightarrow> 'tls conn \<Rightarrow> conn_stats \<Rightarrow>
     ('tls conn \<times> conn_stats \<times> bytes list) option" where
  "conn_run ptr fuel e [] c g = Some (c, g, [])"
| "conn_run ptr fuel e ((now, s) # xs) c g = do {
     (d, c1, s1, g1) \<leftarrow> conn_step ptr fuel e now c s g;
     if d then Some (c1, g1, [taken s s1])
     else do { (c2, g2, got) \<leftarrow> conn_run ptr fuel e xs c1 g1; Some (c2, g2, taken s s1 # got) }
   }"

lemma settle_established_fields:
  assumes "settle_established st now c g = (c1, g1)"
  shows "counter c1 = counter c" "incoming c1 = incoming c" "outgoing c1 = outgoing c" "conn_done c1 = conn_done c"
    "http g1 = http g" "closed_cleanly c1 = closed_cleanly c" "request_queued c1 = request_queued c"
    "handshake_done c1 = handshake_done c" "request c1 = request c"
  using assms by (auto simp: settle_established_def split: if_splits)

lemma give_up_fields:
  assumes "give_up now c g = (c1, g1)"
  shows "counter c1 = counter c" "incoming c1 = incoming c" "conn_done c1" "http g1 = http g" "settled c1"
    "closed_cleanly c1 = closed_cleanly c"
  using assms by (auto simp: give_up_def Let_def split: if_splits)

lemma taken_same [simp]: "taken s s = []" "taken s (abort s) = []"
  by (simp_all add: taken_def abort_def set_state_def)

text \<open>A step of a plain connection: it returns, and what it takes from the socket is what it counts.\<close>

lemma conn_step_plain:
  assumes "PLAIN_HTTP e" "rx_sane s" "incoming c = []"
  obtains d c' s' g' where "conn_step ptr fuel e now c s g = Some (d, c', s', g')"
    "count_body (counter c) (http g) (taken s s') = (counter c', http g')" "incoming c' = []" "d = conn_done c'"
proof -
  obtain c1 g1 where 1: "settle_established (state s) now c g = (c1, g1)" by force
  note f1 = settle_established_fields[OF 1]
  consider (over) "conn_done c" | (late) "\<not> conn_done c" "syn_timed_out (state s) now c1"
    | (go) "\<not> conn_done c" "\<not> syn_timed_out (state s) now c1" by blast
  then show thesis
  proof cases
    case over
    then show thesis using that[of True c s g] assms by (simp add: conn_step_def)
  next
    case late
    obtain c2 g2 where 2: "give_up now c1 g1 = (c2, g2)" by force
    show thesis using that[of True c2 "abort s" g2] late 1 2 f1 give_up_fields[OF 2] assms(3) by (simp add: conn_step_def)
  next
    case go
    obtain c2 s2 k h where 2: "conn_traffic ptr fuel e c1 s g1 = Some (c2, s2, g1\<lparr>http := h\<rparr>)"
      "count_body (counter c1) (http g1) (rb_list (rx_buffer s)) = (k, h)" "counter c2 = k" "incoming c2 = []"
      "rb_list (rx_buffer s2) = []"
      by (rule conn_traffic_plain[OF assms(1,2), of c1 ptr fuel g1]) (use f1 assms(3) in auto)
    then show thesis
      using that[of "conn_done c2" c2 s2 "g1\<lparr>http := h\<rparr>"] go 1 f1 by (simp add: conn_step_def taken_def)
  qed
qed

lemma conn_run_counts:
  assumes "PLAIN_HTTP e" "\<forall>(now, s) \<in> set xs. rx_sane s" "incoming c = []"
  shows "\<exists>c' g' got. conn_run ptr fuel e xs c g = Some (c', g', got) \<and>
    count_records (counter c) (http g) got = (counter c', http g')"
  using assms(2,3)
proof (induction xs arbitrary: c g)
  case Nil
  then show ?case by simp
next
  case (Cons x xs)
  obtain now s where x: "x = (now, s)" by fastforce
  obtain d c1 s1 g1 where 1: "conn_step ptr fuel e now c s g = Some (d, c1, s1, g1)"
    "count_body (counter c) (http g) (taken s s1) = (counter c1, http g1)" "incoming c1 = []"
    by (rule conn_step_plain[OF assms(1), of s c ptr fuel now g]) (use Cons.prems x in auto)
  obtain c' g' got where "conn_run ptr fuel e xs c1 g1 = Some (c', g', got)"
    "count_records (counter c1) (http g1) got = (counter c', http g')"
    using Cons.IH[of c1 g1] Cons.prems 1(3) by auto
  then show ?case using 1 x by (cases d) simp_all
qed

section \<open>Frames of the pump\<close>

definition pump_frame :: "'tls conn \<Rightarrow> 'tls conn \<Rightarrow> bool" where
  "pump_frame c c' \<longleftrightarrow> closed_cleanly c' = closed_cleanly c \<and> settled c' = settled c \<and> expected c' = expected c \<and>
     request c' = request c"

lemma pump_frame_trans: "pump_frame c c1 \<Longrightarrow> pump_frame c1 c2 \<Longrightarrow> pump_frame c c2"
  by (simp add: pump_frame_def)

lemma fill_outgoing_frame: "fill_outgoing head cap f c = Some (c', ok) \<Longrightarrow> pump_frame c c'"
  by (auto simp: fill_outgoing_def pump_frame_def Let_def split: prod.splits option.splits if_splits)

lemma pump_state_frame:
  assumes "pump_state st c g = Some (p, c', g')"
  shows "pump_frame c c' \<and> g' = g\<lparr>http := http g'\<rparr>"
proof (cases st)
  case (WriteTraffic t f)
  show ?thesis
  proof (cases "request_queued c")
    case True
    then show ?thesis using assms WriteTraffic by (auto simp: pump_state_def Let_def pump_frame_def)
  next
    case False
    let ?c = "c\<lparr>handshake_done := True, tls := Some t\<rparr>"
    obtain c2 ok where f2: "fill_outgoing (length (outgoing c)) (length (outgoing c) + length (request c) + 128)
        (f (request c)) ?c = Some (c2, ok)"
      using assms WriteTraffic False by (auto simp: pump_state_def Let_def bind_eq_Some_conv)
    then have "c' = (if ok then c2\<lparr>request_queued := True\<rparr> else c2)" "g' = g"
      using assms WriteTraffic False by (auto simp: pump_state_def Let_def split: if_splits)
    with f2 show ?thesis using fill_outgoing_frame[of _ _ _ ?c c2 ok] by (auto simp: pump_frame_def)
  qed
next
  case (EncodeTlsData f)
  then show ?thesis using assms by (auto simp: pump_state_def bind_eq_Some_conv dest: fill_outgoing_frame)
qed (use assms in \<open>auto simp: pump_state_def read_records_def pump_frame_def Let_def split: prod.splits if_splits\<close>)

lemma pump_round_frame:
  assumes "pump_round ptr t c g = Some (p, c', g')"
  shows "pump_frame c c' \<and> g' = g\<lparr>http := http g'\<rparr>"
proof -
  obtain inc discard r t' where r: "ptr t (incoming c) = (inc, discard, r, t')" by (metis prod_cases4)
  let ?c = "c\<lparr>incoming := inc, tls := Some t'\<rparr>"
  have f: "pump_frame c ?c" by (simp add: pump_frame_def)
  show ?thesis
  proof (cases r)
    case (Inl u)
    then show ?thesis using assms r by (auto simp: pump_round_def pump_frame_def)
  next
    case (Inr st)
    then obtain p2 c2 g2 where 2: "pump_state st ?c g = Some (p2, c2, g2)" "g' = g2"
      "c' = c2 \<or> c' = c2\<lparr>incoming := drop discard (incoming c2)\<rparr>"
      using assms r by (auto simp: pump_round_def bind_eq_Some_conv split: if_splits)
    then show ?thesis using pump_state_frame[OF 2(1)] by (auto simp: pump_frame_def)
  qed
qed

lemma tls_pump_frame:
  "tls_pump ptr fuel c g = Some (c', g') \<Longrightarrow> pump_frame c c' \<and> g' = g\<lparr>http := http g'\<rparr>"
proof (induction fuel arbitrary: c g)
  case 0
  then show ?case by simp
next
  case (Suc fuel)
  show ?case
  proof (cases "tls c")
    case None
    then show ?thesis using Suc.prems by (simp add: pump_frame_def)
  next
    case (Some t)
    then obtain p c1 g1 where 1: "pump_round ptr t c g = Some (p, c1, g1)"
      "(if p = Again then tls_pump ptr fuel c1 g1 else Some (c1, g1)) = Some (c', g')"
      using Suc.prems by (auto simp: bind_eq_Some_conv)
    note f = pump_round_frame[OF 1(1)]
    show ?thesis
    proof (cases "p = Again")
      case True
      then have "pump_frame c1 c' \<and> g' = g1\<lparr>http := http g'\<rparr>" using Suc.IH 1(2) by simp
      then show ?thesis using f pump_frame_trans by (metis conn_stats.surjective conn_stats.update_convs(5))
    next
      case False
      then show ?thesis using f 1(2) by simp
    qed
  qed
qed

lemma count_plain_frame:
  "count_plain e c g = (c', g') \<Longrightarrow> pump_frame c c' \<and> g' = g\<lparr>http := http g'\<rparr> \<and> conn_done c' = conn_done c"
  by (auto simp: count_plain_def pump_frame_def Let_def split: prod.splits if_splits)

lemma push_outgoing_frame:
  assumes "push_outgoing c s = Some (c', s')"
  shows "pump_frame c c' \<and> conn_done c' = conn_done c"
proof (cases "outgoing c \<noteq> [] \<and> can_send s")
  case False
  then show ?thesis using assms by (auto simp: push_outgoing_def pump_frame_def)
next
  case True
  then obtain r s1 where "send_slice (outgoing c) s = Some (r, s1)"
    using assms by (auto simp: push_outgoing_def bind_eq_Some_conv)
  then show ?thesis using assms True by (cases r) (auto simp: push_outgoing_def pump_frame_def split: if_splits)
qed

text \<open>Everything in \<open>conn_traffic\<close> before \<open>finish_conn\<close>.\<close>

lemma conn_traffic_finish:
  assumes "conn_traffic ptr fuel e c s g = Some (c', s', g')"
  obtains c1 where "c' = finish_conn s' c1" "pump_frame c c1" "g' = g\<lparr>http := http g'\<rparr>"
proof -
  let ?c = "queue_request e s c"
  obtain c2 s2 c3 s3 where 1: "push_outgoing ?c s = Some (c2, s2)" "drain_socket c2 s2 = Some (c3, s3)"
    using assms by (auto simp: conn_traffic_def bind_eq_Some_conv)
  obtain c5 g5 where 5: "count_plain e (count_stub e c3) g = (c5, g5)" by force
  obtain c6 where 6: "(if PLAIN_HTTP e then Some (c5, g5) else tls_pump ptr fuel c5 g5) = Some (c6, g')"
    "c' = finish_conn s' c6"
    using assms 1 5 by (auto simp: conn_traffic_def bind_eq_Some_conv Let_def split: if_splits)
  have f: "pump_frame c ?c" by (simp add: pump_frame_def queue_request_def)
  have "pump_frame c2 (count_stub e c3)"
    using 1(2) by (auto simp: drain_socket_def bind_eq_Some_conv count_stub_def pump_frame_def)
  then have a: "pump_frame c c5 \<and> g5 = g\<lparr>http := http g5\<rparr>"
    using f push_outgoing_frame[OF 1(1)] count_plain_frame[OF 5] pump_frame_trans by blast
  have b: "pump_frame c5 c6 \<and> g' = g5\<lparr>http := http g'\<rparr>"
    using 6(1) tls_pump_frame[of ptr fuel c5 g5 c6 g'] by (auto simp: pump_frame_def split: if_splits)
  have "g' = g\<lparr>http := http g'\<rparr>" using a b by (metis conn_stats.surjective conn_stats.update_convs(5))
  then show thesis using that[OF 6(2)] a b pump_frame_trans by blast
qed

section \<open>The records of a session\<close>

text \<open>A session that notes every plaintext record it hands out: the same session, with the records so far
  beside its state.\<close>

definition note_records :: "bytes list \<Rightarrow> 'tls tls_state \<Rightarrow> ('tls \<times> bytes list) tls_state" where
  "note_records seen st = (case st of
     ReadTraffic recs failed t \<Rightarrow> ReadTraffic recs failed (t, seen @ recs)
   | EncodeTlsData f \<Rightarrow> EncodeTlsData (\<lambda>b. case f b of (b', r, t) \<Rightarrow> (b', r, (t, seen)))
   | TransmitTlsData t \<Rightarrow> TransmitTlsData (t, seen)
   | WriteTraffic t f \<Rightarrow> WriteTraffic (t, seen) (\<lambda>req b. case f req b of (b', r, t') \<Rightarrow> (b', r, (t', seen)))
   | OtherState t \<Rightarrow> OtherState (t, seen))"

definition noting :: "'tls rustls \<Rightarrow> ('tls \<times> bytes list) rustls" where
  "noting ptr x inc = (case ptr (fst x) inc of (inc', discard, r, t) \<Rightarrow>
     (inc', discard, map_sum id (note_records (snd x)) r, (t, snd x)))"

text \<open>A connection that has counted exactly the records its session has handed out.\<close>

definition counted :: "http_stats \<Rightarrow> ('tls \<times> bytes list) conn \<Rightarrow> conn_stats \<Rightarrow> bool" where
  "counted h0 c g \<longleftrightarrow> (\<exists>t seen. tls c = Some (t, seen) \<and> count_records counter_init h0 seen = (counter c, http g))"

lemma count_records_append:
  "count_records c g (xs @ ys) = (let (c1, g1) = count_records c g xs in count_records c1 g1 ys)"
  by (induction xs arbitrary: c g) (simp_all split: prod.split)

lemma fill_outgoing_counted:
  assumes "fill_outgoing head cap f c = Some (c', ok)" "\<And>b. snd (snd (snd (f b))) = seen"
  shows "counter c' = counter c \<and> (\<exists>t. tls c' = Some (t, seen))"
proof -
  obtain b r t where f: "f (drop head (resize (outgoing c) cap)) = (b, r, t)" by (metis prod_cases3)
  have "snd t = seen" using assms(2)[of "drop head (resize (outgoing c) cap)"] f by simp
  then have "\<exists>q. t = (q, seen)" by (metis prod.collapse)
  then show ?thesis using assms(1) f
    by (cases r) (auto simp: fill_outgoing_def Let_def split: if_splits)
qed

lemma pump_state_counted:
  assumes "pump_state (note_records seen st) c g = Some (p, c', g')" "count_records counter_init h0 seen = (counter c, http g)"
  shows "counted h0 c' g'"
proof (cases st)
  case (ReadTraffic recs failed t)
  obtain k h where k: "count_records (counter c) (http g) recs = (k, h)" by force
  then have "count_records counter_init h0 (seen @ recs) = (k, h)" using assms(2) by (simp add: count_records_append)
  then show ?thesis using assms(1) ReadTraffic k
    by (auto simp: pump_state_def note_records_def read_records_def counted_def Let_def)
next
  case (EncodeTlsData f)
  obtain ok where "fill_outgoing (length (outgoing c)) TLS_BUF_CAP (\<lambda>b. case f b of (b', r, t) \<Rightarrow> (b', r, (t, seen))) c = Some (c', ok)"
    "g' = g"
    using assms(1) EncodeTlsData by (auto simp: pump_state_def note_records_def bind_eq_Some_conv)
  then show ?thesis using fill_outgoing_counted[of _ _ _ c c' ok seen] assms(2)
    by (fastforce simp: counted_def split: prod.splits)
next
  case (WriteTraffic t f)
  let ?c = "c\<lparr>handshake_done := True, tls := Some (t, seen)\<rparr>"
  show ?thesis
  proof (cases "request_queued c")
    case True
    then show ?thesis using assms WriteTraffic by (auto simp: pump_state_def note_records_def counted_def Let_def)
  next
    case False
    then obtain c2 ok where f2: "fill_outgoing (length (outgoing ?c)) (length (outgoing ?c) + length (request ?c) + 128)
        (\<lambda>b. case f (request ?c) b of (b', r, t') \<Rightarrow> (b', r, (t', seen))) ?c = Some (c2, ok)"
      "c' = c2 \<or> c' = c2\<lparr>request_queued := True\<rparr>" "g' = g"
      using assms(1) WriteTraffic by (auto simp: pump_state_def note_records_def bind_eq_Some_conv Let_def split: if_splits)
    have "counter c2 = counter ?c \<and> (\<exists>t. tls c2 = Some (t, seen))"
      by (rule fill_outgoing_counted[OF f2(1)]) (simp split: prod.split)
    then show ?thesis using f2(2,3) assms(2) by (auto simp: counted_def)
  qed
qed (use assms in \<open>auto simp: pump_state_def note_records_def counted_def\<close>)

lemma pump_round_counted:
  assumes "pump_round (noting ptr) (t, seen) c g = Some (p, c', g')" "count_records counter_init h0 seen = (counter c, http g)"
  shows "counted h0 c' g'"
proof -
  obtain inc discard r t' where r: "ptr t (incoming c) = (inc, discard, r, t')" by (metis prod_cases4)
  let ?c = "c\<lparr>incoming := inc, tls := Some (t', seen)\<rparr>"
  show ?thesis
  proof (cases r)
    case (Inl u)
    then show ?thesis using assms r by (auto simp: pump_round_def noting_def counted_def)
  next
    case (Inr st)
    then obtain p2 c2 g2 where 2: "pump_state (note_records seen st) ?c g = Some (p2, c2, g2)" "g' = g2"
      "c' = c2 \<or> c' = c2\<lparr>incoming := drop discard (incoming c2)\<rparr>"
      using assms(1) r by (auto simp: pump_round_def noting_def bind_eq_Some_conv split: if_splits)
    have "counted h0 c2 g2" using pump_state_counted[OF 2(1)] assms(2) by simp
    then show ?thesis using 2(2,3) by (auto simp: counted_def)
  qed
qed

lemma tls_pump_counted: "tls_pump (noting ptr) fuel c g = Some (c', g') \<Longrightarrow> counted h0 c g \<Longrightarrow> counted h0 c' g'"
proof (induction fuel arbitrary: c g)
  case 0
  then show ?case by simp
next
  case (Suc fuel)
  obtain t seen where t: "tls c = Some (t, seen)" "count_records counter_init h0 seen = (counter c, http g)"
    using Suc.prems(2) by (auto simp: counted_def)
  then obtain p c1 g1 where 1: "pump_round (noting ptr) (t, seen) c g = Some (p, c1, g1)"
    "(if p = Again then tls_pump (noting ptr) fuel c1 g1 else Some (c1, g1)) = Some (c', g')"
    using Suc.prems(1) by (auto simp: bind_eq_Some_conv)
  have "counted h0 c1 g1" by (rule pump_round_counted[OF 1(1) t(2)])
  then show ?case using Suc.IH[of c1 g1] 1(2) by (auto split: if_splits)
qed

lemma conn_step_counted:
  assumes "conn_step (noting ptr) fuel e now c s g = Some (d, c', s', g')" "counted h0 c g"
    and "\<not> PLAIN_HTTP e" "\<not> STUB_TLS_AFTER_HANDSHAKE e"
  shows "counted h0 c' g'"
proof -
  obtain c1 g1 where 1: "settle_established (state s) now c g = (c1, g1)" by force
  obtain c2 g2 where 2: "give_up now c1 g1 = (c2, g2)" by force
  have k1: "counted h0 c1 g1" "counted h0 c2 g2"
    using assms(2) 1 2 by (auto simp: counted_def settle_established_def give_up_def Let_def split: if_splits)
  show ?thesis
  proof (cases "conn_done c \<or> syn_timed_out (state s) now c1")
    case True
    then show ?thesis using assms(1,2) 1 2 k1 by (auto simp: conn_step_def split: if_splits)
  next
    case False
    then have t: "conn_traffic (noting ptr) fuel e c1 s g1 = Some (c', s', g')"
      using assms(1) 1 by (auto simp: conn_step_def bind_eq_Some_conv)
    then obtain c3 s3 c4 s4 c6 where 3: "push_outgoing (queue_request e s c1) s = Some (c3, s3)"
      "drain_socket c3 s3 = Some (c4, s4)" "tls_pump (noting ptr) fuel c4 g1 = Some (c6, g')" "c' = finish_conn s' c6"
      using assms(3,4) by (auto simp: conn_traffic_def bind_eq_Some_conv count_stub_def count_plain_def)
    have "tls c4 = tls c1 \<and> counter c4 = counter c1"
      using 3(1,2) by (auto simp: push_outgoing_def queue_request_def drain_socket_def bind_eq_Some_conv split: if_splits sum.splits)
    then have "counted h0 c6 g'" using tls_pump_counted[OF 3(3)] k1(1) by (auto simp: counted_def)
    then show ?thesis using 3(4) by (auto simp: counted_def)
  qed
qed

lemma conn_run_counted:
  assumes "\<not> PLAIN_HTTP e" "\<not> STUB_TLS_AFTER_HANDSHAKE e"
  shows "conn_run (noting ptr) fuel e xs c g = Some (c', g', got) \<Longrightarrow> counted h0 c g \<Longrightarrow> counted h0 c' g'"
proof (induction xs arbitrary: c g got)
  case (Cons x xs)
  obtain now s where x: "x = (now, s)" by fastforce
  obtain d c1 s1 g1 where 1: "conn_step (noting ptr) fuel e now c s g = Some (d, c1, s1, g1)"
    using Cons.prems(1) x by (auto simp: bind_eq_Some_conv)
  have k: "counted h0 c1 g1" by (rule conn_step_counted[OF 1 Cons.prems(2) assms])
  show ?case using Cons.IH[of c1 g1] Cons.prems(1) 1 x k by (cases d) (auto simp: bind_eq_Some_conv)
qed simp

section \<open>Properties\<close>

text \<open>C4: a plain connection counts the body of its response.  However the interface fills the receive
  buffer between the steps, every step returns, and when the run ends the connection has counted
  exactly the bytes behind the first CRLFCRLF of what was taken out of the socket; where a step
  leaves the connection unfinished and not timed out, that is everything the buffer held.\<close>

theorem plain_response_counted:
  assumes "PLAIN_HTTP e" "\<forall>(now, s) \<in> set xs. rx_sane s" "incoming c = []" "counter c = counter_init"
  shows "\<exists>c' g' got. conn_run ptr fuel e xs c g = Some (c', g', got) \<and>
    headers_done (counter c') = (after_header (concat got) \<noteq> None) \<and>
    bytes_received (counter c') = (case after_header (concat got) of None \<Rightarrow> 0 | Some body \<Rightarrow> length body)"
  using conn_run_counts[OF assms(1-3), of ptr fuel g] count_records_body assms(4) by metis

definition demo_plain_env :: build_env where
  "demo_plain_env = demo_env\<lparr>BENCH_SCHEME := Some b_http\<rparr>"

definition demo_conn :: "nat conn" where
  "demo_conn = \<lparr>tls = None, incoming = [], outgoing = [], request = ascii ''GET'', request_queued = False,
     handshake_done = False, counter = counter_init, conn_done = False, connect_start_ms = 0, queue_id = 0,
     src_port = 50000, expected = 4, closed_cleanly = False, attempts = 1, settled = False, start_ms = 0\<rparr>"

definition stats_zero :: conn_stats where
  "stats_zero = \<lparr>SYN_RETRIES = 0, SETUP_MS_TOTAL = 0, CONNS_ESTABLISHED = 0, CONNS_FAILED = 0,
     http = \<lparr>BAD_STATUS = 0, FIRST_BAD_STATUS = 0\<rparr>\<rparr>"

lemma demo_plain: "PLAIN_HTTP demo_plain_env"
  by (simp add: PLAIN_HTTP_def demo_plain_env_def is_http_def bytes_eq_def b_http_def)

lemma demo_sane: "rx_sane demo_connected"
  by (simp add: rx_sane_def demo_connected_eq socket_new_def demo_rb_def rb_new_def rb_capacity_def rb_wf_def)

theorem plain_response_counted_witness:
  "\<exists>c' g' got. conn_run (\<lambda>t inc. (inc, 0, Inl (), t)) 0 demo_plain_env [(10, demo_connected), (20, demo_connected)]
       demo_conn stats_zero = Some (c', g', got) \<and>
     bytes_received (counter c') = (case after_header (concat got) of None \<Rightarrow> 0 | Some body \<Rightarrow> length body)"
  using plain_response_counted[OF demo_plain, of "[(10, demo_connected), (20, demo_connected)]" demo_conn
      "\<lambda>t inc. (inc, 0, Inl (), t)" 0 stats_zero] demo_sane
  by (auto simp: demo_conn_def)

text \<open>What a step of a plain connection does with the socket.  If the connection is not done and
  did not time out, the step takes the whole receive buffer, including the part behind the wrap of the
  ring, hands a prefix of the waiting request to the transmit buffer and keeps the rest, and leaves
  the state of the socket alone.\<close>

theorem plain_step_moves_all:
  assumes "PLAIN_HTTP e" "rx_sane s" "incoming c = []" "\<not> conn_done c" "\<not> syn_timed_out (state s) now c"
  shows "\<exists>c' s' g' sent. conn_step ptr fuel e now c s g = Some (conn_done c', c', s', g') \<and>
    (counter c', http g') = count_body (counter c) (http g) (rb_list (rx_buffer s)) \<and>
    rb_list (rx_buffer s') = [] \<and> rb_list (tx_buffer s') = rb_list (tx_buffer s) @ sent \<and>
    (if \<not> request_queued c \<and> may_send s then outgoing c @ request c else outgoing c) = sent @ outgoing c' \<and>
    state s' = state s"
proof -
  obtain c1 g1 where 1: "settle_established (state s) now c g = (c1, g1)" by force
  note f1 = settle_established_fields[OF 1]
  have t: "\<not> syn_timed_out (state s) now c1"
    using 1 assms(5) by (auto simp: settle_established_def syn_timed_out_def split: if_splits)
  obtain c2 s2 k h sent where 2: "conn_traffic ptr fuel e c1 s g1 = Some (c2, s2, g1\<lparr>http := h\<rparr>)"
    "count_body (counter c1) (http g1) (rb_list (rx_buffer s)) = (k, h)" "counter c2 = k"
    "to_send e s c1 = sent @ outgoing c2" "rb_list (tx_buffer s2) = rb_list (tx_buffer s) @ sent"
    "rb_list (rx_buffer s2) = []" "state s2 = state s"
    by (rule conn_traffic_plain[OF assms(1,2), of c1 ptr fuel g1]) (use f1 assms(3) in auto)
  have "to_send e s c1 = (if \<not> request_queued c \<and> may_send s then outgoing c @ request c else outgoing c)"
    using f1 assms(1) by (simp add: to_send_def queue_request_def)
  then show ?thesis using 1 2 f1 t assms(4)
    by (intro exI[of _ c2] exI[of _ s2] exI[of _ "g1\<lparr>http := h\<rparr>"] exI[of _ sent]) (simp add: conn_step_def)
qed

theorem plain_step_moves_all_witness:
  "\<exists>c' s' g' sent. conn_step (\<lambda>t inc. (inc, 0, Inl (), t)) 0 demo_plain_env 10 demo_conn demo_connected stats_zero =
       Some (conn_done c', c', s', g') \<and> rb_list (rx_buffer s') = [] \<and> outgoing demo_conn = sent @ outgoing c'"
proof -
  have "\<not> syn_timed_out (state demo_connected) 10 demo_conn"
    by (simp add: syn_timed_out_def demo_conn_def SYN_TIMEOUT_MS_def wrap_i64_def)
  moreover have "\<not> may_send demo_connected" using demo_established(2) by (simp add: may_send_def)
  ultimately show ?thesis
    using plain_step_moves_all[OF demo_plain demo_sane, of demo_conn 10 "\<lambda>t inc. (inc, 0, Inl (), t)" 0 stats_zero]
    by (auto simp: demo_conn_def)
qed

text \<open>C3: no early success.  A step marks a connection as closed cleanly only when its request has gone
  out completely, the peer has ended the connection and nothing is left in the receive buffer; it then
  returns true.  This holds with and without TLS.\<close>

theorem clean_close_sound:
  assumes "conn_step ptr fuel e now c s g = Some (d, c', s', g')" "closed_cleanly c'" "\<not> closed_cleanly c"
  shows "d \<and> conn_done c' \<and> request_queued c' \<and> handshake_done c' \<and> outgoing c' = [] \<and>
    state s' \<in> {Closed, CloseWait, TimeWait} \<and> \<not> can_recv s'"
proof -
  obtain c1 g1 where 1: "settle_established (state s) now c g = (c1, g1)" by force
  obtain c2 g2 where 2: "give_up now c1 g1 = (c2, g2)" by force
  have n: "\<not> conn_done c" "\<not> syn_timed_out (state s) now c1"
    using assms 1 2 settle_established_fields(6)[OF 1] give_up_fields(6)[OF 2]
    by (auto simp: conn_step_def split: if_splits)
  then have t: "conn_traffic ptr fuel e c1 s g1 = Some (c', s', g')" "d = conn_done c'"
    using assms(1) 1 by (auto simp: conn_step_def bind_eq_Some_conv)
  obtain c3 where "c' = finish_conn s' c3" "pump_frame c1 c3" by (rule conn_traffic_finish[OF t(1)])
  then show ?thesis using assms(2,3) settle_established_fields(6)[OF 1] t(2)
    by (auto simp: finish_conn_def pump_frame_def ended_def split: if_splits)
qed

text \<open>The last step of a connection whose request is out and whose peer has closed.\<close>

definition demo_sent :: "nat conn" where
  "demo_sent = demo_conn\<lparr>request_queued := True, handshake_done := True\<rparr>"

definition demo_close_wait :: tcp_socket where
  "demo_close_wait = demo_connected\<lparr>state := CloseWait\<rparr>"

lemma demo_closes:
  "conn_step (\<lambda>t inc. (inc, 0, Inl (), t)) 0 demo_plain_env 10 demo_sent demo_close_wait stats_zero =
     Some (True, demo_sent\<lparr>closed_cleanly := True, conn_done := True\<rparr>, demo_close_wait, stats_zero)"
  using demo_plain
  by (simp add: conn_step_def settle_established_def syn_timed_out_def conn_traffic_def queue_request_def
      push_outgoing_def drain_socket_def count_stub_plain count_plain_def finish_conn_def ended_def Let_def
      demo_sent_def demo_conn_def demo_close_wait_def demo_connected_eq socket_new_def demo_rb_def rb_new_def
      rb_query_defs recv_queue_def can_recv_def)

theorem clean_close_sound_witness:
  "conn_step (\<lambda>t inc. (inc, 0, Inl (), t)) 0 demo_plain_env 10 demo_sent demo_close_wait stats_zero =
     Some (True, demo_sent\<lparr>closed_cleanly := True, conn_done := True\<rparr>, demo_close_wait, stats_zero) \<and>
   state demo_close_wait \<in> {Closed, CloseWait, TimeWait} \<and> \<not> can_recv demo_close_wait"
  using clean_close_sound[OF demo_closes] demo_closes by (simp add: demo_sent_def demo_conn_def)

text \<open>Accounting of the connections.  A step settles a connection at most once, and counts it then
  as established or as failed, never as both; a connection that is settled stays settled.\<close>

theorem settled_once:
  assumes "conn_step ptr fuel e now c s g = Some (d, c', s', g')"
  shows "CONNS_ESTABLISHED g' + CONNS_FAILED g' =
      CONNS_ESTABLISHED g + CONNS_FAILED g + (if settled c' \<and> \<not> settled c then 1 else 0) \<and>
    (settled c \<longrightarrow> settled c') \<and> (\<not> conn_done c \<and> state s = Established \<longrightarrow> settled c')"
proof (cases "conn_done c")
  case True
  then show ?thesis using assms by (simp add: conn_step_def)
next
  case False
  obtain c1 g1 where 1: "settle_established (state s) now c g = (c1, g1)" by force
  have e: "CONNS_ESTABLISHED g1 + CONNS_FAILED g1 =
      CONNS_ESTABLISHED g + CONNS_FAILED g + (if settled c1 \<and> \<not> settled c then 1 else 0)"
    "settled c \<longrightarrow> settled c1" "state s = Established \<longrightarrow> settled c1" "state s = SynSent \<longrightarrow> c1 = c \<and> g1 = g"
    using 1 by (auto simp: settle_established_def split: if_splits)
  show ?thesis
  proof (cases "syn_timed_out (state s) now c1")
    case True
    obtain c2 g2 where 2: "give_up now c1 g1 = (c2, g2)" by force
    have "c' = c2" "g' = g2" "c1 = c" "g1 = g"
      using assms False True 1 2 e(4) by (auto simp: conn_step_def syn_timed_out_def)
    then show ?thesis using 2 True by (auto simp: give_up_def Let_def syn_timed_out_def split: if_splits)
  next
    case t: False
    then have "conn_traffic ptr fuel e c1 s g1 = Some (c', s', g')"
      using assms False 1 by (auto simp: conn_step_def bind_eq_Some_conv)
    then obtain c3 where "c' = finish_conn s' c3" "pump_frame c1 c3" "g' = g1\<lparr>http := http g'\<rparr>"
      by (rule conn_traffic_finish)
    then obtain h where "settled c' = settled c1" "g' = g1\<lparr>http := h\<rparr>" by (auto simp: pump_frame_def)
    then show ?thesis using e by simp
  qed
qed

theorem settled_once_witness:
  "settled (demo_sent\<lparr>closed_cleanly := True, conn_done := True\<rparr>) = settled demo_sent \<and>
   CONNS_ESTABLISHED stats_zero + CONNS_FAILED stats_zero = CONNS_ESTABLISHED stats_zero + CONNS_FAILED stats_zero +
     (if settled (demo_sent\<lparr>closed_cleanly := True, conn_done := True\<rparr>) \<and> \<not> settled demo_sent then 1 else 0)"
  using settled_once[OF demo_closes] by (simp add: demo_sent_def demo_conn_def)

text \<open>C14: a TLS connection counts the body of its response.  Whatever the TLS session does, however the
  interface fills the receive buffer between the steps and whatever was counted before in the
  statistics: as long as the steps return, the byte-exact TLS build has counted exactly the bytes
  behind the first CRLFCRLF of the concatenation of all plaintext records the session has handed out,
  over all rounds of the pump and all steps of the connection.  The records are noted by the session,
  in \<open>seen\<close>, not by the connection.\<close>

theorem tls_response_counted:
  assumes "\<not> PLAIN_HTTP e" "\<not> STUB_TLS_AFTER_HANDSHAKE e" "tls c = Some (t, [])" "counter c = counter_init"
    and "conn_run (noting ptr) fuel e xs c g = Some (c', g', got)"
  shows "\<exists>t' seen. tls c' = Some (t', seen) \<and>
    headers_done (counter c') = (after_header (concat seen) \<noteq> None) \<and>
    bytes_received (counter c') = (case after_header (concat seen) of None \<Rightarrow> 0 | Some body \<Rightarrow> length body)"
proof -
  have "counted (http g) c g" using assms(3,4) by (simp add: counted_def)
  then have "counted (http g) c' g'" by (rule conn_run_counted[OF assms(1,2,5)])
  then show ?thesis using count_records_body by (auto simp: counted_def)
qed

text \<open>A session that sends its handshake, queues the request, hands out two records and then waits; the
  header of the response ends in the middle of the first record.\<close>

definition demo_session :: "nat rustls" where
  "demo_session t inc = (inc, 0, Inr (
      if t = 0 then EncodeTlsData (\<lambda>b. (22 # drop 1 b, Some 1, 1))
      else if t = 1 then TransmitTlsData 2
      else if t = 2 then WriteTraffic 2 (\<lambda>req b. (23 # drop 1 b, Some 1, 3))
      else if t = 3 then ReadTraffic [[72, CR, LF, CR, LF, 1], [2, 3]] False 4
      else OtherState t), t)"

lemma fill_outgoing_byte:
  assumes "length (outgoing c) < cap"
  shows "fill_outgoing (length (outgoing c)) cap (\<lambda>b. (x # drop 1 b, Some 1, t)) c =
    Some (c\<lparr>outgoing := outgoing c @ [x], tls := Some t\<rparr>, True)"
  using assms by (simp add: fill_outgoing_def resize_def Let_def)

definition demo_tls :: "(nat \<times> bytes list) conn" where
  "demo_tls = \<lparr>tls = Some (0, []), incoming = [], outgoing = [], request = ascii ''GET'', request_queued = False,
     handshake_done = False, counter = counter_init, conn_done = False, connect_start_ms = 0, queue_id = 0,
     src_port = 50000, expected = 4, closed_cleanly = False, attempts = 1, settled = False, start_ms = 0\<rparr>"

lemma demo_https: "\<not> PLAIN_HTTP demo_env" "\<not> STUB_TLS_AFTER_HANDSHAKE demo_env"
  by (simp_all add: PLAIN_HTTP_def STUB_TLS_AFTER_HANDSHAKE_def demo_env_def is_http_def bytes_eq_def b_http_def parse_bool_def)

lemma tls_pump_again:
  "tls c = Some t \<Longrightarrow> pump_round ptr t c g = Some (Again, c1, g1) \<Longrightarrow> tls_pump ptr (Suc fuel) c g = tls_pump ptr fuel c1 g1"
  by simp

lemma demo_tls_run:
  "\<exists>c' g' got. conn_run (noting demo_session) 5 demo_env [(10, demo_connected)] demo_tls stats_zero = Some (c', g', got) \<and>
     tls c' = Some (4, [[72, CR, LF, CR, LF, 1], [2, 3]])"
proof -
  let ?P = "noting demo_session" and ?recs = "[[72, CR, LF, CR, LF, 1], [2, 3]] :: bytes list"
  let ?c1 = "demo_tls\<lparr>outgoing := [22], tls := Some (1, [])\<rparr>"
  let ?c3 = "?c1\<lparr>outgoing := [22, 23], handshake_done := True, request_queued := True, tls := Some (3, [])\<rparr>"
  obtain k h where k: "count_records (counter ?c3) (http stats_zero) ?recs = (k, h)" by force
  let ?c4 = "?c3\<lparr>counter := k, tls := Some (4, ?recs)\<rparr>" and ?g = "stats_zero\<lparr>http := h\<rparr>"
  note d = demo_tls_def pump_round_def noting_def note_records_def demo_session_def pump_state_def Let_def
  have 0: "pump_round ?P (0, []) demo_tls stats_zero = Some (Again, ?c1, stats_zero)"
    using fill_outgoing_byte[of demo_tls TLS_BUF_CAP 22 "(1, [])"] by (simp add: d TLS_BUF_CAP_def)
  have 1: "pump_round ?P (1, []) ?c1 stats_zero = Some (Again, ?c1\<lparr>tls := Some (2, [])\<rparr>, stats_zero)"
    by (simp add: d)
  have 2: "pump_round ?P (2, []) (?c1\<lparr>tls := Some (2, [])\<rparr>) stats_zero = Some (Again, ?c3, stats_zero)"
    using fill_outgoing_byte[of "?c1\<lparr>handshake_done := True, tls := Some (2, [])\<rparr>"
        "1 + length (request demo_tls) + 128" 23 "(3, [])"] by (simp add: d)
  have 3: "pump_round ?P (3, []) ?c3 stats_zero = Some (Again, ?c4, ?g)"
    using k by (simp add: d read_records_def)
  have 4: "pump_round ?P (4, ?recs) ?c4 ?g = Some (Stop, ?c4, ?g)"
    by (simp add: d)
  have t: "tls demo_tls = Some (0, [])" "tls ?c1 = Some (1, [])" "tls ?c3 = Some (3, [])" "tls ?c4 = Some (4, ?recs)"
    "tls (?c1\<lparr>tls := Some (2, [])\<rparr>) = Some (2, [])" by (simp_all add: demo_tls_def)
  have five: "(5 :: nat) = Suc (Suc (Suc (Suc (Suc 0))))" by simp
  have "tls_pump ?P 5 demo_tls stats_zero = Some (?c4, ?g)"
    unfolding five tls_pump_again[OF t(1) 0] tls_pump_again[OF t(2) 1] tls_pump_again[OF t(5) 2] tls_pump_again[OF t(3) 3]
    using 4 t(4) by simp
  moreover have "drain_loop k [] demo_connected = Some ([], demo_connected)" for k
    by (cases k) (simp_all add: can_recv_def demo_connected_eq socket_new_def demo_rb_def rb_new_def rb_query_defs)
  ultimately have "conn_step ?P 5 demo_env 10 demo_tls demo_connected stats_zero =
      Some (conn_done (finish_conn demo_connected ?c4), finish_conn demo_connected ?c4, demo_connected, ?g)"
    using demo_https demo_established(2)
    by (simp add: conn_step_def settle_established_def syn_timed_out_def conn_traffic_def queue_request_def push_outgoing_def
        drain_socket_def count_stub_def count_plain_def SYN_TIMEOUT_MS_def wrap_i64_def demo_tls_def Let_def)
  then show ?thesis by simp
qed

theorem tls_response_counted_witness:
  "\<exists>c' g' got. conn_run (noting demo_session) 5 demo_env [(10, demo_connected)] demo_tls stats_zero = Some (c', g', got) \<and>
     headers_done (counter c') \<and> bytes_received (counter c') = 3"
proof -
  obtain c' g' got where r: "conn_run (noting demo_session) 5 demo_env [(10, demo_connected)] demo_tls stats_zero = Some (c', g', got)"
    "tls c' = Some (4, [[72, CR, LF, CR, LF, 1], [2, 3]])"
    using demo_tls_run by blast
  have t: "tls demo_tls = Some (0, [])" "counter demo_tls = counter_init" by (simp_all add: demo_tls_def)
  show ?thesis using tls_response_counted[OF demo_https t r(1)] r by (auto simp: header_end_def)
qed

text \<open>C13: a connection that is reset before its request is out never ends.  If the peer answers the SYN
  with a reset, the socket is closed with no connection left.  From then on every step, at any time,
  returns false and changes nothing: in the plain HTTP build when no received bytes are waiting to be
  counted, and in the TLS build when the session is waiting for data, that is when
  \<open>process_tls_records\<close> reports a state other than reading, encoding, transmitting or writing, and
  leaves the session and its input as they are.  The interface has nothing to send for the connection
  either, so the loop of the worker never finishes.  The comment on \<open>conn_step\<close> promises true for a
  connection that has terminated for any reason.\<close>

theorem reset_connection_hangs:
  assumes "\<not> conn_done c" "\<not> request_queued c" "state s = Closed" "tuple s = None" "rb_list (rx_buffer s) = []" "rx_sane s"
    and "if PLAIN_HTTP e then incoming c = []
         else 0 < fuel \<and> (\<exists>t. tls c = Some t \<and> ptr t (incoming c) = (incoming c, 0, Inr (OtherState t), t))"
  shows "conn_step ptr fuel e now c s g = Some (False, c, s, g) \<and> dispatch cx emit s = Some (Quiet, s)"
proof -
  have r: "\<not> can_recv s" using assms(5,6) by (simp add: can_recv_iff rx_sane_def)
  have d: "drain_socket c s = Some (c, s)" using r by (cases "recv_queue s") (simp_all add: drain_socket_def)
  have i: "c\<lparr>incoming := incoming c\<rparr> = c" "tls c = Some t \<Longrightarrow> c\<lparr>incoming := incoming c, tls := Some t\<rparr> = c" for t
    by (cases c; simp)+
  have "(if PLAIN_HTTP e then Some (c, g) else tls_pump ptr fuel c g) = Some (c, g)"
    using assms(7) i by (cases fuel) (auto simp: pump_round_def pump_state_def split: if_splits)
  then have "conn_traffic ptr fuel e c s g = Some (c, s, g)"
    using assms d by (simp add: conn_traffic_def queue_request_def may_send_def can_send_def push_outgoing_def
        count_stub_def count_plain_def finish_conn_def Let_def)
  then show ?thesis using assms by (simp add: conn_step_def settle_established_def syn_timed_out_def dispatch_def)
qed

text \<open>The reset of the peer of \<open>demo_connected\<close>.\<close>

definition demo_rst :: tcp_repr where
  "demo_rst = demo_syn_ack\<lparr>control := Rst, window_len := 0, max_seg_size := None\<rparr>"

definition demo_reset :: tcp_socket where
  "demo_reset = demo_connected\<lparr>state := Closed, tuple := None\<rparr>"

lemma demo_reset_process: "process demo_cx demo_ip demo_rst demo_connected = Some (None, demo_reset, demo_cx)"
  by (simp add: demo_reset_def demo_rst_def demo_connected_eq demo_syn_ack_def process_def check_ack_def
      receive_window_def seq_add_def socket_new_def demo_rb_def rb_new_def rb_query_defs check_window_def
      process_in_window_def account_ack_def effective_control_def transition_def set_state_def Let_def)

theorem reset_connection_hangs_witness:
  "process demo_cx demo_ip demo_rst demo_connected = Some (None, demo_reset, demo_cx) \<and>
   (\<forall>now. conn_step (\<lambda>t inc. (inc, 0, Inl (), t)) 0 demo_plain_env now demo_conn demo_reset stats_zero =
      Some (False, demo_conn, demo_reset, stats_zero)) \<and>
   (\<forall>now. conn_step demo_session 1 demo_env now (demo_conn\<lparr>tls := Some 4\<rparr>) demo_reset stats_zero =
      Some (False, demo_conn\<lparr>tls := Some 4\<rparr>, demo_reset, stats_zero))"
proof -
  have s: "rx_sane demo_reset" "rb_list (rx_buffer demo_reset) = []"
    using demo_sane
    by (simp_all add: rx_sane_def demo_reset_def demo_connected_eq socket_new_def demo_rb_def rb_new_def
        rb_capacity_def rb_list_def)
  have r: "state demo_reset = Closed" "tuple demo_reset = None" by (simp_all add: demo_reset_def)
  show ?thesis
    using reset_connection_hangs[of demo_conn demo_reset demo_plain_env 0 "\<lambda>t inc. (inc, 0, Inl (), t)"]
      reset_connection_hangs[of "demo_conn\<lparr>tls := Some 4\<rparr>" demo_reset demo_env 1 demo_session]
      s r demo_plain demo_https demo_reset_process
    by (simp add: demo_conn_def demo_session_def)
qed

end
