(* ===== verification/App_Worker.thy ===== *)
theory App_Worker
  imports App_Device App_Conn Iface_Tables
begin

text \<open>
  A worker of the benchmark (\<open>worker_thread\<close> of \<open>src/lib.rs\<close>): it derives its source ports, opens one
  connection per port, each with its block and request, drives them through one poll loop until all
  are done, and reports the totals.  The interface's \<open>poll\<close>, the clock and the TLS library are
  arguments.  \<open>None\<close> means the thread does not return: a panic, or more rounds of the loop than the
  bound given.  Shown: a worker opens a connection for every selected port whose \<open>connect\<close> succeeds,
  each asking for exactly one block; the loop ends only when every connection is done and neither
  loses nor duplicates one; and the report is consistent.
\<close>

section \<open>State\<close>

record worker_ctx =
  ctx_queue :: u16
  ctx_pool :: nat
  ctx_mac :: mac
  ctx_ip :: ipv4
  ctx_prefix_len :: nat
  ctx_gateway_ip :: ipv4
  ctx_gateway_mac :: mac
  ctx_first_block :: u64

text \<open>What a worker stores in its context for the main thread.\<close>

record worker_report =
  rep_bytes :: u64
  rep_elapsed_ns :: u64
  rep_expected :: u64
  rep_total :: u64
  rep_clean :: u64

definition report_init :: worker_report where
  "report_init = \<lparr>rep_bytes = 0, rep_elapsed_ns = 0, rep_expected = 0, rep_total = 0, rep_clean = 0\<rparr>"

text \<open>The sockets of the set by handle, and the connections with their handles.\<close>

record 'tls worker =
  socks :: "tcp_socket list"
  conns :: "(nat \<times> 'tls conn) list"
  wcx :: iface_context

definition FAULT_ABANDON_CONNS :: nat where "FAULT_ABANDON_CONNS = 0"

section \<open>Device and interface\<close>

definition worker_device :: "worker_ctx \<Rightarrow> bytes \<Rightarrow> dpdk_device option" where
  "worker_device ctx bitmap = do {
     synth \<leftarrow> build_arp_reply (ctx_gateway_mac ctx) (ctx_gateway_ip ctx) (ctx_mac ctx) (ctx_ip ctx);
     Some \<lparr>dpdk_device.queue_id = ctx_queue ctx, pending_synth = Some synth, owned_ports = Some bitmap,
       rx_pref = replicate RX_BURST (0, []), rx_pref_pos = 0, rx_pref_len = 0\<rparr>
   }"

definition be_addr :: "ipv4 \<Rightarrow> ip_addr" where
  "be_addr a = of_be32 (a ! 0) (a ! 1) (a ! 2) (a ! 3)"

text \<open>\<open>cx\<close> is the context of the fresh interface, which has no addresses yet.  \<open>IpCidr::new\<close> panics on a
  prefix longer than 32, \<open>update_ip_addrs\<close> on an address that is neither unicast nor unspecified.\<close>

definition worker_iface :: "worker_ctx \<Rightarrow> iface_context \<Rightarrow> iface_context option" where
  "worker_iface ctx cx = do {
     let a = be_addr (ctx_ip ctx);
     assert_that (ctx_prefix_len ctx \<le> 32 \<and> (addr_unicast a \<or> a = 0));
     Some (cx\<lparr>cx_ip_addrs := [(a, ctx_prefix_len ctx)]\<rparr>)
   }"

section \<open>Opening the connections\<close>

definition RX_BUF_SIZE :: nat where "RX_BUF_SIZE = 4 * 1024 * 1024"
definition TX_BUF_SIZE :: nat where "TX_BUF_SIZE = 32 * 1024"

definition new_socket :: "tcp_socket option" where
  "new_socket = do {
     s \<leftarrow> socket_new (rb_new (replicate RX_BUF_SIZE 0)) (rb_new (replicate TX_BUF_SIZE 0));
     Some (set_ack_delay None s)
   }"

definition target_endpoint :: "build_env \<Rightarrow> endpoint" where
  "target_endpoint e = (let a = TARGET_IP_OCTETS e in
     \<lparr>ep_addr = be_addr a, ep_port = TARGET_PORT e\<rparr>)"

definition new_conn :: "'tls option \<Rightarrow> bytes \<Rightarrow> int \<times> int \<Rightarrow> worker_ctx \<Rightarrow> u16 \<Rightarrow> u64 \<times> u64 \<Rightarrow> 'tls conn" where
  "new_conn session req now ctx port rng =
     \<lparr>tls = session, incoming = [], outgoing = [], request = req, request_queued = False, handshake_done = False,
      counter = counter_init, conn_done = False, connect_start_ms = fst now, queue_id = ctx_queue ctx, src_port = port,
      expected = snd rng - fst rng + 1, closed_cleanly = False, attempts = 1, settled = False, start_ms = snd now\<rparr>"

text \<open>One round of the setup loop.  \<open>tls_new\<close> is the outcome of creating the session; an error makes the
  worker return (\<open>Inl\<close>).  \<open>opn i\<close> are the two times read for the connection.  \<open>my_ports[i]\<close> and \<open>handles[i]\<close> are in range for every \<open>i\<close> of the loop.\<close>

definition open_conn ::
  "build_env \<Rightarrow> bytes \<Rightarrow> (nat \<Rightarrow> 'tls option) \<Rightarrow> (nat \<Rightarrow> int \<times> int) \<Rightarrow> worker_ctx \<Rightarrow> u16 list \<Rightarrow> nat \<Rightarrow> 'tls worker \<Rightarrow>
     (unit + 'tls worker) option" where
  "open_conn e host tls_new opn ctx ports i w = do {
     let rng = block_range e (ctx_first_block ctx) (of_nat i);
     assert_that (i < length ports \<and> i < length (socks w));
     let port = ports ! i;
     let (r, s, cx) = connect (wcx w) (target_endpoint e) \<lparr>lep_addr = None, lep_port = port\<rparr> (socks w ! i);
     let w1 = w\<lparr>socks := (socks w)[i := s], wcx := cx\<rparr>;
     (case r of
        Inl _ \<Rightarrow> Some (Inr w1)
      | Inr _ \<Rightarrow> do {
          req \<leftarrow> conn_request host (fst rng) (snd rng);
          if PLAIN_HTTP e
          then Some (Inr (w1\<lparr>conns := conns w1 @ [(i, new_conn None req (opn i) ctx port rng)]\<rparr>))
          else (case tls_new i of
              None \<Rightarrow> Some (Inl ())
            | Some t \<Rightarrow> Some (Inr (w1\<lparr>conns := conns w1 @ [(i, new_conn (Some t) req (opn i) ctx port rng)]\<rparr>)))
        })
   }"

fun open_conns ::
  "build_env \<Rightarrow> bytes \<Rightarrow> (nat \<Rightarrow> 'tls option) \<Rightarrow> (nat \<Rightarrow> int \<times> int) \<Rightarrow> worker_ctx \<Rightarrow> u16 list \<Rightarrow> nat list \<Rightarrow> 'tls worker \<Rightarrow>
     (unit + 'tls worker) option" where
  "open_conns e host tls_new opn ctx ports [] w = Some (Inr w)"
| "open_conns e host tls_new opn ctx ports (i # is) w = do {
     r \<leftarrow> open_conn e host tls_new opn ctx ports i w;
     (case r of Inl u \<Rightarrow> Some (Inl u) | Inr w1 \<Rightarrow> open_conns e host tls_new opn ctx ports is w1)
   }"

section \<open>The loop\<close>

text \<open>The \<open>for\<close> loop over the connections; \<open>clk\<close> gives the time each step reads.\<close>

fun step_conns ::
  "'tls rustls \<Rightarrow> nat \<Rightarrow> build_env \<Rightarrow> (nat \<Rightarrow> int) \<Rightarrow> (nat \<times> 'tls conn) list \<Rightarrow> tcp_socket list \<Rightarrow> conn_stats \<Rightarrow>
     (bool \<times> (nat \<times> 'tls conn) list \<times> tcp_socket list \<times> conn_stats) option" where
  "step_conns ptr fuel e clk [] ss g = Some (True, [], ss, g)"
| "step_conns ptr fuel e clk ((h, c) # cs) ss g = do {
     assert_that (h < length ss);
     (d, c1, s1, g1) \<leftarrow> conn_step ptr fuel e (clk h) c (ss ! h) g;
     (all_done, cs1, ss1, g2) \<leftarrow> step_conns ptr fuel e clk cs (ss[h := s1]) g1;
     Some (d \<and> all_done, (h, c1) # cs1, ss1, g2)
   }"

text \<open>\<open>poll k\<close> is what the interface does to the sockets in round \<open>k\<close>, on the worker's device.\<close>

fun worker_loop ::
  "'tls rustls \<Rightarrow> nat \<Rightarrow> build_env \<Rightarrow> (nat \<Rightarrow> tcp_socket list \<Rightarrow> tcp_socket list) \<Rightarrow> (nat \<Rightarrow> nat \<Rightarrow> int) \<Rightarrow> nat \<Rightarrow> nat \<Rightarrow>
     (nat \<times> 'tls conn) list \<Rightarrow> tcp_socket list \<Rightarrow> conn_stats \<Rightarrow>
     ((nat \<times> 'tls conn) list \<times> tcp_socket list \<times> conn_stats) option" where
  "worker_loop ptr fuel e poll clk k 0 cs ss g = None"
| "worker_loop ptr fuel e poll clk k (Suc rounds) cs ss g = do {
     (all_done, cs1, ss1, g1) \<leftarrow> step_conns ptr fuel e (clk k) cs (poll k ss) g;
     if all_done then Some (cs1, ss1, g1)
     else worker_loop ptr fuel e poll clk (Suc k) rounds cs1 ss1 g1
   }"

section \<open>The report\<close>

definition report :: "u64 \<Rightarrow> u64 \<Rightarrow> (nat \<times> 'tls conn) list \<Rightarrow> worker_report" where
  "report start_ns end_ns cs =
     \<lparr>rep_bytes = of_nat (sum_list (map (\<lambda>(h, c). bytes_received (counter c)) cs)),
      rep_elapsed_ns = sat_sub end_ns start_ns,
      rep_expected = sum_list (map (\<lambda>(h, c). expected c) cs),
      rep_total = of_nat (length cs),
      rep_clean = of_nat (length (filter (\<lambda>(h, c). closed_cleanly c) cs))\<rparr>"

section \<open>worker_thread\<close>

text \<open>\<open>clk 0\<close> and \<open>clk 1\<close> are the times read when the connections are opened; the rounds of the loop are
  numbered from 2.\<close>

definition worker_thread ::
  "'tls rustls \<Rightarrow> nat \<Rightarrow> rss_config \<Rightarrow> build_env \<Rightarrow> bytes \<Rightarrow> bool \<Rightarrow> (nat \<Rightarrow> 'tls option) \<Rightarrow> iface_context \<Rightarrow>
     (dpdk_device \<Rightarrow> nat \<Rightarrow> tcp_socket list \<Rightarrow> tcp_socket list) \<Rightarrow> (nat \<Rightarrow> nat \<Rightarrow> int) \<Rightarrow> u64 \<times> u64 \<Rightarrow> nat \<Rightarrow> worker_ctx \<Rightarrow> conn_stats \<Rightarrow>
     (worker_report \<times> conn_stats) option" where
  "worker_thread ptr fuel rss e host sni_ok tls_new cx poll clk ns rounds ctx g = do {
     (bitmap, owned_count) \<leftarrow> build_owned_ports rss e (ctx_ip ctx) (ctx_queue ctx) (replicate OWNED_BITMAP_BYTES 0);
     dev \<leftarrow> worker_device ctx bitmap;
     icx \<leftarrow> worker_iface ctx cx;
     s \<leftarrow> new_socket;
     let m = unat (CONNS_PER_WORKER e);
     let w = \<lparr>socks = replicate m s, conns = [], wcx = icx\<rparr>;
     if \<not> sni_ok then Some (report_init, g)
     else do {
       ports \<leftarrow> select_ports bitmap owned_count m;
       let n_conns = min m (length ports);
       r \<leftarrow> open_conns e host tls_new (\<lambda>i. (clk 0 i, clk 1 i)) ctx ports [0..<n_conns - FAULT_ABANDON_CONNS] w;
       (case r of
          Inl _ \<Rightarrow> Some (report_init, g)
        | Inr w1 \<Rightarrow> do {
            (cs, ss, g1) \<leftarrow> worker_loop ptr fuel e (poll dev) clk 2 rounds (conns w1) (socks w1) g;
            Some (report (fst ns) (snd ns) cs, g1)
          })
     }
   }"

section \<open>The setup loop\<close>

text \<open>A context whose addresses are well-formed and whose IP address may be assigned.\<close>

definition worker_ctx_ok :: "worker_ctx \<Rightarrow> bool" where
  "worker_ctx_ok ctx \<longleftrightarrow> is_mac (ctx_mac ctx) \<and> is_mac (ctx_gateway_mac ctx) \<and> is_ipv4 (ctx_ip ctx) \<and> is_ipv4 (ctx_gateway_ip ctx) \<and>
     ctx_prefix_len ctx \<le> 32 \<and> (addr_unicast (be_addr (ctx_ip ctx)) \<or> be_addr (ctx_ip ctx) = 0)"

lemma worker_ctx_opens:
  assumes "worker_ctx_ok ctx"
  obtains dev icx where "worker_device ctx bm = Some dev" "worker_iface ctx cx = Some icx" "cx_ip_addrs icx \<noteq> []"
  using assms that by (simp add: worker_ctx_ok_def worker_device_def worker_iface_def build_arp_reply_def arp_frame_eq is_mac_def is_ipv4_def)

lemma conn_request_total: "\<exists>req. conn_request host a b = Some req"
proof -
  have wf: "bw_wf (bw_new (replicate REQUEST_BUF 0))" by (simp add: bw_wf_def bw_new_def)
  obtain w where "write_fmt (bw_new (replicate REQUEST_BUF 0)) (request_fragments host a b) = Some w" "bw_wf w"
    by (rule write_fmt_correct[OF wf])
  then show ?thesis by (simp add: conn_request_def build_range_request_def bw_wf_def slice_def)
qed

text \<open>The connections opened for the indices below \<open>n\<close>: each with its own socket, its port and exactly
  its block.\<close>

definition conn_for :: "build_env \<Rightarrow> bytes \<Rightarrow> worker_ctx \<Rightarrow> u16 list \<Rightarrow> nat \<times> 'tls conn \<Rightarrow> bool" where
  "conn_for e host ctx ports = (\<lambda>(h, c). src_port c = ports ! h \<and> expected c = BLOCK_SIZE e \<and> \<not> closed_cleanly c \<and> \<not> conn_done c \<and>
     Some (request c) = conn_request host (fst (block_range e (ctx_first_block ctx) (of_nat h)))
       (snd (block_range e (ctx_first_block ctx) (of_nat h))))"

definition opened :: "build_env \<Rightarrow> bytes \<Rightarrow> worker_ctx \<Rightarrow> u16 list \<Rightarrow> nat \<Rightarrow> 'tls worker \<Rightarrow> bool" where
  "opened e host ctx ports n w \<longleftrightarrow> (\<forall>x \<in> set (conns w). fst x < n \<and> conn_for e host ctx ports x) \<and>
     distinct (map fst (conns w)) \<and> length (conns w) \<le> n"

lemma block_range_size: "snd (block_range e f i) - fst (block_range e f i) + 1 = BLOCK_SIZE e"
  by (simp add: block_range_def Let_def)

lemma open_conn_total:
  assumes "i < length ports" "i < length (socks w)"
  shows "\<exists>r. open_conn e host tls_new clk ctx ports i w = Some r"
proof -
  obtain r s cx where c: "connect (wcx w) (target_endpoint e) \<lparr>lep_addr = None, lep_port = ports ! i\<rparr> (socks w ! i) = (r, s, cx)"
    by (metis prod_cases3)
  obtain req where "conn_request host (fst (block_range e (ctx_first_block ctx) (of_nat i)))
      (snd (block_range e (ctx_first_block ctx) (of_nat i))) = Some req" using conn_request_total by blast
  then show ?thesis using assms c
    by (cases r; cases "tls_new i") (simp_all add: open_conn_def Let_def)
qed

text \<open>A round leaves the connections alone or appends the one for its index.\<close>

lemma open_conn_cases:
  assumes "open_conn e host tls_new clk ctx ports i w = Some (Inr w')"
  obtains (refused) "conns w' = conns w" "length (socks w') = length (socks w)"
  | (added) c where "conns w' = conns w @ [(i, c)]" "conn_for e host ctx ports (i, c)" "length (socks w') = length (socks w)"
proof -
  let ?br = "block_range e (ctx_first_block ctx) (of_nat i)"
  obtain r s cx where c: "connect (wcx w) (target_endpoint e) \<lparr>lep_addr = None, lep_port = ports ! i\<rparr> (socks w ! i) = (r, s, cx)"
    by (metis prod_cases3)
  have i: "i < length ports" "i < length (socks w)" using assms by (auto simp: open_conn_def Let_def split: if_splits)
  obtain req where req: "conn_request host (fst ?br) (snd ?br) = Some req" using conn_request_total by blast
  have ok: "conn_for e host ctx ports (i, new_conn t req (clk i) ctx (ports ! i) ?br)" for t
    using req by (simp add: conn_for_def new_conn_def block_range_size)
  show thesis
  proof (cases r)
    case (Inl err)
    then show thesis using assms c i refused by (auto simp: open_conn_def Let_def)
  next
    case (Inr u)
    then show thesis
      using assms c i req added[OF _ ok] by (auto simp: open_conn_def Let_def split: if_splits option.splits)
  qed
qed

lemma opened_init: "opened e host ctx ports 0 \<lparr>socks = ss, conns = [], wcx = cx\<rparr>"
  by (simp add: opened_def)

lemma open_conns_opened:
  assumes "open_conns e host tls_new clk ctx ports [a..<b] w = Some (Inr w')" "opened e host ctx ports a w" "a \<le> b"
  shows "opened e host ctx ports b w' \<and> length (socks w') = length (socks w)"
  using assms
proof (induction "b - a" arbitrary: a w)
  case 0
  then show ?case by simp
next
  case (Suc k)
  then have ab: "a < b" by simp
  then have "[a..<b] = a # [Suc a..<b]" by (rule upt_conv_Cons)
  then obtain w1 where w1: "open_conn e host tls_new clk ctx ports a w = Some (Inr w1)"
    "open_conns e host tls_new clk ctx ports [Suc a..<b] w1 = Some (Inr w')"
  proof -
    obtain r where r: "open_conn e host tls_new clk ctx ports a w = Some r"
      using Suc.prems(1) \<open>[a..<b] = _\<close> by (auto simp: bind_eq_Some_conv)
    then show thesis using that Suc.prems(1) \<open>[a..<b] = _\<close> by (cases r) auto
  qed
  from w1(1) have "opened e host ctx ports (Suc a) w1 \<and> length (socks w1) = length (socks w)"
  proof (cases rule: open_conn_cases)
    case refused
    then show ?thesis using Suc.prems(2) by (auto simp: opened_def)
  next
    case (added c)
    then show ?thesis using Suc.prems(2) by (auto simp: opened_def)
  qed
  then show ?case using Suc.hyps(1)[OF _ w1(2)] Suc.hyps(2) ab by simp
qed

section \<open>Steps of the loop\<close>

lemma conn_step_kept:
  assumes "conn_step ptr fuel e now c s g = Some (d, c', s', g')"
  shows "d = conn_done c'" "expected c' = expected c"
proof -
  obtain c1 g1 where 1: "settle_established (state s) now c g = (c1, g1)" by force
  obtain c2 g2 where 2: "give_up now c1 g1 = (c2, g2)" by force
  have x: "expected c1 = expected c" "expected c2 = expected c1" "conn_done c2"
    using 1 2 by (auto simp: settle_established_def give_up_def Let_def split: if_splits)
  have "d = conn_done c' \<and> expected c' = expected c"
  proof (cases "conn_done c \<or> syn_timed_out (state s) now c1")
    case True
    then show ?thesis using assms 1 2 x by (auto simp: conn_step_def split: if_splits)
  next
    case False
    then have t: "conn_traffic ptr fuel e c1 s g1 = Some (c', s', g')" "d = conn_done c'"
      using assms 1 by (auto simp: conn_step_def bind_eq_Some_conv)
    obtain c3 where "c' = finish_conn s' c3" "pump_frame c1 c3" by (rule conn_traffic_finish[OF t(1)])
    then show ?thesis using t(2) x by (simp add: pump_frame_def)
  qed
  then show "d = conn_done c'" "expected c' = expected c" by simp_all
qed

text \<open>The connections after a round, with their handles and what they expect.\<close>

definition kept :: "(nat \<times> 'tls conn) list \<Rightarrow> (nat \<times> 'tls conn) list \<Rightarrow> bool" where
  "kept cs cs' \<longleftrightarrow> map (\<lambda>(h, c). (h, expected c)) cs' = map (\<lambda>(h, c). (h, expected c)) cs"

lemma kept_trans: "kept a b \<Longrightarrow> kept b c \<Longrightarrow> kept a c"
  by (simp add: kept_def)

lemma step_conns_kept:
  "step_conns ptr fuel e clk cs ss g = Some (all_done, cs', ss', g') \<Longrightarrow>
     kept cs cs' \<and> length ss' = length ss \<and> all_done = (\<forall>x \<in> set cs'. conn_done (snd x))"
proof (induction cs arbitrary: ss g all_done cs' ss' g')
  case Nil
  then show ?case by (simp add: kept_def)
next
  case (Cons x cs)
  obtain h c where x: "x = (h, c)" by fastforce
  obtain d c1 s1 g1 where 0: "conn_step ptr fuel e (clk h) c (ss ! h) g = Some (d, c1, s1, g1)"
    using Cons.prems x by (auto simp: bind_eq_Some_conv split: if_splits)
  then obtain ad cs1 ss1 g2 where 2: "step_conns ptr fuel e clk cs (ss[h := s1]) g1 = Some (ad, cs1, ss1, g2)"
    using Cons.prems x by (auto simp: bind_eq_Some_conv split: if_splits)
  have 1: "conn_step ptr fuel e (clk h) c (ss ! h) g = Some (d, c1, s1, g1)"
    "step_conns ptr fuel e clk cs (ss[h := s1]) g1 = Some (ad, cs1, ss', g')"
    "all_done = (d \<and> ad)" "cs' = (h, c1) # cs1"
    using Cons.prems x 0 2 by (auto split: if_splits)
  from Cons.IH[OF 1(2)] conn_step_kept[OF 1(1)] show ?case using 1(3,4) x by (simp add: kept_def)
qed

lemma worker_loop_kept:
  "worker_loop ptr fuel e poll clk k rounds cs ss g = Some (cs', ss', g') \<Longrightarrow>
     kept cs cs' \<and> (\<forall>x \<in> set cs'. conn_done (snd x))"
proof (induction rounds arbitrary: k cs ss g)
  case 0
  then show ?case by simp
next
  case (Suc rounds)
  obtain ad cs1 ss1 g1 where 1: "step_conns ptr fuel e (clk k) cs (poll k ss) g = Some (ad, cs1, ss1, g1)"
    "(if ad then Some (cs1, ss1, g1) else worker_loop ptr fuel e poll clk (Suc k) rounds cs1 ss1 g1) = Some (cs', ss', g')"
    using Suc.prems by (auto simp: bind_eq_Some_conv)
  from step_conns_kept[OF 1(1)] Suc.IH[of "Suc k" cs1 ss1 g1] 1(2) show ?case
    by (auto split: if_splits intro: kept_trans)
qed

lemma kept_each:
  assumes "kept cs cs'" "\<forall>x \<in> set cs. expected (snd x) = b"
  shows "\<forall>x \<in> set cs'. expected (snd x) = b"
proof
  fix x assume "x \<in> set cs'"
  then have "(fst x, expected (snd x)) \<in> set (map (\<lambda>(h, c). (h, expected c)) cs')" by force
  then have "(fst x, expected (snd x)) \<in> set (map (\<lambda>(h, c). (h, expected c)) cs)" using assms(1) by (simp only: kept_def)
  then show "expected (snd x) = b" using assms(2) by force
qed

lemma kept_expected:
  assumes "kept cs cs'" "\<forall>x \<in> set cs. expected (snd x) = b"
  shows "sum_list (map (\<lambda>(h, c). expected c) cs') = of_nat (length cs') * b" "length cs' = length cs"
proof -
  have l: "length cs' = length cs" using assms(1) by (metis kept_def length_map)
  moreover have e: "map (\<lambda>(h, c). expected c) cs' = map (\<lambda>(h, c). expected c) cs"
    using arg_cong[OF assms(1)[unfolded kept_def], of "map snd"] by (simp add: comp_def case_prod_unfold)
  moreover have r: "map (\<lambda>(h, c). expected c) cs = replicate (length cs) b"
    using assms(2) by (intro map_replicate_const[of b, THEN trans[rotated]] map_cong) (auto simp: split_beta)
  ultimately show "sum_list (map (\<lambda>(h, c). expected c) cs') = of_nat (length cs') * b" "length cs' = length cs"
    by (simp_all add: sum_list_replicate)
qed

section \<open>Every port gets its connection\<close>

text \<open>A connection that has had no answer: still in the handshake it started at \<open>t h\<close>, with nothing
  queued or received, or given up.\<close>

definition unanswered :: "(nat \<Rightarrow> int) \<Rightarrow> nat \<Rightarrow> 'tls conn \<Rightarrow> tcp_socket \<Rightarrow> bool" where
  "unanswered t h c s \<longleftrightarrow> \<not> closed_cleanly c \<and> counter c = counter_init \<and> connect_start_ms c = t h \<and>
     (conn_done c \<or> state s = SynSent \<and> \<not> can_recv s \<and> outgoing c = [] \<and> incoming c = [] \<and> \<not> request_queued c)"

text \<open>Connections with their sockets.\<close>

definition each :: "(nat \<Rightarrow> 'tls conn \<Rightarrow> tcp_socket \<Rightarrow> bool) \<Rightarrow> (nat \<times> 'tls conn) list \<Rightarrow> tcp_socket list \<Rightarrow> bool" where
  "each P cs ss \<longleftrightarrow> (\<forall>x \<in> set cs. fst x < length ss \<and> P (fst x) (snd x) (ss ! fst x))"

lemma each_Cons [simp]: "each P ((h, c) # cs) ss \<longleftrightarrow> h < length ss \<and> P h c (ss ! h) \<and> each P cs ss"
  by (simp add: each_def)

lemma each_Nil [simp]: "each P [] ss"
  by (simp add: each_def)

lemma each_append [simp]: "each P (a @ b) ss \<longleftrightarrow> each P a ss \<and> each P b ss"
  by (auto simp: each_def)

lemma each_others:
  assumes "h \<notin> fst ` set cs"
  shows "each P cs (ss[h := s]) = each P cs ss"
proof -
  have "ss[h := s] ! fst x = ss ! fst x" if "x \<in> set cs" for x
    by (rule nth_list_update_neq) (use that assms in blast)
  then show ?thesis by (simp add: each_def)
qed

lemma each_mono: "each P cs ss \<Longrightarrow> (\<And>h c s. P h c s \<Longrightarrow> Q h c s) \<Longrightarrow> each Q cs ss"
  by (auto simp: each_def)

lemma unanswered_new:
  assumes "state s = SynSent" "\<not> can_recv s"
  shows "unanswered (\<lambda>h. fst (opn h)) h (new_conn session req (opn h) ctx port rng) s"
  using assms by (simp add: unanswered_def new_conn_def)

lemma source_address_found: "cs \<noteq> [] \<or> first \<noteq> None \<Longrightarrow> source_address_from first cs dst \<noteq> None"
  by (induction cs arbitrary: first) auto

lemma connect_ok:
  assumes "\<not> is_open s" "ep_port remote \<noteq> 0" "ep_addr remote \<noteq> 0" "port \<noteq> 0" "cx_ip_addrs cx \<noteq> []"
  obtains s' cx' where "connect cx remote \<lparr>lep_addr = None, lep_port = port\<rparr> s = (Inr (), s', cx')"
    "cx_ip_addrs cx' = cx_ip_addrs cx" "state s' = SynSent" "\<not> can_recv s'"
proof -
  obtain a where "get_source_address cx (ep_addr remote) = Some a"
    using source_address_found[of "cx_ip_addrs cx"] assms(5) by (auto simp: get_source_address_def)
  moreover obtain q cx' where r: "random_seq_no cx = (q, cx')" by force
  moreover have "cx_ip_addrs cx' = cx_ip_addrs cx" using r by (auto simp: random_seq_no_def split: prod.splits)
  ultimately show thesis using that assms(1-4)
    by (simp add: connect_def Let_def set_state_def socket_reset_def can_recv_def rb_clear_def rb_is_empty_def rb_len_def)
qed

lemma open_conn_added:
  assumes "i < length ports" "i < length (socks w)" "ports ! i \<noteq> 0" "\<not> is_open (socks w ! i)" "cx_ip_addrs (wcx w) \<noteq> []"
    "ep_addr (target_endpoint e) \<noteq> 0" "PLAIN_HTTP e \<or> tls_new i \<noteq> None"
  obtains c s' cx' where "open_conn e host tls_new opn ctx ports i w =
      Some (Inr (w\<lparr>socks := (socks w)[i := s'], wcx := cx', conns := conns w @ [(i, c)]\<rparr>))"
    "cx_ip_addrs cx' = cx_ip_addrs (wcx w)" "conn_for e host ctx ports (i, c)" "unanswered (\<lambda>h. fst (opn h)) i c s'"
proof -
  let ?br = "block_range e (ctx_first_block ctx) (of_nat i)"
  have p: "ep_port (target_endpoint e) \<noteq> 0" by (simp add: target_endpoint_def TARGET_PORT_def Let_def)
  obtain s' cx' where c: "connect (wcx w) (target_endpoint e) \<lparr>lep_addr = None, lep_port = ports ! i\<rparr> (socks w ! i) = (Inr (), s', cx')"
    "cx_ip_addrs cx' = cx_ip_addrs (wcx w)" "state s' = SynSent" "\<not> can_recv s'"
    by (rule connect_ok[OF assms(4) p assms(6,3,5)])
  obtain req where req: "conn_request host (fst ?br) (snd ?br) = Some req" using conn_request_total by blast
  have ok: "conn_for e host ctx ports (i, new_conn t req (opn i) ctx (ports ! i) ?br)" for t
    using req by (simp add: conn_for_def new_conn_def block_range_size)
  have wt: "unanswered (\<lambda>h. fst (opn h)) i (new_conn t req (opn i) ctx (ports ! i) ?br) s'" for t
    by (rule unanswered_new[OF c(3,4)])
  show thesis
    using assms c req that[OF _ c(2) ok wt] by (cases "PLAIN_HTTP e") (auto simp: open_conn_def Let_def)
qed

lemma open_conns_all:
  assumes "b \<le> length ports" "b \<le> length (socks w)" "\<forall>i < b. ports ! i \<noteq> 0" "\<forall>i. a \<le> i \<and> i < b \<longrightarrow> \<not> is_open (socks w ! i)"
    "cx_ip_addrs (wcx w) \<noteq> []" "ep_addr (target_endpoint e) \<noteq> 0" "PLAIN_HTTP e \<or> (\<forall>i. tls_new i \<noteq> None)" "a \<le> b"
    "\<forall>x \<in> set (conns w). fst x < a \<and> conn_for e host ctx ports x" "each (unanswered (\<lambda>h. fst (opn h))) (conns w) (socks w)"
  shows "\<exists>w'. open_conns e host tls_new opn ctx ports [a..<b] w = Some (Inr w') \<and>
    map fst (conns w') = map fst (conns w) @ [a..<b] \<and>
    (\<forall>x \<in> set (conns w'). conn_for e host ctx ports x) \<and> each (unanswered (\<lambda>h. fst (opn h))) (conns w') (socks w')"
  using assms
proof (induction "b - a" arbitrary: a w)
  case 0
  then show ?case by simp
next
  case (Suc k)
  then have ab: "a < b" by simp
  have u: "[a..<b] = a # [Suc a..<b]" by (rule upt_conv_Cons[OF ab])
  obtain c s' cx' where c: "open_conn e host tls_new opn ctx ports a w =
      Some (Inr (w\<lparr>socks := (socks w)[a := s'], wcx := cx', conns := conns w @ [(a, c)]\<rparr>))"
    "cx_ip_addrs cx' = cx_ip_addrs (wcx w)" "conn_for e host ctx ports (a, c)" "unanswered (\<lambda>h. fst (opn h)) a c s'"
    by (rule open_conn_added[of a ports w e tls_new host opn ctx]) (use Suc.prems ab in auto)
  let ?w = "w\<lparr>socks := (socks w)[a := s'], wcx := cx', conns := conns w @ [(a, c)]\<rparr>"
  have "\<exists>w'. open_conns e host tls_new opn ctx ports [Suc a..<b] ?w = Some (Inr w') \<and>
      map fst (conns w') = map fst (conns ?w) @ [Suc a..<b] \<and>
      (\<forall>x \<in> set (conns w'). conn_for e host ctx ports x) \<and> each (unanswered (\<lambda>h. fst (opn h))) (conns w') (socks w')"
  proof (rule Suc.hyps(1))
    have "a \<notin> fst ` set (conns w)" using Suc.prems(9) by auto
    then show "each (unanswered (\<lambda>h. fst (opn h))) (conns ?w) (socks ?w)"
      using Suc.prems(2,10) c(4) ab by (simp add: each_others)
    show "\<forall>x \<in> set (conns ?w). fst x < Suc a \<and> conn_for e host ctx ports x" using Suc.prems(9) c(3) by auto
  qed (use Suc.hyps(2) Suc.prems c ab in \<open>auto simp: nth_list_update\<close>)
  then show ?case using c(1) u by auto
qed

section \<open>Giving up\<close>

text \<open>A network that answers no connection attempt: polling leaves every socket in its handshake, with
  an empty receive buffer.\<close>

definition dead_network :: "(nat \<Rightarrow> tcp_socket list \<Rightarrow> tcp_socket list) \<Rightarrow> bool" where
  "dead_network poll \<longleftrightarrow> (\<forall>k ss. length (poll k ss) = length ss \<and>
     (\<forall>h < length ss. state (ss ! h) = SynSent \<and> \<not> can_recv (ss ! h) \<longrightarrow>
        state (poll k ss ! h) = SynSent \<and> \<not> can_recv (poll k ss ! h)))"

lemma dead_poll: "dead_network poll \<Longrightarrow> each (unanswered t) cs ss \<Longrightarrow> each (unanswered t) cs (poll k ss)"
  by (auto simp: dead_network_def each_def unanswered_def)

lemma idle_traffic:
  assumes "PLAIN_HTTP e" "state s = SynSent" "\<not> can_recv s" "outgoing c = []" "incoming c = []" "\<not> request_queued c"
  shows "conn_traffic ptr fuel e c s g = Some (c, s, g)"
proof -
  have "drain_loop k inc s = Some (inc, s)" for k inc by (cases k) (simp_all add: assms(3))
  then show ?thesis
    using assms by (simp add: conn_traffic_def queue_request_def may_send_def push_outgoing_def drain_socket_def
        count_stub_def count_plain_def finish_conn_def ended_def Let_def)
qed

text \<open>A round in which every connection makes a step from \<open>P\<close> to \<open>Q\<close>.\<close>

lemma step_conns_each:
  assumes "distinct (map fst cs)" "each P cs ss"
    and "\<And>h c s g. P h c s \<Longrightarrow> \<exists>c' s' g'. conn_step ptr fuel e (now h) c s g = Some (conn_done c', c', s', g') \<and> Q h c' s'"
  shows "\<exists>cs' ss' g'. step_conns ptr fuel e now cs ss g = Some (\<forall>x \<in> set cs'. conn_done (snd x), cs', ss', g') \<and>
    map fst cs' = map fst cs \<and> length ss' = length ss \<and> each Q cs' ss' \<and> (\<forall>h. h \<notin> fst ` set cs \<longrightarrow> ss' ! h = ss ! h)"
  using assms(1,2)
proof (induction cs arbitrary: ss g)
  case Nil
  then show ?case by simp
next
  case (Cons x cs)
  obtain h c where x: "x = (h, c)" by fastforce
  have h: "h < length ss" "P h c (ss ! h)" "h \<notin> fst ` set cs" using Cons.prems x by auto
  obtain c1 s1 g1 where 1: "conn_step ptr fuel e (now h) c (ss ! h) g = Some (conn_done c1, c1, s1, g1)" "Q h c1 s1"
    using assms(3)[OF h(2)] by blast
  have "each P cs (ss[h := s1])" using Cons.prems(2) x h(3) by (simp add: each_others)
  then obtain cs' ss' g' where 2: "step_conns ptr fuel e now cs (ss[h := s1]) g1 = Some (\<forall>x \<in> set cs'. conn_done (snd x), cs', ss', g')"
    "map fst cs' = map fst cs" "length ss' = length ss" "each Q cs' ss'" "\<forall>h'. h' \<notin> fst ` set cs \<longrightarrow> ss' ! h' = ss[h := s1] ! h'"
    using Cons.IH[of "ss[h := s1]" g1] Cons.prems(1) by auto
  have "ss' ! h = s1" using 2(5) h by simp
  then show ?case using 1 2 x h
    by (intro exI[of _ "(h, c1) # cs'"] exI[of _ ss'] exI[of _ g']) auto
qed

lemma unanswered_step:
  assumes "PLAIN_HTTP e" "unanswered t h c s"
  shows "\<exists>c' s' g'. conn_step ptr fuel e now c s g = Some (conn_done c', c', s', g') \<and>
    (unanswered t h c' s' \<and> (SYN_TIMEOUT_MS < wrap_i64 (now - t h) \<longrightarrow> conn_done c'))"
proof (cases "conn_done c")
  case True
  then show ?thesis using assms(2) by (simp add: conn_step_def)
next
  case False
  then have w: "state s = SynSent" "\<not> can_recv s" "outgoing c = []" "incoming c = []" "\<not> request_queued c"
    "\<not> closed_cleanly c" "counter c = counter_init" "connect_start_ms c = t h"
    using assms(2) by (auto simp: unanswered_def)
  note idle = idle_traffic[OF assms(1) w(1-5), of ptr fuel g]
  show ?thesis
  proof (cases "SYN_TIMEOUT_MS < wrap_i64 (now - t h)")
    case True
    obtain c' g' where g: "give_up now c g = (c', g')" by force
    then have "conn_done c'" "unanswered t h c' (abort s)"
      using w by (auto simp: give_up_def unanswered_def Let_def split: if_splits)
    then show ?thesis using False True g w
      by (simp add: conn_step_def settle_established_def syn_timed_out_def)
  next
    case f: False
    then show ?thesis using False idle w assms(2)
      by (simp add: conn_step_def settle_established_def syn_timed_out_def)
  qed
qed

lemma unanswered_loop:
  assumes "PLAIN_HTTP e" "dead_network poll" "\<forall>h. SYN_TIMEOUT_MS < wrap_i64 (clk K h - t h)"
  shows "k \<le> K \<Longrightarrow> K < k + rounds \<Longrightarrow> distinct (map fst cs) \<Longrightarrow> each (unanswered t) cs ss \<Longrightarrow>
    \<exists>cs' ss' g'. worker_loop ptr fuel e poll clk k rounds cs ss g = Some (cs', ss', g') \<and>
      map fst cs' = map fst cs \<and> each (unanswered t) cs' ss'"
proof (induction rounds arbitrary: k cs ss g)
  case 0
  then show ?case by simp
next
  case (Suc rounds)
  let ?Q = "\<lambda>h c s. unanswered t h c s \<and> (SYN_TIMEOUT_MS < wrap_i64 (clk k h - t h) \<longrightarrow> conn_done c)"
  from step_conns_each[OF Suc.prems(3) dead_poll[OF assms(2) Suc.prems(4)], of ptr fuel e "clk k" ?Q k g] unanswered_step[OF assms(1)]
  obtain cs1 ss1 g1 where 1: "step_conns ptr fuel e (clk k) cs (poll k ss) g = Some (\<forall>x \<in> set cs1. conn_done (snd x), cs1, ss1, g1)"
    "map fst cs1 = map fst cs" "each ?Q cs1 ss1" by blast
  have e: "each (unanswered t) cs1 ss1" using 1(3) by (rule each_mono) simp
  show ?case
  proof (cases "\<forall>x \<in> set cs1. conn_done (snd x)")
    case True
    then show ?thesis using 1 e by auto
  next
    case False
    then have "k \<noteq> K" using 1(3) assms(3) by (auto simp: each_def)
    then show ?thesis using Suc.IH[of "Suc k" cs1 ss1 g1] Suc.prems 1 e False by auto
  qed
qed

lemma report_unanswered:
  assumes "each (unanswered t) cs ss"
  shows "rep_clean (report a b cs) = 0" "rep_bytes (report a b cs) = 0" "rep_total (report a b cs) = of_nat (length cs)"
proof -
  have "filter (\<lambda>(h, c). closed_cleanly c) cs = []" using assms by (auto simp: filter_empty_conv each_def unanswered_def)
  moreover have "sum_list (map (\<lambda>(h, c). bytes_received (counter c)) cs) = 0"
    using assms by (intro sum_list_0[of cs, THEN trans[rotated]] arg_cong[of _ _ sum_list] map_cong)
      (auto simp: each_def unanswered_def counter_init_def)
  ultimately show "rep_clean (report a b cs) = 0" "rep_bytes (report a b cs) = 0" "rep_total (report a b cs) = of_nat (length cs)"
    by (simp_all add: report_def del: sum_list_eq_0_iff)
qed

lemma new_socket_closed: "\<exists>s. new_socket = Some s \<and> \<not> is_open s"
  by (simp add: new_socket_def socket_new_def rb_new_def rb_capacity_def RX_BUF_SIZE_def is_open_def set_ack_delay_def)

lemma owned_nonzero: "p \<in> set (owned_list qf q) \<Longrightarrow> p \<noteq> 0"
  using eph_port_of_index by (fastforce simp: owned_list_def EPH_BASE_def)

text \<open>The worker up to its loop.\<close>

lemma worker_opens:
  assumes "PLAIN_HTTP e" "\<forall>p. queue_for_local_port rss e (ctx_ip ctx) p = Some (qf p)" "CONNS_PER_WORKER e \<noteq> 0" "worker_ctx_ok ctx"
    "ep_addr (target_endpoint e) \<noteq> 0"
  obtains bm ps s0 dev icx w where
    "build_owned_ports rss e (ctx_ip ctx) (ctx_queue ctx) (replicate OWNED_BITMAP_BYTES 0) = Some (bm, of_nat (length (owned_list qf (ctx_queue ctx))))"
    "select_ports bm (of_nat (length (owned_list qf (ctx_queue ctx)))) (unat (CONNS_PER_WORKER e)) = Some ps"
    "length ps = min (unat (CONNS_PER_WORKER e)) (length (owned_list qf (ctx_queue ctx)))"
    "new_socket = Some s0" "worker_device ctx bm = Some dev" "worker_iface ctx cx = Some icx"
    "open_conns e host tls_new (\<lambda>i. (clk 0 i, clk 1 i)) ctx ps [0..<length ps]
       \<lparr>socks = replicate (unat (CONNS_PER_WORKER e)) s0, conns = [], wcx = icx\<rparr> = Some (Inr w)"
    "map fst (conns w) = [0..<length ps]" "each (unanswered (clk 0)) (conns w) (socks w)" "\<forall>x \<in> set (conns w). conn_for e host ctx ps x"
proof -
  let ?m = "unat (CONNS_PER_WORKER e)" and ?q = "ctx_queue ctx"
  have m: "?m \<noteq> 0" using assms(3) by (simp add: unat_eq_0)
  obtain bm where bm: "build_owned_ports rss e (ctx_ip ctx) ?q (replicate OWNED_BITMAP_BYTES 0) = Some (bm, of_nat (length (owned_list qf ?q)))"
    "\<And>p. EPH_BASE \<le> p \<Longrightarrow> owns_port bm p = (qf p = ?q)"
    using build_owned_ports_correct[of rss e "ctx_ip ctx" qf ?q] assms(2) by blast
  obtain ps where ps: "select_ports bm (of_nat (length (owned_list qf ?q))) ?m = Some ps"
    "set ps \<subseteq> set (owned_list qf ?q)" "length ps = min ?m (length (owned_list qf ?q))"
    using select_ports_correct[OF bm(2) m] by metis
  obtain s0 where s0: "new_socket = Some s0" "\<not> is_open s0" using new_socket_closed by blast
  obtain dev icx where di: "worker_device ctx bm = Some dev" "worker_iface ctx cx = Some icx" "cx_ip_addrs icx \<noteq> []"
    by (rule worker_ctx_opens[OF assms(4)])
  let ?w = "\<lparr>socks = replicate ?m s0, conns = [], wcx = icx\<rparr>"
  have p0: "\<forall>i < length ps. ps ! i \<noteq> 0" using ps(2) owned_nonzero by (metis nth_mem subsetD)
  obtain w where w: "open_conns e host tls_new (\<lambda>i. (clk 0 i, clk 1 i)) ctx ps [0..<length ps] ?w = Some (Inr w)"
    "map fst (conns w) = [0..<length ps]" "each (unanswered (clk 0)) (conns w) (socks w)" "\<forall>x \<in> set (conns w). conn_for e host ctx ps x"
    using open_conns_all[of "length ps" ps ?w 0 e tls_new host ctx "\<lambda>i. (clk 0 i, clk 1 i)"] p0 s0(2) ps(3) di(3) assms(1,5) by auto
  show thesis by (rule that[OF bm(1) ps(1,3) s0(1) di(1,2) w])
qed

lemma dead_worker:
  fixes ptr :: "'tls rustls"
  assumes "PLAIN_HTTP e" "\<forall>dev. dead_network (poll dev)" "\<forall>p. queue_for_local_port rss e (ctx_ip ctx) p = Some (qf p)"
    and "CONNS_PER_WORKER e \<noteq> 0" "worker_ctx_ok ctx" "ep_addr (target_endpoint e) \<noteq> 0"
    and "\<forall>h. 5000 < wrap_i64 (clk K h - clk 0 h)" "2 \<le> K" "K \<le> rounds"
  shows "\<exists>(cs :: (nat \<times> 'tls conn) list) ss g'. worker_thread ptr fuel rss e host True tls_new cx poll clk ns rounds ctx g = Some (report (fst ns) (snd ns) cs, g') \<and>
    length cs = min (unat (CONNS_PER_WORKER e)) (length (owned_list qf (ctx_queue ctx))) \<and> each (unanswered (clk 0)) cs ss"
proof -
  let ?m = "unat (CONNS_PER_WORKER e)" and ?q = "ctx_queue ctx"
  obtain bm ps s0 dev icx w where w: "build_owned_ports rss e (ctx_ip ctx) ?q (replicate OWNED_BITMAP_BYTES 0) = Some (bm, of_nat (length (owned_list qf ?q)))"
    "select_ports bm (of_nat (length (owned_list qf ?q))) ?m = Some ps" "length ps = min ?m (length (owned_list qf ?q))"
    "new_socket = Some s0" "worker_device ctx bm = Some dev" "worker_iface ctx cx = Some icx"
    "open_conns e host tls_new (\<lambda>i. (clk 0 i, clk 1 i)) ctx ps [0..<length ps] \<lparr>socks = replicate ?m s0, conns = [], wcx = icx\<rparr> = Some (Inr w)"
    "map fst (conns w) = [0..<length ps]" "each (unanswered (clk 0)) (conns w) (socks w)"
    by (rule worker_opens[OF assms(1,3-6), of cx host tls_new clk])
  obtain cs ss g' where l: "worker_loop ptr fuel e (poll dev) clk 2 rounds (conns w) (socks w) g = Some (cs, ss, g')"
    "map fst cs = map fst (conns w)" "each (unanswered (clk 0)) cs ss"
    using unanswered_loop[of e "poll dev" clk K "clk 0" 2 rounds "conns w" "socks w" ptr fuel g] assms w
    by (auto simp: SYN_TIMEOUT_MS_def)
  have mn: "min ?m (length ps) = length ps" using w(3) by simp
  have n: "length cs = length ps" using l(2) w(8) by (metis length_map length_upt minus_nat.diff_0)
  have "worker_thread ptr fuel rss e host True tls_new cx poll clk ns rounds ctx g = Some (report (fst ns) (snd ns) cs, g')"
    unfolding worker_thread_def w(1,4) using w(2,5,6,7) l(1) mn by (simp add: FAULT_ABANDON_CONNS_def Let_def)
  then show ?thesis using l(3) n w(3) by (intro exI[of _ cs] exI[of _ ss] exI[of _ g']) simp
qed

section \<open>The report of a worker\<close>

text \<open>A worker either gives up before its loop and reports nothing, or reports on connections that are
  all done, at most the configured number, each with one block expected.\<close>

lemma worker_report_cases:
  fixes ptr :: "'tls rustls"
  assumes "worker_thread ptr fuel rss e host sni_ok tls_new cx poll clk ns rounds ctx g = Some (rep, g')"
  obtains (early) "rep = report_init"
  | (ran) cs :: "(nat \<times> 'tls conn) list" where "rep = report (fst ns) (snd ns) cs" "length cs \<le> unat (CONNS_PER_WORKER e)"
      "\<forall>(h, c) \<in> set cs. expected c = BLOCK_SIZE e \<and> conn_done c"
proof -
  let ?m = "unat (CONNS_PER_WORKER e)"
  obtain bm cnt s0 dev icx where b: "build_owned_ports rss e (ctx_ip ctx) (ctx_queue ctx) (replicate OWNED_BITMAP_BYTES 0) = Some (bm, cnt)"
    "new_socket = Some s0"  and di: "worker_device ctx bm = Some dev" "worker_iface ctx cx = Some icx"
    using assms by (auto simp: worker_thread_def bind_eq_Some_conv)
  let ?w = "\<lparr>socks = replicate ?m s0, conns = [], wcx = icx\<rparr>"
  show thesis
  proof (cases "rep = report_init")
    case True
    then show thesis by (rule early)
  next
    case False
    have ok: "sni_ok"
    proof (rule ccontr)
      assume "\<not> sni_ok"
      then have "worker_thread ptr fuel rss e host sni_ok tls_new cx poll clk ns rounds ctx g = Some (report_init, g)"
        unfolding worker_thread_def b using di by simp
      then show False using assms False by simp
    qed
    note a = assms[unfolded worker_thread_def b FAULT_ABANDON_CONNS_def Let_def, simplified ok di, simplified]
    obtain ports r where p: "select_ports bm cnt ?m = Some ports"
      "open_conns e host tls_new (\<lambda>i. (clk 0 i, clk 1 i)) ctx ports [0..<min ?m (length ports)] ?w = Some r"
      using a by (auto simp: bind_eq_Some_conv)
    obtain w1 where w1: "r = Inr w1" using a p di False by (cases r) auto
    obtain cs ss where o: "open_conns e host tls_new (\<lambda>i. (clk 0 i, clk 1 i)) ctx ports [0..<min ?m (length ports)] ?w = Some (Inr w1)"
      "worker_loop ptr fuel e (poll dev) clk 2 rounds (conns w1) (socks w1) g = Some (cs, ss, g')"
      "rep = report (fst ns) (snd ns) cs"
      using a p di w1 by (auto simp: bind_eq_Some_conv)
    have op: "opened e host ctx ports (min ?m (length ports)) w1"
      using open_conns_opened[OF o(1) opened_init] by simp
    then have x: "\<forall>x \<in> set (conns w1). expected (snd x) = BLOCK_SIZE e" "length (conns w1) \<le> ?m"
      by (auto simp: opened_def conn_for_def)
    note l = worker_loop_kept[OF o(2)]
    note k = kept_expected[OF l[THEN conjunct1] x(1)]
    have "\<forall>(h, c) \<in> set cs. expected c = BLOCK_SIZE e" using kept_each[OF l[THEN conjunct1] x(1)] by auto
    then show thesis using k(2) x(2) l o(3) by (intro ran[of cs]) auto
  qed
qed

lemma report_of_blocks:
  assumes "length cs \<le> unat (CONNS_PER_WORKER e)" "\<forall>(h, c) \<in> set cs. expected c = BLOCK_SIZE e"
  shows "unat (rep_clean (report a b cs)) = length (filter (\<lambda>(h, c). closed_cleanly c) cs)"
    "unat (rep_total (report a b cs)) = length cs" "rep_expected (report a b cs) = of_nat (length cs) * BLOCK_SIZE e"
proof -
  have m: "unat (CONNS_PER_WORKER e) < 2 ^ LENGTH(64)" by (rule unsigned_less)
  moreover have "length (filter (\<lambda>(h, c). closed_cleanly c) cs) \<le> length cs" by simp
  ultimately show "unat (rep_clean (report a b cs)) = length (filter (\<lambda>(h, c). closed_cleanly c) cs)"
    "unat (rep_total (report a b cs)) = length cs"
    using assms(1) by (simp_all add: report_def unat_of_nat del: length_filter_le)
  have "\<forall>x \<in> set cs. expected (snd x) = BLOCK_SIZE e" using assms(2) by auto
  then show "rep_expected (report a b cs) = of_nat (length cs) * BLOCK_SIZE e"
    using kept_expected(1)[of cs cs] by (simp add: report_def kept_def)
qed

lemma worker_report_ok:
  assumes "worker_thread ptr fuel rss e host sni_ok tls_new cx poll clk ns rounds ctx g = Some (rep, g')"
  shows "unat (rep_clean rep) \<le> unat (rep_total rep) \<and> unat (rep_total rep) \<le> unat (CONNS_PER_WORKER e) \<and>
    rep_expected rep = rep_total rep * BLOCK_SIZE e"
  using assms
proof (cases rule: worker_report_cases)
  case early
  then show ?thesis by (simp add: report_init_def)
next
  case (ran cs)
  have x: "\<forall>(h, c) \<in> set cs. expected c = BLOCK_SIZE e" using ran(3) by auto
  show ?thesis using report_of_blocks[OF ran(2) x, of "fst ns" "snd ns"] ran(1,2) by (simp add: report_def)
qed

section \<open>Properties\<close>

text \<open>C36: every connection of a worker is opened.  With a usable interface address, target and ports, the
  setup loop opens exactly one connection for each of the first \<open>n\<close> sockets, in order, on its own
  port, with the request for its own block of exactly \<open>BLOCK_SIZE\<close> bytes.\<close>

theorem worker_opens_all:
  assumes "n \<le> length ports" "n \<le> length (socks w)" "\<forall>i < n. ports ! i \<noteq> 0"
    and "\<forall>i < n. \<not> is_open (socks w ! i)" "cx_ip_addrs (wcx w) \<noteq> []"
    and "ep_addr (target_endpoint e) \<noteq> 0" "PLAIN_HTTP e \<or> (\<forall>i. tls_new i \<noteq> None)" "conns w = []"
  shows "\<exists>w'. open_conns e host tls_new clk ctx ports [0..<n] w = Some (Inr w') \<and> map fst (conns w') = [0..<n] \<and>
    (\<forall>(h, c) \<in> set (conns w'). src_port c = ports ! h \<and> expected c = BLOCK_SIZE e \<and>
      Some (request c) = conn_request host (fst (block_range e (ctx_first_block ctx) (of_nat h)))
        (snd (block_range e (ctx_first_block ctx) (of_nat h))))"
proof -
  obtain w' where "open_conns e host tls_new clk ctx ports [0..<n] w = Some (Inr w')"
    "map fst (conns w') = [0..<n]" "\<forall>x \<in> set (conns w'). conn_for e host ctx ports x"
    using open_conns_all[of n ports w 0 e tls_new host ctx clk] assms by auto
  then show ?thesis by (intro exI[of _ w']) (auto simp: conn_for_def)
qed

definition demo_worker :: "nat worker" where
  "demo_worker = \<lparr>socks = replicate 2 (the (socket_new demo_rb demo_rb)), conns = [], wcx = demo_cx\<rparr>"

definition demo_ctx :: worker_ctx where
  "demo_ctx = \<lparr>ctx_queue = 0, ctx_pool = 1, ctx_mac = [2, 0, 0, 0, 0, 9], ctx_ip = [10, 0, 0, 9], ctx_prefix_len = 24,
     ctx_gateway_ip = [10, 0, 0, 1], ctx_gateway_mac = [2, 0, 0, 0, 0, 1], ctx_first_block = 0\<rparr>"

lemma parse_demo_ip: "TARGET_IP_OCTETS demo_env = [3, 5, 216, 240]"
  by (simp add: TARGET_IP_OCTETS_def demo_env_def parse_ipv4_def dotted_def dec.simps digit_byte_def)

lemma demo_target: "ep_addr (target_endpoint demo_env) \<noteq> 0"
  by (simp add: target_endpoint_def parse_demo_ip be_addr_def of_be32_def Let_def)

theorem worker_opens_all_witness:
  "\<exists>w'. open_conns demo_env (TARGET_HOST (ascii ''b'') (ascii ''r'')) (\<lambda>i. Some i) (\<lambda>i. (0, 0)) demo_ctx [50000, 50001] [0..<2] demo_worker =
      Some (Inr w') \<and> map fst (conns w') = [0..<2]"
proof -
  have s: "\<not> is_open (the (socket_new demo_rb demo_rb))"
    by (simp add: is_open_def socket_new_def demo_rb_def rb_new_def rb_capacity_def)
  show ?thesis
    using worker_opens_all[of 2 "[50000, 50001]" demo_worker demo_env "\<lambda>i. Some i" "TARGET_HOST (ascii ''b'') (ascii ''r'')"
        "\<lambda>i. (0, 0)" demo_ctx] demo_target s
    by (auto simp: demo_worker_def demo_cx_def less_2_cases_iff)
qed

text \<open>The loop of a worker.  When the loop ends, every connection it was started with is still there,
  under its handle and with its expectation unchanged, and every one of them is done.\<close>

theorem worker_loop_ends_done:
  assumes "worker_loop ptr fuel e poll clk k rounds cs ss g = Some (cs', ss', g')"
  shows "map (\<lambda>(h, c). (h, expected c)) cs' = map (\<lambda>(h, c). (h, expected c)) cs \<and> (\<forall>(h, c) \<in> set cs'. conn_done c)"
  using worker_loop_kept[OF assms] by (auto simp: kept_def)

theorem worker_loop_ends_done_witness:
  "\<exists>cs' ss' g'. worker_loop (\<lambda>t inc. (inc, 0, Inl (), t)) 0 demo_plain_env (\<lambda>k ss. ss) (\<lambda>k h. 10) 0 1
       [(0, demo_sent)] [demo_close_wait] stats_zero = Some (cs', ss', g') \<and> (\<forall>(h, c) \<in> set cs'. conn_done c)"
proof -
  have l: "worker_loop (\<lambda>t inc. (inc, 0, Inl (), t)) 0 demo_plain_env (\<lambda>k ss. ss) (\<lambda>k h. 10) 0 1
      [(0, demo_sent)] [demo_close_wait] stats_zero =
      Some ([(0, demo_sent\<lparr>closed_cleanly := True, conn_done := True\<rparr>)], [demo_close_wait], stats_zero)"
    using demo_closes by simp
  show ?thesis using l worker_loop_ends_done[OF l] by blast
qed

text \<open>C12: a worker of the plain HTTP build on a dead network gives up.  If no connection attempt is ever answered, steering is
  known, the interface has an address and the clock passes the SYN timeout in some round, then
  \<open>worker_thread\<close> returns: it reports every connection it had a port for, none of them clean, and no
  bytes.\<close>

theorem worker_gives_up:
  fixes ptr :: "'tls rustls"
  assumes "PLAIN_HTTP e" "\<forall>dev. dead_network (poll dev)" "\<forall>p. queue_for_local_port rss e (ctx_ip ctx) p = Some (qf p)"
    and "CONNS_PER_WORKER e \<noteq> 0" "worker_ctx_ok ctx" "ep_addr (target_endpoint e) \<noteq> 0"
    and "\<forall>h. 5000 < wrap_i64 (clk K h - clk 0 h)" "2 \<le> K" "K \<le> rounds"
  shows "\<exists>rep g'. worker_thread ptr fuel rss e host True tls_new cx poll clk ns rounds ctx g = Some (rep, g') \<and>
    rep_total rep = of_nat (min (unat (CONNS_PER_WORKER e)) (length (owned_list qf (ctx_queue ctx)))) \<and>
    rep_clean rep = 0 \<and> rep_bytes rep = 0"
proof -
  obtain cs :: "(nat \<times> 'tls conn) list" and ss g' where w: "worker_thread ptr fuel rss e host True tls_new cx poll clk ns rounds ctx g = Some (report (fst ns) (snd ns) cs, g')"
    "length cs = min (unat (CONNS_PER_WORKER e)) (length (owned_list qf (ctx_queue ctx)))" "each (unanswered (clk 0)) cs ss"
    using dead_worker[OF assms, of ptr fuel host tls_new cx ns g] by blast
  show ?thesis using w report_unanswered[OF w(3)] by (intro exI[of _ "report (fst ns) (snd ns) cs"] exI[of _ g']) simp
qed

definition demo_clk :: "nat \<Rightarrow> nat \<Rightarrow> int" where
  "demo_clk k h = 6000 * int k"

lemma demo_single_queue: "queue_for_local_port (rss_init\<lparr>SINGLE_QUEUE := True\<rparr>) e ip p = Some 0"
  by (simp add: queue_for_local_port_def predict_queue_def)

lemma demo_conns_per_worker: "CONNS_PER_WORKER demo_plain_env = 24"
  by (simp add: CONNS_PER_WORKER_def demo_plain_env_def demo_env_def parse_size_def)

lemma demo_dead_worker:
  "PLAIN_HTTP demo_plain_env" "\<forall>dev. dead_network ((\<lambda>dev k ss. ss) (dev :: dpdk_device))"
  "\<forall>p. queue_for_local_port (rss_init\<lparr>SINGLE_QUEUE := True\<rparr>) demo_plain_env (ctx_ip demo_ctx) p = Some ((\<lambda>p. 0) p)"
  "CONNS_PER_WORKER demo_plain_env \<noteq> 0" "worker_ctx_ok demo_ctx" "ep_addr (target_endpoint demo_plain_env) \<noteq> 0"
  "\<forall>h. 5000 < wrap_i64 (demo_clk 2 h - demo_clk 0 h)" "(2::nat) \<le> 2" "(2::nat) \<le> 2"
  using demo_single_queue demo_plain demo_target demo_conns_per_worker
  by (auto simp: worker_ctx_ok_def demo_ctx_def is_mac_def is_ipv4_def addr_unicast_def be_addr_def of_be32_def demo_clk_def wrap_i64_def dead_network_def target_endpoint_def TARGET_IP_OCTETS_def
      demo_plain_env_def Let_def)

theorem worker_gives_up_witness:
  "\<exists>rep g'. worker_thread (\<lambda>t inc. (inc, 0, Inl (), t)) 0 (rss_init\<lparr>SINGLE_QUEUE := True\<rparr>) demo_plain_env (ascii ''h'') True
      (\<lambda>i. None :: nat option) demo_cx (\<lambda>dev k ss. ss) demo_clk (0, 9) 2 demo_ctx stats_zero = Some (rep, g') \<and> rep_clean rep = 0"
  using worker_gives_up[OF demo_dead_worker] by blast

end
