(* ===== verification/App_Seed.thy ===== *)
theory App_Seed
  imports App_Worker Iface_Arp
begin

text \<open>
  The seeding of a worker's neighbour cache: the device hands the fabricated ARP reply of
  \<open>worker_thread\<close> to the interface that thread has built, and the interface uses the entry for every packet
  that leaves the subnet.  Shown: the reply is accepted and the gateway is resolved without an ARP
  request for the 60 seconds an entry lives, and, since only packets sent by the gateway itself renew it,
  no longer than that.
\<close>

section \<open>The interface of a worker\<close>

text \<open>\<open>Interface::new\<close> leaves routes and cache empty; \<open>update_ip_addrs\<close> flushes the cache.  A failure to
  add the route is ignored.\<close>

definition worker_interface :: "worker_ctx \<Rightarrow> iface_context \<Rightarrow> iface option" where
  "worker_interface ctx cx = do {
     icx \<leftarrow> worker_iface ctx cx;
     let i = \<lparr>if_cx = icx, if_hw = ctx_mac ctx, if_routes = [], if_cache = cache_flush cache_new\<rparr>;
     Some (i\<lparr>if_routes := snd (add_default_ipv4_route (be_addr (ctx_gateway_ip ctx)) (if_routes i))\<rparr>)
   }"

text \<open>IPv4 packets as they arrive: the time, whether a UDP header is malformed, the sender's hardware
  address, source and destination.\<close>

definition receive_ipv4 :: "(instant \<times> bool \<times> mac \<times> ip_addr \<times> ip_addr) list \<Rightarrow> iface \<Rightarrow> iface" where
  "receive_ipv4 ps i = fold (\<lambda>(t, bad, hw, src, dst) i. touch_neighbor bad hw src dst (at_time t i)) ps i"

section \<open>The fabricated reply\<close>

lemma be32_of_be32: "be32 (of_be32 a b c d) = [a, b, c, d]"
  unfolding be32_def
  by (simp, intro conjI; rule bit_word_eqI) (auto simp: bit_of_be32 bit_simps)

lemma be32_be_addr: "is_ipv4 a \<Longrightarrow> be32 (be_addr a) = a"
  by (auto simp: is_ipv4_def list_len4 be_addr_def be32_of_be32)

text \<open>The hand-made reply is the Ethernet frame around the stack's own ARP packet.\<close>

lemma arp_reply_bytes:
  assumes "is_mac sm" "is_mac tm" "is_ipv4 si" "is_ipv4 ti"
  shows "build_arp_reply sm si tm ti =
    Some (tm @ sm @ [8, 6] @ arp_bytes 2 sm (be_addr si) tm (be_addr ti))"
  using assms by (simp add: build_arp_reply_def arp_frame_eq arp_bytes_def be32_be_addr)

text \<open>What the interface does with a reply from its own subnet.\<close>

lemma process_arp_reply:
  assumes "is_mac sha" "is_mac tha" "has_ip_addr (if_cx i) tpa" "addr_unicast spa" "mac_is_unicast sha"
    "in_same_network i spa" "cache_fill pick spa sha now (if_cache i) = Some c"
  shows "process_arp pick now (arp_bytes 2 sha spa tha tpa) i = Some (None, i\<lparr>if_cache := c\<rparr>)"
proof -
  have p: "arp_parse (arp_bytes 2 sha spa tha tpa) = Some (Inr \<lparr>operation = Reply,
      source_hardware_addr = sha, source_protocol_addr = spa, target_hardware_addr = tha, target_protocol_addr = tpa\<rparr>)"
    using arp_parse_bytes[OF assms(1,2), of 2 spa tpa "[]"] by (simp add: operation_from_def)
  then have "arp_check_len (arp_bytes 2 sha spa tha tpa) = Some (Inr ())"
    by (auto simp: arp_parse_def attempt_def split: option.splits sum.splits)
  then show ?thesis using assms p by (simp add: process_arp_def)
qed

lemma process_ethernet_arp:
  assumes "is_mac dm" "is_mac sm" "dm = if_hw i"
  shows "process_ethernet pick ipv4 (dm @ sm @ [8, 6] @ p) i = process_arp pick (cx_now (if_cx i)) p i"
proof -
  obtain a b c d e f where s: "dm = [a, b, c, d, e, f]" using assms(1) by (auto simp: is_mac_def list_len6)
  obtain a' b' c' d' e' f' where t: "sm = [a', b', c', d', e', f']" using assms(2) by (auto simp: is_mac_def list_len6)
  have w: "of_be16 8 6 = 0x0806" by (simp add: of_be16_def)
  show ?thesis
    unfolding s t assms(3)[symmetric, unfolded s]
    by (simp add: process_ethernet_def eth_check_len_def eth_dst_addr_def eth_ethertype_def eth_payload_def slice_def
        read_u16_def w assms(3)[symmetric, unfolded s])
qed

section \<open>The seeded interface\<close>

definition seedable :: "worker_ctx \<Rightarrow> bool" where
  "seedable ctx \<longleftrightarrow> worker_ctx_ok ctx \<and> mac_is_unicast (ctx_gateway_mac ctx) \<and> addr_unicast (be_addr (ctx_gateway_ip ctx)) \<and>
     cidr_contains (be_addr (ctx_ip ctx), ctx_prefix_len ctx) (be_addr (ctx_gateway_ip ctx))"

text \<open>An address that is reached through the gateway.\<close>

definition remote_to :: "worker_ctx \<Rightarrow> ip_addr \<Rightarrow> bool" where
  "remote_to ctx a \<longleftrightarrow> addr_unicast a \<and> \<not> cidr_contains (be_addr (ctx_ip ctx), ctx_prefix_len ctx) a"

text \<open>The parts of a worker's interface that packets leave alone.\<close>

definition routes_like :: "worker_ctx \<Rightarrow> iface \<Rightarrow> bool" where
  "routes_like ctx i \<longleftrightarrow> cx_ip_addrs (if_cx i) = [(be_addr (ctx_ip ctx), ctx_prefix_len ctx)] \<and> if_hw i = ctx_mac ctx \<and>
     if_routes i = snd (add_default_ipv4_route (be_addr (ctx_gateway_ip ctx)) [])"

lemma routes_like_at_time [simp]: "routes_like ctx (at_time t i) = routes_like ctx i"
  by (simp add: routes_like_def at_time_def)

lemma routes_like_touch [simp]: "routes_like ctx (touch_neighbor bad hw src dst i) = routes_like ctx i"
  by (simp add: routes_like_def touch_neighbor_def)

lemma routes_like_receive: "routes_like ctx (receive_ipv4 ps i) = routes_like ctx i"
  unfolding receive_ipv4_def by (induction ps arbitrary: i) (simp_all add: case_prod_unfold)

text \<open>A packet for a remote address asks the cache for the gateway.\<close>

lemma remote_lookup:
  assumes i: "routes_like ctx i" and p: "ctx_prefix_len ctx \<le> 32" and a: "remote_to ctx a"
  shows "iface_route i a now = Some (Some (be_addr (ctx_gateway_ip ctx)))" "\<not> is_broadcast_v4 i a"
proof -
  have n: "\<not> in_same_network i a" using i a by (simp add: in_same_network_def routes_like_def remote_to_def)
  have u: "addr_unicast a" using a by (simp add: remote_to_def)
  have r: "routes_lookup (if_routes i) a now = Some (Some (be_addr (ctx_gateway_ip ctx)))"
    by (rule routes_lookup_default[OF u]) (use i in \<open>simp add: routes_like_def\<close>)
  have "a \<noteq> 0xffffffff" using u by (simp add: addr_unicast_def)
  then show "iface_route i a now = Some (Some (be_addr (ctx_gateway_ip ctx)))" by (simp add: iface_route_def n r)
  have "broadcast (be_addr (ctx_ip ctx), ctx_prefix_len ctx) \<noteq> Some a"
    using broadcast_contained[of "(be_addr (ctx_ip ctx), ctx_prefix_len ctx)" a] p a by (auto simp: remote_to_def)
  then show "\<not> is_broadcast_v4 i a"
    using i \<open>a \<noteq> 0xffffffff\<close> by (simp add: is_broadcast_v4_def routes_like_def)
qed

lemma worker_interface_like:
  assumes "worker_interface ctx cx = Some i"
  shows "routes_like ctx i" "cx_now (if_cx i) = cx_now cx" "if_cache i = cache_new"
  using assms by (auto simp: worker_interface_def worker_iface_def routes_like_def cache_flush_def cache_new_def assert_that_def Let_def
      split: if_splits)

lemma seeding:
  assumes s: "seedable ctx" and d: "worker_device ctx bm = Some dev" and f: "pending_synth dev = Some f"
    and i: "worker_interface ctx cx = Some i" and t: "0 \<le> cx_now cx" "cx_now cx < 2 ^ 62"
  obtains c where "cache_fill pick (be_addr (ctx_gateway_ip ctx)) (ctx_gateway_mac ctx) (cx_now cx) cache_new = Some c"
    "process_ethernet pick ipv4 f i = Some (None, i\<lparr>if_cache := c\<rparr>)"
proof -
  note l = worker_interface_like[OF i]
  have m: "is_mac (ctx_gateway_mac ctx)" "is_mac (ctx_mac ctx)" "is_ipv4 (ctx_gateway_ip ctx)" "is_ipv4 (ctx_ip ctx)"
    and g: "addr_unicast (be_addr (ctx_gateway_ip ctx))" "mac_is_unicast (ctx_gateway_mac ctx)"
    using s by (simp_all add: seedable_def worker_ctx_ok_def)
  have "f = ctx_mac ctx @ ctx_gateway_mac ctx @ [8, 6] @
      arp_bytes 2 (ctx_gateway_mac ctx) (be_addr (ctx_gateway_ip ctx)) (ctx_mac ctx) (be_addr (ctx_ip ctx))"
    using d f arp_reply_bytes[OF m] by (auto simp: worker_device_def)
  moreover have "ctx_mac ctx = if_hw i" using l(1) by (simp add: routes_like_def)
  ultimately have e: "process_ethernet pick ipv4 f i = process_arp pick (cx_now cx)
      (arp_bytes 2 (ctx_gateway_mac ctx) (be_addr (ctx_gateway_ip ctx)) (ctx_mac ctx) (be_addr (ctx_ip ctx))) i"
    using process_ethernet_arp[OF m(2,1)] l(2) by simp
  obtain c where c: "cache_fill pick (be_addr (ctx_gateway_ip ctx)) (ctx_gateway_mac ctx) (cx_now cx) cache_new = Some c"
    using neighbors.fill_found[OF cache_new_wf g(1) t] by blast
  have "has_ip_addr (if_cx i) (be_addr (ctx_ip ctx))" "in_same_network i (be_addr (ctx_gateway_ip ctx))"
    using l(1) s by (simp_all add: has_ip_addr_def in_same_network_def routes_like_def seedable_def)
  then show thesis using that[OF c] process_arp_reply[OF m(1,2) _ g _ c[folded l(3)]] e by simp
qed

lemma seeded_cache:
  assumes "addr_unicast a" "0 \<le> t0" "t0 < 2 ^ 62" "cache_fill pick a h t0 cache_new = Some c"
  shows "t < t0 + 60000000 \<Longrightarrow> cache_lookup c a t = Some (Found h)" "silent_until c = 0"
proof -
  have "\<forall>u k. cache_lookup c a u = Some (Found k) \<longleftrightarrow> u < t0 + 60000000 \<and> k = h"
    using neighbors.fill_found[OF cache_new_wf assms(1-3), of pick h] assms(4) by (metis option.inject)
  then show "t < t0 + 60000000 \<Longrightarrow> cache_lookup c a t = Some (Found h)" by blast
  obtain c' where "fill_with_expiration pick a h (instant_add t0 ENTRY_LIFETIME) cache_new = Some c'"
    "silent_until c' = silent_until cache_new"
    by (rule fill_result[OF cache_new_wf])
  then show "silent_until c = 0" using assms(4) by (simp add: cache_fill_def cache_new_def instant_from_millis_def wrap_i64_def)
qed

lemma cache_lookup_missing:
  assumes "addr_unicast a" "\<forall>k. cache_lookup c a t \<noteq> Some (Found k)" "\<not> t < silent_until c"
  shows "cache_lookup c a t = Some NotFound"
proof (cases "map_of (nb_storage c) a")
  case (Some n)
  then have "\<not> t < expires_at n" using assms(1) assms(2)[rule_format, of "hardware_addr n"] by (auto simp: cache_lookup_Some)
  then show ?thesis using Some assms(1,3) by (simp add: cache_lookup_def del: map_of_eq_Some_iff)
qed (use assms(1,3) in \<open>simp add: cache_lookup_def\<close>)

text \<open>What the received packets do to the cache, as a sequence of the table's own operations.\<close>

lemma receive_touches:
  "\<exists>qs. fst ` set qs \<subseteq> (\<lambda>(t, bad, hw, src, dst). src) ` set ps \<and> silent_until (if_cache (receive_ipv4 ps i)) = silent_until (if_cache i) \<and>
     if_cache (receive_ipv4 ps i) = neighbors.touches qs (if_cache i)"
proof (induction ps arbitrary: i)
  case Nil
  have "fst ` set [] \<subseteq> {}" "if_cache i = neighbors.touches [] (if_cache i)" by (simp_all add: neighbors.touches_def)
  then show ?case by (fastforce simp: receive_ipv4_def)
next
  case (Cons p ps)
  obtain t bad hw src dst where p: "p = (t, bad, hw, src, dst)" by (cases p)
  define j where "j = touch_neighbor bad hw src dst (at_time t i)"
  have r: "receive_ipv4 (p # ps) i = receive_ipv4 ps j" by (simp add: receive_ipv4_def p j_def)
  obtain qs where q: "fst ` set qs \<subseteq> (\<lambda>(t, bad, hw, src, dst). src) ` set ps"
    "silent_until (if_cache (receive_ipv4 ps j)) = silent_until (if_cache j)"
    "if_cache (receive_ipv4 ps j) = neighbors.touches qs (if_cache j)"
    using Cons[of j] by blast
  have s: "silent_until (if_cache j) = silent_until (if_cache i)"
    by (simp add: j_def touch_neighbor_def at_time_def reset_expiry_if_existing_def split: option.split)
  have "if_cache j = if_cache i \<or> if_cache j = reset_expiry_if_existing src hw t (if_cache i)"
    by (simp add: j_def touch_neighbor_def at_time_def)
  then consider "if_cache j = if_cache i" | "if_cache j = reset_expiry_if_existing src hw t (if_cache i)" by blast
  then show ?case
  proof cases
    case 1
    then show ?thesis using q s r by auto
  next
    case 2
    then have "if_cache (receive_ipv4 (p # ps) i) = neighbors.touches ((src, hw, t) # qs) (if_cache i)"
      using q(3) r by (simp add: neighbors.touches_def)
    moreover have "fst ` set ((src, hw, t) # qs) \<subseteq> (\<lambda>(t, bad, hw, src, dst). src) ` set (p # ps)" using q(1) p by auto
    moreover have "silent_until (if_cache (receive_ipv4 (p # ps) i)) = silent_until (if_cache i)" using q(2) r s by simp
    ultimately show ?thesis by blast
  qed
qed

text \<open>The addresses of a worker on \<open>10.0.0.0/24\<close>.\<close>

definition seed_ctx :: worker_ctx where
  "seed_ctx = \<lparr>ctx_queue = 1, ctx_pool = 0, ctx_mac = [2, 0, 0, 0, 0, 9], ctx_ip = [10, 0, 0, 9], ctx_prefix_len = 24,
     ctx_gateway_ip = [10, 0, 0, 1], ctx_gateway_mac = [2, 0, 0, 0, 0, 1], ctx_first_block = 0\<rparr>"

definition seed_cx :: iface_context where
  "seed_cx = \<lparr>cx_now = 5, cx_ip_mtu = 1500, cx_rand = 0, cx_ip_addrs = [], cx_any_ip = False\<rparr>"

lemma seed_byte: "(2 :: u8) \<noteq> 255"
  by simp

lemma seed_mac: "mac_is_unicast [2, 0, 0, 0, 0, 1]"
proof -
  have "hd (replicate 6 255) = (255 :: u8)" by simp
  then have "[2, 0, 0, 0, 0, 1] \<noteq> replicate 6 (255 :: u8)" by (metis (no_types) list.sel(1) seed_byte)
  then show ?thesis by (simp add: mac_is_unicast_def mac_is_multicast_def mac_broadcast_def)
qed

lemma seed_seedable: "seedable seed_ctx" "remote_to seed_ctx 0x34da0001"
  by (simp_all add: seed_mac seedable_def remote_to_def worker_ctx_ok_def seed_ctx_def is_mac_def is_ipv4_def be_addr_def of_be32_def addr_unicast_def cidr_contains_def)

lemma seed_opens:
  obtains dev f i where "worker_device seed_ctx bm = Some dev" "pending_synth dev = Some f"
    "worker_interface seed_ctx seed_cx = Some i"
proof -
  have ok: "worker_ctx_ok seed_ctx" using seed_seedable(1) by (simp add: seedable_def)
  obtain dev icx where d: "worker_device seed_ctx bm = Some dev" "worker_iface seed_ctx seed_cx = Some icx"
    by (rule worker_ctx_opens[OF ok])
  moreover obtain f where "pending_synth dev = Some f" using d(1) by (auto simp: worker_device_def split: Option.bind_splits)
  ultimately show thesis using that by (simp add: worker_interface_def Let_def)
qed

section \<open>Properties\<close>

text \<open>C29: seeding.  A worker whose gateway is in its subnet accepts the reply its device fabricates: nothing is
  sent in answer, and for the next 60 seconds every packet to an address outside the subnet gets the
  gateway's hardware address at once, with no ARP request and no change to the interface.\<close>

theorem seeded_gateway_resolves:
  assumes "seedable ctx" "worker_device ctx bm = Some dev" "pending_synth dev = Some f"
    "worker_interface ctx cx = Some i" "0 \<le> cx_now cx" "cx_now cx < 2 ^ 62"
  shows "\<exists>i'. process_ethernet pick ipv4 f i = Some (None, i') \<and>
    (\<forall>dst t. remote_to ctx dst \<and> t < cx_now cx + 60000000 \<longrightarrow>
       lookup_hardware_addr (at_time t i') dst = Some (Inr (ctx_gateway_mac ctx), None, at_time t i'))"
proof -
  obtain c where c: "cache_fill pick (be_addr (ctx_gateway_ip ctx)) (ctx_gateway_mac ctx) (cx_now cx) cache_new = Some c"
    "process_ethernet pick ipv4 f i = Some (None, i\<lparr>if_cache := c\<rparr>)"
    by (rule seeding[OF assms])
  have g: "addr_unicast (be_addr (ctx_gateway_ip ctx))" "ctx_prefix_len ctx \<le> 32"
    using assms(1) by (simp_all add: seedable_def worker_ctx_ok_def)
  have "lookup_hardware_addr (at_time t (i\<lparr>if_cache := c\<rparr>)) dst =
      Some (Inr (ctx_gateway_mac ctx), None, at_time t (i\<lparr>if_cache := c\<rparr>))"
    if d: "remote_to ctx dst" "t < cx_now cx + 60000000" for dst t
  proof -
    let ?i = "at_time t (i\<lparr>if_cache := c\<rparr>)"
    have l: "routes_like ctx ?i" using worker_interface_like(1)[OF assms(4)] by (simp add: routes_like_def at_time_def)
    have "cache_lookup c (be_addr (ctx_gateway_ip ctx)) t = Some (Found (ctx_gateway_mac ctx))"
      by (rule seeded_cache(1)[OF g(1) assms(5,6) c(1) d(2)])
    moreover have "drop_bit 28 dst \<noteq> 0xe" using d(1) by (simp add: remote_to_def addr_unicast_def)
    moreover have "if_cache ?i = c" "cx_now (if_cx ?i) = t" by (simp_all add: at_time_def)
    ultimately show ?thesis using remote_lookup[OF l g(2) d(1)] by (simp add: lookup_hardware_addr_def)
  qed
  then show ?thesis using c(2) by blast
qed

theorem seeded_gateway_resolves_witness:
  "\<exists>f i i'. process_ethernet 0 (\<lambda>_ _ i. i) f i = Some (None, i') \<and>
     lookup_hardware_addr (at_time 9 i') 0x34da0001 = Some (Inr [2, 0, 0, 0, 0, 1], None, at_time 9 i')"
proof -
  obtain dev f i where d: "worker_device seed_ctx [] = Some dev" "pending_synth dev = Some f"
    "worker_interface seed_ctx seed_cx = Some i" by (rule seed_opens)
  obtain i' where i': "process_ethernet 0 (\<lambda>_ _ i. i) f i = Some (None, i')"
    "\<forall>dst t. remote_to seed_ctx dst \<and> t < cx_now seed_cx + 60000000 \<longrightarrow>
       lookup_hardware_addr (at_time t i') dst = Some (Inr (ctx_gateway_mac seed_ctx), None, at_time t i')"
    using seeded_gateway_resolves[OF seed_seedable(1) d, of 0 "\<lambda>_ _ i. i"] by (auto simp: seed_cx_def)
  have "cx_now seed_cx = 5" "ctx_gateway_mac seed_ctx = [2, 0, 0, 0, 0, 1]" by (simp_all add: seed_cx_def seed_ctx_def)
  then show ?thesis using i' seed_seedable(2) by fastforce
qed

text \<open>C30: the end of the seeding.  However much IPv4 traffic a worker receives from addresses other than the
  gateway's own, 60 seconds after the reply was accepted the next packet to an address outside the
  subnet is not sent: it waits for a neighbour, and the worker broadcasts an ARP request of its own for
  the gateway.\<close>

theorem seeded_gateway_expires:
  assumes "seedable ctx" "worker_device ctx bm = Some dev" "pending_synth dev = Some f"
    "worker_interface ctx cx = Some i" "0 \<le> cx_now cx" "cx_now cx < 2 ^ 62"
    "process_ethernet pick ipv4 f i = Some (r, i')"
    "be_addr (ctx_gateway_ip ctx) \<notin> (\<lambda>(t, bad, hw, src, dst). src) ` set ps"
    "remote_to ctx dst" "cx_now cx + 60000000 \<le> t"
  shows "\<exists>i''. lookup_hardware_addr (at_time t (receive_ipv4 ps i')) dst = Some (Inl NeighborPending,
    Some \<lparr>operation = Request, source_hardware_addr = ctx_mac ctx, source_protocol_addr = be_addr (ctx_ip ctx),
      target_hardware_addr = mac_broadcast, target_protocol_addr = be_addr (ctx_gateway_ip ctx)\<rparr>, i'')"
proof -
  let ?gw = "be_addr (ctx_gateway_ip ctx)" and ?i = "at_time t (receive_ipv4 ps i')"
  obtain c where c: "cache_fill pick ?gw (ctx_gateway_mac ctx) (cx_now cx) cache_new = Some c"
    "process_ethernet pick ipv4 f i = Some (None, i\<lparr>if_cache := c\<rparr>)"
    by (rule seeding[OF assms(1-6)])
  have g: "addr_unicast ?gw" "ctx_prefix_len ctx \<le> 32"
    and n: "cidr_contains (be_addr (ctx_ip ctx), ctx_prefix_len ctx) ?gw"
    using assms(1) by (simp_all add: seedable_def worker_ctx_ok_def)
  have i': "i' = i\<lparr>if_cache := c\<rparr>" using assms(7) c(2) by simp
  then have l: "routes_like ctx ?i"
    using worker_interface_like(1)[OF assms(4)] by (simp add: routes_like_receive) (simp add: routes_like_def)
  obtain qs where q: "fst ` set qs \<subseteq> (\<lambda>(t, bad, hw, src, dst). src) ` set ps"
    "silent_until (if_cache (receive_ipv4 ps i')) = silent_until c"
    "if_cache (receive_ipv4 ps i') = neighbors.touches qs c"
    using receive_touches[of ps i'] i' by auto
  have "?gw \<notin> fst ` set qs" using q(1) assms(8) by blast
  then have nf: "cache_lookup (if_cache ?i) ?gw t \<noteq> Some (Found k)" for k
    using neighbors.entry_lifetime[OF cache_new_wf g(1) assms(5,6) c(1), of qs t k] q(3) assms(10) by (simp add: at_time_def)
  have "silent_until c = 0"
    by (rule seeded_cache(2)[OF g(1) assms(5,6) c(1)])
  then have "\<not> t < silent_until (if_cache ?i)" using q(2) assms(5,10) by (simp add: at_time_def)
  then have nf: "cache_lookup (if_cache ?i) ?gw t = Some NotFound"
    by (intro cache_lookup_missing g(1) allI nf)
  have "get_source_address (if_cx ?i) ?gw = Some (be_addr (ctx_ip ctx))" "if_hw ?i = ctx_mac ctx"
    using l n by (simp_all add: get_source_address_def routes_like_def)
  moreover have "drop_bit 28 dst \<noteq> 0xe" using assms(9) by (simp add: remote_to_def addr_unicast_def)
  moreover have "cx_now (if_cx ?i) = t" by (simp add: at_time_def)
  ultimately show ?thesis
    using remote_lookup[OF l g(2) assms(9)] nf by (simp add: lookup_hardware_addr_def)
qed

theorem seeded_gateway_expires_witness:
  "\<exists>i'' j. lookup_hardware_addr j 0x34da0001 = Some (Inl NeighborPending,
    Some \<lparr>operation = Request, source_hardware_addr = [2, 0, 0, 0, 0, 9], source_protocol_addr = 0x0a000009,
      target_hardware_addr = mac_broadcast, target_protocol_addr = 0x0a000001\<rparr>, i'')"
proof -
  obtain dev f i where d: "worker_device seed_ctx [] = Some dev" "pending_synth dev = Some f"
    "worker_interface seed_ctx seed_cx = Some i" by (rule seed_opens)
  have t: "0 \<le> cx_now seed_cx" "cx_now seed_cx < 2 ^ 62" "cx_now seed_cx + 60000000 \<le> 60000005" by (simp_all add: seed_cx_def)
  obtain c where c: "process_ethernet 0 (\<lambda>_ _ i. i) f i = Some (None, i\<lparr>if_cache := c\<rparr>)"
    by (rule seeding[OF seed_seedable(1) d t(1,2)])
  have a: "ctx_mac seed_ctx = [2, 0, 0, 0, 0, 9]" "be_addr (ctx_ip seed_ctx) = 0x0a000009"
    "be_addr (ctx_gateway_ip seed_ctx) = 0x0a000001" by (simp_all add: seed_ctx_def be_addr_def of_be32_def)
  have s: "be_addr (ctx_gateway_ip seed_ctx) \<notin>
      (\<lambda>(t, bad, hw, src, dst). src) ` set [(7, False, [2, 0, 0, 0, 0, 1], 0x34da0001, 0x0a000009)]"
    by (simp add: a)
  show ?thesis
    using seeded_gateway_expires[OF seed_seedable(1) d t(1,2) c s seed_seedable(2) t(3)] unfolding a by blast
qed

end
