(* ===== verification/Tcp_Open.thy ===== *)
theory Tcp_Open
  imports Tcp_Progress
begin

text \<open>
  The first segments after the handshake.  The acknowledgement of the SYN-ACK announces a window that
  fits the receive buffer, whatever scale was negotiated: from then on the socket satisfies \<open>rx_fresh\<close>,
  the start of the runs of \<open>Tcp_Stream\<close>, and so do the sockets of the worker.  The theory also shows why
  these runs ask for a FIN inside the window: a longer segment is cut off at the end of the window, but
  its FIN is still taken, and the stream ends early.
\<close>

section \<open>The first acknowledgement\<close>

lemma nothing_to_transmit:
  assumes "state s = Established" "tuple s \<noteq> None" "remote_last_seq s = local_seq_no s" "rb_len (tx_buffer s) = 0"
  shows "seq_to_transmit cx s = Some False"
  using assms by (simp add: seq_to_transmit_def want_fin_def seq_add_def seq_diff_def Let_def)

lemma empty_data_repr:
  assumes wf: "rb_wf (tx_buffer s)" and q: "remote_last_seq s = local_seq_no s" and l: "rb_len (tx_buffer s) = 0"
    and w: "0 < remote_win_len s" "remote_win_len s \<le> I32_MAX" and st: "state s = Established"
  shows "data_repr cx s r = Some (r\<lparr>payload := []\<rparr>, False)"
proof -
  let ?b = "local_seq_no s" and ?w = "remote_win_len s"
  have n: "near (int ?w) 0" using w by (auto simp: near_def)
  have a: "seq_add ?b ?w = Some (seq_at ?b (int ?w))" using w by (simp add: seq_add_def seq_at_def)
  have d: "seq_ge (seq_at ?b (int ?w)) ?b" "seq_diff (seq_at ?b (int ?w)) ?b = Some ?w" "seq_diff ?b ?b = Some 0"
    using seq_at_cmp(4)[OF n, of ?b] seq_at_diff[OF n, of ?b] by (simp_all add: seq_diff_def)
  have g: "get_allocated (tx_buffer s) 0 k = Some []" for k
    using get_allocated_correct[OF wf, of 0 k] l by (simp add: rb_len_def)
  have nz: "remote_win_len s \<noteq> 0" using w by simp
  show ?thesis unfolding data_repr_def q Let_def using l st by (simp add: a d g nz)
qed

lemma dispatch_first_ack:
  assumes st: "state s = Established" and t: "tuple s = Some t" "has_ip_addr cx (ep_addr (tup_local t))"
    and to: "timeout s = None" "keep_alive s = None" "ack_delay_tm s = AckIdle" "\<forall>now. \<not> should_keep_alive (timer s) now"
    and tx: "rb_wf (tx_buffer s)" "rb_len (tx_buffer s) = 0" "remote_last_seq s = local_seq_no s"
      "0 < remote_win_len s" "remote_win_len s \<le> I32_MAX"
    and rx: "rb_len (rx_buffer s) = 0" "asm_is_empty (assembler s)" "\<not> rx_fin_received s" "remote_seq_no s = b"
      "remote_last_ack s = Some (b - 1)" "rb_capacity (rx_buffer s) \<le> 2 ^ 30"
  obtains ip r s' where "dispatch cx (\<lambda>_. True) s = Some (Emitted (ip, r), s')" "ack_number r = Some b" "rx_fresh b s'"
    "rx_buffer s' = rx_buffer s" "tx_buffer s' = tx_buffer s" "remote_mss s' = remote_mss s" "tuple s' = tuple s"
    "remote_last_win s' = scaled_window s" "remote_win_shift s' = remote_win_shift s" "remote_last_ack s' = Some b"
    "local_seq_no s' = local_seq_no s"
proof -
  define s0 where "s0 = (if remote_last_ts s = None then s\<lparr>remote_last_ts := Some (cx_now cx)\<rparr> else s)"
  have s0: "state s0 = Established" "tuple s0 = Some t" "timeout s0 = None" "keep_alive s0 = None" "ack_delay_tm s0 = AckIdle"
    "timer s0 = timer s" "tx_buffer s0 = tx_buffer s" "remote_last_seq s0 = local_seq_no s0" "local_seq_no s0 = local_seq_no s"
    "remote_win_len s0 = remote_win_len s" "rx_buffer s0 = rx_buffer s" "assembler s0 = assembler s" "\<not> rx_fin_received s0"
    "remote_seq_no s0 = b" "remote_last_ack s0 = Some (b - 1)" "remote_win_shift s0 = remote_win_shift s" "remote_mss s0 = remote_mss s"
    using st t to tx rx by (simp_all add: s0_def)
  have q0: "seq_to_transmit cx s0 = Some False" by (rule nothing_to_transmit) (use s0 tx in simp_all)
  have "\<not> timed_out (cx_now cx) s0" using s0(3) by (simp add: timed_out_def split: option.split)
  then obtain s1 where r: "run_timers cx s = Some s1" and s1': "s1 = s0 \<or>
      s1 = s0\<lparr>remote_last_seq := local_seq_no s0, timer := set_for_idle (cx_now cx) (keep_alive s0), rtte := rtte_on_retransmit (rtte s0)\<rparr>"
    using q0 by (auto simp: run_timers_def s0_def[symmetric] Let_def)
  have s1: "state s1 = Established" "tuple s1 = Some t" "ack_delay_tm s1 = AckIdle" "\<not> should_keep_alive (timer s1) (cx_now cx)"
    "tx_buffer s1 = tx_buffer s" "remote_last_seq s1 = local_seq_no s1" "local_seq_no s1 = local_seq_no s"
    "remote_win_len s1 = remote_win_len s" "rx_buffer s1 = rx_buffer s" "assembler s1 = assembler s" "\<not> rx_fin_received s1"
    "remote_seq_no s1 = b" "remote_last_ack s1 = Some (b - 1)" "remote_win_shift s1 = remote_win_shift s" "remote_mss s1 = remote_mss s"
    using s1' s0 to(4) by (auto simp: set_for_idle_def)
  have q: "seq_to_transmit cx s1 = Some False" by (rule nothing_to_transmit) (use s1 tx in simp_all)
  have "seq_lt (b - 1) b" by (simp add: seq_lt_def)
  then have "ack_to_transmit s1 = Some True" using s1 rx(1) by (simp add: ack_to_transmit_def seq_add_def)
  then have d: "decide cx s1 = Some SendNow" using q s1(3) by (simp add: decide_def delayed_ack_expired_def)
  obtain br where br: "base_repr t s1 = Some br" and bf: "control br = NoControl" "ack_number br = Some b"
    "seq_number br = local_seq_no s" "window_len br = scaled_window s1"
    using rx(1) s1 by (simp add: base_repr_def seq_add_def)
  define r1 where "r1 = br\<lparr>payload := []\<rparr>"
  have "data_repr cx s1 br = Some (r1, False)"
    unfolding r1_def by (rule empty_data_repr) (use s1 tx in simp_all)
  then have bu: "build_repr cx t s1 = Some (Some (r1, False))" using br s1(1) by (simp add: build_repr_def)
  have f: "finish_repr cx s1 r1 = (r1, False)" using s1(4) bf(1) by (simp add: finish_repr_def r1_def Let_def)
  have sl: "segment_len r1 = 0" using bf(1) by (simp add: segment_len_def r1_def)
  let ?s2 = "s1\<lparr>timer := rewind_keep_alive (cx_now cx) (keep_alive s1) (timer s1), ack_delay_tm := AckIdle\<rparr>"
  define s' where "s' = note_sent cx r1 (seq_number r1) ?s2"
  have e: "after_emit cx r1 False False s1 = Some s'" using sl by (simp add: after_emit_eq s'_def Let_def seq_add_def)
  obtain ip where dp: "dispatch cx (\<lambda>_. True) s = Some (Emitted (ip, r1), s')"
    unfolding dispatch_def using t r d bu f e by simp
  have sw: "scaled_window s1 = scaled_window s" using s1 by (simp add: scaled_window_def)
  have f': "state s' = Established" "rx_buffer s' = rx_buffer s" "tx_buffer s' = tx_buffer s" "assembler s' = assembler s"
    "remote_seq_no s' = b" "remote_last_ack s' = Some b" "remote_last_win s' = scaled_window s" "remote_win_shift s' = remote_win_shift s"
    "tuple s' = tuple s" "local_seq_no s' = local_seq_no s"
    using s1 bf sw t by (simp_all add: s'_def r1_def)
  have f2: "remote_mss s' = remote_mss s" "\<not> rx_fin_received s'"
    using s1 sl by (simp_all add: s'_def note_sent_def Let_def)
  have "shl_usize (unat (scaled_window s)) (remote_win_shift s) \<le> rb_capacity (rx_buffer s)"
    using scaled_window_fits[of s] by (simp add: rb_window_def)
  then have "rx_fresh b s'" using f' f2 rx by (simp add: rx_fresh_def)
  then show thesis using that[OF dp] f' f2 bf(2) by (simp add: r1_def)
qed

text \<open>A socket on which \<open>connect\<close> has been called, and the peer's answer.\<close>

definition connecting :: "iface_context \<Rightarrow> tcp_socket \<Rightarrow> bool" where
  "connecting cx s \<longleftrightarrow> state s = SynSent \<and> (\<exists>t. tuple s = Some t \<and> has_ip_addr cx (ep_addr (tup_local t))) \<and>
     remote_last_seq s = local_seq_no s \<and> timeout s = None \<and> keep_alive s = None \<and> timer s = timer_new \<and>
     rb_len (rx_buffer s) = 0 \<and> asm_is_empty (assembler s) \<and> \<not> rx_fin_received s \<and> rb_capacity (rx_buffer s) \<le> 2 ^ 30 \<and>
     rb_wf (tx_buffer s) \<and> rb_len (tx_buffer s) = 0"

definition syn_ack_for :: "tcp_socket \<Rightarrow> tcp_repr \<Rightarrow> bool" where
  "syn_ack_for s r \<longleftrightarrow> control r = Syn \<and> ack_number r = Some (local_seq_no s + 1) \<and> max_seg_size r \<noteq> Some 0 \<and>
     payload r = [] \<and> window_len r \<noteq> 0"

text \<open>The SYN, the SYN-ACK and its acknowledgement: whatever window scale the peer agrees to, the socket is
  then fresh.\<close>

lemma handshake_fresh:
  assumes c: "connecting cx s" and r: "syn_ack_for s repr"
  obtains d s1 x s2 y s3 where "dispatch cx (\<lambda>_. True) s = Some (d, s1)" "state s1 = SynSent" "rx_buffer s1 = rx_buffer s"
    "process cx ip repr s1 = Some (x, s2, cx)" "state s2 = Established"
    "dispatch cx (\<lambda>_. True) s2 = Some (y, s3)" "rx_fresh (seq_number repr + 1) s3" "rx_buffer s3 = rx_buffer s"
    "tx_buffer s3 = tx_buffer s" "tuple s1 = tuple s" "tuple s3 = tuple s" "local_seq_no s1 = local_seq_no s"
    "remote_mss s3 = (case max_seg_size repr of Some m \<Rightarrow> unat m | None \<Rightarrow> remote_mss s)"
    "remote_last_win s3 = scaled_window s2" "remote_last_ack s3 = Some (seq_number repr + 1)"
    "remote_win_shift s3 = (if window_scale repr = None then 0 else remote_win_shift s)"
    "remote_win_shift s2 = remote_win_shift s3" "rx_buffer s2 = rx_buffer s" "tuple s2 = tuple s"
proof -
  obtain t where t: "tuple s = Some t" "has_ip_addr cx (ep_addr (tup_local t))" using c by (auto simp: connecting_def)
  note c' = c[unfolded connecting_def] and r' = r[unfolded syn_ack_for_def]
  obtain d s1 where s1: "dispatch cx (\<lambda>_. True) s = Some (d, s1)" "state s1 = SynSent" "tuple s1 = Some t"
    "rx_buffer s1 = rx_buffer s" "tx_buffer s1 = tx_buffer s" "assembler s1 = assembler s" "rx_fin_received s1 = rx_fin_received s"
    "local_seq_no s1 = local_seq_no s" "remote_win_shift s1 = remote_win_shift s" "remote_last_ack s1 = None" "timeout s1 = None"
    "keep_alive s1 = None" "ack_delay_tm s1 = AckIdle" "\<forall>now. \<not> should_keep_alive (timer s1) now" "remote_mss s1 = remote_mss s"
    by (rule dispatch_syn[of s t cx]) (use c' t in auto)
  obtain x s2 where s2: "process cx ip repr s1 = Some (x, s2, cx)" "state s2 = Established"
    "rx_buffer s2 = rx_buffer s1" "tx_buffer s2 = tx_buffer s1" "assembler s2 = assembler s1"
    "rx_fin_received s2 = rx_fin_received s1" "remote_seq_no s2 = seq_number repr + 1"
    "remote_last_ack s2 = Some (seq_number repr)"
    "remote_win_shift s2 = (if window_scale repr = None then 0 else remote_win_shift s1)" "tuple s2 = tuple s1"
    "local_seq_no s2 = local_seq_no s1 + 1" "remote_mss s2 = (case max_seg_size repr of Some m \<Rightarrow> unat m | None \<Rightarrow> remote_mss s1)"
    "remote_last_seq s2 = local_seq_no s1 + 1" "remote_win_len s2 = unat (window_len repr)" "timeout s2 = timeout s1"
    "keep_alive s2 = keep_alive s1" "ack_delay_tm s2 = ack_delay_tm s1" "\<forall>now. \<not> should_keep_alive (timer s2) now"
    by (rule syn_ack_established[of s1 repr cx ip]) (use s1 c' r' in auto)
  have w: "0 < remote_win_len s2" "remote_win_len s2 \<le> I32_MAX"
  proof -
    have "unat (window_len repr) < 2 ^ LENGTH(16)" by (rule unsigned_less)
    then show "0 < remote_win_len s2" "remote_win_len s2 \<le> I32_MAX" using s2(14) r' by (simp_all add: unat_gt_0)
  qed
  obtain ip' r1 s3 where s3: "dispatch cx (\<lambda>_. True) s2 = Some (Emitted (ip', r1), s3)" "rx_fresh (seq_number repr + 1) s3"
    "rx_buffer s3 = rx_buffer s2" "tx_buffer s3 = tx_buffer s2" "remote_mss s3 = remote_mss s2" "tuple s3 = tuple s2"
    "remote_last_win s3 = scaled_window s2" "remote_win_shift s3 = remote_win_shift s2" "remote_last_ack s3 = Some (seq_number repr + 1)"
    by (rule dispatch_first_ack[of s2 t cx "seq_number repr + 1"]) (use s1 s2 w t c' in auto)
  show thesis
    by (rule that[OF s1(1,2,4) s2(1,2) s3(1,2)]) (use s1 s2 s3 t in \<open>simp_all split: option.split\<close>)
qed

section \<open>The worker's sockets\<close>

text \<open>With its buffer of 4 MiB and a peer that scales, the worker's socket accepts more than its buffer
  holds before it has acknowledged the SYN-ACK, and is fresh afterwards.\<close>

theorem worker_socket_fresh:
  "\<exists>d s1 x s2 y s3. dispatch demo_cx (\<lambda>_. True) worker_connected = Some (d, s1) \<and>
     process demo_cx demo_ip scaling_syn_ack s1 = Some (x, s2, demo_cx) \<and>
     dispatch demo_cx (\<lambda>_. True) s2 = Some (y, s3) \<and> rx_fresh 9001 s3 \<and> remote_win_shift s3 = 7 \<and>
     rb_capacity (rx_buffer s3) = 4194304"
proof -
  have "asm_is_empty (asm_new 4)" by (simp add: asm_is_empty_def asm_new_def asm_front_def numeral_eq_Suc)
  moreover have "rb_wf (rb_clear demo_rb)" "rb_len (rb_clear demo_rb) = 0"
    by (simp_all add: demo_rb_def rb_new_def rb_clear_def rb_wf_def rb_len_def)
  ultimately have c: "connecting demo_cx worker_connected"
    using worker_connected_fields worker_rx_fields
    by (simp add: connecting_def has_ip_addr_def demo_cx_def)
  have r: "syn_ack_for worker_connected scaling_syn_ack" "seq_number scaling_syn_ack = 9000" "window_scale scaling_syn_ack = Some 7"
    by (simp_all add: syn_ack_for_def scaling_syn_ack_def demo_syn_ack_def)
  obtain d s1 x s2 y s3 where "dispatch demo_cx (\<lambda>_. True) worker_connected = Some (d, s1)"
    "process demo_cx demo_ip scaling_syn_ack s1 = Some (x, s2, demo_cx)" "dispatch demo_cx (\<lambda>_. True) s2 = Some (y, s3)"
    "rx_fresh (seq_number scaling_syn_ack + 1) s3" "rx_buffer s3 = rx_buffer worker_connected"
    "remote_win_shift s3 = (if window_scale scaling_syn_ack = None then 0 else remote_win_shift worker_connected)"
    by (rule handshake_fresh[OF c r(1), of demo_ip])
  then show ?thesis using r(2,3) worker_connected_fields worker_rx_fields by auto
qed

section \<open>A FIN behind the window\<close>

text \<open>A segment that starts at the window and ends \<open>W\<close> or more bytes later, with a FIN: the first \<open>W\<close> bytes
  are stored, the rest of the payload is dropped, and the FIN counts.\<close>

lemma fin_behind_window:
  assumes st: "state s = Established" and i: "sk_inv s" and wf: "rb_len (rx_buffer s) = 0" "asm_is_empty (assembler s)"
    and cap: "W \<le> rb_capacity (rx_buffer s)" "rb_capacity (rx_buffer s) \<le> 2 ^ 28" "0 < W" "remote_mss s \<le> I32_MAX"
    and q: "remote_seq_no s = b" "remote_last_ack s = Some la"
      "seq_add la (shl_usize (unat (remote_last_win s)) (remote_win_shift s)) = Some (seq_at b (int W))"
    and r: "control repr = Fin" "seq_number repr = b" "W < length (payload repr)" "length (payload repr) \<le> 65535"
      "ack_number repr = Some (local_seq_no s)" and tx: "rb_len (tx_buffer s) \<le> 2 ^ 30"
  obtains x s' where "process cx ip repr s = Some (x, s', cx)" "state s' = CloseWait" "rx_fin_received s'"
    "rb_list (rx_buffer s') = take W (payload repr)"
proof -
  let ?l = "length (payload repr)" and ?stream = "(!) (payload repr)"
  define w where "w = \<lparr>window_start = seq_at b 0, window_end = seq_at b (int W), segment_start = seq_at b 0,
    segment_end = seq_at b (int ?l)\<rparr>"
  have w: "receive_window repr s = Some w"
    using wf q r by (simp add: receive_window_def w_def seq_add_def seq_at_def)
  have n: "near 0 (int W)" "near (int W) (int ?l)" "near 0 (int ?l)" "near (int W) 0" "near 0 0"
    using cap r by (auto simp: near_def)
  have "payload repr \<noteq> []" using r(3) by auto
  then have nz: "seq_at b 0 \<noteq> seq_at b (int ?l)" "seq_at b 0 \<noteq> seq_at b (int W)"
    using seq_at_cmp(5)[OF n(3), of b] seq_at_cmp(5)[OF n(1), of b] cap r by simp_all
  have iw: "segment_in_window w"
    using nz seq_at_cmp(2)[OF n(5), of b] seq_at_cmp(1)[OF n(1), of b] cap by (simp add: segment_in_window_def w_def)
  have mx: "seq_max (seq_at b 0) (seq_at b 0) = seq_at b 0" "seq_min (seq_at b (int W)) (seq_at b (int ?l)) = seq_at b (int W)"
    using seq_at_min_max(1)[OF n(5), of b] seq_at_min_max(2)[OF n(2), of b] r(3) by (simp_all add: min_def)
  have df: "seq_diff (seq_at b 0) (seq_at b 0) = Some 0" "seq_diff (seq_at b (int W)) (seq_at b 0) = Some W"
    using seq_at_diff[OF n(5), of b] seq_at_diff[OF n(4), of b] by simp_all
  define data where "data = take W (payload repr)"
  have ld: "length data = W" "data \<noteq> []" using r(3) cap(3) by (auto simp: data_def)
  have cl: "clip_payload w (payload repr) = Some (data, 0)"
    unfolding clip_payload_def w_def by (simp only: rx_window.simps mx df Let_def bind.bind_lunit) (use r(3) in \<open>simp add: slice_def data_def\<close>)
  let ?s1 = "s\<lparr>local_rx_last_seq := Some (seq_number repr)\<rparr>"
  have cw: "check_window cx ip repr w s = Some (Cont (data, 0), ?s1)" using st iw cl by (simp add: check_window_def)
  have ak: "ack_number repr = Some (seq_at (local_seq_no s) (int 0))" using r by simp
  obtain a z where a: "account_ack cx repr ?s1 = Some (a, ?s1\<lparr>rtte := z\<rparr>)" "ack_len a = 0"
    using ack_accepted(2)[of ?s1 repr 0 cx] st r tx by auto
  define s3 where "s3 = set_state CloseWait (got_fin (?s1\<lparr>rtte := z\<rparr>))"
  have "\<not> seq_lt (seq_at b 0) (seq_at b 0)" by (simp add: seq_lt_def)
  then have t: "transition cx ip repr (effective_control w repr) a (?s1\<lparr>rtte := z\<rparr>) = Some (Cont (), s3, cx)"
    using st r(1) by (simp add: transition_def effective_control_def s3_def w_def Let_def)
  have f3: "rx_buffer s3 = rx_buffer s" "assembler s3 = assembler s" "remote_mss s3 = remote_mss s" "state s3 = CloseWait"
    "rx_fin_received s3" by (simp_all add: s3_def got_fin_def set_state_def)
  define s5 where "s5 = update_timers cx a (with_ack cx repr (tx_buffer s3) s3)"
  have u: "update_send_side cx repr a s3 = Some (with_ack cx repr (tx_buffer s3) s3)"
    using a(2) by (simp add: update_send_side_eq tx_after_def)
  have s5: "rx_buffer s5 = rx_buffer s" "assembler s5 = assembler s" "remote_mss s5 = remote_mss s" "state s5 = CloseWait"
    "rx_fin_received s5"
    unfolding s5_def by (subst update_timers_frame, simp add: f3)+
  have iv: "rb_wf (rx_buffer s)" "asm_wf (assembler s)" using i by (simp_all add: sk_inv_def)
  have none: "asm_set (assembler s) = {}" by (rule asm_is_empty_set[OF iv(2) wf(2)])
  have h: "holds ?stream W 0 (rx_buffer s) (assembler s)"
    using none wf(1) cap(1) by (simp add: holds_def arrived_def rb_len_def rb_capacity_def)
  have d: "data = map ?stream [0 + rb_len (rx_buffer s) + 0 ..< 0 + rb_len (rx_buffer s) + 0 + length data]"
    using wf(1) r(3) by (intro nth_equalityI) (simp_all add: data_def)
  have fit: "0 + rb_len (rx_buffer s) + 0 + length data \<le> W" using wf(1) ld by simp
  have c30: "rb_capacity (rx_buffer s) \<le> 2 ^ 30" using cap(2) by simp
  obtain x s' where rp: "receive_payload cx ip repr data 0 s5 = Some (x, s')"
    using receive_payload_total[of s5, unfolded s5, OF iv h c30 d fit cap(4)] by blast
  obtain rx' a' where rx: "holds ?stream W 0 rx' a'" "rx_eq (s5\<lparr>assembler := a', rx_buffer := rx'\<rparr>) s'"
    "rb_len (rx_buffer s) + length data \<le> rb_len rx'"
    using receive_payload_rx[OF rp, unfolded s5, OF iv h d] fit by auto
  have ca: "check_ack cx ip repr s = Some (Cont (), s)"
    by (rule ack_accepted(1)[OF st _ ak _ tx]) (use r(1) in simp_all)
  have p: "process cx ip repr s = Some (x, s', cx)"
    by (simp add: process_def ca w cw process_in_window_def a(1) t u s5_def[symmetric] rp Let_def)
  have e: "rx_buffer s' = rx'" "rx_fin_received s'" using rx(2) s5(5) by (simp_all add: rx_eq_def)
  have st': "state s' = CloseWait" using receive_payload_send_eq[OF rp] s5(4) by (simp add: send_eq_def)
  have "rb_len rx' = W" using rx(1,3) ld(1) by (simp add: holds_def rb_len_def)
  moreover have "rb_wf rx'" using sk_inv_process[OF p i] e(1) by (simp add: sk_inv_def)
  ultimately have "rb_list rx' = map ?stream [0 ..< W]" using holds_list[of rx' ?stream W 0 a'] rx(1) by (simp add: rb_len_def)
  also have "\<dots> = take W (payload repr)" using r(3) by (intro nth_equalityI) simp_all
  finally show thesis using that[OF p st'] e by simp
qed

text \<open>The stream ends early.  The peer of a socket with a buffer of 8 bytes, whose window has 7 bytes left,
  sends ten bytes and a FIN in one segment.  The socket keeps seven of them and counts the FIN: once
  these seven have been read, \<open>recv\<close> reports the end of the stream.\<close>

definition long_fin :: tcp_repr where
  "long_fin = demo_data\<lparr>control := Fin, payload := [1, 2, 3, 4, 5, 6, 7, 8, 9, 10]\<rparr>"

theorem fin_behind_window_truncates:
  "\<exists>s x s'. tcp_reachable demo_rb demo_rb s \<and> rx_fresh 9001 s \<and> accepts demo_ip long_fin s \<and>
     process demo_cx demo_ip long_fin s = Some (x, s', demo_cx) \<and> rb_list (rx_buffer s') = [1, 2, 3, 4, 5, 6, 7] \<and>
     rx_fin_received s' \<and> state s' = CloseWait"
proof -
  obtain s where s: "tcp_reachable demo_rb demo_rb s" "state s = Established" "rx_buffer s = demo_rb" "tx_buffer s = demo_rb"
    "assembler s = asm_new 4" "\<not> rx_fin_received s" "remote_seq_no s = 9000 + 1" "remote_last_ack s = Some 9000"
    "shl_usize (unat (remote_last_win s)) (remote_win_shift s) = 8" "remote_mss s = 1460"
    "tuple s = Some \<lparr>tup_local = \<lparr>ep_addr = 0x0a000001, ep_port = 50000\<rparr>, tup_remote = \<lparr>ep_addr = 0x0a000002, ep_port = 50000\<rparr>\<rparr>"
    "local_seq_no s = local_seq_no demo_connected + 1"
    by (rule demo_opened[of 9000])
  have e: "asm_is_empty (assembler s)" using s(5) by (simp add: asm_is_empty_def asm_new_def asm_front_def numeral_eq_Suc)
  have rb: "rb_len demo_rb = 0" "rb_capacity demo_rb = 8" by (simp_all add: demo_rb_def rb_new_def rb_query_defs)
  have fresh: "rx_fresh 9001 s" using s e rb by (simp add: rx_fresh_def)
  have acc: "accepts demo_ip long_fin s" using s by (simp add: accepts_def demo_ip_def long_fin_def demo_data_def)
  have inv: "sk_inv s" by (rule sk_inv_reachable[OF demo_rb_wf demo_rb_wf s(1)])
  obtain x s' where "process demo_cx demo_ip long_fin s = Some (x, s', demo_cx)" "state s' = CloseWait" "rx_fin_received s'"
    "rb_list (rx_buffer s') = take 7 (payload long_fin)"
    by (rule fin_behind_window[OF s(2) inv, of 7 9001 9000 long_fin demo_cx demo_ip])
      (use s e rb in \<open>simp_all add: long_fin_def demo_data_def seq_add_def seq_at_def\<close>)
  then show ?thesis using s(1) fresh acc by (intro exI[of _ s] exI[of _ x] exI[of _ s']) (simp add: long_fin_def)
qed

end
