(* ===== verification/Tcp_Poll.thy ===== *)
theory Tcp_Poll
  imports Tcp_States
begin

text \<open>
  What polling the interface does to a socket: segments are handed to \<open>process\<close> when the socket accepts
  them, and \<open>dispatch\<close> is asked for segments to send, in any order and number.  Shown: polling keeps the
  sizes of both buffers and never adds to the transmit queue.
\<close>

inductive net_step :: "tcp_socket \<Rightarrow> tcp_socket \<Rightarrow> bool" where
  net_process: "accepts ip repr s \<Longrightarrow> process cx ip repr s = Some (r, s', cx') \<Longrightarrow> net_step s s'"
| net_dispatch: "dispatch cx emit s = Some (d, s') \<Longrightarrow> net_step s s'"

lemma net_tcp_step: "net_step s s' \<Longrightarrow> tcp_step s s'"
  by (induction rule: net_step.induct) (auto intro: tcp_step.intros)

definition buffers_kept :: "tcp_socket \<Rightarrow> tcp_socket \<Rightarrow> bool" where
  "buffers_kept s s' \<longleftrightarrow> length (storage (rx_buffer s')) = length (storage (rx_buffer s)) \<and>
     length (storage (tx_buffer s')) = length (storage (tx_buffer s)) \<and> rlength (tx_buffer s') \<le> rlength (tx_buffer s)"

lemma buffers_kept_same: "rx_buffer s' = rx_buffer s \<Longrightarrow> tx_buffer s' = tx_buffer s \<Longrightarrow> buffers_kept s s'"
  by (simp add: buffers_kept_def)

lemma buffers_kept_trans: "buffers_kept s s1 \<Longrightarrow> buffers_kept s1 s2 \<Longrightarrow> buffers_kept s s2"
  by (simp add: buffers_kept_def)

lemma core_buffers: "core_eq s s' \<Longrightarrow> buffers_kept s s'"
  by (simp add: core_eq_def buffers_kept_def)

lemma transition_buffers:
  assumes "transition cx ip repr ctl a s = Some (f, s', cx')"
  shows "rx_buffer s' = rx_buffer s \<and> tx_buffer s' = tx_buffer s"
proof -
  have c: "challenge_ack_reply cx ip repr s = Some (r, s1) \<Longrightarrow> rx_buffer s1 = rx_buffer s \<and> tx_buffer s1 = tx_buffer s" for r s1
    using challenge_ack_reply_core[of cx ip repr s] by (auto simp: core_eq_def)
  show ?thesis
    using assms unfolding transition_def Let_def
    by (cases "state s"; cases ctl)
      (auto simp: set_state_def got_fin_def enter_time_wait_def bind_eq_Some_conv listen_syn_def syn_sent_syn_def
        learn_options_def Let_def split_beta dest!: c split: if_splits option.splits)
qed

lemma receive_payload_buffers:
  assumes "receive_payload cx ip repr data offset s = Some (r, s')" "sk_inv s"
  shows "buffers_kept s s'"
proof (cases "data = [] \<or> (\<exists>e. add_then_remove_front (assembler s) offset (length data) = Inl e)")
  case True
  then show ?thesis using assms(1) unfolding receive_payload_def by (auto simp: buffers_kept_def split: if_splits)
next
  case False
  then obtain asm' n where a: "data \<noteq> []" "add_then_remove_front (assembler s) offset (length data) = Inr (asm', n)"
    by (metis sum.exhaust prod.exhaust)
  obtain rx1 k rx2 s2 where w: "write_unallocated (rx_buffer s) offset data = Some (rx1, k)"
    "(if n \<noteq> 0 then enqueue_unallocated rx1 n else Some rx1) = Some rx2"
    "update_ack_delay cx (s\<lparr>assembler := asm', rx_buffer := rx2\<rparr>) = Some s2" "core_eq s2 s'"
    by (rule receive_payload_split[OF assms(1) a])
  have "rb_wf rx1" "length (storage rx1) = length (storage (rx_buffer s))"
    using write_unallocated_total[of "rx_buffer s" offset data] assms(2) w(1) by (auto simp: sk_inv_def)
  then have "length (storage rx2) = length (storage (rx_buffer s))"
    using w(2) enqueue_unallocated_Some[of rx1 n rx2] by (auto split: if_splits)
  then have "buffers_kept s (s\<lparr>assembler := asm', rx_buffer := rx2\<rparr>)" by (simp add: buffers_kept_def)
  then show ?thesis using core_buffers[OF update_ack_delay_core[OF w(3)]] core_buffers[OF w(4)] buffers_kept_trans by blast
qed

lemma process_buffers:
  assumes "process cx ip repr s = Some (r, s', cx')" "sk_inv s"
  shows "buffers_kept s s'"
  using assms(1)
proof (cases rule: process_cases)
  case rejected
  then show ?thesis by (simp add: core_buffers)
next
  case (stopped w data offset s1 a s2)
  have "rx_buffer s2 = rx_buffer s" "tx_buffer s2 = tx_buffer s"
    using check_window_core[OF stopped(3)] account_ack_rtte[OF stopped(4)] by (auto simp: core_eq_def)
  then show ?thesis using transition_buffers[OF stopped(5)] by (simp add: buffers_kept_def)
next
  case (processed w data offset s1 a s2 s3 s4)
  have i2: "sk_inv s2"
    using sk_inv_account_ack[OF processed(4)] sk_inv_core[OF check_window_core[OF processed(3)]] assms(2) by blast
  have b: "rx_buffer s3 = rx_buffer s" "tx_buffer s3 = tx_buffer s"
    using check_window_core[OF processed(3)] account_ack_rtte[OF processed(4)] transition_buffers[OF processed(5)]
    by (auto simp: core_eq_def)
  obtain tx where tx: "tx_after a s3 = Some tx" "s4 = with_ack cx repr tx s3"
    using processed(6) by (auto simp: update_send_side_eq)
  let ?s5 = "update_timers cx a s4"
  have "rx_buffer ?s5 = rx_buffer s" "tx_buffer ?s5 = tx" by (subst update_timers_frame, simp add: tx(2) b)+
  moreover have "rlength tx \<le> rlength (tx_buffer s)" "storage tx = storage (tx_buffer s)"
    using tx_after_wf[OF _ tx(1)] b(2) assms(2) by (simp_all add: sk_inv_def)
  ultimately have k: "buffers_kept s ?s5" by (simp add: buffers_kept_def)
  have "sk_inv s3" by (rule sk_inv_transition[OF processed(5) i2])
  then have "sk_inv ?s5" using sk_inv_update_timers sk_inv_update_send_side[OF processed(6)] by blast
  then show ?thesis using k receive_payload_buffers[OF processed(7)] buffers_kept_trans by blast
qed

lemma run_timers_buffers: "run_timers cx s = Some s' \<Longrightarrow> rx_buffer s' = rx_buffer s \<and> tx_buffer s' = tx_buffer s"
  by (auto simp: run_timers_def Let_def bind_eq_Some_conv set_state_def split: if_splits)

lemma dispatch_buffers:
  assumes "dispatch cx emit s = Some (d, s')"
  shows "buffers_kept s s'"
  using assms
proof (cases rule: dispatch_cases)
  case (reset s1)
  have "rx_buffer s1 = rx_buffer s \<and> tx_buffer s1 = tx_buffer s" using reset(1) run_timers_buffers by blast
  then show ?thesis using reset(2) by (simp add: buffers_kept_def socket_reset_def rb_clear_def)
next
  case (sent t s1 r p r1 k ip)
  have "rx_buffer s' = rx_buffer s1" "tx_buffer s' = tx_buffer s1"
    using sent(6) by (auto simp: after_emit_eq Let_def split: if_splits)
  then show ?thesis using run_timers_buffers[OF sent(2)] by (simp add: buffers_kept_def)
qed (auto simp: buffers_kept_same dest: run_timers_buffers)

text \<open>A poll is any number of such steps.\<close>

lemma net_steps_kept:
  assumes "net_step\<^sup>*\<^sup>* s s'" "sk_inv s"
  shows "sk_inv s' \<and> buffers_kept s s'"
  using assms(1)
proof (induction rule: rtranclp_induct)
  case base
  then show ?case using assms(2) by (simp add: buffers_kept_def)
next
  case (step s1 s2)
  have "sk_inv s2" using sk_inv_step[OF net_tcp_step[OF step(2)]] step.IH by blast
  moreover have "buffers_kept s1 s2"
    using step(2) step.IH process_buffers dispatch_buffers by (auto elim!: net_step.cases)
  ultimately show ?case using step.IH buffers_kept_trans by blast
qed

end
