(* ===== verification/App_Serve.thy ===== *)
theory App_Serve
  imports App_Worker Tcp_Open Tcp_Poll
begin

text \<open>
  A worker against servers that answer (\<open>worker_thread\<close> and \<open>conn_step\<close> of \<open>src/lib.rs\<close> over plain
  HTTP).  The interface is known by what polling does to a socket: steps of the modelled TCP.  The
  servers are known by a plan: for every connection the round in which its handshake completes, the
  bytes every round adds to its receive buffer, and the round in which the peer's FIN has arrived.  The
  plan is only asked of the sockets that occur when the worker runs on that network.  Shown: every
  connection queues and sends its request, counts exactly the body of what arrived over all the rounds
  and closes cleanly, and the worker reports all of them.
\<close>

section \<open>The servers\<close>

record plan =
  opens_at :: "nat \<Rightarrow> nat"
  ends_at :: "nat \<Rightarrow> nat"
  inflow :: "nat \<Rightarrow> nat \<Rightarrow> bytes"

definition response :: "plan \<Rightarrow> nat \<Rightarrow> bytes" where
  "response P h = concat (map (inflow P h) [2..<Suc (ends_at P h)])"

text \<open>The rounds of the worker are numbered from 2.  A handshake completes before the SYN timeout, nothing
  arrives before it, and every connection ends within the bound on the rounds.\<close>

definition plan_ok :: "(nat \<Rightarrow> nat \<Rightarrow> int) \<Rightarrow> nat \<Rightarrow> plan \<Rightarrow> bool" where
  "plan_ok clk rounds P \<longleftrightarrow> (\<forall>h. 2 \<le> opens_at P h \<and> opens_at P h \<le> ends_at P h \<and> ends_at P h < 2 + rounds \<and>
     (\<forall>k. 2 \<le> k \<and> k < opens_at P h \<longrightarrow> inflow P h k = [] \<and> wrap_i64 (clk k h - clk 0 h) \<le> SYN_TIMEOUT_MS))"

text \<open>What the poll of round \<open>k\<close> does to the socket of connection \<open>h\<close>, and to all sockets.\<close>

definition polled :: "plan \<Rightarrow> nat \<Rightarrow> nat \<Rightarrow> tcp_socket \<Rightarrow> tcp_socket \<Rightarrow> bool" where
  "polled P k h s s' \<longleftrightarrow> (k \<le> ends_at P h \<longrightarrow> net_step\<^sup>*\<^sup>* s s' \<and>
     state s' = (if k < opens_at P h then SynSent else if k < ends_at P h then Established else CloseWait) \<and>
     rb_list (rx_buffer s') = rb_list (rx_buffer s) @ inflow P h k)"

definition served_round :: "plan \<Rightarrow> nat \<Rightarrow> tcp_socket list \<Rightarrow> tcp_socket list \<Rightarrow> bool" where
  "served_round P k ss ss' \<longleftrightarrow> length ss' = length ss \<and> (\<forall>h < length ss. polled P k h (ss ! h) (ss' ! h))"

text \<open>The rounds of a worker: the connections and sockets before the poll of round \<open>k\<close>.\<close>

inductive worker_round ::
  "'tls rustls \<Rightarrow> nat \<Rightarrow> build_env \<Rightarrow> (nat \<Rightarrow> tcp_socket list \<Rightarrow> tcp_socket list) \<Rightarrow> (nat \<Rightarrow> nat \<Rightarrow> int) \<Rightarrow>
     (nat \<times> 'tls conn) list \<Rightarrow> tcp_socket list \<Rightarrow> conn_stats \<Rightarrow>
     nat \<Rightarrow> (nat \<times> 'tls conn) list \<Rightarrow> tcp_socket list \<Rightarrow> conn_stats \<Rightarrow> bool"
  for ptr fuel e poll clk cs0 ss0 g0 where
  round_first: "worker_round ptr fuel e poll clk cs0 ss0 g0 2 cs0 ss0 g0"
| round_next: "worker_round ptr fuel e poll clk cs0 ss0 g0 k cs ss g \<Longrightarrow>
    step_conns ptr fuel e (clk k) cs (poll k ss) g = Some (False, cs', ss', g') \<Longrightarrow>
    worker_round ptr fuel e poll clk cs0 ss0 g0 (Suc k) cs' ss' g'"

text \<open>The connections and sockets when the loop starts: every socket is a new one on which \<open>connect\<close> has
  been called, every connection is as it was created.\<close>

definition connected_from :: "tcp_socket \<Rightarrow> tcp_socket \<Rightarrow> bool" where
  "connected_from s0 s \<longleftrightarrow> (\<exists>cx remote port cx'. connect cx remote \<lparr>lep_addr = None, lep_port = port\<rparr> s0 = (Inr (), s, cx'))"

definition untouched :: "(nat \<Rightarrow> int) \<Rightarrow> nat \<Rightarrow> 'tls conn \<Rightarrow> bool" where
  "untouched t h c \<longleftrightarrow> \<not> conn_done c \<and> \<not> closed_cleanly c \<and> counter c = counter_init \<and> connect_start_ms c = t h \<and>
     outgoing c = [] \<and> incoming c = [] \<and> \<not> request_queued c \<and> length (request c) \<le> REQUEST_BUF"

definition fresh_start :: "(nat \<Rightarrow> int) \<Rightarrow> (nat \<times> 'tls conn) list \<Rightarrow> tcp_socket list \<Rightarrow> bool" where
  "fresh_start t cs ss \<longleftrightarrow> map fst cs = [0..<length ss] \<and> (\<forall>s \<in> set ss. \<exists>s0. new_socket = Some s0 \<and> connected_from s0 s) \<and>
     (\<forall>x \<in> set cs. untouched t (fst x) (snd x))"

text \<open>The network serves the plan: in every round of a run that starts this way.\<close>

definition serving_network ::
  "'tls rustls \<Rightarrow> nat \<Rightarrow> build_env \<Rightarrow> (nat \<Rightarrow> nat \<Rightarrow> int) \<Rightarrow> plan \<Rightarrow> (nat \<Rightarrow> tcp_socket list \<Rightarrow> tcp_socket list) \<Rightarrow> bool" where
  "serving_network ptr fuel e clk P poll \<longleftrightarrow> (\<forall>cs0 ss0 g0 k cs ss g. fresh_start (clk 0) cs0 ss0 \<and>
     worker_round ptr fuel e poll clk cs0 ss0 g0 k cs ss g \<longrightarrow> served_round P k ss (poll k ss))"

section \<open>The sockets of a worker\<close>

lemma connected_fields:
  assumes "new_socket = Some s0" "connected_from s0 s"
  shows "state s = SynSent" "tuple s \<noteq> None" "remote_last_seq s = local_seq_no s" "timeout s = None" "keep_alive s = None"
    "timer s = timer_new" "rx_buffer s = rb_new (replicate RX_BUF_SIZE 0)" "tx_buffer s = rb_new (replicate TX_BUF_SIZE 0)"
    "assembler s = asm_new 4" "\<not> rx_fin_received s" "remote_mss s = DEFAULT_MSS" "remote_win_shift s = 7" "sk_inv s"
proof -
  obtain cx remote port cx' where c: "connect cx remote \<lparr>lep_addr = None, lep_port = port\<rparr> s0 = (Inr (), s, cx')"
    using assms(2) by (auto simp: connected_from_def)
  obtain a q where s: "s = (set_state SynSent ((socket_reset s0)\<lparr>tuple := Some \<lparr>tup_local = \<lparr>ep_addr = a, ep_port = port\<rparr>, tup_remote = remote\<rparr>\<rparr>))
      \<lparr>local_seq_no := q, remote_last_seq := q\<rparr>"
    using c by (auto simp: connect_def Let_def split_beta split: if_splits option.splits)
  let ?rx = "rb_new (replicate RX_BUF_SIZE (0 :: u8))" and ?tx = "rb_new (replicate TX_BUF_SIZE (0 :: u8))"
  obtain s1 where s1: "socket_new ?rx ?tx = Some s1" "s0 = set_ack_delay None s1"
    using assms(1) by (auto simp: new_socket_def bind_eq_Some_conv)
  have f: "rx_buffer s0 = ?rx" "tx_buffer s0 = ?tx" "timeout s0 = None" "keep_alive s0 = None"
    using s1 by (auto simp: socket_new_def set_ack_delay_def split: if_splits)
  have cl: "rb_clear ?rx = ?rx" "rb_clear ?tx = ?tx" by (simp_all add: rb_clear_def rb_new_def)
  have "bit_len 4194304 = 23" by (simp add: bit_len.simps)
  then have sh: "win_shift_for ?rx = 7" by (simp add: win_shift_for_def RX_BUF_SIZE_def rb_new_def rb_capacity_def)
  show "state s = SynSent" "tuple s \<noteq> None" "remote_last_seq s = local_seq_no s" "timeout s = None" "keep_alive s = None"
    "timer s = timer_new" "rx_buffer s = ?rx" "tx_buffer s = ?tx"
    "assembler s = asm_new 4" "\<not> rx_fin_received s" "remote_mss s = DEFAULT_MSS" "remote_win_shift s = 7"
    using f cl sh by (simp_all add: s set_state_def socket_reset_def)
  have "rb_wf ?rx" "rb_wf ?tx" by (simp_all add: rb_wf_def rb_new_def RX_BUF_SIZE_def TX_BUF_SIZE_def)
  then have "sk_inv s1" using sk_inv_new s1(1) by blast
  then have "sk_inv s0" using sk_inv_step[OF step_ack_delay] s1(2) by blast
  then have "sk_inv (fst (snd (connect cx remote \<lparr>lep_addr = None, lep_port = port\<rparr> s0)))" by (rule sk_inv_connect)
  then show "sk_inv s" using c by simp
qed

text \<open>Opening the connections calls \<open>connect\<close> on each socket.\<close>

lemma open_conns_connected:
  assumes "open_conns e host tls_new opn ctx ports [a..<b] w = Some (Inr w')" "a \<le> b"
    "\<forall>i. a \<le> i \<and> i < length (socks w) \<longrightarrow> socks w ! i = s0" "each (\<lambda>h c s. connected_from s0 s) (conns w) (socks w)"
    "\<forall>x \<in> set (conns w). fst x < a"
  shows "each (\<lambda>h c s. connected_from s0 s) (conns w') (socks w')"
  using assms
proof (induction "b - a" arbitrary: a w)
  case 0
  then show ?case by simp
next
  case (Suc k)
  then have ab: "a < b" by simp
  have u: "[a..<b] = a # [Suc a..<b]" by (rule upt_conv_Cons[OF ab])
  obtain w1 where w1: "open_conn e host tls_new opn ctx ports a w = Some (Inr w1)"
    "open_conns e host tls_new opn ctx ports [Suc a..<b] w1 = Some (Inr w')"
  proof -
    obtain r where r: "open_conn e host tls_new opn ctx ports a w = Some r"
      using Suc.prems(1) u by (auto simp: bind_eq_Some_conv)
    then show thesis using that Suc.prems(1) u by (cases r) auto
  qed
  obtain r s cx where c: "connect (wcx w) (target_endpoint e) \<lparr>lep_addr = None, lep_port = ports ! a\<rparr> (socks w ! a) = (r, s, cx)"
    by (metis prod_cases3)
  have a: "a < length (socks w)" using w1(1) by (auto simp: open_conn_def Let_def split: if_splits)
  have n: "a \<notin> fst ` set (conns w)" using Suc.prems(5) by auto
  have sk: "socks w1 = (socks w)[a := s]"
    and cs: "conns w1 = conns w \<or> r = Inr () \<and> (\<exists>x. conns w1 = conns w @ [(a, x)])"
    using w1(1) c by (auto simp: open_conn_def Let_def bind_eq_Some_conv split: if_splits sum.splits option.splits)
  have "each (\<lambda>h c s. connected_from s0 s) (conns w) (socks w1)" using Suc.prems(4) sk n by (simp add: each_others)
  moreover have "connected_from s0 s" if "r = Inr ()" using c that Suc.prems(3) a by (auto simp: connected_from_def)
  ultimately have "each (\<lambda>h c s. connected_from s0 s) (conns w1) (socks w1)" using cs sk a by auto
  moreover have "\<forall>x \<in> set (conns w1). fst x < Suc a" using cs Suc.prems(5) by (auto simp: less_Suc_eq)
  ultimately show ?case using Suc.hyps(1)[OF _ w1(2)] Suc.hyps(2) Suc.prems(3) sk ab by simp
qed

lemma conn_request_length: "conn_request host a b = Some req \<Longrightarrow> length req \<le> REQUEST_BUF"
proof -
  assume r: "conn_request host a b = Some req"
  have wf: "bw_wf (bw_new (replicate REQUEST_BUF 0))" by (simp add: bw_wf_def bw_new_def)
  obtain w where "write_fmt (bw_new (replicate REQUEST_BUF 0)) (request_fragments host a b) = Some w"
    "length (buf w) = length (buf (bw_new (replicate REQUEST_BUF 0)))"
    by (rule write_fmt_correct[OF wf])
  then show ?thesis using r
    by (auto simp: conn_request_def build_range_request_def slice_def bw_new_def split: if_splits)
qed

section \<open>The socket after a step\<close>

lemma drain_loop_inv: "drain_loop k inc s = Some (inc', s') \<Longrightarrow> sk_inv s \<Longrightarrow> sk_inv s'"
proof (induction k arbitrary: inc s)
  case (Suc k)
  show ?case
  proof (cases "can_recv s")
    case True
    then obtain r s1 where r: "recv (\<lambda>buf. (buf, length buf, buf)) s = Some (r, s1)"
      using Suc.prems(1) by (auto simp: bind_eq_Some_conv)
    have wf: "rb_wf (rx_buffer s)" using Suc.prems(2) by (simp add: sk_inv_def)
    have "sk_inv s1"
      by (rule sk_inv_recv[OF r[unfolded recv_def] Suc.prems(2)]) (rule dequeue_many_with_wf[OF wf closure_ok_whole])
    note i = this
    show ?thesis
    proof (cases r)
      case (Inl x)
      then show ?thesis using Suc.prems(1) True r i by simp
    next
      case (Inr data)
      then show ?thesis using Suc.prems(1) True r i Suc.IH[OF _ i, of "inc @ data"] by (cases "data = []") simp_all
    qed
  qed (use Suc.prems in simp)
qed (auto split: if_splits)

text \<open>What a step does to the socket: some bytes may be queued, then the receive queue is drained.\<close>

lemma conn_traffic_socket:
  assumes "conn_traffic ptr fuel e c s g = Some (c', s', g')"
  obtains s2 k inc inc' where "s2 = s \<or> (\<exists>data r. send_slice data s = Some (r, s2))" "drain_loop k inc s2 = Some (inc', s')"
proof -
  obtain c2 s2 c3 where 1: "push_outgoing (queue_request e s c) s = Some (c2, s2)" "drain_socket c2 s2 = Some (c3, s')"
    using assms(1) by (auto simp: conn_traffic_def bind_eq_Some_conv split_beta Let_def split: if_splits)
  obtain inc' where 2: "drain_loop (recv_queue s2) (incoming c2) s2 = Some (inc', s')"
    using 1(2) by (auto simp: drain_socket_def bind_eq_Some_conv)
  have "s2 = s \<or> (\<exists>data r. send_slice data s = Some (r, s2))"
  proof (cases "outgoing (queue_request e s c) \<noteq> [] \<and> can_send s")
    case True
    then obtain r s1 where r: "send_slice (outgoing (queue_request e s c)) s = Some (r, s1)"
      using 1(1) by (auto simp: push_outgoing_def bind_eq_Some_conv)
    then have "s2 = s1" using 1(1) True by (cases r) (auto simp: push_outgoing_def split: if_splits)
    then show ?thesis using r by blast
  next
    case False
    then have "s2 = s" using 1(1) by (auto simp: push_outgoing_def split: if_splits)
    then show ?thesis by blast
  qed
  then show thesis by (rule that[OF _ 2])
qed

lemma conn_traffic_inv:
  assumes "conn_traffic ptr fuel e c s g = Some (c', s', g')" "sk_inv s"
  shows "sk_inv s'"
proof -
  obtain s2 k inc inc' where 1: "s2 = s \<or> (\<exists>data r. send_slice data s = Some (r, s2))" "drain_loop k inc s2 = Some (inc', s')"
    by (rule conn_traffic_socket[OF assms(1)])
  then have "sk_inv s2" using assms(2) sk_inv_step[OF step_send_slice] by blast
  then show ?thesis using drain_loop_inv[OF 1(2)] by blast
qed

section \<open>The phases of a connection\<close>

lemma count_loop_fst: "fst (count_loop c g d) = fst (count_loop c g' d)"
  by (induction d arbitrary: c) (simp_all add: Let_def)

lemma count_body_fst: "fst (count_body c g d) = fst (count_body c g' d)"
  using count_loop_fst by (auto simp: count_body_def)

text \<open>The counter after the bytes \<open>d\<close>, whatever the shared statistics.\<close>

definition counts :: "bytes \<Rightarrow> 'tls conn \<Rightarrow> bool" where
  "counts d c \<longleftrightarrow> (\<forall>g. counter c = fst (count_body counter_init g d))"

lemma counts_Nil: "counter c = counter_init \<Longrightarrow> counts [] c"
  by (simp add: counts_def)

lemma counts_more:
  assumes "counts d c" "count_body (counter c) g x = (k, g')" "counter c' = k"
  shows "counts (d @ x) c'"
proof -
  have "fst (count_body counter_init g0 (d @ x)) = k" for g0
  proof -
    obtain k1 g1 where 1: "count_body counter_init g0 d = (k1, g1)" by force
    then have "k1 = counter c" using assms(1) by (simp add: counts_def) (metis fst_conv)
    then show ?thesis using assms(2) 1 count_body_fst[of "counter c" g1 x g] by (simp add: count_body_append)
  qed
  then show ?thesis using assms(3) by (simp add: counts_def)
qed

lemma counts_body:
  assumes "counts d c" "after_header d = Some body"
  shows "bytes_received (counter c) = length body"
proof -
  obtain k g where k: "count_records counter_init \<lparr>BAD_STATUS = 0, FIRST_BAD_STATUS = 0\<rparr> [d] = (k, g)" by force
  then have "count_body counter_init \<lparr>BAD_STATUS = 0, FIRST_BAD_STATUS = 0\<rparr> d = (k, g)" by (simp split: prod.splits)
  then have "counter c = k" using assms(1) unfolding counts_def by (metis fst_conv)
  then show ?thesis using count_records_body[OF k] assms(2) by simp
qed

definition sound :: "tcp_socket \<Rightarrow> bool" where
  "sound s \<longleftrightarrow> sk_inv s \<and> rb_capacity (rx_buffer s) \<le> I32_MAX"

definition waiting :: "(nat \<Rightarrow> int) \<Rightarrow> nat \<Rightarrow> 'tls conn \<Rightarrow> tcp_socket \<Rightarrow> bool" where
  "waiting t h c s \<longleftrightarrow> untouched t h c \<and> sound s \<and> rb_list (rx_buffer s) = [] \<and> rlength (tx_buffer s) = 0 \<and>
     REQUEST_BUF \<le> length (storage (tx_buffer s))"

definition receiving :: "bytes \<Rightarrow> 'tls conn \<Rightarrow> tcp_socket \<Rightarrow> bool" where
  "receiving d c s \<longleftrightarrow> \<not> conn_done c \<and> \<not> closed_cleanly c \<and> outgoing c = [] \<and> incoming c = [] \<and>
     request_queued c \<and> handshake_done c \<and> counts d c \<and> sound s \<and> rb_list (rx_buffer s) = []"

definition served :: "bytes \<Rightarrow> 'tls conn \<Rightarrow> bool" where
  "served d c \<longleftrightarrow> conn_done c \<and> closed_cleanly c \<and> counts d c"

text \<open>The connection and its socket before the poll of round \<open>k\<close>.\<close>

definition phase :: "plan \<Rightarrow> (nat \<Rightarrow> int) \<Rightarrow> nat \<Rightarrow> nat \<Rightarrow> 'tls conn \<Rightarrow> tcp_socket \<Rightarrow> bool" where
  "phase P t k h c s = (if k \<le> opens_at P h then waiting t h c s
     else if k \<le> ends_at P h then receiving (concat (map (inflow P h) [2..<k])) c s
     else served (response P h) c)"

lemma waiting_step:
  assumes "PLAIN_HTTP e" "untouched t h c" "state s = SynSent" "rb_list (rx_buffer s) = []" "sound s"
    and "wrap_i64 (now - t h) \<le> SYN_TIMEOUT_MS"
  shows "conn_step ptr fuel e now c s g = Some (False, c, s, g)"
proof -
  have r: "\<not> can_recv s" using assms(4,5) by (simp add: can_recv_iff sound_def sk_inv_def)
  have "conn_traffic ptr fuel e c s g = Some (c, s, g)"
    by (rule idle_traffic[OF assms(1,3) r]) (use assms(2) in \<open>simp_all add: untouched_def\<close>)
  then show ?thesis using assms(2,3,6)
    by (simp add: conn_step_def settle_established_def syn_timed_out_def untouched_def)
qed

text \<open>A step of a connection that may send: the request goes out if it has not, everything received is
  counted, and when the peer has closed the connection is done.\<close>

lemma traffic_step:
  assumes "PLAIN_HTTP e" "\<not> conn_done c" "\<not> closed_cleanly c" "incoming c = []" "outgoing c = []" "counts d c" "sound s"
    and st: "state s \<in> {Established, CloseWait}"
    and q: "request_queued c \<and> handshake_done c \<or> \<not> request_queued c \<and> length (request c) \<le> rb_window (tx_buffer s)"
  shows "\<exists>c' s' g'. conn_step ptr fuel e now c s g = Some (conn_done c', c', s', g') \<and>
    (if state s = Established then receiving (d @ rb_list (rx_buffer s)) c' s' else served (d @ rb_list (rx_buffer s)) c')"
proof -
  obtain c1 g1 where 1: "settle_established (state s) now c g = (c1, g1)" by force
  note f1 = settle_established_fields[OF 1]
  have ms: "may_send s" using st by (auto simp: may_send_def)
  have sane: "rx_sane s" using assms(7) by (simp add: rx_sane_def sound_def sk_inv_def)
  let ?c2 = "queue_request e s c1"
  have q2: "request_queued ?c2" "handshake_done ?c2" "length (to_send e s c1) \<le> rb_window (tx_buffer s)"
    using q f1 assms(1,5) ms by (auto simp: queue_request_def to_send_def)
  obtain c' s' k h where t: "conn_traffic ptr fuel e c1 s g1 = Some (c', s', g1\<lparr>http := h\<rparr>)"
    "count_body (counter c1) (http g1) (rb_list (rx_buffer s)) = (k, h)" "counter c' = k" "incoming c' = []" "rx_sane s'"
    "rb_list (rx_buffer s') = []" "state s' = state s" "\<not> can_recv s'"
    "c' = finish_conn s' (?c2\<lparr>outgoing := outgoing c', counter := k, incoming := []\<rparr>)" "outgoing c' = []"
    by (rule conn_traffic_plain[OF assms(1) sane, of c1 ptr fuel g1]) (use f1 assms(4) q2(3) ms in auto)
  have nt: "\<not> syn_timed_out (state s) now c1" using st by (auto simp: syn_timed_out_def)
  have step: "conn_step ptr fuel e now c s g = Some (conn_done c', c', s', g1\<lparr>http := h\<rparr>)"
    using assms(2) 1 nt t(1) by (simp add: conn_step_def)
  have cn: "counts (d @ rb_list (rx_buffer s)) c'"
    by (rule counts_more[OF assms(6) t(2)[unfolded f1] t(3)])
  have so: "sound s'" using conn_traffic_inv[OF t(1)] assms(7) t(5) by (simp add: sound_def rx_sane_def)
  have c': "c' = finish_conn s' (?c2\<lparr>outgoing := [], counter := k, incoming := []\<rparr>)" using t(9,10) by simp
  have "if state s = Established then receiving (d @ rb_list (rx_buffer s)) c' s' else served (d @ rb_list (rx_buffer s)) c'"
  proof (cases "state s = Established")
    case True
    then have "c' = ?c2\<lparr>outgoing := [], counter := k, incoming := []\<rparr>" using c' t(7) by (simp add: finish_conn_def ended_def)
    then show ?thesis using True cn so t(6) q2 f1 assms(2,3) by (simp add: receiving_def)
  next
    case False
    then have "c' = ?c2\<lparr>outgoing := [], counter := k, incoming := [], closed_cleanly := True, conn_done := True\<rparr>"
      using c' t(7,8) st q2 by (simp add: finish_conn_def ended_def)
    then show ?thesis using False cn by (simp add: served_def)
  qed
  then show ?thesis using step by blast
qed

section \<open>The rounds of the worker\<close>

lemma before_opening:
  assumes "plan_ok clk rounds P" "k \<le> opens_at P h"
  shows "concat (map (inflow P h) [2..<k]) = []"
  using assms by (auto simp: plan_ok_def)

lemma arriving_next: "2 \<le> k \<Longrightarrow> concat (map (inflow P h) [2..<Suc k]) = concat (map (inflow P h) [2..<k]) @ inflow P h k"
  by simp

text \<open>A poll and a step take a connection to its next phase.\<close>

lemma phase_step:
  assumes "PLAIN_HTTP e" "plan_ok clk rounds P" "2 \<le> k"
    and ph: "phase P (clk 0) k h c s" and po: "polled P k h s s1"
  shows "\<exists>c' s' g'. conn_step ptr fuel e (clk k h) c s1 g = Some (conn_done c', c', s', g') \<and> phase P (clk 0) (Suc k) h c' s'"
proof -
  let ?d = "concat (map (inflow P h) [2..<k])"
  have oe: "opens_at P h \<le> ends_at P h" using assms(2) by (simp add: plan_ok_def)
  have n: "net_step\<^sup>*\<^sup>* s s1" if "k \<le> ends_at P h" using po that by (simp add: polled_def)
  have st: "state s1 = (if k < opens_at P h then SynSent else if k < ends_at P h then Established else CloseWait)" if "k \<le> ends_at P h"
    using po that by (simp add: polled_def)
  have rx: "rb_list (rx_buffer s1) = rb_list (rx_buffer s) @ inflow P h k" if "k \<le> ends_at P h" using po that by (simp add: polled_def)
  have step: "\<exists>c' s' g'. conn_step ptr fuel e (clk k h) c s1 g = Some (conn_done c', c', s', g') \<and> phase P (clk 0) (Suc k) h c' s'"
    if o: "opens_at P h \<le> k" "k \<le> ends_at P h" and c: "\<not> conn_done c" "\<not> closed_cleanly c" "incoming c = []" "outgoing c = []"
      and d: "counts ?d c" and so: "sound s" "rb_list (rx_buffer s) = []"
      and q: "request_queued c \<and> handshake_done c \<or> \<not> request_queued c \<and> length (request c) \<le> rb_window (tx_buffer s1)"
  proof -
    have k: "sk_inv s1" "buffers_kept s s1" using net_steps_kept[OF n[OF o(2)]] so by (simp_all add: sound_def)
    have so1: "sound s1" using so k by (simp add: sound_def buffers_kept_def rb_capacity_def)
    have s1: "state s1 \<in> {Established, CloseWait}" "state s1 = Established \<longleftrightarrow> k < ends_at P h" using st[OF o(2)] o by auto
    have r1: "rb_list (rx_buffer s1) = inflow P h k" using rx[OF o(2)] so(2) by simp
    obtain c' s' g' where 1: "conn_step ptr fuel e (clk k h) c s1 g = Some (conn_done c', c', s', g')"
      "if state s1 = Established then receiving (?d @ inflow P h k) c' s' else served (?d @ inflow P h k) c'"
      using traffic_step[OF assms(1) c d so1 s1(1) q, of ptr fuel "clk k h" g] unfolding r1 by blast
    have "phase P (clk 0) (Suc k) h c' s'"
    proof (cases "k < ends_at P h")
      case True
      then show ?thesis using 1(2) o(1) s1(2) arriving_next[OF assms(3), of P h] by (simp add: phase_def)
    next
      case False
      then have "k = ends_at P h" using o(2) by simp
      then show ?thesis using 1(2) o(1) s1(2) arriving_next[OF assms(3), of P h] by (simp add: phase_def response_def)
    qed
    then show ?thesis using 1(1) by blast
  qed
  consider (wait) "k < opens_at P h" | (start) "k = opens_at P h" | (more) "opens_at P h < k" "k \<le> ends_at P h" | (over) "ends_at P h < k"
    by linarith
  then show ?thesis
  proof cases
    case wait
    then have w: "waiting (clk 0) h c s" and e: "k \<le> ends_at P h" using ph oe by (simp_all add: phase_def)
    have a: "inflow P h k = []" "wrap_i64 (clk k h - clk 0 h) \<le> SYN_TIMEOUT_MS"
      using assms(2,3) wait by (auto simp: plan_ok_def)
    have k: "sk_inv s1" "buffers_kept s s1" using net_steps_kept[OF n[OF e]] w by (simp_all add: waiting_def sound_def)
    have s1: "state s1 = SynSent" "rb_list (rx_buffer s1) = []" using st[OF e] rx[OF e] wait w a by (simp_all add: waiting_def)
    have so: "sound s1" using w k by (simp add: waiting_def sound_def buffers_kept_def rb_capacity_def)
    have u: "untouched (clk 0) h c" using w by (simp add: waiting_def)
    have "phase P (clk 0) (Suc k) h c s1"
      using wait w k so s1 by (simp add: phase_def waiting_def buffers_kept_def)
    then show ?thesis using waiting_step[OF assms(1) u s1 so a(2), of ptr fuel g] u by (auto simp: untouched_def)
  next
    case start
    then have w: "waiting (clk 0) h c s" and e: "k \<le> ends_at P h" using ph oe by (simp_all add: phase_def)
    have k: "buffers_kept s s1" using net_steps_kept[OF n[OF e]] w by (simp add: waiting_def sound_def)
    have q: "length (request c) \<le> rb_window (tx_buffer s1)"
      using w k by (simp add: waiting_def buffers_kept_def untouched_def rb_window_def rb_capacity_def rb_len_def)
    have "?d = []" using before_opening[OF assms(2)] start by blast
    then have z: "counts ?d c" using w counts_Nil[of c] by (simp only: waiting_def untouched_def)
    show ?thesis by (rule step) (use start e w z q in \<open>simp_all add: waiting_def untouched_def\<close>)
  next
    case more
    then have "receiving ?d c s" using ph by (simp add: phase_def)
    then show ?thesis by (intro step) (use more in \<open>simp_all add: receiving_def\<close>)
  next
    case over
    then have "served (response P h) c" using ph oe by (simp add: phase_def split: if_splits)
    then show ?thesis using over oe by (simp add: conn_step_def phase_def served_def)
  qed
qed

lemma phase_done:
  assumes "phase P t k h c s" "conn_done c"
  shows "served (response P h) c"
  using assms by (auto simp: phase_def waiting_def untouched_def receiving_def split: if_splits)

lemma served_loop:
  assumes "PLAIN_HTTP e" "plan_ok clk rounds0 P"
    and net: "\<forall>k cs ss g. worker_round ptr fuel e poll clk cs0 ss0 g0 k cs ss g \<longrightarrow> served_round P k ss (poll k ss)"
  shows "worker_round ptr fuel e poll clk cs0 ss0 g0 k cs ss g \<Longrightarrow> 2 \<le> k \<Longrightarrow> distinct (map fst cs) \<Longrightarrow>
    each (phase P (clk 0) k) cs ss \<Longrightarrow> (\<exists>x \<in> set cs. \<not> conn_done (snd x)) \<Longrightarrow> (\<forall>h. ends_at P h < k + rounds) \<Longrightarrow>
    \<exists>cs' ss' g'. worker_loop ptr fuel e poll clk k rounds cs ss g = Some (cs', ss', g') \<and>
      map fst cs' = map fst cs \<and> each (\<lambda>h c s. served (response P h) c) cs' ss'"
proof (induction rounds arbitrary: k cs ss g)
  case 0
  then obtain h c where x: "(h, c) \<in> set cs" "\<not> conn_done c" by force
  then have "phase P (clk 0) k h c (ss ! h)" using 0(4) by (force simp: each_def)
  moreover have "opens_at P h \<le> ends_at P h" "ends_at P h < k" using assms(2) 0(6) by (simp_all add: plan_ok_def)
  ultimately show ?case using x(2) by (simp add: phase_def served_def)
next
  case (Suc rounds)
  let ?R = "\<lambda>h c s1. \<exists>s. phase P (clk 0) k h c s \<and> polled P k h s s1"
  have sr: "served_round P k ss (poll k ss)" using net Suc.prems(1) by blast
  have R: "each ?R cs (poll k ss)" unfolding each_def
  proof
    fix x
    assume "x \<in> set cs"
    then have x: "fst x < length ss" "phase P (clk 0) k (fst x) (snd x) (ss ! fst x)" using Suc.prems(4) by (auto simp: each_def)
    then have "polled P k (fst x) (ss ! fst x) (poll k ss ! fst x)" "length (poll k ss) = length ss"
      using sr by (simp_all add: served_round_def)
    then show "fst x < length (poll k ss) \<and> ?R (fst x) (snd x) (poll k ss ! fst x)"
      using x by (intro conjI exI[of _ "ss ! fst x"]) simp_all
  qed
  have st: "\<exists>c' s' g'. conn_step ptr fuel e (clk k h) c s1 g = Some (conn_done c', c', s', g') \<and> phase P (clk 0) (Suc k) h c' s'"
    if r: "?R h c s1" for h c s1 g
  proof -
    obtain s where "phase P (clk 0) k h c s" "polled P k h s s1" using r by blast
    then show ?thesis by (rule phase_step[OF assms(1,2) Suc.prems(2)])
  qed
  obtain cs1 ss1 g1 where 1: "step_conns ptr fuel e (clk k) cs (poll k ss) g = Some (\<forall>x \<in> set cs1. conn_done (snd x), cs1, ss1, g1)"
    "map fst cs1 = map fst cs" "each (phase P (clk 0) (Suc k)) cs1 ss1"
    using step_conns_each[OF Suc.prems(3) R, of ptr fuel e "clk k" "phase P (clk 0) (Suc k)" g] st by blast
  show ?case
  proof (cases "\<forall>x \<in> set cs1. conn_done (snd x)")
    case True
    have "each (\<lambda>h c s. served (response P h) c) cs1 ss1" unfolding each_def
    proof
      fix x assume x: "x \<in> set cs1"
      then have "phase P (clk 0) (Suc k) (fst x) (snd x) (ss1 ! fst x)" "fst x < length ss1" using 1(3) by (auto simp: each_def)
      then show "fst x < length ss1 \<and> served (response P (fst x)) (snd x)" using True x phase_done by blast
    qed
    then show ?thesis using True 1(1,2) by simp
  next
    case False
    have "worker_round ptr fuel e poll clk cs0 ss0 g0 (Suc k) cs1 ss1 g1"
      using round_next[OF Suc.prems(1)] 1(1) False by simp
    then obtain cs' ss' g' where "worker_loop ptr fuel e poll clk (Suc k) rounds cs1 ss1 g1 = Some (cs', ss', g')"
      "map fst cs' = map fst cs1" "each (\<lambda>h c s. served (response P h) c) cs' ss'"
      using Suc.IH[of "Suc k" cs1 ss1 g1] Suc.prems 1(2,3) False by auto
    then show ?thesis using False 1(1,2) by (intro exI[of _ cs'] exI[of _ ss'] exI[of _ g']) auto
  qed
qed

text \<open>The worker opens a connection for every socket and all of them are served.\<close>

lemma served_worker:
  fixes ptr :: "'tls rustls"
  assumes "PLAIN_HTTP e" "plan_ok clk rounds P" "\<forall>dev. serving_network ptr fuel e clk P (poll dev)"
    and "\<forall>p. queue_for_local_port rss e (ctx_ip ctx) p = Some (qf p)" "CONNS_PER_WORKER e \<noteq> 0" "worker_ctx_ok ctx"
    and "ep_addr (target_endpoint e) \<noteq> 0" "unat (CONNS_PER_WORKER e) \<le> length (owned_list qf (ctx_queue ctx))"
  shows "\<exists>(cs :: (nat \<times> 'tls conn) list) ss g'. worker_thread ptr fuel rss e host True tls_new cx poll clk ns rounds ctx g =
      Some (report (fst ns) (snd ns) cs, g') \<and>
    map fst cs = [0..<unat (CONNS_PER_WORKER e)] \<and> each (\<lambda>h c s. served (response P h) c) cs ss"
proof -
  let ?m = "unat (CONNS_PER_WORKER e)" and ?q = "ctx_queue ctx"
  obtain bm ps s0 dev icx w where w: "build_owned_ports rss e (ctx_ip ctx) ?q (replicate OWNED_BITMAP_BYTES 0) = Some (bm, of_nat (length (owned_list qf ?q)))"
    "select_ports bm (of_nat (length (owned_list qf ?q))) ?m = Some ps" "length ps = min ?m (length (owned_list qf ?q))"
    "new_socket = Some s0" "worker_device ctx bm = Some dev" "worker_iface ctx cx = Some icx"
    "open_conns e host tls_new (\<lambda>i. (clk 0 i, clk 1 i)) ctx ps [0..<length ps] \<lparr>socks = replicate ?m s0, conns = [], wcx = icx\<rparr> = Some (Inr w)"
    "map fst (conns w) = [0..<length ps]" "each (unanswered (clk 0)) (conns w) (socks w)" "\<forall>x \<in> set (conns w). conn_for e host ctx ps x"
    by (rule worker_opens[OF assms(1,4-7), of cx host tls_new clk])
  have m: "length ps = ?m" "?m \<noteq> 0" using w(3) assms(5,8) by (simp_all add: unat_eq_0)
  have cf: "each (\<lambda>h c s. connected_from s0 s) (conns w) (socks w)"
    by (rule open_conns_connected[OF w(7)]) (simp_all add: m)
  have ls: "length (socks w) = ?m" using open_conns_opened[OF w(7) opened_init] by simp
  have hs: "fst ` set (conns w) = {0..<?m}" using arg_cong[OF w(8), of set] m(1) by simp
  have ut: "untouched (clk 0) (fst x) (snd x)" if "x \<in> set (conns w)" for x
  proof -
    have u: "unanswered (clk 0) (fst x) (snd x) (socks w ! fst x)" "conn_for e host ctx ps x" using that w(9,10) by (auto simp: each_def)
    have "length (request (snd x)) \<le> REQUEST_BUF" using u(2) conn_request_length by (fastforce simp: conn_for_def split_beta)
    then show ?thesis using u by (auto simp: unanswered_def conn_for_def untouched_def)
  qed
  have sk: "connected_from s0 s" if s: "s \<in> set (socks w)" for s
  proof -
    obtain h where h: "h < ?m" "socks w ! h = s" using s ls by (auto simp: in_set_conv_nth)
    then have "h \<in> fst ` set (conns w)" using hs by simp
    then obtain x where x: "x \<in> set (conns w)" "fst x = h" by blast
    then have "connected_from s0 (socks w ! fst x)" using cf unfolding each_def by blast
    then show ?thesis using x h by simp
  qed
  have fs: "fresh_start (clk 0) (conns w) (socks w)"
    using w(4,8) m(1) ls ut sk by (auto simp: fresh_start_def)
  have ph: "each (phase P (clk 0) 2) (conns w) (socks w)" unfolding each_def
  proof
    fix x assume x: "x \<in> set (conns w)"
    then have h: "fst x < length (socks w)" using hs ls by auto
    note f = connected_fields[OF w(4) sk[OF nth_mem[OF h]]]
    have "waiting (clk 0) (fst x) (snd x) (socks w ! fst x)"
      using ut[OF x] f(7,8,13) by (simp add: waiting_def sound_def rb_new_def rb_capacity_def rb_list_def RX_BUF_SIZE_def TX_BUF_SIZE_def REQUEST_BUF_def)
    moreover have "2 \<le> opens_at P (fst x)" using assms(2) by (simp add: plan_ok_def)
    ultimately show "fst x < length (socks w) \<and> phase P (clk 0) 2 (fst x) (snd x) (socks w ! fst x)" using h by (simp add: phase_def)
  qed
  have nd: "\<exists>x \<in> set (conns w). \<not> conn_done (snd x)"
  proof -
    have "conns w \<noteq> []" using hs m(2) by auto
    then have "hd (conns w) \<in> set (conns w)" by simp
    then have "\<not> conn_done (snd (hd (conns w)))" using ut by (simp add: untouched_def)
    then show ?thesis using \<open>hd (conns w) \<in> set (conns w)\<close> by blast
  qed
  have net: "\<forall>k cs ss g1. worker_round ptr fuel e (poll dev) clk (conns w) (socks w) g k cs ss g1 \<longrightarrow> served_round P k ss (poll dev k ss)"
    using assms(3) fs unfolding serving_network_def by blast
  obtain cs ss g' where l: "worker_loop ptr fuel e (poll dev) clk 2 rounds (conns w) (socks w) g = Some (cs, ss, g')"
    "map fst cs = map fst (conns w)" "each (\<lambda>h c s. served (response P h) c) cs ss"
  proof -
    have "distinct (map fst (conns w))" "\<forall>h. ends_at P h < 2 + rounds" using w(8) assms(2) by (simp_all add: plan_ok_def)
    note d = this
    show thesis
      using served_loop[of e clk rounds P ptr fuel "poll dev" "conns w" "socks w" g 2 "conns w" "socks w" g rounds,
        OF assms(1,2) net round_first _ d(1) ph nd d(2)] that by auto
  qed
  have "worker_thread ptr fuel rss e host True tls_new cx poll clk ns rounds ctx g = Some (report (fst ns) (snd ns) cs, g')"
    unfolding worker_thread_def w(1,4) using w(2,5,6,7) l(1) m(1) by (simp add: FAULT_ABANDON_CONNS_def Let_def)
  then show ?thesis using l w(8) m(1) by (intro exI[of _ cs] exI[of _ ss] exI[of _ g']) simp
qed

end
