(* ===== verification/App_Network.thy ===== *)
theory App_Network
  imports App_Serve
begin

text \<open>
  A network that serves a plan, made of the modelled TCP: in the first round every socket sends its SYN,
  in the second it gets the SYN-ACK of a peer that scales its window and acknowledges it, and in the
  third a segment with the whole of a short response and a FIN.  Shown: this network meets the contract
  \<open>serving_network\<close>, for every worker over plain HTTP.
\<close>

section \<open>The peer\<close>

definition demo_response :: bytes where
  "demo_response = [CR, LF, CR, LF, 1, 2, 3]"

definition socket_tuple :: "tcp_socket \<Rightarrow> tcp_tuple" where
  "socket_tuple s = the (tuple s)"

definition net_cx :: "tcp_socket \<Rightarrow> iface_context" where
  "net_cx s = demo_cx\<lparr>cx_ip_addrs := [(ep_addr (tup_local (socket_tuple s)), 24)]\<rparr>"

definition net_ip :: "tcp_socket \<Rightarrow> ip_repr" where
  "net_ip s = demo_ip\<lparr>ip_src := ep_addr (tup_remote (socket_tuple s)), ip_dst := ep_addr (tup_local (socket_tuple s))\<rparr>"

definition net_syn_ack :: "tcp_socket \<Rightarrow> tcp_repr" where
  "net_syn_ack s = demo_syn_ack\<lparr>tcp_repr.src_port := ep_port (tup_remote (socket_tuple s)), dst_port := ep_port (tup_local (socket_tuple s)),
     seq_number := 9000, ack_number := Some (local_seq_no s + 1), window_scale := Some 7\<rparr>"

definition net_reply :: "tcp_socket \<Rightarrow> tcp_repr" where
  "net_reply s = demo_data\<lparr>tcp_repr.src_port := ep_port (tup_remote (socket_tuple s)), dst_port := ep_port (tup_local (socket_tuple s)),
     control := Fin, seq_number := 9001, ack_number := Some (local_seq_no s), payload := demo_response\<rparr>"

definition sends :: "tcp_socket \<Rightarrow> tcp_socket" where
  "sends s = snd (the (dispatch (net_cx s) (\<lambda>_. True) s))"

definition gets :: "(tcp_socket \<Rightarrow> tcp_repr) \<Rightarrow> tcp_socket \<Rightarrow> tcp_socket" where
  "gets r s = fst (snd (the (process (net_cx s) (net_ip s) (r s) s)))"

definition net_poll :: "nat \<Rightarrow> tcp_socket \<Rightarrow> tcp_socket" where
  "net_poll k s = (if k = 2 then sends s else if k = 3 then sends (gets net_syn_ack s)
     else if k = 4 then gets net_reply s else s)"

definition net_plan :: plan where
  "net_plan = \<lparr>opens_at = (\<lambda>h. 3), ends_at = (\<lambda>h. 4), inflow = (\<lambda>h k. if k = 4 then demo_response else [])\<rparr>"

lemma net_plan_ok:
  assumes "\<forall>k h. clk k h = clk 0 h" "3 \<le> rounds"
  shows "plan_ok clk rounds net_plan"
proof -
  have "clk k h - clk 0 h = 0" for k h using assms(1) by simp
  then have "wrap_i64 (clk k h - clk 0 h) \<le> SYN_TIMEOUT_MS" for k h
    by (simp only:) (simp add: SYN_TIMEOUT_MS_def wrap_i64_def)
  then show ?thesis using assms(2) by (simp add: plan_ok_def net_plan_def)
qed

lemma net_response: "response net_plan h = demo_response"
  by (simp add: response_def net_plan_def upt_rec)

section \<open>The handshake\<close>

definition is_fresh :: "tcp_socket \<Rightarrow> bool" where
  "is_fresh s \<longleftrightarrow> (\<exists>s0. new_socket = Some s0 \<and> connected_from s0 s)"

text \<open>A socket ready for the response.\<close>

definition ready :: "tcp_socket \<Rightarrow> bool" where
  "ready s \<longleftrightarrow> state s = Established \<and> rx_ok ((!) demo_response) 7 9001 0 s \<and> rb_list (rx_buffer s) = [] \<and>
     \<not> rx_fin_received s \<and> win_end s = seq_at 9001 4194304 \<and> shl_usize (unat (remote_last_win s)) (remote_win_shift s) \<le> I32_MAX \<and>
     remote_mss s = 1460 \<and> tuple s \<noteq> None"

lemma fresh_connecting:
  assumes "is_fresh s"
  shows "connecting (net_cx s) s"
proof -
  obtain s0 where s0: "new_socket = Some s0" "connected_from s0 s" using assms by (auto simp: is_fresh_def)
  note f = connected_fields[OF s0]
  have "asm_is_empty (asm_new 4)" by (simp add: asm_is_empty_def asm_new_def asm_front_def numeral_eq_Suc)
  moreover have "rb_wf (tx_buffer s)" using f(13) by (simp add: sk_inv_def)
  ultimately show ?thesis using f
    by (auto simp: connecting_def has_ip_addr_def net_cx_def socket_tuple_def rb_new_def rb_len_def rb_capacity_def RX_BUF_SIZE_def)
qed

lemma net_opens:
  assumes "is_fresh s"
  shows "net_step\<^sup>*\<^sup>* s (net_poll 2 s)" "state (net_poll 2 s) = SynSent" "rx_buffer (net_poll 2 s) = rx_buffer s"
    "net_step\<^sup>*\<^sup>* (net_poll 2 s) (net_poll 3 (net_poll 2 s))" "ready (net_poll 3 (net_poll 2 s))"
    "rx_buffer (net_poll 3 (net_poll 2 s)) = rx_buffer s" "sk_inv (net_poll 3 (net_poll 2 s))"
    "tx_buffer (net_poll 3 (net_poll 2 s)) = tx_buffer s"
proof -
  obtain s0 where s0: "new_socket = Some s0" "connected_from s0 s" using assms by (auto simp: is_fresh_def)
  note f = connected_fields[OF s0]
  obtain t where t: "tuple s = Some t" using f(2) by blast
  have r: "syn_ack_for s (net_syn_ack s)" "seq_number (net_syn_ack s) = 9000" "window_scale (net_syn_ack s) = Some 7" "max_seg_size (net_syn_ack s) = Some 1460"
    by (simp_all add: syn_ack_for_def net_syn_ack_def demo_syn_ack_def)
  obtain d s1 x s2 y s3 where h: "dispatch (net_cx s) (\<lambda>_. True) s = Some (d, s1)" "state s1 = SynSent" "rx_buffer s1 = rx_buffer s"
    "process (net_cx s) (net_ip s) (net_syn_ack s) s1 = Some (x, s2, net_cx s)" "state s2 = Established"
    "dispatch (net_cx s) (\<lambda>_. True) s2 = Some (y, s3)" "rx_fresh (seq_number (net_syn_ack s) + 1) s3" "rx_buffer s3 = rx_buffer s"
    "tx_buffer s3 = tx_buffer s" "tuple s1 = tuple s" "tuple s3 = tuple s" "local_seq_no s1 = local_seq_no s"
    "remote_mss s3 = (case max_seg_size (net_syn_ack s) of Some m \<Rightarrow> unat m | None \<Rightarrow> remote_mss s)"
    "remote_last_win s3 = scaled_window s2" "remote_last_ack s3 = Some (seq_number (net_syn_ack s) + 1)"
    "remote_win_shift s3 = (if window_scale (net_syn_ack s) = None then 0 else remote_win_shift s)" "remote_win_shift s2 = remote_win_shift s3"
    "rx_buffer s2 = rx_buffer s" "tuple s2 = tuple s"
    by (rule handshake_fresh[OF fresh_connecting[OF assms] r(1), of "net_ip s"])
  have e: "net_poll 2 s = s1" using h(1) by (simp add: net_poll_def sends_def)
  have cx: "net_cx s1 = net_cx s" "net_ip s1 = net_ip s" "net_syn_ack s1 = net_syn_ack s"
    using h(10,12) by (simp_all add: net_cx_def net_ip_def net_syn_ack_def socket_tuple_def)
  have "gets net_syn_ack s1 = s2" using h(4) cx by (simp add: gets_def)
  moreover have "net_cx s2 = net_cx s" using h(19) by (simp add: net_cx_def socket_tuple_def)
  ultimately have e3: "net_poll 3 s1 = s3" using h(6) by (simp add: net_poll_def sends_def)
  have n1: "net_step s s1" using h(1) by (rule net_dispatch)
  have "accepts (net_ip s) (net_syn_ack s) s1"
    using h(2,10) t by (simp add: accepts_def net_ip_def net_syn_ack_def socket_tuple_def)
  then have n2: "net_step s1 s2" using h(4) by (rule net_process)
  have n3: "net_step s2 s3" using h(6) by (rule net_dispatch)
  have i: "sk_inv s3" using f(13) net_tcp_step n1 n2 n3 sk_inv_step by blast
  show "net_step\<^sup>*\<^sup>* s (net_poll 2 s)" "state (net_poll 2 s) = SynSent" "rx_buffer (net_poll 2 s) = rx_buffer s"
    using n1 h(2,3) e by auto
  show "net_step\<^sup>*\<^sup>* (net_poll 2 s) (net_poll 3 (net_poll 2 s))" unfolding e e3 using n2 n3 by (meson converse_rtranclp_into_rtranclp r_into_rtranclp)
  show "rx_buffer (net_poll 3 (net_poll 2 s)) = rx_buffer s" "sk_inv (net_poll 3 (net_poll 2 s))"
    "tx_buffer (net_poll 3 (net_poll 2 s)) = tx_buffer s" unfolding e e3 using h(8,9) i by simp_all
  have fr: "rx_fresh 9001 s3" using h(7) r(2) by simp
  have sw: "scaled_window s2 = 32768" "remote_win_shift s3 = 7"
    using h(16-18) r(3) f(7,12) by (simp_all add: scaled_window_def sat_u16_def shr_usize_def drop_bit_eq_div rb_new_def rb_query_defs RX_BUF_SIZE_def)
  then have win: "shl_usize (unat (remote_last_win s3)) (remote_win_shift s3) = 4194304"
    using h(14) by (simp add: shl_usize_def push_bit_eq_mult)
  have "win_end s3 = seq_at 9001 4194304" using h(15) r(2) win by (simp add: win_end_def seq_at_def)
  then show "ready (net_poll 3 (net_poll 2 s))"
    unfolding e e3 ready_def using rx_ok_fresh[OF i fr] fr win h(8,11,13) r(4) f(2,7) by (simp add: rx_fresh_def rb_new_def rb_list_def)
qed

section \<open>The request and the response\<close>

lemma ready_send_slice:
  assumes "ready s" "send_slice data s = Some (r, s')"
  shows "ready s'"
proof -
  consider "s' = s" | tx where "s' = s\<lparr>tx_buffer := tx, remote_last_ts := remote_last_ts s', timer := timer s'\<rparr>"
    using assms(2) send_impl_frame by (fastforce simp: send_slice_def)
  then show ?thesis
  proof cases
    case 1
    then show ?thesis using assms(1) by simp
  next
    case e: (2 tx)
    have f: "state s' = state s" "rx_buffer s' = rx_buffer s" "rx_fin_received s' = rx_fin_received s"
      "remote_last_ack s' = remote_last_ack s" "remote_last_win s' = remote_last_win s" "remote_win_shift s' = remote_win_shift s"
      "remote_mss s' = remote_mss s" "tuple s' = tuple s" "remote_seq_no s' = remote_seq_no s"
      by (subst e, simp)+
    have "rx_ok ((!) demo_response) 7 9001 0 s'" using rx_ok_idle[OF _ idle_send_slice[OF assms(2)]] assms(1) by (simp add: ready_def)
    moreover have "win_end s' = win_end s" unfolding win_end_def f ..
    ultimately show ?thesis using assms(1) f by (simp add: ready_def)
  qed
qed

lemma ready_step:
  assumes "PLAIN_HTTP e" "untouched t h c" "ready s" "rlength (tx_buffer s) = 0" "rb_capacity (rx_buffer s) \<le> I32_MAX"
    and x: "conn_step ptr fuel e now c s g = Some (d, c', s', g')"
  shows "ready s' \<and> rb_len (tx_buffer s') \<le> 2 ^ 30"
proof -
  have i: "sk_inv s" using assms(3) by (simp add: ready_def rx_ok_def)
  then have sane: "rx_sane s" using assms(5) by (simp add: rx_sane_def sk_inv_def)
  have st: "state s = Established" using assms(3) by (simp add: ready_def)
  obtain c1 g1 where 1: "settle_established (state s) now c g = (c1, g1)" by force
  note f1 = settle_established_fields[OF 1]
  have u: "incoming c = []" "\<not> conn_done c" "outgoing c = []" "length (request c) \<le> REQUEST_BUF" using assms(2) by (simp_all add: untouched_def)
  obtain c2 s2 h sent where t: "conn_traffic ptr fuel e c1 s g1 = Some (c2, s2, g1\<lparr>http := h\<rparr>)"
    "to_send e s c1 = sent @ outgoing c2" "rb_list (tx_buffer s2) = rb_list (tx_buffer s) @ sent"
    by (rule conn_traffic_plain[OF assms(1) sane, of c1 ptr fuel g1]) (use f1 u in auto)
  have "\<not> syn_timed_out (state s) now c1" using st by (simp add: syn_timed_out_def)
  then have s': "s' = s2" using x u(2) 1 t(1) by (simp add: conn_step_def)
  have "length sent \<le> length (to_send e s c1)" using t(2) by simp
  also have "\<dots> \<le> REQUEST_BUF" using f1 u by (simp add: to_send_def queue_request_def)
  finally have "length (rb_list (tx_buffer s2)) \<le> REQUEST_BUF" using t(3) assms(4) by (simp add: rb_list_def)
  moreover have "rb_wf (tx_buffer s2)" using conn_traffic_inv[OF t(1) i] by (simp add: sk_inv_def)
  ultimately have len: "rb_len (tx_buffer s') \<le> 2 ^ 30"
    by (simp add: s' length_rb_list rb_len_def REQUEST_BUF_def)
  obtain s3 k inc inc' where m: "s3 = s \<or> (\<exists>data r. send_slice data s = Some (r, s3))" "drain_loop k inc s3 = Some (inc', s2)"
    by (rule conn_traffic_socket[OF t(1)])
  then have r: "ready s3" using assms(3) ready_send_slice by blast
  have "rb_wf (rx_buffer s3)" "rb_list (rx_buffer s3) = []" using r unfolding ready_def rx_ok_def sk_inv_def by blast+
  then have "rb_len (rx_buffer s3) = 0" using length_rb_list[of "rx_buffer s3"] by (simp add: rb_len_def)
  then have "\<not> can_recv s3" by (simp add: can_recv_def rb_is_empty_def)
  then have "s2 = s3" using m(2) by (cases k) auto
  then show ?thesis using r s' len by simp
qed

lemma net_answers:
  assumes "ready s" "rb_len (tx_buffer s) \<le> 2 ^ 30"
  shows "net_step\<^sup>*\<^sup>* s (net_poll 4 s)" "state (net_poll 4 s) = CloseWait" "rb_list (rx_buffer (net_poll 4 s)) = demo_response"
proof -
  let ?stream = "(!) demo_response"
  have r: "state s = Established" "rx_ok ?stream 7 9001 0 s" "rb_list (rx_buffer s) = []" "\<not> rx_fin_received s"
    "win_end s = seq_at 9001 4194304" "shl_usize (unat (remote_last_win s)) (remote_win_shift s) \<le> I32_MAX" "remote_mss s = 1460"
    "tuple s \<noteq> None" using assms(1) by (simp_all add: ready_def)
  have "rb_wf (rx_buffer s)" using r(2) by (simp add: rx_ok_def sk_inv_def)
  then have z: "rb_len (rx_buffer s) = 0" using r(3) length_rb_list[of "rx_buffer s"] by (simp add: rb_len_def)
  have l: "length demo_response = 7" by (simp add: demo_response_def)
  have p: "demo_response = map ?stream [0..<7]" by (simp add: demo_response_def upt_rec)
  have "near 7 4194304" by (simp add: near_def)
  then have "seq_le (seq_at 9001 7) (seq_at 9001 4194304)" by (simp add: seq_at_cmp(2))
  then have w: "seq_le (9001 + 7) (win_end s)" unfolding r(5) by (simp add: seq_at_def)
  have x: "next_segment ?stream 7 9001 0 0 0 s (net_reply s)"
    using w p z l by (simp add: next_segment_def net_reply_def seq_at_def)
  have px: "\<exists>x s'. process (net_cx s) (net_ip s) (net_reply s) s = Some (x, s', net_cx s) \<and> rx_ok ?stream 7 9001 0 s' \<and>
    7 \<le> 0 + rb_len (rx_buffer s') \<and> state s' = CloseWait"
    using next_segment_processed[OF r(2,1) x r(6) assms(2) _ r(4), of "net_cx s" "net_ip s"] r(7) l
    by (auto simp: net_reply_def)
  then obtain x s' where s': "process (net_cx s) (net_ip s) (net_reply s) s = Some (x, s', net_cx s)" "rx_ok ?stream 7 9001 0 s'"
    "7 \<le> 0 + rb_len (rx_buffer s')" "state s' = CloseWait" by blast
  have e: "net_poll 4 s = s'" using s'(1) by (simp add: net_poll_def gets_def)
  have "accepts (net_ip s) (net_reply s) s"
    using r(1,8) by (auto simp: accepts_def net_ip_def net_reply_def socket_tuple_def)
  then have "net_step s s'" using s'(1) by (rule net_process)
  then show "net_step\<^sup>*\<^sup>* s (net_poll 4 s)" using e by simp
  show "state (net_poll 4 s) = CloseWait" using s'(4) e by simp
  have "rb_list (rx_buffer s') = map ?stream [0..<rb_len (rx_buffer s')]" "rb_len (rx_buffer s') \<le> 7"
    using s'(2) by (simp_all add: rx_ok_def)
  then show "rb_list (rx_buffer (net_poll 4 s)) = demo_response" using s'(3) e p by simp
qed

section \<open>All the sockets of a worker\<close>

lemma step_conns_post:
  assumes "step_conns ptr fuel e now cs ss g = Some (d, cs', ss', g')" "distinct (map fst cs)" "each P cs ss"
    and "\<And>h c s g d c' s' g'. P h c s \<Longrightarrow> conn_step ptr fuel e (now h) c s g = Some (d, c', s', g') \<Longrightarrow> Q h c' s'"
  shows "map fst cs' = map fst cs \<and> length ss' = length ss \<and> each Q cs' ss' \<and> (\<forall>h. h \<notin> fst ` set cs \<longrightarrow> ss' ! h = ss ! h)"
  using assms(1-3)
proof (induction cs arbitrary: ss g d cs')
  case Nil
  then show ?case by simp
next
  case (Cons x cs)
  obtain h c where x: "x = (h, c)" by fastforce
  have h: "h < length ss" "P h c (ss ! h)" "h \<notin> fst ` set cs" using Cons.prems x by auto
  obtain d1 c1 s1 g1 d2 cs2 where 1: "conn_step ptr fuel e (now h) c (ss ! h) g = Some (d1, c1, s1, g1)"
    "step_conns ptr fuel e now cs (ss[h := s1]) g1 = Some (d2, cs2, ss', g')" "cs' = (h, c1) # cs2"
  proof -
    obtain y where y: "conn_step ptr fuel e (now h) c (ss ! h) g = Some y" using Cons.prems(1) x h(1) by (auto simp: bind_eq_Some_conv)
    obtain d1 c1 s1 g1 where y4: "y = (d1, c1, s1, g1)" by (metis prod_cases4)
    obtain z where z: "step_conns ptr fuel e now cs (ss[h := s1]) g1 = Some z" using Cons.prems(1) x h(1) y y4 by (auto simp: bind_eq_Some_conv)
    obtain d2 cs2 ss2 g2 where z4: "z = (d2, cs2, ss2, g2)" by (metis prod_cases4)
    show thesis by (rule that[of d1 c1 s1 g1 d2 cs2]) (use Cons.prems(1) x h(1) y y4 z z4 in simp_all)
  qed
  have "each P cs (ss[h := s1])" using Cons.prems(3) x h(3) by (simp add: each_others)
  then have 2: "map fst cs2 = map fst cs" "length ss' = length ss" "each Q cs2 ss'" "\<forall>h'. h' \<notin> fst ` set cs \<longrightarrow> ss' ! h' = ss[h := s1] ! h'"
    using Cons.IH[OF 1(2)] Cons.prems(2) by auto
  have "ss' ! h = s1" using 2(4) h by simp
  moreover have "Q h c1 s1" by (rule assms(4)[OF h(2) 1(1)])
  ultimately show ?case using 1(3) 2 x h by auto
qed

lemma each_map: "each P cs ss \<Longrightarrow> (\<And>h c s. P h c s \<Longrightarrow> Q h c (f s)) \<Longrightarrow> each Q cs (map f ss)"
  by (auto simp: each_def)

definition net_phase :: "(nat \<Rightarrow> int) \<Rightarrow> nat \<Rightarrow> nat \<Rightarrow> 'tls conn \<Rightarrow> tcp_socket \<Rightarrow> bool" where
  "net_phase t k h c s \<longleftrightarrow>
     (if k = 2 then untouched t h c \<and> is_fresh s
      else if k = 3 then untouched t h c \<and> (\<exists>s0. is_fresh s0 \<and> s = net_poll 2 s0)
      else k = 4 \<longrightarrow> ready s \<and> rb_len (tx_buffer s) \<le> 2 ^ 30)"

lemma fresh_sound: "is_fresh s \<Longrightarrow> sound s \<and> rb_list (rx_buffer s) = [] \<and> rlength (tx_buffer s) = 0"
  by (auto simp: is_fresh_def sound_def connected_fields rb_new_def rb_capacity_def rb_list_def RX_BUF_SIZE_def)

lemma net_phase_step:
  assumes "PLAIN_HTTP e" "\<forall>k h. clk k h = clk 0 h" "2 \<le> k" "net_phase (clk 0) k h c s"
    and "conn_step ptr fuel e (clk k h) c (net_poll k s) g = Some (d, c', s', g')"
  shows "net_phase (clk 0) (Suc k) h c' s'"
proof -
  consider (opn) "k = 2" | (rep) "k = 3" | (over) "3 < k" using assms(3) by linarith
  then show ?thesis
  proof cases
    case opn
    then have u: "untouched (clk 0) h c" and f: "is_fresh s" using assms(4) by (simp_all add: net_phase_def)
    note n = net_opens[OF f] and fs = fresh_sound[OF f]
    have so: "sound (net_poll 2 s)"
      using fs net_steps_kept[OF n(1)] n(3) by (simp add: sound_def)
    have "clk k h - clk 0 h = 0" using assms(2) by simp
    then have t: "wrap_i64 (clk k h - clk 0 h) \<le> SYN_TIMEOUT_MS" by (simp only:) (simp add: SYN_TIMEOUT_MS_def wrap_i64_def)
    have rx: "rb_list (rx_buffer (net_poll 2 s)) = []" unfolding n(3) using fs by blast
    have "conn_step ptr fuel e (clk k h) c (net_poll k s) g = Some (False, c, net_poll 2 s, g)"
      unfolding opn by (rule waiting_step[OF assms(1) u n(2) rx so t[unfolded opn]])
    then show ?thesis using assms(5) u f opn by (auto simp: net_phase_def)
  next
    case rep
    then have u: "untouched (clk 0) h c" and "\<exists>s0. is_fresh s0 \<and> s = net_poll 2 s0" using assms(4) by (simp_all add: net_phase_def)
    then obtain s0 where f: "is_fresh s0" "s = net_poll 2 s0" by blast
    note n = net_opens[OF f(1)] and fs = fresh_sound[OF f(1)]
    have "ready s' \<and> rb_len (tx_buffer s') \<le> 2 ^ 30"
    proof (rule ready_step[OF assms(1) u])
      show "ready (net_poll 3 s)" using n(5) f(2) by simp
      show "rlength (tx_buffer (net_poll 3 s)) = 0" unfolding f(2) n(8) using fs by blast
      show "rb_capacity (rx_buffer (net_poll 3 s)) \<le> I32_MAX" unfolding f(2) n(6) using fs by (simp add: sound_def)
      show "conn_step ptr fuel e (clk k h) c (net_poll 3 s) g = Some (d, c', s', g')" using assms(5) rep by simp
    qed
    then show ?thesis using rep by (simp add: net_phase_def)
  qed (simp add: net_phase_def)
qed

lemma net_rounds:
  assumes "PLAIN_HTTP e" "\<forall>k h. clk k h = clk 0 h" "fresh_start (clk 0) cs0 ss0"
    and "worker_round ptr fuel e (\<lambda>k ss. map (net_poll k) ss) clk cs0 ss0 g0 k cs ss g"
  shows "2 \<le> k \<and> map fst cs = [0..<length ss] \<and> each (net_phase (clk 0) k) cs ss"
  using assms(4)
proof (induction rule: worker_round.induct)
  case round_first
  have "each (net_phase (clk 0) 2) cs0 ss0" unfolding each_def
  proof
    fix x assume x: "x \<in> set cs0"
    then have "fst x \<in> set (map fst cs0)" by (simp only: set_map image_eqI)
    then have "fst x \<in> set [0..<length ss0]" using assms(3) by (simp only: fresh_start_def)
    then have h: "fst x < length ss0" by simp
    then have "ss0 ! fst x \<in> set ss0" by simp
    then show "fst x < length ss0 \<and> net_phase (clk 0) 2 (fst x) (snd x) (ss0 ! fst x)"
      using h x assms(3) by (simp add: fresh_start_def net_phase_def is_fresh_def)
  qed
  then show ?case using assms(3) by (simp add: fresh_start_def)
next
  case (round_next k cs ss g cs' ss' g')
  let ?P = "\<lambda>h c s. \<exists>s0. net_phase (clk 0) k h c s0 \<and> s = net_poll k s0"
  have e: "each ?P cs (map (net_poll k) ss)" using each_map[of "net_phase (clk 0) k" cs ss ?P] round_next.IH by blast
  have d: "distinct (map fst cs)" using round_next.IH by simp
  have "map fst cs' = map fst cs \<and> length ss' = length (map (net_poll k) ss) \<and> each (net_phase (clk 0) (Suc k)) cs' ss' \<and>
    (\<forall>h. h \<notin> fst ` set cs \<longrightarrow> ss' ! h = map (net_poll k) ss ! h)"
    by (rule step_conns_post[OF round_next.hyps(2) d e]) (use round_next.IH net_phase_step[OF assms(1,2)] in blast)
  then show ?case using round_next.IH by simp
qed

theorem net_serves:
  assumes "PLAIN_HTTP e" "\<forall>k h. clk k h = clk 0 h"
  shows "serving_network ptr fuel e clk net_plan (\<lambda>k ss. map (net_poll k) ss)"
  unfolding serving_network_def
proof (intro allI impI, elim conjE)
  fix cs0 ss0 g0 k cs ss g
  assume f: "fresh_start (clk 0) cs0 ss0"
    and r: "worker_round ptr fuel e (\<lambda>k ss. map (net_poll k) ss) clk cs0 ss0 g0 k cs ss g"
  note i = net_rounds[OF assms f r]
  have "polled net_plan k h (ss ! h) (net_poll k (ss ! h))" if h: "h < length ss" for h
  proof -
    have "h \<in> set (map fst cs)" using i h by simp
    then obtain x where x: "x \<in> set cs" "fst x = h" by auto
    then have p: "net_phase (clk 0) k h (snd x) (ss ! h)" using i unfolding each_def by blast
    consider (opn) "k = 2" | (rep) "k = 3" | (answer) "k = 4" | (over) "4 < k" using i by linarith
    then show ?thesis
    proof cases
      case opn
      then have f: "is_fresh (ss ! h)" using p by (simp add: net_phase_def)
      show ?thesis unfolding opn polled_def using net_opens(1-3)[OF f] fresh_sound[OF f] by (simp add: net_plan_def)
    next
      case rep
      then have "\<exists>s0. is_fresh s0 \<and> ss ! h = net_poll 2 s0" using p by (simp add: net_phase_def)
      then obtain s0 where s0: "is_fresh s0" "ss ! h = net_poll 2 s0" by blast
      note n = net_opens[OF s0(1)]
      have "state (net_poll 3 (net_poll 2 s0)) = Established" using n(5) by (simp add: ready_def)
      then show ?thesis unfolding rep polled_def s0(2) using n(3,4,6) by (simp add: net_plan_def)
    next
      case answer
      then have f: "ready (ss ! h)" "rb_len (tx_buffer (ss ! h)) \<le> 2 ^ 30" using p by (simp_all add: net_phase_def)
      have "rb_list (rx_buffer (ss ! h)) = []" using f(1) by (simp add: ready_def)
      then show ?thesis unfolding answer polled_def using net_answers[OF f] by (simp add: net_plan_def)
    next
      case over
      then show ?thesis by (simp add: polled_def net_plan_def)
    qed
  qed
  then show "served_round net_plan k ss (map (net_poll k) ss)" by (simp add: served_round_def)
qed

end
