(* ===== verification/App_Main.thy ===== *)
theory App_Main
  imports App_Probe App_Network
begin

text \<open>
  The entry point of the benchmark (\<open>osv_app_main\<close> of \<open>src/lib.rs\<close>) and the build script
  (\<open>build.rs\<close>).  The device, the network and the workers are arguments: what the driver's calls return,
  what discovery sees, and what a worker stores in its context when it is run to its end (\<open>None\<close> if it
  never ends).  Workers share only counters, so they are run one by one.  A fatal error prints a line
  and spins forever: it is the reason given in the outcome.  Shown: the checks are made in order and
  nothing is done after one fails, the contexts give the workers disjoint queues, pools and blocks,
  and the verdict COMPLETE is printed only if every planned block was fetched.
\<close>

section \<open>build.rs\<close>

definition build_vars :: "string list" where
  "build_vars = [''AWS_BUCKET'', ''AWS_REGION'', ''AWS_BUCKET_SIZE'', ''AWS_TARGET_IP'', ''BENCH_WORKERS'',
     ''BENCH_CONNS_PER_WORKER'', ''BENCH_TLS_STUB'', ''BENCH_SCHEME'', ''BENCH_BLOCK_SIZE'']"

definition build_main :: "string list" where
  "build_main = map (\<lambda>var. ''cargo:rerun-if-env-changed='' @ var) build_vars"

text \<open>What the crate bakes in from an environment; \<open>env!\<close> stops the build when its variable is unset.\<close>

definition baked_env :: "(string \<Rightarrow> bytes option) \<Rightarrow> build_env" where
  "baked_env env = \<lparr>BENCH_WORKERS = env ''BENCH_WORKERS'', BENCH_CONNS_PER_WORKER = env ''BENCH_CONNS_PER_WORKER'',
     AWS_BUCKET_SIZE = env ''AWS_BUCKET_SIZE'', BENCH_BLOCK_SIZE = env ''BENCH_BLOCK_SIZE'', BENCH_SCHEME = env ''BENCH_SCHEME'',
     BENCH_TLS_STUB = env ''BENCH_TLS_STUB'', AWS_TARGET_IP = env ''AWS_TARGET_IP''\<rparr>"

definition baked_config :: "(string \<Rightarrow> bytes option) \<Rightarrow> (build_env \<times> bytes) option" where
  "baked_config env = do {
     bucket \<leftarrow> env ''AWS_BUCKET'';
     region \<leftarrow> env ''AWS_REGION'';
     if build_accepts (baked_env env) then Some (baked_env env, TARGET_HOST bucket region) else None
   }"

section \<open>Outcomes\<close>

datatype fail = Target_ip_unset | Zero_config | No_nic | No_rss | No_network

datatype verdict =
    COMPLETE_stub u64
  | COMPLETE u64
  | INCOMPLETE u64 u64 u64 bool

record totals =
  total_b :: u64
  total_expected :: u64
  conns_total :: u64
  conns_clean :: u64

datatype outcome = Fail fail | Finished totals verdict

section \<open>Workers\<close>

definition dev_workers :: "build_env \<Rightarrow> u16 \<Rightarrow> u16 \<Rightarrow> u16" where
  "dev_workers e max_rx max_tx =
     (let dev_max = min max_rx max_tx in if dev_max = 0 then N_WORKERS_REQ e else min (N_WORKERS_REQ e) dev_max)"

text \<open>The loop over \<open>0..n_workers\<close>; \<open>pools[i as usize]\<close> is bounds-checked.\<close>

definition make_ctx :: "build_env \<Rightarrow> pool list \<Rightarrow> mac \<Rightarrow> ipv4 \<Rightarrow> nat \<Rightarrow> ipv4 \<Rightarrow> mac \<Rightarrow> nat \<Rightarrow> worker_ctx option" where
  "make_ctx e pools mac ip prefix_len gw gw_mac i = do {
     assert_that (i < length pools);
     Some \<lparr>ctx_queue = of_nat i, ctx_pool = pools ! i, ctx_mac = mac, ctx_ip = ip, ctx_prefix_len = prefix_len,
       ctx_gateway_ip = gw, ctx_gateway_mac = gw_mac, ctx_first_block = of_nat i * CONNS_PER_WORKER e\<rparr>
   }"

fun all_some :: "'a option list \<Rightarrow> 'a list option" where
  "all_some [] = Some []"
| "all_some (x # xs) = do { a \<leftarrow> x; as \<leftarrow> all_some xs; Some (a # as) }"

definition make_ctxs :: "build_env \<Rightarrow> u16 \<Rightarrow> pool list \<Rightarrow> mac \<Rightarrow> ipv4 \<times> nat \<times> ipv4 \<times> mac \<Rightarrow> worker_ctx list option" where
  "make_ctxs e n pools mac = (\<lambda>(ip, prefix_len, gw, gw_mac).
     all_some (map (make_ctx e pools mac ip prefix_len gw gw_mac) [0..<unat n]))"

section \<open>Totals and verdict\<close>

text \<open>The four additions of the loop over the contexts; they wrap.\<close>

definition add_report :: "totals \<Rightarrow> worker_report \<Rightarrow> totals" where
  "add_report t r = \<lparr>total_b = total_b t + rep_bytes r, total_expected = total_expected t + rep_expected r,
     conns_total = conns_total t + rep_total r, conns_clean = conns_clean t + rep_clean r\<rparr>"

definition sum_reports :: "worker_report list \<Rightarrow> totals" where
  "sum_reports = foldl add_report \<lparr>total_b = 0, total_expected = 0, conns_total = 0, conns_clean = 0\<rparr>"

definition planned_conns :: "build_env \<Rightarrow> u16 \<Rightarrow> u64" where
  "planned_conns e n = ucast n * CONNS_PER_WORKER e"

definition bytes_ok :: "build_env \<Rightarrow> totals \<Rightarrow> bool" where
  "bytes_ok e t = (if STUB_TLS_AFTER_HANDSHAKE e then total_b t \<ge> total_expected t else total_b t = total_expected t)"

definition run_verdict :: "build_env \<Rightarrow> u16 \<Rightarrow> totals \<Rightarrow> u64 \<Rightarrow> verdict" where
  "run_verdict e n t misrouted =
     (let ranges_ok = (conns_clean t = conns_total t \<and> conns_total t > 0);
          covered = (conns_total t = planned_conns e n) in
      if ranges_ok \<and> covered \<and> bytes_ok e t \<and> misrouted = 0
      then (if STUB_TLS_AFTER_HANDSHAKE e then COMPLETE_stub (conns_total t) else COMPLETE (total_b t))
      else INCOMPLETE (conns_total t - conns_clean t) (sat_sub (planned_conns e n) (conns_total t))
        (if total_b t > total_expected t then total_b t - total_expected t else total_expected t - total_b t)
        (total_b t > total_expected t))"

section \<open>osv_app_main\<close>

text \<open>What the machine provides: device limits, driver, RSS registers, what discovery receives, and the
  misrouted frames counted by the end of the run.\<close>

record machine =
  dev_info :: "u16 \<times> u16"
  the_nic :: nic
  rss_key :: "int \<times> bytes"
  rss_reta :: "int \<times> u16 list"
  dhcp_events :: "nat \<Rightarrow> dhcp_event option"
  arp_tx_cap :: "u16 option"
  arp_rx :: "nat \<Rightarrow> (nat \<times> bytes) option"
  misrouted :: u64

definition osv_app_main ::
  "build_env \<Rightarrow> machine \<Rightarrow> (rss_config \<Rightarrow> worker_ctx \<Rightarrow> worker_report option) \<Rightarrow> outcome option" where
  "osv_app_main e m run =
     (if TARGET_IP_OCTETS e = [0, 0, 0, 0] then Some (Fail Target_ip_unset)
      else if OBJECT_SIZE e = 0 \<or> BLOCK_SIZE e = 0 \<or> CONNS_PER_WORKER e = 0 \<or> N_WORKERS_REQ e = 0 then Some (Fail Zero_config)
      else do {
        let n = dev_workers e (fst (dev_info m)) (snd (dev_info m));
        (opened_nic, _) \<leftarrow> probe_and_open (the_nic m) n;
        (case opened_nic of
           None \<Rightarrow> Some (Fail No_nic)
         | Some (pools, mac) \<Rightarrow> do {
             (loaded, rss) \<leftarrow> load_rss_config n (fst (rss_key m)) (snd (rss_key m)) (fst (rss_reta m)) (snd (rss_reta m)) rss_init;
             if \<not> loaded then Some (Fail No_rss)
             else
               (case fst (learn_network (dhcp_events m) (arp_tx_cap m) (arp_rx m) mac) of
                  None \<Rightarrow> Some (Fail No_network)
                | Some net \<Rightarrow> do {
                    ctxs \<leftarrow> make_ctxs e n pools mac net;
                    reports \<leftarrow> all_some (map (run rss) ctxs);
                    let t = sum_reports reports;
                    Some (Finished t (run_verdict e n t (misrouted m)))
                  })
           })
      })"

section \<open>Sums of reports\<close>

lemma unat_sum_list:
  fixes xs :: "u64 list"
  assumes "sum_list (map unat xs) < 2 ^ 64"
  shows "unat (sum_list xs) = sum_list (map unat xs)"
  using assms
proof (induction xs)
  case (Cons x xs)
  then have "unat (sum_list xs) = sum_list (map unat xs)" by simp
  then show ?case using Cons.prems by (simp add: unat_word_ariths)
qed simp

lemma sum_list_bounded: "\<forall>x \<in> set xs. x \<le> b \<Longrightarrow> sum_list xs \<le> length xs * b" for b :: nat
  by (induction xs) (auto simp: add_mono)

lemma sum_list_max:
  "\<forall>x \<in> set xs. x \<le> b \<Longrightarrow> sum_list xs = length xs * b \<Longrightarrow> \<forall>x \<in> set xs. x = b" for b :: nat
proof (induction xs)
  case (Cons x xs)
  then have "sum_list xs \<le> length xs * b" by (intro sum_list_bounded) simp
  then have "x = b" "sum_list xs = length xs * b" using Cons.prems by auto
  then show ?case using Cons by simp
qed simp

lemma sum_list_le_eq:
  "\<forall>x \<in> set xs. f x \<le> g x \<Longrightarrow> sum_list (map f xs) = sum_list (map g xs) \<Longrightarrow> \<forall>x \<in> set xs. f x = g x" for f g :: "'a \<Rightarrow> nat"
proof (induction xs)
  case (Cons x xs)
  have le: "sum_list (map f xs) \<le> sum_list (map g xs)" using Cons.prems(1) by (intro sum_list_mono) simp
  have x: "f x \<le> g x" "f x + sum_list (map f xs) = g x + sum_list (map g xs)" using Cons.prems by simp_all
  have "\<forall>y \<in> set xs. f y = g y" by (rule Cons.IH) (use le x Cons.prems(1) in auto)
  moreover have "f x = g x" using le x by linarith
  ultimately show ?case by simp
qed simp

lemma sum_reports_eq:
  "sum_reports rs = \<lparr>total_b = sum_list (map rep_bytes rs), total_expected = sum_list (map rep_expected rs),
     conns_total = sum_list (map rep_total rs), conns_clean = sum_list (map rep_clean rs)\<rparr>"
proof -
  have "foldl add_report t rs = \<lparr>total_b = total_b t + sum_list (map rep_bytes rs),
      total_expected = total_expected t + sum_list (map rep_expected rs),
      conns_total = conns_total t + sum_list (map rep_total rs), conns_clean = conns_clean t + sum_list (map rep_clean rs)\<rparr>" for t
    by (induction rs arbitrary: t) (simp_all add: add_report_def add.assoc)
  then show ?thesis by (simp add: sum_reports_def)
qed

lemma all_some_Some: "all_some xs = Some ys \<longleftrightarrow> xs = map Some ys"
  by (induction xs arbitrary: ys) (auto simp: bind_eq_Some_conv Cons_eq_map_conv)

lemma unat_planned:
  assumes "unat n * unat (CONNS_PER_WORKER e) < 2 ^ 64"
  shows "unat (planned_conns e n) = unat n * unat (CONNS_PER_WORKER e)"
proof -
  have "unat (ucast n :: u64) = unat n" for n :: u16
    by transfer (simp add: take_bit_nat_eq_self take_bit_eq_mod)
  then show ?thesis using assms by (simp add: planned_conns_def unat_word_ariths)
qed

lemma length_filter_eq_all: "length (filter P xs) = length xs \<longleftrightarrow> (\<forall>x \<in> set xs. P x)"
  by (metis filter_True length_filter_less less_irrefl)

section \<open>Workers that report consistently\<close>

text \<open>What the main thread relies on: a worker reports at most the connections it was to open, at most
  those as clean, and one block expected for each.\<close>

definition report_ok :: "build_env \<Rightarrow> worker_report \<Rightarrow> bool" where
  "report_ok e r \<longleftrightarrow> unat (rep_clean r) \<le> unat (rep_total r) \<and> unat (rep_total r) \<le> unat (CONNS_PER_WORKER e) \<and>
     rep_expected r = rep_total r * BLOCK_SIZE e"

locale reporting_workers =
  fixes e :: build_env and run :: "rss_config \<Rightarrow> worker_ctx \<Rightarrow> worker_report option"
  assumes consistent: "run rss ctx = Some r \<Longrightarrow> report_ok e r"
begin

lemma report_sums:
  assumes "all_some (map (run rss) ctxs) = Some rs" "length ctxs = n" "n * unat (CONNS_PER_WORKER e) < 2 ^ 64"
  shows "unat (conns_total (sum_reports rs)) = sum_list (map (unat \<circ> rep_total) rs)"
    "unat (conns_clean (sum_reports rs)) = sum_list (map (unat \<circ> rep_clean) rs)"
    "unat (conns_clean (sum_reports rs)) \<le> unat (conns_total (sum_reports rs))"
    "total_expected (sum_reports rs) = conns_total (sum_reports rs) * BLOCK_SIZE e" "length rs = n"
    "\<forall>r \<in> set rs. report_ok e r"
proof -
  have m: "map (run rss) ctxs = map Some rs" using assms(1) by (simp add: all_some_Some)
  show l: "length rs = n" using arg_cong[OF m, of length] assms(2) by simp
  show ok: "\<forall>r \<in> set rs. report_ok e r"
  proof
    fix r assume "r \<in> set rs"
    then have "Some r \<in> set (map (run rss) ctxs)" unfolding m by simp
    then show "report_ok e r" using consistent by auto
  qed
  have b: "sum_list (map (unat \<circ> rep_total) rs) < 2 ^ 64"
    using sum_list_bounded[of "map (unat \<circ> rep_total) rs" "unat (CONNS_PER_WORKER e)"] ok l assms(3)
    by (simp add: report_ok_def)
  have le: "sum_list (map (unat \<circ> rep_clean) rs) \<le> sum_list (map (unat \<circ> rep_total) rs)"
    using ok by (intro sum_list_mono) (simp add: report_ok_def)
  show t: "unat (conns_total (sum_reports rs)) = sum_list (map (unat \<circ> rep_total) rs)"
    using unat_sum_list[of "map rep_total rs"] b by (simp add: sum_reports_eq comp_def)
  show c: "unat (conns_clean (sum_reports rs)) = sum_list (map (unat \<circ> rep_clean) rs)"
    using unat_sum_list[of "map rep_clean rs"] b le by (simp add: sum_reports_eq comp_def)
  show "unat (conns_clean (sum_reports rs)) \<le> unat (conns_total (sum_reports rs))" using t c le by simp
  have "map rep_expected rs = map (\<lambda>r. rep_total r * BLOCK_SIZE e) rs"
    using ok by (intro map_cong) (auto simp: report_ok_def)
  then have "sum_list (map rep_expected rs) = sum_list (map rep_total rs) * BLOCK_SIZE e"
    by (simp only: sum_list_mult_const)
  then show "total_expected (sum_reports rs) = conns_total (sum_reports rs) * BLOCK_SIZE e"
    by (simp add: sum_reports_eq)
qed

text \<open>The verdict is complete only if every worker opened and cleanly closed all its connections.\<close>

lemma complete_all_clean:
  assumes "all_some (map (run rss) ctxs) = Some rs" "length ctxs = unat n" "unat n * unat (CONNS_PER_WORKER e) < 2 ^ 64"
    and "conns_clean (sum_reports rs) = conns_total (sum_reports rs)" "conns_total (sum_reports rs) = planned_conns e n"
  shows "\<forall>r \<in> set rs. rep_total r = CONNS_PER_WORKER e \<and> rep_clean r = CONNS_PER_WORKER e"
proof -
  note s = report_sums[OF assms(1-3)]
  have p: "unat (planned_conns e n) = unat n * unat (CONNS_PER_WORKER e)" by (rule unat_planned[OF assms(3)])
  have "\<forall>x \<in> set (map (unat \<circ> rep_total) rs). x = unat (CONNS_PER_WORKER e)"
  proof (rule sum_list_max)
    show "\<forall>x \<in> set (map (unat \<circ> rep_total) rs). x \<le> unat (CONNS_PER_WORKER e)" using s(6) by (auto simp: report_ok_def)
    show "sum_list (map (unat \<circ> rep_total) rs) = length (map (unat \<circ> rep_total) rs) * unat (CONNS_PER_WORKER e)"
      using s(1,5) p assms(5) by simp
  qed
  moreover have "\<forall>r \<in> set rs. (unat \<circ> rep_clean) r = (unat \<circ> rep_total) r"
    by (rule sum_list_le_eq) (use s(1,2,6) assms(4) in \<open>auto simp: report_ok_def comp_def\<close>)
  ultimately show ?thesis by (simp add: word_unat_eq_iff)
qed

end

section \<open>The program's own workers\<close>

text \<open>What a worker meets while it runs: the TLS library, the host name and whether it is a valid server
  name, its interface, its clock and the counters it shares.\<close>

record 'tls world =
  w_ptr :: "'tls rustls"
  w_fuel :: nat
  w_host :: bytes
  w_sni_ok :: bool
  w_tls_new :: "nat \<Rightarrow> 'tls option"
  w_cx :: iface_context
  w_poll :: "dpdk_device \<Rightarrow> nat \<Rightarrow> tcp_socket list \<Rightarrow> tcp_socket list"
  w_clk :: "nat \<Rightarrow> nat \<Rightarrow> int"
  w_ns :: "u64 \<times> u64"
  w_rounds :: nat
  w_stats :: conn_stats

definition worker_run :: "build_env \<Rightarrow> (worker_ctx \<Rightarrow> 'tls world) \<Rightarrow> rss_config \<Rightarrow> worker_ctx \<Rightarrow> worker_report option" where
  "worker_run e W rss ctx = (let w = W ctx in
     map_option fst (worker_thread (w_ptr w) (w_fuel w) rss e (w_host w) (w_sni_ok w) (w_tls_new w) (w_cx w) (w_poll w)
       (w_clk w) (w_ns w) (w_rounds w) ctx (w_stats w)))"

lemma worker_run_thread:
  assumes "worker_run e W rss ctx = Some r"
  obtains g' where "worker_thread (w_ptr (W ctx)) (w_fuel (W ctx)) rss e (w_host (W ctx)) (w_sni_ok (W ctx)) (w_tls_new (W ctx))
    (w_cx (W ctx)) (w_poll (W ctx)) (w_clk (W ctx)) (w_ns (W ctx)) (w_rounds (W ctx)) ctx (w_stats (W ctx)) = Some (r, g')"
  using assms that by (auto simp: worker_run_def Let_def)

interpretation wk: reporting_workers e "worker_run e W" for e :: build_env and W :: "worker_ctx \<Rightarrow> 'tls world"
proof
  fix rss ctx r
  assume "worker_run e W rss ctx = Some r"
  then show "report_ok e r" using worker_report_ok by (blast elim: worker_run_thread intro: report_ok_def[THEN iffD2])
qed

text \<open>A worker that reported a full number of clean connections.\<close>

lemma worker_all_clean:
  fixes W :: "worker_ctx \<Rightarrow> 'tls world"
  assumes "worker_run e W rss ctx = Some r" "rep_total r = CONNS_PER_WORKER e" "rep_clean r = CONNS_PER_WORKER e"
    and "CONNS_PER_WORKER e \<noteq> 0"
  shows "\<exists>cs :: (nat \<times> 'tls conn) list. r = report (fst (w_ns (W ctx))) (snd (w_ns (W ctx))) cs \<and>
    length cs = unat (CONNS_PER_WORKER e) \<and> (\<forall>(h, c) \<in> set cs. closed_cleanly c \<and> expected c = BLOCK_SIZE e)"
proof -
  obtain g' where "worker_thread (w_ptr (W ctx)) (w_fuel (W ctx)) rss e (w_host (W ctx)) (w_sni_ok (W ctx)) (w_tls_new (W ctx))
    (w_cx (W ctx)) (w_poll (W ctx)) (w_clk (W ctx)) (w_ns (W ctx)) (w_rounds (W ctx)) ctx (w_stats (W ctx)) = Some (r, g')"
    by (rule worker_run_thread[OF assms(1)])
  then show ?thesis
  proof (cases rule: worker_report_cases)
    case early
    then show ?thesis using assms(2,4) by (simp add: report_init_def)
  next
    case (ran cs)
    have x: "\<forall>(h, c) \<in> set cs. expected c = BLOCK_SIZE e" using ran(3) by auto
    note l = report_of_blocks[OF ran(2) x, of "fst (w_ns (W ctx))" "snd (w_ns (W ctx))", folded ran(1)]
    have "length (filter (\<lambda>(h, c). closed_cleanly c) cs) = length cs" using l(1,2) assms(2,3) by simp
    then have "\<forall>(h, c) \<in> set cs. closed_cleanly c" by (simp only: length_filter_eq_all)
    then show ?thesis using ran x l(2) assms(2) by (intro exI[of _ cs]) auto
  qed
qed

section \<open>Reaching the workers\<close>

lemma dev_workers_le: "unat (dev_workers e a b) \<le> unat (N_WORKERS_REQ e)"
  by (auto simp: dev_workers_def Let_def min_def word_le_nat_alt)

lemma dev_workers_pos: "N_WORKERS_REQ e \<noteq> 0 \<Longrightarrow> dev_workers e a b \<noteq> 0"
  by (auto simp: dev_workers_def Let_def min_def)

lemma make_ctxs_Some:
  assumes "length pools = unat n"
  shows "make_ctxs e n pools mac (ip, prefix, gw, gw_mac) = Some (map (\<lambda>i. the (make_ctx e pools mac ip prefix gw gw_mac i)) [0..<unat n])"
  using assms by (auto simp: make_ctxs_def all_some_Some make_ctx_def)

text \<open>A finished run went through every step.\<close>

lemma main_finished:
  assumes "osv_app_main e m run = Some (Finished t v)"
  obtains n pools tr rss ip prefix gw gw_mac ctxs rs where
    "n = dev_workers e (fst (dev_info m)) (snd (dev_info m))" "CONNS_PER_WORKER e \<noteq> 0" "n \<noteq> 0"
    "probe_and_open (the_nic m) n = Some (Some (pools, nic_mac (the_nic m)), tr)" "length pools = unat n"
    "ctxs = map (\<lambda>i. the (make_ctx e pools (nic_mac (the_nic m)) ip prefix gw gw_mac i)) [0..<unat n]"
    "all_some (map (run rss) ctxs) = Some rs" "length ctxs = unat n"
    "t = sum_reports rs" "v = run_verdict e n t (misrouted m)"
proof -
  let ?n = "dev_workers e (fst (dev_info m)) (snd (dev_info m))"
  have c: "TARGET_IP_OCTETS e \<noteq> [0, 0, 0, 0]" "CONNS_PER_WORKER e \<noteq> 0" "N_WORKERS_REQ e \<noteq> 0"
    "\<not> (OBJECT_SIZE e = 0 \<or> BLOCK_SIZE e = 0 \<or> CONNS_PER_WORKER e = 0 \<or> N_WORKERS_REQ e = 0)"
    using assms by (auto simp: osv_app_main_def split: if_splits)
  note a = assms[unfolded osv_app_main_def if_not_P[OF c(1)] if_not_P[OF c(4)] Let_def]
  obtain op tr where p: "probe_and_open (the_nic m) ?n = Some (op, tr)" using a by (auto simp: bind_eq_Some_conv)
  obtain pools mac where pm: "op = Some (pools, mac)" using a p by (cases op) auto
  obtain l rss where l: "load_rss_config ?n (fst (rss_key m)) (snd (rss_key m)) (fst (rss_reta m)) (snd (rss_reta m)) rss_init = Some (l, rss)"
    using a p pm by (auto simp: bind_eq_Some_conv)
  have ll: "l" using a p pm l by (auto split: if_splits)
  obtain net where net: "fst (learn_network (dhcp_events m) (arp_tx_cap m) (arp_rx m) mac) = Some net"
    using a p pm l ll by (cases "fst (learn_network (dhcp_events m) (arp_tx_cap m) (arp_rx m) mac)") auto
  obtain ip prefix gw gw_mac where n4: "net = (ip, prefix, gw, gw_mac)" by (metis prod_cases4)
  obtain ctxs rs where r: "make_ctxs e ?n pools mac net = Some ctxs" "all_some (map (run rss) ctxs) = Some rs"
    "t = sum_reports rs" "v = run_verdict e ?n t (misrouted m)"
    using a p pm l ll net by (auto simp: bind_eq_Some_conv)
  have pools: "pools = map (pool_ret (the_nic m)) (queue_ids ?n)" "mac = nic_mac (the_nic m)"
    using probe_cases[of "the_nic m" ?n] p pm by auto
  then have len: "length pools = unat ?n" by (simp add: queue_ids_def)
  have ctxs: "ctxs = map (\<lambda>i. the (make_ctx e pools mac ip prefix gw gw_mac i)) [0..<unat ?n]"
    using r(1) make_ctxs_Some[OF len] n4 by simp
  show thesis
    by (rule that[of ?n pools tr ctxs ip prefix gw gw_mac rss rs])
      (use c dev_workers_pos p pm pools len ctxs r in auto)
qed

section \<open>A run in which everything works\<close>

definition full_report :: "build_env \<Rightarrow> worker_report \<Rightarrow> bool" where
  "full_report e r \<longleftrightarrow> rep_total r = CONNS_PER_WORKER e \<and> rep_clean r = CONNS_PER_WORKER e \<and>
     rep_bytes r = CONNS_PER_WORKER e * BLOCK_SIZE e \<and> rep_expected r = CONNS_PER_WORKER e * BLOCK_SIZE e"

lemma sum_list_const: "\<forall>x \<in> set xs. f x = b \<Longrightarrow> sum_list (map f xs) = of_nat (length xs) * b" for b :: u64
  by (induction xs) (simp_all add: algebra_simps)

lemma full_reports_complete:
  assumes "\<forall>r \<in> set rs. full_report e r" "length rs = unat n" "unat n * unat (CONNS_PER_WORKER e) < 2 ^ 64"
    and "n \<noteq> 0" "CONNS_PER_WORKER e \<noteq> 0" "\<not> STUB_TLS_AFTER_HANDSHAKE e"
  shows "run_verdict e n (sum_reports rs) 0 = COMPLETE (planned_conns e n * BLOCK_SIZE e)"
proof -
  let ?n = "of_nat (length rs) :: u64"
  have s: "sum_reports rs = \<lparr>total_b = ?n * (CONNS_PER_WORKER e * BLOCK_SIZE e), total_expected = ?n * (CONNS_PER_WORKER e * BLOCK_SIZE e),
      conns_total = ?n * CONNS_PER_WORKER e, conns_clean = ?n * CONNS_PER_WORKER e\<rparr>"
    unfolding sum_reports_eq using assms(1) by (simp add: sum_list_const full_report_def)
  have p: "planned_conns e n = ?n * CONNS_PER_WORKER e" using assms(2) by (simp add: planned_conns_def)
  have "unat (planned_conns e n) \<noteq> 0" using unat_planned[OF assms(3)] assms(4,5) by (simp add: unat_eq_0)
  then have "planned_conns e n > 0" by (simp add: word_gt_0 unat_eq_0)
  then show ?thesis using assms(6) by (simp add: run_verdict_def bytes_ok_def s p[symmetric] mult.assoc[symmetric])
qed

lemma report_served:
  assumes "each (\<lambda>h c s. served (resp h) c) cs ss" "\<forall>h. after_header (resp h) = Some (body h) \<and> length (body h) = unat (BLOCK_SIZE e)"
    "length cs = unat (CONNS_PER_WORKER e)"
  shows "rep_total (report a b cs) = CONNS_PER_WORKER e" "rep_clean (report a b cs) = CONNS_PER_WORKER e"
    "rep_bytes (report a b cs) = CONNS_PER_WORKER e * BLOCK_SIZE e"
proof -
  have "filter (\<lambda>(h, c). closed_cleanly c) cs = cs" using assms(1) by (auto simp: filter_id_conv each_def served_def)
  then show "rep_total (report a b cs) = CONNS_PER_WORKER e" "rep_clean (report a b cs) = CONNS_PER_WORKER e"
    using assms(3) by (simp_all add: report_def)
  have "map (\<lambda>(h, c). bytes_received (counter c)) cs = map (\<lambda>_. unat (BLOCK_SIZE e)) cs"
  proof (intro map_cong)
    fix x assume "x \<in> set cs"
    then have "counts (resp (fst x)) (snd x)" using assms(1) by (simp add: each_def served_def)
    then have "bytes_received (counter (snd x)) = length (body (fst x))" using counts_body assms(2) by blast
    then show "(\<lambda>(h, c). bytes_received (counter c)) x = unat (BLOCK_SIZE e)" using assms(2) by (simp add: case_prod_beta)
  qed simp
  then have "sum_list (map (\<lambda>(h, c). bytes_received (counter c)) cs) = length cs * unat (BLOCK_SIZE e)"
    by (simp only: sum_list_triv of_nat_id)
  then show "rep_bytes (report a b cs) = CONNS_PER_WORKER e * BLOCK_SIZE e"
    using assms(3) by (simp add: report_def)
qed

lemma served_run:
  fixes W :: "worker_ctx \<Rightarrow> 'tls world"
  assumes "PLAIN_HTTP e" "ep_addr (target_endpoint e) \<noteq> 0" "CONNS_PER_WORKER e \<noteq> 0" "worker_ctx_ok ctx"
    and "\<forall>p. queue_for_local_port rss e (ctx_ip ctx) p = Some (qf p)"
    and "unat (CONNS_PER_WORKER e) \<le> length (owned_list qf (ctx_queue ctx))"
    and "w_sni_ok (W ctx)" "plan_ok (w_clk (W ctx)) (w_rounds (W ctx)) P"
    and "\<forall>dev. serving_network (w_ptr (W ctx)) (w_fuel (W ctx)) e (w_clk (W ctx)) P (w_poll (W ctx) dev)"
    and "\<forall>h. after_header (response P h) = Some (body h) \<and> length (body h) = unat (BLOCK_SIZE e)"
  shows "\<exists>r. worker_run e W rss ctx = Some r \<and> full_report e r"
proof -
  let ?w = "W ctx"
  obtain cs :: "(nat \<times> 'tls conn) list" and ss g' where t: "worker_thread (w_ptr ?w) (w_fuel ?w) rss e (w_host ?w) True (w_tls_new ?w)
      (w_cx ?w) (w_poll ?w) (w_clk ?w) (w_ns ?w) (w_rounds ?w) ctx (w_stats ?w) = Some (report (fst (w_ns ?w)) (snd (w_ns ?w)) cs, g')"
    "map fst cs = [0..<unat (CONNS_PER_WORKER e)]" "each (\<lambda>h c s. served (response P h) c) cs ss"
    using served_worker[OF assms(1,8,9,5,3,4,2,6), of "w_host ?w" "w_tls_new ?w" "w_cx ?w" "w_ns ?w" "w_stats ?w"] by blast
  have l: "length cs = unat (CONNS_PER_WORKER e)" using arg_cong[OF t(2), of length] by simp
  let ?r = "report (fst (w_ns ?w)) (snd (w_ns ?w)) cs"
  have "full_report e ?r"
    using report_served[OF t(3) assms(10) l, of "fst (w_ns ?w)" "snd (w_ns ?w)"] worker_report_ok[OF t(1)] by (simp add: full_report_def)
  moreover have "worker_run e W rss ctx = Some ?r" using t(1) assms(7) by (simp add: worker_run_def Let_def)
  ultimately show ?thesis by blast
qed

lemma working_run_completes:
  fixes W :: "worker_ctx \<Rightarrow> 'tls world"
  assumes "n = dev_workers e (fst (dev_info m)) (snd (dev_info m))"
    and "PLAIN_HTTP e" "ep_addr (target_endpoint e) \<noteq> 0" "OBJECT_SIZE e \<noteq> 0" "BLOCK_SIZE e \<noteq> 0" "CONNS_PER_WORKER e \<noteq> 0" "N_WORKERS_REQ e \<noteq> 0"
    and "unat n * unat (CONNS_PER_WORKER e) < 2 ^ 64"
    and "nic_usable (the_nic m) n" "is_mac (nic_mac (the_nic m))"
    and "load_rss_config n (fst (rss_key m)) (snd (rss_key m)) (fst (rss_reta m)) (snd (rss_reta m)) rss_init = Some (True, rss)"
    and "fst (learn_network (dhcp_events m) (arp_tx_cap m) (arp_rx m) (nic_mac (the_nic m))) = Some (ip, prefix, gw, gw_mac)"
    and "is_ipv4 ip" "is_ipv4 gw" "is_mac gw_mac" "prefix \<le> 32" "addr_unicast (be_addr ip)"
    and "\<forall>p. queue_for_local_port rss e ip p = Some (qf p)"
    and "\<forall>i < unat n. unat (CONNS_PER_WORKER e) \<le> length (owned_list qf (of_nat i))"
    and "\<forall>ctx. w_sni_ok (W ctx) \<and> plan_ok (w_clk (W ctx)) (w_rounds (W ctx)) (P ctx) \<and>
      (\<forall>dev. serving_network (w_ptr (W ctx)) (w_fuel (W ctx)) e (w_clk (W ctx)) (P ctx) (w_poll (W ctx) dev))"
    and "\<forall>ctx h. after_header (response (P ctx) h) = Some (body ctx h) \<and> length (body ctx h) = unat (BLOCK_SIZE e)"
    and "misrouted m = 0"
  shows "\<exists>t. osv_app_main e m (worker_run e W) = Some (Finished t (COMPLETE (planned_conns e n * BLOCK_SIZE e)))"
proof -
  let ?mac = "nic_mac (the_nic m)" and ?ps = "map (pool_ret (the_nic m)) (queue_ids n)"
  let ?ctx = "\<lambda>i. the (make_ctx e ?ps ?mac ip prefix gw gw_mac i)"
  have ip0: "TARGET_IP_OCTETS e \<noteq> [0, 0, 0, 0]"
    using assms(3) by (auto simp: target_endpoint_def be_addr_def of_be32_def Let_def)
  obtain tr where pr: "probe_and_open (the_nic m) n = Some (Some (?ps, ?mac), tr)"
    using probe_cases[of "the_nic m" n] assms(9) by blast
  have len: "length ?ps = unat n" by (simp add: queue_ids_def)
  have ctx: "ctx_queue (?ctx i) = of_nat i" "ctx_ip (?ctx i) = ip" "worker_ctx_ok (?ctx i)" if "i < unat n" for i
    using that len assms by (simp_all add: make_ctx_def worker_ctx_ok_def)
  have run: "worker_run e W rss (?ctx i) = Some (the (worker_run e W rss (?ctx i))) \<and> full_report e (the (worker_run e W rss (?ctx i)))"
    if i: "i < unat n" for i
  proof -
    have "\<exists>r. worker_run e W rss (?ctx i) = Some r \<and> full_report e r"
      by (rule served_run[OF assms(2,3,6), of "?ctx i" rss qf W "P (?ctx i)" "body (?ctx i)"])
        (use assms(18-21) ctx[OF i] i in simp_all)
    then show ?thesis by auto
  qed
  let ?ctxs = "map ?ctx [0..<unat n]"
  define rs where "rs = map (\<lambda>i. the (worker_run e W rss (?ctx i))) [0..<unat n]"
  have rs: "all_some (map (worker_run e W rss) ?ctxs) = Some rs" "\<forall>r \<in> set rs. full_report e r" "length rs = unat n"
    unfolding all_some_Some rs_def using run by (auto simp: comp_def)
  have "\<not> STUB_TLS_AFTER_HANDSHAKE e" using assms(2) by (simp add: STUB_TLS_AFTER_HANDSHAKE_def)
  then have v: "run_verdict e n (sum_reports rs) 0 = COMPLETE (planned_conns e n * BLOCK_SIZE e)"
    using full_reports_complete[OF rs(2,3) assms(8)] dev_workers_pos[OF assms(7)] assms(1,6) by simp
  have "osv_app_main e m (worker_run e W) = Some (Finished (sum_reports rs) (run_verdict e n (sum_reports rs) (misrouted m)))"
    using ip0 assms(4-7) pr assms(11,12) make_ctxs_Some[OF len] rs(1)
    by (simp add: osv_app_main_def assms(1)[symmetric] Let_def)
  then show ?thesis using v assms(22) by simp
qed

section \<open>Blocks\<close>

lemma unat_block:
  fixes k :: u64 and n :: u16
  assumes "i < unat n" "j < unat k" "unat n * unat k < 2 ^ 64"
  shows "unat (of_nat i * k + of_nat j) = i * unat k + j"
proof -
  have "i * unat k + j < Suc i * unat k" using assms(2) by simp
  also have "\<dots> \<le> unat n * unat k" using assms(1) by (intro mult_le_mono1) simp
  finally have b: "i * unat k + j < 2 ^ 64" using assms(3) by simp
  then have "unat (of_nat (i * unat k + j) :: u64) = i * unat k + j" unfolding unat_of_nat by simp
  then show ?thesis by simp
qed

lemma concat_blocks: "concat (map (\<lambda>i. map (\<lambda>j. i * k + j) [0..<k]) [0..<n]) = [0..<n * k]"
proof (induction n)
  case (Suc n)
  have "map (\<lambda>j. n * k + j) [0..<k] = [n * k..<Suc n * k]"
    by (simp add: map_add_upt[symmetric] add.commute)
  moreover have "[0..<n * k] @ [n * k..<Suc n * k] = [0..<Suc n * k]"
    using upt_add_eq_append[of 0 "n * k" k] by (simp add: add.commute)
  ultimately show ?case using Suc by simp
qed simp

section \<open>A concrete run\<close>

definition demo_small_env :: build_env where
  "demo_small_env = demo_plain_env\<lparr>BENCH_WORKERS := Some [49], BENCH_CONNS_PER_WORKER := Some [49], BENCH_BLOCK_SIZE := Some [51]\<rparr>"

definition demo_machine :: machine where
  "demo_machine = \<lparr>dev_info = (8, 8), the_nic = demo_nic 0, rss_key = (0, []), rss_reta = (0, []),
     dhcp_events = (\<lambda>k. Some (Configured [10, 0, 0, 9] 24 (Some [10, 0, 0, 1]))), arp_tx_cap = Some 1536,
     arp_rx = (\<lambda>k. Some (7, the (build_arp_reply [2, 0, 0, 0, 0, 1] [10, 0, 0, 1] [2, 0, 0, 0, 0, 9] [10, 0, 0, 9]))), misrouted = 0\<rparr>"

definition demo_world :: "worker_ctx \<Rightarrow> nat world" where
  "demo_world ctx = \<lparr>w_ptr = (\<lambda>t inc. (inc, 0, Inl (), t)), w_fuel = 0, w_host = ascii ''h'', w_sni_ok = True, w_tls_new = (\<lambda>i. None),
     w_cx = demo_cx, w_poll = (\<lambda>dev k ss. map (net_poll k) ss), w_clk = (\<lambda>k h. 0), w_ns = (0, 9),
     w_rounds = 3, w_stats = stats_zero\<rparr>"

lemma demo_small:
  "PLAIN_HTTP demo_small_env" "OBJECT_SIZE demo_small_env \<noteq> 0" "BLOCK_SIZE demo_small_env = 3" "CONNS_PER_WORKER demo_small_env = 1"
  "N_WORKERS_REQ demo_small_env = 1" "TARGET_IP_OCTETS demo_small_env = [3, 5, 216, 240]"
  using demo_plain parse_demo_ip
  by (simp_all add: demo_small_env_def demo_plain_env_def demo_env_def PLAIN_HTTP_def OBJECT_SIZE_def BLOCK_SIZE_def CONNS_PER_WORKER_def
      N_WORKERS_REQ_def TARGET_IP_OCTETS_def parse_size_def)

lemma demo_workers: "dev_workers demo_small_env (fst (dev_info demo_machine)) (snd (dev_info demo_machine)) = 1"
  by (simp add: dev_workers_def demo_small demo_machine_def)

lemma demo_net:
  "fst (learn_network (dhcp_events demo_machine) (arp_tx_cap demo_machine) (arp_rx demo_machine) (nic_mac (the_nic demo_machine))) =
     Some ([10, 0, 0, 9], 24, [10, 0, 0, 1], [2, 0, 0, 0, 0, 1])"
proof -
  have d: "fst (dhcp_acquire (dhcp_events demo_machine) 2 c) = Some (([10, 0, 0, 9], 24), [10, 0, 0, 1])" for c
    by (simp add: dhcp_acquire_def dhcp_loop.simps demo_machine_def)
  obtain req where r: "build_arp_request (nic_mac (the_nic demo_machine)) [10, 0, 0, 9] [10, 0, 0, 1] = Some req"
    by (simp add: build_arp_request_def arp_frame_eq is_mac_def is_ipv4_def demo_machine_def demo_nic_def)
  have "fst (gateway_loop (arp_rx demo_machine) [10, 0, 0, 1] 0 []) = Some [2, 0, 0, 0, 0, 1]"
    using parse_arp_frame[of "[2, 0, 0, 0, 0, 9]" "[2, 0, 0, 0, 0, 1]" "[2, 0, 0, 0, 0, 9]" "[10, 0, 0, 1]" "[10, 0, 0, 9]" "[10, 0, 0, 1]" 2]
    by (simp add: gateway_loop.simps demo_machine_def build_arp_reply_def is_mac_def is_ipv4_def)
      (auto split: option.splits)
  then show ?thesis using d r by (simp add: learn_network_def demo_machine_def Let_def)
qed

lemma demo_serving:
  "plan_ok (w_clk (demo_world ctx)) (w_rounds (demo_world ctx)) net_plan"
  "serving_network (w_ptr (demo_world ctx)) (w_fuel (demo_world ctx)) demo_small_env (w_clk (demo_world ctx)) net_plan (w_poll (demo_world ctx) dev)"
proof -
  have c: "\<forall>k h. w_clk (demo_world ctx) k h = w_clk (demo_world ctx) 0 h" "3 \<le> w_rounds (demo_world ctx)"
    "w_poll (demo_world ctx) dev = (\<lambda>k ss. map (net_poll k) ss)" by (simp_all add: demo_world_def)
  show "plan_ok (w_clk (demo_world ctx)) (w_rounds (demo_world ctx)) net_plan" by (rule net_plan_ok[OF c(1,2)])
  show "serving_network (w_ptr (demo_world ctx)) (w_fuel (demo_world ctx)) demo_small_env (w_clk (demo_world ctx)) net_plan (w_poll (demo_world ctx) dev)"
    unfolding c(3) by (rule net_serves[OF demo_small(1) c(1)])
qed

lemma demo_owned: "length (owned_list (\<lambda>p. 0) 0) = 16384"
  by (simp add: owned_list_def EPH_LEN_def)

lemma demo_works:
  "(1 :: u16) = dev_workers demo_small_env (fst (dev_info demo_machine)) (snd (dev_info demo_machine))"
  "PLAIN_HTTP demo_small_env" "ep_addr (target_endpoint demo_small_env) \<noteq> 0" "OBJECT_SIZE demo_small_env \<noteq> 0"
  "BLOCK_SIZE demo_small_env \<noteq> 0" "CONNS_PER_WORKER demo_small_env \<noteq> 0" "N_WORKERS_REQ demo_small_env \<noteq> 0"
  "unat (1 :: u16) * unat (CONNS_PER_WORKER demo_small_env) < 2 ^ 64"
  "nic_usable (the_nic demo_machine) 1" "is_mac (nic_mac (the_nic demo_machine))"
  "load_rss_config 1 (fst (rss_key demo_machine)) (snd (rss_key demo_machine)) (fst (rss_reta demo_machine)) (snd (rss_reta demo_machine)) rss_init =
     Some (True, rss_init\<lparr>SINGLE_QUEUE := True\<rparr>)"
  "fst (learn_network (dhcp_events demo_machine) (arp_tx_cap demo_machine) (arp_rx demo_machine) (nic_mac (the_nic demo_machine))) =
     Some ([10, 0, 0, 9], 24, [10, 0, 0, 1], [2, 0, 0, 0, 0, 1])"
  "is_ipv4 [10, 0, 0, 9]" "is_ipv4 [10, 0, 0, 1]" "is_mac [2, 0, 0, 0, 0, 1]" "(24 :: nat) \<le> 32" "addr_unicast (be_addr [10, 0, 0, 9])"
  "\<forall>p. queue_for_local_port (rss_init\<lparr>SINGLE_QUEUE := True\<rparr>) demo_small_env [10, 0, 0, 9] p = Some ((\<lambda>p. 0) p)"
  "\<forall>i < unat (1 :: u16). unat (CONNS_PER_WORKER demo_small_env) \<le> length (owned_list (\<lambda>p. 0) (of_nat i))"
  "\<forall>ctx. w_sni_ok (demo_world ctx) \<and> plan_ok (w_clk (demo_world ctx)) (w_rounds (demo_world ctx)) ((\<lambda>ctx. net_plan) ctx) \<and>
     (\<forall>dev. serving_network (w_ptr (demo_world ctx)) (w_fuel (demo_world ctx)) demo_small_env (w_clk (demo_world ctx)) ((\<lambda>ctx. net_plan) ctx)
       (w_poll (demo_world ctx) dev))"
  "\<forall>(ctx :: worker_ctx) (h :: nat). after_header (response ((\<lambda>ctx. net_plan) ctx) h) = Some ((\<lambda>ctx h. [1, 2, 3]) ctx h) \<and>
     length ((\<lambda>ctx h. [1, 2, 3 :: u8]) ctx h) = unat (BLOCK_SIZE demo_small_env)"
  "misrouted demo_machine = 0"
  using demo_workers demo_small demo_net demo_serving demo_single_queue demo_owned
  by (simp_all add: target_endpoint_def be_addr_def of_be32_def nic_usable_def demo_nic_def is_mac_def is_ipv4_def
      load_rss_config_def addr_unicast_def net_response demo_response_def header_end_def)
     (simp_all add: demo_machine_def demo_nic_def demo_world_def)

section \<open>Properties\<close>

text \<open>C1: COMPLETE is only printed for a complete run, in ordinary and in stub builds.  If the benchmark,
  run with its own workers, ends with either of the two verdicts, and the planned number of
  connections fits in 64 bits, then every worker had opened all its configured connections, each
  expecting one block, every one of them was closed cleanly, and no frame was misrouted.  An ordinary
  build prints the sum of the workers' byte counts, which equals the number of planned connections
  times the block size; a stub build prints the number of planned connections, and the sum of the byte
  counts is at least that product (the sums and the product are those of the code, modulo 2 to the 64).\<close>

theorem complete_verdict_sound:
  fixes W :: "worker_ctx \<Rightarrow> 'tls world"
  assumes "osv_app_main e m (worker_run e W) = Some (Finished t v)" "v \<in> {COMPLETE b, COMPLETE_stub b}"
    and "unat (N_WORKERS_REQ e) * unat (CONNS_PER_WORKER e) < 2 ^ 64"
  shows "\<exists>n rss ctxs rs. n = dev_workers e (fst (dev_info m)) (snd (dev_info m)) \<and> length ctxs = unat n \<and>
    map (worker_run e W rss) ctxs = map Some rs \<and> misrouted m = 0 \<and>
    (if STUB_TLS_AFTER_HANDSHAKE e
     then v = COMPLETE_stub b \<and> b = planned_conns e n \<and> planned_conns e n * BLOCK_SIZE e \<le> sum_list (map rep_bytes rs)
     else v = COMPLETE b \<and> b = planned_conns e n * BLOCK_SIZE e \<and> b = sum_list (map rep_bytes rs)) \<and>
    (\<forall>i < unat n. \<exists>cs :: (nat \<times> 'tls conn) list. rs ! i = report (fst (w_ns (W (ctxs ! i)))) (snd (w_ns (W (ctxs ! i)))) cs \<and>
      length cs = unat (CONNS_PER_WORKER e) \<and> (\<forall>(h, c) \<in> set cs. closed_cleanly c \<and> expected c = BLOCK_SIZE e))"
proof -
  obtain n rss ctxs rs where f: "n = dev_workers e (fst (dev_info m)) (snd (dev_info m))" "CONNS_PER_WORKER e \<noteq> 0"
    "all_some (map (worker_run e W rss) ctxs) = Some rs" "length ctxs = unat n"
    "t = sum_reports rs" "v = run_verdict e n t (misrouted m)"
    using main_finished[OF assms(1)] by metis
  have n: "unat n * unat (CONNS_PER_WORKER e) < 2 ^ 64"
    using dev_workers_le[of e "fst (dev_info m)" "snd (dev_info m)"] assms(3) f(1)
    by (metis le_less_trans mult_le_mono1)
  have v: "conns_clean t = conns_total t" "conns_total t = planned_conns e n" "bytes_ok e t" "misrouted m = 0"
    "v = (if STUB_TLS_AFTER_HANDSHAKE e then COMPLETE_stub (conns_total t) else COMPLETE (total_b t))"
    using assms(2) f(6) by (auto simp: run_verdict_def Let_def split: if_splits)
  note s = wk.report_sums[OF f(3,4) n]
  have clean: "\<forall>r \<in> set rs. rep_total r = CONNS_PER_WORKER e \<and> rep_clean r = CONNS_PER_WORKER e"
    by (rule wk.complete_all_clean[OF f(3,4) n]) (use v(1,2) f(5) in simp_all)
  have m: "map (worker_run e W rss) ctxs = map Some rs" using f(3) by (simp add: all_some_Some)
  have "\<exists>cs :: (nat \<times> 'tls conn) list. rs ! i = report (fst (w_ns (W (ctxs ! i)))) (snd (w_ns (W (ctxs ! i)))) cs \<and>
      length cs = unat (CONNS_PER_WORKER e) \<and> (\<forall>(h, c) \<in> set cs. closed_cleanly c \<and> expected c = BLOCK_SIZE e)"
    if i: "i < unat n" for i
  proof (rule worker_all_clean)
    show "worker_run e W rss (ctxs ! i) = Some (rs ! i)"
      using arg_cong[OF m, of "\<lambda>xs. xs ! i"] i f(4) s(5) by simp
    show "rep_total (rs ! i) = CONNS_PER_WORKER e" "rep_clean (rs ! i) = CONNS_PER_WORKER e"
      using clean i s(5) by simp_all
  qed (rule f(2))
  moreover have "if STUB_TLS_AFTER_HANDSHAKE e
     then v = COMPLETE_stub b \<and> b = planned_conns e n \<and> planned_conns e n * BLOCK_SIZE e \<le> sum_list (map rep_bytes rs)
     else v = COMPLETE b \<and> b = planned_conns e n * BLOCK_SIZE e \<and> b = sum_list (map rep_bytes rs)"
  proof -
    have "total_b t = sum_list (map rep_bytes rs)" "total_expected t = planned_conns e n * BLOCK_SIZE e"
      using f(5) s(4) v(2) by (simp_all add: sum_reports_eq)
    then show ?thesis using v(2,3,5) assms(2) by (auto simp: bytes_ok_def split: if_splits)
  qed
  ultimately show ?thesis using f(1,4) m v(4) by (intro exI[of _ n] exI[of _ rss] exI[of _ ctxs] exI[of _ rs]) blast
qed

theorem complete_verdict_sound_witness:
  "\<exists>t rss ctxs rs. osv_app_main demo_small_env demo_machine (worker_run demo_small_env demo_world) = Some (Finished t (COMPLETE 3)) \<and>
     length ctxs = 1 \<and> map (worker_run demo_small_env demo_world rss) ctxs = map Some rs \<and> 3 = sum_list (map rep_bytes rs)"
proof -
  obtain t where t: "osv_app_main demo_small_env demo_machine (worker_run demo_small_env demo_world) = Some (Finished t (COMPLETE 3))"
    using working_run_completes[OF demo_works] by (auto simp: planned_conns_def demo_small)
  have s: "\<not> STUB_TLS_AFTER_HANDSHAKE demo_small_env" using demo_small(1) by (simp add: STUB_TLS_AFTER_HANDSHAKE_def)
  show ?thesis using complete_verdict_sound[OF t, of 3] t demo_workers s by (auto simp: demo_small)
qed

text \<open>C2: a run in which everything works completes, over plain HTTP.  The configuration is usable, the
  NIC opens, steering gives every worker enough ports, discovery finds the network, and every worker's
  interface serves a plan: each poll applies steps of the TCP model to the sockets the worker has, the
  handshakes complete before the SYN timeout, each round adds the planned bytes to the receive buffers,
  as much or as little as the plan says, the peers' FINs are taken within the bound on the rounds, and
  the bytes of all rounds together are a header and one block.  Then the benchmark ends with COMPLETE
  and the number of planned bytes.  The witness runs the modelled handshake, dispatch and process on
  the worker's own 4 MiB sockets, against a peer that scales its window.\<close>

theorem main_completes:
  fixes W :: "worker_ctx \<Rightarrow> 'tls world"
  assumes "n = dev_workers e (fst (dev_info m)) (snd (dev_info m))"
    and "PLAIN_HTTP e" "ep_addr (target_endpoint e) \<noteq> 0" "OBJECT_SIZE e \<noteq> 0" "BLOCK_SIZE e \<noteq> 0" "CONNS_PER_WORKER e \<noteq> 0" "N_WORKERS_REQ e \<noteq> 0"
    and "unat n * unat (CONNS_PER_WORKER e) < 2 ^ 64"
    and "nic_usable (the_nic m) n" "is_mac (nic_mac (the_nic m))"
    and "load_rss_config n (fst (rss_key m)) (snd (rss_key m)) (fst (rss_reta m)) (snd (rss_reta m)) rss_init = Some (True, rss)"
    and "fst (learn_network (dhcp_events m) (arp_tx_cap m) (arp_rx m) (nic_mac (the_nic m))) = Some (ip, prefix, gw, gw_mac)"
    and "is_ipv4 ip" "is_ipv4 gw" "is_mac gw_mac" "prefix \<le> 32" "addr_unicast (be_addr ip)"
    and "\<forall>p. queue_for_local_port rss e ip p = Some (qf p)"
    and "\<forall>i < unat n. unat (CONNS_PER_WORKER e) \<le> length (owned_list qf (of_nat i))"
    and "\<forall>ctx. w_sni_ok (W ctx) \<and> plan_ok (w_clk (W ctx)) (w_rounds (W ctx)) (P ctx) \<and>
      (\<forall>dev. serving_network (w_ptr (W ctx)) (w_fuel (W ctx)) e (w_clk (W ctx)) (P ctx) (w_poll (W ctx) dev))"
    and "\<forall>ctx h. after_header (response (P ctx) h) = Some (body ctx h) \<and> length (body ctx h) = unat (BLOCK_SIZE e)"
    and "misrouted m = 0"
  shows "\<exists>t. osv_app_main e m (worker_run e W) = Some (Finished t (COMPLETE (planned_conns e n * BLOCK_SIZE e)))"
  by (rule working_run_completes[OF assms])

theorem main_completes_witness:
  "\<exists>t. osv_app_main demo_small_env demo_machine (worker_run demo_small_env demo_world) = Some (Finished t (COMPLETE 3))"
  using main_completes[OF demo_works] by (simp add: planned_conns_def demo_small)

text \<open>C34: the work is divided without gap or overlap.  Worker \<open>i\<close> gets queue \<open>i\<close> and the pool of that
  queue, and the blocks of all connections of all workers, in order, are exactly the numbers from 0
  to the number of planned connections.\<close>

theorem workers_partition_blocks:
  assumes "make_ctxs e n pools mac net = Some ctxs" "unat n * unat (CONNS_PER_WORKER e) < 2 ^ 64"
  shows "map ctx_queue ctxs = map of_nat [0..<unat n] \<and> map ctx_pool ctxs = take (unat n) pools \<and> unat n \<le> length pools \<and>
    concat (map (\<lambda>c. map (\<lambda>j. unat (ctx_first_block c + of_nat j)) [0..<unat (CONNS_PER_WORKER e)]) ctxs) =
      [0..<unat n * unat (CONNS_PER_WORKER e)]"
proof -
  let ?k = "unat (CONNS_PER_WORKER e)"
  obtain ip prefix gw gw_mac where net: "net = (ip, prefix, gw, gw_mac)" by (metis prod_cases4)
  have m: "map (make_ctx e pools mac ip prefix gw gw_mac) [0..<unat n] = map Some ctxs"
    using assms(1) by (simp add: make_ctxs_def net all_some_Some)
  have l: "length ctxs = unat n" using arg_cong[OF m, of length] by simp
  have c: "make_ctx e pools mac ip prefix gw gw_mac i = Some (ctxs ! i)" if "i < unat n" for i
    using arg_cong[OF m, of "\<lambda>xs. xs ! i"] that l by simp
  have p: "unat n \<le> length pools"
  proof (cases "unat n")
    case (Suc i)
    then show ?thesis using c[of i] by (simp add: make_ctx_def split: if_splits)
  qed simp
  have f: "ctx_queue (ctxs ! i) = of_nat i" "ctx_pool (ctxs ! i) = pools ! i" "ctx_first_block (ctxs ! i) = of_nat i * CONNS_PER_WORKER e"
    if i: "i < unat n" for i
  proof -
    have "ctxs ! i = the (make_ctx e pools mac ip prefix gw gw_mac i)" using c[OF i] by simp
    then show "ctx_queue (ctxs ! i) = of_nat i" "ctx_pool (ctxs ! i) = pools ! i" "ctx_first_block (ctxs ! i) = of_nat i * CONNS_PER_WORKER e"
      using i p by (simp_all add: make_ctx_def)
  qed
  have "unat (of_nat i * CONNS_PER_WORKER e + of_nat j) = i * ?k + j" if "i < unat n" "j < ?k" for i j
    by (rule unat_block[OF that assms(2)])
  then have b: "map (\<lambda>c. map (\<lambda>j. unat (ctx_first_block c + of_nat j)) [0..<?k]) ctxs = map (\<lambda>i. map (\<lambda>j. i * ?k + j) [0..<?k]) [0..<unat n]"
    using f l by (intro nth_equalityI) auto
  have "concat (map (\<lambda>i. map (\<lambda>j. i * ?k + j) [0..<?k]) [0..<unat n]) = [0..<unat n * ?k]" by (rule concat_blocks)
  moreover have "map ctx_queue ctxs = map of_nat [0..<unat n]" "map ctx_pool ctxs = take (unat n) pools"
    using f l p by (auto intro!: nth_equalityI)
  ultimately show ?thesis using b p by simp
qed

theorem workers_partition_blocks_witness:
  "\<exists>ctxs. make_ctxs demo_plain_env 2 [5, 6] [] ([], 0, [], []) = Some ctxs \<and> map ctx_pool ctxs = [5, 6] \<and>
     concat (map (\<lambda>c. map (\<lambda>j. unat (ctx_first_block c + of_nat j)) [0..<24]) ctxs) = [0..<48]"
proof -
  obtain ctxs where m: "make_ctxs demo_plain_env 2 [5, 6] [] ([], 0, [], []) = Some ctxs"
    using make_ctxs_Some[of "[5, 6]" 2 demo_plain_env "[]" "[]" 0 "[]" "[]"] by auto
  show ?thesis using workers_partition_blocks[OF m] m by (simp add: demo_conns_per_worker)
qed

text \<open>C35: how a run fails.  The entry point gives up with a reason exactly when the check for that
  reason is the first to fail: the target address, the four sizes, the NIC, the RSS configuration and
  the network, in this order.\<close>

theorem main_failures_exact:
  "osv_app_main e m run = Some (Fail f) \<longleftrightarrow>
    (let n = dev_workers e (fst (dev_info m)) (snd (dev_info m));
         no_ip = (TARGET_IP_OCTETS e = [0, 0, 0, 0]);
         zero = (0 \<in> {OBJECT_SIZE e, BLOCK_SIZE e, CONNS_PER_WORKER e} \<or> N_WORKERS_REQ e = 0);
         rss = load_rss_config n (fst (rss_key m)) (snd (rss_key m)) (fst (rss_reta m)) (snd (rss_reta m)) rss_init;
         net = fst (learn_network (dhcp_events m) (arp_tx_cap m) (arp_rx m) (nic_mac (the_nic m))) in
     case f of
       Target_ip_unset \<Rightarrow> no_ip
     | Zero_config \<Rightarrow> \<not> no_ip \<and> zero
     | No_nic \<Rightarrow> \<not> no_ip \<and> \<not> zero \<and> \<not> nic_usable (the_nic m) n
     | No_rss \<Rightarrow> \<not> no_ip \<and> \<not> zero \<and> nic_usable (the_nic m) n \<and> map_option fst rss = Some False
     | No_network \<Rightarrow> \<not> no_ip \<and> \<not> zero \<and> nic_usable (the_nic m) n \<and> map_option fst rss = Some True \<and> net = None)"
proof -
  let ?n = "dev_workers e (fst (dev_info m)) (snd (dev_info m))"
  let ?ps = "map (pool_ret (the_nic m)) (queue_ids ?n)" and ?mac = "nic_mac (the_nic m)"
  let ?rss = "load_rss_config ?n (fst (rss_key m)) (snd (rss_key m)) (fst (rss_reta m)) (snd (rss_reta m)) rss_init"
  let ?zero = "OBJECT_SIZE e = 0 \<or> BLOCK_SIZE e = 0 \<or> CONNS_PER_WORKER e = 0 \<or> N_WORKERS_REQ e = 0"
  consider (ip) "TARGET_IP_OCTETS e = [0, 0, 0, 0]" | (zero) "TARGET_IP_OCTETS e \<noteq> [0, 0, 0, 0]" ?zero
    | (bad) "TARGET_IP_OCTETS e \<noteq> [0, 0, 0, 0]" "\<not> ?zero" "\<not> nic_usable (the_nic m) ?n"
    | (nic) "TARGET_IP_OCTETS e \<noteq> [0, 0, 0, 0]" "\<not> ?zero" "nic_usable (the_nic m) ?n" by blast
  then show ?thesis
  proof cases
    case ip
    then show ?thesis by (cases f) (simp_all add: osv_app_main_def)
  next
    case zero
    then show ?thesis by (cases f) (auto simp: osv_app_main_def)
  next
    case bad
    obtain tr where "probe_and_open (the_nic m) ?n = Some (None, tr)" using probe_cases[of "the_nic m" ?n] bad(3) by blast
    then have "osv_app_main e m run = Some (Fail No_nic)" using bad by (simp add: osv_app_main_def Let_def)
    then show ?thesis using bad by (cases f) (auto simp: Let_def)
  next
    case nic
    obtain tr where pr: "probe_and_open (the_nic m) ?n = Some (Some (?ps, ?mac), tr)" using probe_cases[of "the_nic m" ?n] nic(3) by blast
    show ?thesis
    proof (cases ?rss)
      case None
      then have "osv_app_main e m run = None" using nic pr by (simp add: osv_app_main_def Let_def)
      then show ?thesis using nic None by (cases f) (auto simp: Let_def)
    next
      case (Some x)
      obtain l rss where x: "x = (l, rss)" by force
      have l: "length ?ps = unat ?n" by (simp add: queue_ids_def)
      show ?thesis
      proof (cases "fst (learn_network (dhcp_events m) (arp_tx_cap m) (arp_rx m) ?mac)")
        case None
        then have "osv_app_main e m run = Some (Fail (if l then No_network else No_rss))"
          using nic pr Some x by (simp add: osv_app_main_def Let_def)
        then show ?thesis using nic None Some x by (cases f) (auto simp: Let_def)
      next
        case net: (Some net)
        obtain ip prefix gw gw_mac where n4: "net = (ip, prefix, gw, gw_mac)" by (metis prod_cases4)
        have "osv_app_main e m run \<noteq> Some (Fail f) \<or> \<not> l \<and> f = No_rss"
          using nic pr Some x net by (auto simp: osv_app_main_def Let_def bind_eq_Some_conv)
        moreover have "osv_app_main e m run = Some (Fail No_rss)" if "\<not> l"
          using nic pr Some x that by (simp add: osv_app_main_def Let_def)
        ultimately show ?thesis using nic net Some x by (cases f) (auto simp: Let_def)
      qed
    qed
  qed
qed

text \<open>A build cannot go stale.  The build script declares every environment variable the crate reads:
  two environments that agree on the declared variables are accepted alike and bake in the same
  configuration and host name.\<close>

theorem build_tracks_environment:
  assumes "\<forall>v. ''cargo:rerun-if-env-changed='' @ v \<in> set build_main \<longrightarrow> env v = env' v"
  shows "baked_config env = baked_config env'"
proof -
  have "env v = env' v" if "v \<in> set build_vars" for v using assms that by (auto simp: build_main_def)
  then have v: "\<forall>v \<in> set build_vars. env v = env' v" by blast
  then have "baked_env env = baked_env env'" "env ''AWS_BUCKET'' = env' ''AWS_BUCKET''" "env ''AWS_REGION'' = env' ''AWS_REGION''"
    by (simp_all add: baked_env_def build_vars_def)
  then show ?thesis by (simp only: baked_config_def)
qed

theorem build_tracks_environment_witness:
  "baked_config (\<lambda>v. if v = ''HOME'' then Some [1] else None) = baked_config (\<lambda>v. None)"
  by (rule build_tracks_environment) (auto simp: build_main_def build_vars_def)

end
