(* ===== verification/Dhcp_Client.thy ===== *)
theory Dhcp_Client
  imports Iface_Tables
begin

text \<open>
  The DHCP client of the stack (\<open>socket/dhcpv4.rs\<close>): its states, \<open>process\<close> with \<open>parse_ack\<close>, \<open>dispatch\<close>, \<open>poll\<close> and
  the setters.  What \<open>DhcpRepr::parse\<close> makes of a payload is an argument of \<open>process\<close>; the closure \<open>emit\<close> is the
  argument of \<open>dispatch\<close> that says whether the device took the packet.  Instants are those of the context.
  Shown: a mask is accepted exactly when it is the netmask of a prefix, and the times of a lease are in
  order; what runs of the client do is in \<open>Dhcp_Lease\<close>.
\<close>

section \<open>Subnet masks\<close>

text \<open>\<open>AddressExt::prefix_len\<close>: the bits of the octets from the top; a one after a zero is no mask.\<close>

fun prefix_bits :: "bool \<Rightarrow> nat \<Rightarrow> bool list \<Rightarrow> nat option" where
  "prefix_bits ones n [] = Some n"
| "prefix_bits ones n (one # bs) =
     (if ones then (if one then prefix_bits True (n + 1) bs else prefix_bits False n bs)
      else if one then None else prefix_bits False n bs)"

definition octet_bits :: "u8 \<Rightarrow> bool list" where
  "octet_bits b = map (bit b) (rev [0..<8])"

definition prefix_len :: "ip_addr \<Rightarrow> nat option" where
  "prefix_len a = prefix_bits True 0 (concat (map octet_bits (be32 a)))"

section \<open>State\<close>

record server_info =
  srv_address :: ip_addr
  srv_identifier :: ip_addr

record dhcp_config =
  cfg_server :: server_info
  cfg_address :: "ip_addr \<times> nat"
  cfg_router :: "ip_addr option"
  cfg_dns_servers :: "ip_addr list"
  cfg_packet :: "bytes option"

record request_state =
  rq_retry_at :: instant
  rq_retry :: u16
  rq_server :: server_info
  rq_requested_ip :: ip_addr

record renew_state =
  rn_config :: dhcp_config
  rn_renew_at :: instant
  rn_rebind_at :: instant
  rn_rebinding :: bool
  rn_expires_at :: instant

datatype client_state = Discovering instant | Requesting request_state | Renewing renew_state

record retry_config =
  discover_timeout :: duration
  initial_request_timeout :: duration
  request_retries :: u16
  min_renew_timeout :: duration
  max_renew_timeout :: duration

definition retry_default :: retry_config where
  "retry_default = \<lparr>discover_timeout = duration_from_secs 10, initial_request_timeout = duration_from_secs 5,
     request_retries = 5, min_renew_timeout = duration_from_secs 60, max_renew_timeout = 2 ^ 64 - 1\<rparr>"

datatype dhcp_notice = Deconfigured | Configured dhcp_config

record dhcp_socket =
  ds_state :: client_state
  ds_config_changed :: bool
  ds_transaction_id :: u32
  ds_max_lease_duration :: "duration option"
  ds_retry_config :: retry_config
  ds_ignore_naks :: bool
  ds_server_port :: u16
  ds_client_port :: u16
  ds_outgoing_options :: "(u8 \<times> bytes) list"
  ds_parameter_request_list :: "bytes option"
  ds_receive_packet_buffer :: "bytes option"

definition dhcp_new :: dhcp_socket where
  "dhcp_new = \<lparr>ds_state = Discovering (instant_from_millis 0), ds_config_changed = True, ds_transaction_id = 1,
     ds_max_lease_duration = None, ds_retry_config = retry_default, ds_ignore_naks = False,
     ds_server_port = 67, ds_client_port = 68, ds_outgoing_options = [], ds_parameter_request_list = None,
     ds_receive_packet_buffer = None\<rparr>"

definition set_retry_config :: "retry_config \<Rightarrow> dhcp_socket \<Rightarrow> dhcp_socket" where
  "set_retry_config c s = s\<lparr>ds_retry_config := c\<rparr>"
definition set_outgoing_options :: "(u8 \<times> bytes) list \<Rightarrow> dhcp_socket \<Rightarrow> dhcp_socket" where
  "set_outgoing_options os s = s\<lparr>ds_outgoing_options := os\<rparr>"
definition set_receive_packet_buffer :: "bytes \<Rightarrow> dhcp_socket \<Rightarrow> dhcp_socket" where
  "set_receive_packet_buffer b s = s\<lparr>ds_receive_packet_buffer := Some b\<rparr>"
definition set_parameter_request_list :: "bytes \<Rightarrow> dhcp_socket \<Rightarrow> dhcp_socket" where
  "set_parameter_request_list l s = s\<lparr>ds_parameter_request_list := Some l\<rparr>"
definition set_max_lease_duration :: "duration option \<Rightarrow> dhcp_socket \<Rightarrow> dhcp_socket" where
  "set_max_lease_duration d s = s\<lparr>ds_max_lease_duration := d\<rparr>"
definition set_ignore_naks :: "bool \<Rightarrow> dhcp_socket \<Rightarrow> dhcp_socket" where
  "set_ignore_naks b s = s\<lparr>ds_ignore_naks := b\<rparr>"
definition set_ports :: "u16 \<Rightarrow> u16 \<Rightarrow> dhcp_socket \<Rightarrow> dhcp_socket" where
  "set_ports sp cp s = s\<lparr>ds_server_port := sp, ds_client_port := cp\<rparr>"

section \<open>Messages\<close>

datatype message_type =
  Discover | Offer | Request | Decline | Ack | Nak | Release | Inform | UnknownMessage u8

record dhcp_repr =
  message_type :: message_type
  dhcp_xid :: u32
  dhcp_secs :: u16
  client_hardware_address :: mac
  client_ip :: ip_addr
  your_ip :: ip_addr
  server_ip :: ip_addr
  dhcp_router :: "ip_addr option"
  subnet_mask :: "ip_addr option"
  relay_agent_ip :: ip_addr
  dhcp_broadcast :: bool
  requested_ip :: "ip_addr option"
  client_identifier :: "mac option"
  server_identifier :: "ip_addr option"
  parameter_request_list :: "bytes option"
  dns_servers :: "ip_addr list option"
  max_size :: "u16 option"
  lease_duration :: "u32 option"
  renew_duration :: "u32 option"
  rebind_duration :: "u32 option"
  additional_options :: "(u8 \<times> bytes) list"

definition dhcp_buffer_len :: "dhcp_repr \<Rightarrow> nat" where
  "dhcp_buffer_len r = 240 + 3 + 1
     + (if requested_ip r \<noteq> None then 6 else 0) + (if client_identifier r \<noteq> None then 9 else 0)
     + (if server_identifier r \<noteq> None then 6 else 0) + (if max_size r \<noteq> None then 4 else 0)
     + (if dhcp_router r \<noteq> None then 6 else 0) + (if subnet_mask r \<noteq> None then 6 else 0)
     + (if lease_duration r \<noteq> None then 6 else 0)
     + (case dns_servers r of Some xs \<Rightarrow> 2 + length xs * 4 | None \<Rightarrow> 0)
     + (case parameter_request_list r of Some xs \<Rightarrow> length xs + 2 | None \<Rightarrow> 0)
     + sum_list (map (\<lambda>opt. 2 + length (snd opt)) (additional_options r))"

record dhcp_packet =
  pk_src :: ip_addr
  pk_dst :: ip_addr
  pk_payload_len :: nat
  pk_src_port :: u16
  pk_dst_port :: u16
  pk_repr :: dhcp_repr

section \<open>Operations\<close>

definition dhcp_poll_at :: "dhcp_socket \<Rightarrow> instant" where
  "dhcp_poll_at s =
     (case ds_state s of
        Discovering t \<Rightarrow> t
      | Requesting r \<Rightarrow> rq_retry_at r
      | Renewing r \<Rightarrow>
          min (if rn_rebinding r then rn_rebind_at r else min (rn_renew_at r) (rn_rebind_at r)) (rn_expires_at r))"

definition dhcp_reset :: "dhcp_socket \<Rightarrow> dhcp_socket" where
  "dhcp_reset s =
     (let s1 = (case ds_state s of Renewing _ \<Rightarrow> s\<lparr>ds_config_changed := True\<rparr> | _ \<Rightarrow> s)
      in s1\<lparr>ds_state := Discovering (instant_from_millis 0)\<rparr>)"

definition dhcp_poll :: "dhcp_socket \<Rightarrow> dhcp_notice option \<times> dhcp_socket" where
  "dhcp_poll s =
     (if \<not> ds_config_changed s then (None, s)
      else case ds_state s of
        Renewing r \<Rightarrow>
          (Some (Configured ((rn_config r)\<lparr>cfg_packet := ds_receive_packet_buffer s\<rparr>)), s\<lparr>ds_config_changed := False\<rparr>)
      | _ \<Rightarrow> (Some Deconfigured, s\<lparr>ds_config_changed := False\<rparr>))"

text \<open>The three durations of a lease.  The guards exclude the panic of the subtraction, and the divisors
  are not zero.\<close>

definition lease_length :: "duration option \<Rightarrow> dhcp_repr \<Rightarrow> duration" where
  "lease_length max_lease r =
     (let d = (case lease_duration r of Some n \<Rightarrow> duration_from_secs (unat n) | None \<Rightarrow> duration_from_secs 120)
      in case max_lease of Some m \<Rightarrow> min d m | None \<Rightarrow> d)"

definition lease_times :: "duration \<Rightarrow> duration option \<Rightarrow> duration option \<Rightarrow> duration \<times> duration" where
  "lease_times lease t1 t2 =
     (let default = (lease div 2, duration_mul lease 7 div 8) in
      case (t1, t2) of
        (Some renew, Some rebind) \<Rightarrow> if renew < rebind \<and> rebind < lease then (renew, rebind) else default
      | (Some renew, None) \<Rightarrow>
          if renew < lease then (renew, duration_add renew (duration_mul (lease - renew) 3 div 4)) else default
      | (None, Some rebind) \<Rightarrow> if rebind < lease then (min (lease div 2) rebind, rebind) else default
      | (None, None) \<Rightarrow> default)"

definition DHCP_MAX_DNS_SERVER_COUNT :: nat where "DHCP_MAX_DNS_SERVER_COUNT = 3"

definition parse_ack ::
  "instant \<Rightarrow> dhcp_repr \<Rightarrow> duration option \<Rightarrow> server_info \<Rightarrow> (dhcp_config \<times> instant \<times> instant \<times> instant) option" where
  "parse_ack now r max_lease server = do {
     mask \<leftarrow> subnet_mask r;
     plen \<leftarrow> prefix_len mask;
     assert_that (addr_unicast (your_ip r));
     let lease = lease_length max_lease r;
     let dns = (case dns_servers r of Some xs \<Rightarrow> take DHCP_MAX_DNS_SERVER_COUNT (filter addr_unicast xs) | None \<Rightarrow> []);
     let (renew, rebind) = lease_times lease (map_option (\<lambda>d. duration_from_secs (unat d)) (renew_duration r))
           (map_option (\<lambda>d. duration_from_secs (unat d)) (rebind_duration r));
     Some (\<lparr>cfg_server = server, cfg_address = (your_ip r, plen), cfg_router = dhcp_router r, cfg_dns_servers = dns,
            cfg_packet = None\<rparr>, instant_add now renew, instant_add now rebind, instant_add now lease)
   }"

text \<open>The transitions of \<open>process\<close> once the message is known to be for this client.\<close>

definition process_message :: "instant \<Rightarrow> ip_addr \<Rightarrow> ip_addr \<Rightarrow> dhcp_repr \<Rightarrow> dhcp_socket \<Rightarrow> dhcp_socket" where
  "process_message now src_ip identifier r s =
     (case (ds_state s, message_type r) of
        (Discovering _, Offer) \<Rightarrow>
          if \<not> addr_unicast (your_ip r) then s
          else s\<lparr>ds_state := Requesting \<lparr>rq_retry_at = now, rq_retry = 0,
                 rq_server = \<lparr>srv_address = src_ip, srv_identifier = identifier\<rparr>, rq_requested_ip = your_ip r\<rparr>\<rparr>
      | (Requesting q, Ack) \<Rightarrow>
          (case parse_ack now r (ds_max_lease_duration s) (rq_server q) of
             Some (config, renew_at, rebind_at, expires) \<Rightarrow>
               s\<lparr>ds_state := Renewing \<lparr>rn_config = config, rn_renew_at = renew_at, rn_rebind_at = rebind_at,
                   rn_rebinding = False, rn_expires_at = expires\<rparr>, ds_config_changed := True\<rparr>
           | None \<Rightarrow> s)
      | (Requesting _, Nak) \<Rightarrow> if ds_ignore_naks s then s else dhcp_reset s
      | (Renewing n, Ack) \<Rightarrow>
          (case parse_ack now r (ds_max_lease_duration s) (cfg_server (rn_config n)) of
             Some (config, renew_at, rebind_at, expires) \<Rightarrow>
               (let changed = rn_config n \<noteq> config \<or> ds_receive_packet_buffer s \<noteq> None;
                    n1 = n\<lparr>rn_renew_at := renew_at, rn_rebind_at := rebind_at, rn_rebinding := False,
                           rn_expires_at := expires, rn_config := config\<rparr>;
                    s1 = s\<lparr>ds_state := Renewing n1\<rparr>
                in if changed then s1\<lparr>ds_config_changed := True\<rparr> else s1)
           | None \<Rightarrow> s)
      | (Renewing _, Nak) \<Rightarrow> if ds_ignore_naks s then s else dhcp_reset s
      | _ \<Rightarrow> s)"

definition store_packet :: "bytes \<Rightarrow> dhcp_socket \<Rightarrow> dhcp_socket" where
  "store_packet data s =
     (case ds_receive_packet_buffer s of
        Some b \<Rightarrow> if length data \<le> length b then s\<lparr>ds_receive_packet_buffer := Some (overwrite b 0 data)\<rparr> else s
      | None \<Rightarrow> s)"

text \<open>\<open>parsed\<close> is the parsed payload; \<open>None\<close> of the result is the failed assertion on the ports.\<close>

definition dhcp_process ::
  "iface_context \<Rightarrow> mac \<Rightarrow> ip_addr \<Rightarrow> u16 \<Rightarrow> u16 \<Rightarrow> bytes \<Rightarrow> dhcp_repr option \<Rightarrow> dhcp_socket \<Rightarrow> dhcp_socket option" where
  "dhcp_process cx hw src_ip sport dport data parsed s = do {
     assert_that (sport = ds_server_port s \<and> dport = ds_client_port s);
     Some (case parsed of
        None \<Rightarrow> s
      | Some r \<Rightarrow>
          if client_hardware_address r \<noteq> hw then s
          else if dhcp_xid r \<noteq> ds_transaction_id s then s
          else (case server_identifier r of
             None \<Rightarrow> s
           | Some identifier \<Rightarrow> process_message (cx_now cx) src_ip identifier r (store_packet data s)))
   }"

text \<open>The message \<open>dispatch\<close> starts from, and the packet around it.  \<open>as u16\<close> keeps the low bits.\<close>

definition dhcp_base_repr :: "iface_context \<Rightarrow> mac \<Rightarrow> dhcp_socket \<Rightarrow> dhcp_repr" where
  "dhcp_base_repr cx hw s = \<lparr>message_type = Discover, dhcp_xid = ds_transaction_id s, dhcp_secs = 0, client_hardware_address = hw,
     client_ip = 0, your_ip = 0, server_ip = 0, dhcp_router = None, subnet_mask = None, relay_agent_ip = 0,
     dhcp_broadcast = False, requested_ip = None, client_identifier = Some hw, server_identifier = None,
     parameter_request_list = Some (case ds_parameter_request_list s of Some l \<Rightarrow> l | None \<Rightarrow> [1, 3, 6]),
     dns_servers = None, max_size = Some (word_of_int (int (cx_ip_mtu cx) - 60 - 8)), lease_duration = None,
     renew_duration = None, rebind_duration = None, additional_options = ds_outgoing_options s\<rparr>"

definition packet_for :: "dhcp_socket \<Rightarrow> ip_addr \<Rightarrow> ip_addr \<Rightarrow> dhcp_repr \<Rightarrow> dhcp_packet" where
  "packet_for s src dst r = \<lparr>pk_src = src, pk_dst = dst, pk_payload_len = 8 + dhcp_buffer_len r,
     pk_src_port = ds_client_port s, pk_dst_port = ds_server_port s, pk_repr = r\<rparr>"

definition random_transaction_id :: "iface_context \<Rightarrow> u32 \<times> iface_context" where
  "random_transaction_id cx = (let (n, r) = rand_u32 (cx_rand cx) in (n, cx\<lparr>cx_rand := r\<rparr>))"

datatype dhcp_sent = NothingSent | Sent dhcp_packet | SendFailed dhcp_packet

text \<open>The new times of a lease after a renewal message.\<close>

definition renew_backoff :: "instant \<Rightarrow> retry_config \<Rightarrow> renew_state \<Rightarrow> renew_state" where
  "renew_backoff now c n =
     (if rn_rebinding n
      then n\<lparr>rn_rebind_at := instant_add now
             (min (max (min_renew_timeout c) (instant_diff (rn_expires_at n) now div 2)) (max_renew_timeout c))\<rparr>
      else n\<lparr>rn_renew_at := instant_add now
             (min (min (max (min_renew_timeout c) (instant_diff (rn_rebind_at n) now div 2))
                       (instant_diff (rn_rebind_at n) now)) (max_renew_timeout c))\<rparr>)"

definition dhcp_dispatch ::
  "iface_context \<Rightarrow> mac \<Rightarrow> (dhcp_packet \<Rightarrow> bool) \<Rightarrow> dhcp_socket \<Rightarrow> dhcp_sent \<times> dhcp_socket \<times> iface_context" where
  "dhcp_dispatch cx hw emit s =
     (let now = cx_now cx; base = dhcp_base_repr cx hw s; c = ds_retry_config s in
      case ds_state s of
        Discovering retry_at \<Rightarrow>
          if now < retry_at then (NothingSent, s, cx)
          else let (xid, cx1) = random_transaction_id cx;
                   p = packet_for s 0 0xffffffff (base\<lparr>dhcp_xid := xid\<rparr>)
               in if emit p
                  then (Sent p, s\<lparr>ds_state := Discovering (instant_add now (discover_timeout c)), ds_transaction_id := xid\<rparr>, cx1)
                  else (SendFailed p, s, cx1)
      | Requesting q \<Rightarrow>
          if now < rq_retry_at q then (NothingSent, s, cx)
          else if request_retries c \<le> rq_retry q then (NothingSent, dhcp_reset s, cx)
          else let p = packet_for s 0 0xffffffff (base\<lparr>message_type := Request, requested_ip := Some (rq_requested_ip q),
                         server_identifier := Some (srv_identifier (rq_server q))\<rparr>)
               in if emit p
                  then (Sent p, s\<lparr>ds_state := Requesting (q\<lparr>
                          rq_retry_at := instant_add now (duration_shl (initial_request_timeout c) (unat (rq_retry q) div 2)),
                          rq_retry := rq_retry q + 1\<rparr>)\<rparr>, cx)
                  else (SendFailed p, s, cx)
      | Renewing n \<Rightarrow>
          if rn_expires_at n \<le> now then (NothingSent, dhcp_reset s, cx)
          else if now < rn_renew_at n \<or> rn_rebinding n \<and> now < rn_rebind_at n then (NothingSent, s, cx)
          else let n1 = n\<lparr>rn_rebinding := rn_rebinding n \<or> rn_rebind_at n \<le> now\<rparr>;
                   (xid, cx1) = random_transaction_id cx;
                   p = packet_for s (fst (cfg_address (rn_config n)))
                         (if rn_rebinding n1 then 0xffffffff else srv_address (cfg_server (rn_config n)))
                         (base\<lparr>message_type := Request, client_ip := fst (cfg_address (rn_config n)), dhcp_xid := xid\<rparr>)
               in if emit p
                  then (Sent p, s\<lparr>ds_state := Renewing (renew_backoff now c n1), ds_transaction_id := xid\<rparr>, cx1)
                  else (SendFailed p, s\<lparr>ds_state := Renewing n1\<rparr>, cx1))"

section \<open>Masks and lease times\<close>

lemma prefix_bits_zeros: "prefix_bits False n bs = (if True \<in> set bs then None else Some n)"
  by (induction bs) auto

lemma prefix_bits_ones:
  "prefix_bits True n bs = Some m \<longleftrightarrow>
     (\<exists>k \<le> length bs. m = n + k \<and> bs = replicate k True @ replicate (length bs - k) False)"
proof (induction bs arbitrary: n)
  case (Cons b bs)
  show ?case
  proof (cases b)
    case True
    have "(\<exists>k \<le> length (b # bs). m = n + k \<and> b # bs = replicate k True @ replicate (length (b # bs) - k) False) \<longleftrightarrow>
        (\<exists>k \<le> length bs. m = n + 1 + k \<and> bs = replicate k True @ replicate (length bs - k) False)" (is "?l \<longleftrightarrow> ?r")
    proof
      assume ?l
      then obtain k where k: "k \<le> length (b # bs)" "m = n + k" "b # bs = replicate k True @ replicate (length (b # bs) - k) False" by blast
      then obtain j where "k = Suc j" using True by (cases k) auto
      then show ?r using k by auto
    next
      assume ?r
      then obtain k where "k \<le> length bs" "m = n + 1 + k" "bs = replicate k True @ replicate (length bs - k) False" by blast
      then show ?l using True by (intro exI[of _ "Suc k"]) auto
    qed
    then show ?thesis using True Cons by simp
  next
    case False
    have "(\<exists>k \<le> length (b # bs). m = n + k \<and> b # bs = replicate k True @ replicate (length (b # bs) - k) False) \<longleftrightarrow>
        m = n \<and> True \<notin> set bs" (is "?l \<longleftrightarrow> ?r")
    proof
      assume ?l
      then obtain k where k: "m = n + k" "b # bs = replicate k True @ replicate (length (b # bs) - k) False" by blast
      moreover have "k = 0" using k False by (cases k) auto
      ultimately have "m = n" "bs = replicate (length bs) False" by auto
      then show ?r by (metis in_set_replicate)
    next
      assume r: ?r
      then have "bs = replicate (length bs) False" by (intro replicate_eqI) auto
      then show ?l using r False by (intro exI[of _ 0]) auto
    qed
    then show ?thesis using False by (auto simp: prefix_bits_zeros)
  qed
qed auto

lemma address_bits: "concat (map octet_bits (be32 a)) = map (bit a) (rev [0..<32])"
proof -
  have u: "rev [0..<8] = [7, 6, 5, 4, 3, 2, 1, 0]" "rev [0..<32] = map (\<lambda>k. k + 24) [7, 6, 5, 4, 3, 2, 1, 0] @
      map (\<lambda>k. k + 16) [7, 6, 5, 4, 3, 2, 1, 0] @ map (\<lambda>k. k + 8) [7, 6, 5, 4, 3, 2, 1, 0] @ [7, 6, 5, 4, 3, 2, 1, 0]"
    by (simp_all add: upt_conv_Cons)
  show ?thesis unfolding octet_bits_def u be32_def by (simp add: bit_simps)
qed

text \<open>A mask is recognised exactly when it is the netmask of some prefix length.\<close>

lemma prefix_len_mask: "prefix_len a = Some p \<longleftrightarrow> p \<le> 32 \<and> a = netmask (x, p)"
proof -
  let ?bs = "map (bit a) (rev [0..<32])"
  have n: "?bs ! i = bit a (31 - i)" if "i < 32" for i using that by (simp add: rev_nth)
  have "prefix_len a = Some p \<longleftrightarrow> p \<le> 32 \<and> ?bs = replicate p True @ replicate (32 - p) False"
    unfolding prefix_len_def address_bits prefix_bits_ones by simp
  also have "\<dots> \<longleftrightarrow> p \<le> 32 \<and> (\<forall>i < 32. bit a (31 - i) = (i < p))"
  proof -
    have r: "(replicate p True @ replicate (32 - p) False) ! i = (i < p)" if "i < 32" for i
      using that by (simp add: nth_append)
    have "?bs = replicate p True @ replicate (32 - p) False \<longleftrightarrow> (\<forall>i < 32. ?bs ! i = (replicate p True @ replicate (32 - p) False) ! i)"
      if "p \<le> 32" using that by (subst list_eq_iff_nth_eq) simp
    also have "\<dots> \<longleftrightarrow> (\<forall>i < 32. bit a (31 - i) = (i < p))"
      by (intro all_cong1 imp_cong refl) (simp only: n r)
    finally show ?thesis by (simp cong: conj_cong)
  qed
  also have "\<dots> \<longleftrightarrow> p \<le> 32 \<and> (\<forall>j < 32. bit a j = (32 - p \<le> j))"
  proof -
    have "bit a j = (32 - p \<le> j)" if "\<forall>i < 32. bit a (31 - i) = (i < p)" "j < 32" "p \<le> 32" for j
      using that(1)[rule_format, of "31 - j"] that(2,3) by auto
    moreover have "bit a (31 - i) = (i < p)" if "\<forall>j < 32. bit a j = (32 - p \<le> j)" "i < 32" "p \<le> 32" for i
      using that(1)[rule_format, of "31 - i"] that(2,3) by auto
    ultimately show ?thesis by blast
  qed
  also have "\<dots> \<longleftrightarrow> p \<le> 32 \<and> a = netmask (x, p)"
    by (intro conj_cong refl) (auto simp: bit_eq_iff bit_netmask dest: bit_imp_le_length)
  finally show ?thesis .
qed

lemma lease_length_bound: "lease_length m r < 2 ^ 53"
proof -
  have "unat n * 1000000 < 2 ^ 53" for n :: u32 using unsigned_less[of n, where 'a = nat] by simp
  then have "(case lease_duration r of Some n \<Rightarrow> duration_from_secs (unat n) | None \<Rightarrow> duration_from_secs 120) < 2 ^ 53"
    by (cases "lease_duration r") (auto simp: duration_from_secs_def wrap_u64_def intro: order.strict_trans1[OF mod_less_eq_dividend])
  then show ?thesis by (auto simp: lease_length_def Let_def split: option.split)
qed

lemma lease_times_ordered:
  assumes "lease < 2 ^ 53" "lease_times lease t1 t2 = (a, b)"
  shows "a \<le> b \<and> b \<le> lease"
proof -
  have m: "duration_mul lease 7 = lease * 7" "\<And>k. duration_mul (lease - k) 3 = (lease - k) * 3"
    using assms(1) by (simp_all add: duration_mul_def)
  have s: "duration_add k ((lease - k) * 3 div 4) = k + (lease - k) * 3 div 4" if "k < lease" for k
  proof -
    have "(lease - k) * 3 div 4 \<le> lease - k" by simp
    then have "k + (lease - k) * 3 div 4 < 2 ^ 64" using assms(1) that by simp
    then show ?thesis unfolding duration_add_def by (rule wrap_u64_id)
  qed
  show ?thesis
    using assms(2) unfolding lease_times_def m Let_def by (auto simp: s split: option.splits if_splits)
qed

end
