(* ===== verification/Dhcp_Lease.thy ===== *)
theory Dhcp_Lease
  imports Dhcp_Client
begin

text \<open>
  Runs of the DHCP client: any sequence of its operations at any instants, on a network that delivers
  arbitrary messages, with the history of what it heard and sent.  Shown: the times of a lease are ordered
  and a lease is given up when it expires, a configuration is only reported for an acknowledgement that
  was heard after an offer, a client that is answered is configured by one exchange, and one that is not
  answered returns to discovery after five requests.
\<close>

section \<open>Runs\<close>

datatype dhcp_trace = Heard ip_addr dhcp_repr | Told dhcp_packet

definition heard :: "ip_addr \<Rightarrow> dhcp_repr option \<Rightarrow> dhcp_trace list" where
  "heard src parsed = (case parsed of Some r \<Rightarrow> [Heard src r] | None \<Rightarrow> [])"

definition told :: "dhcp_sent \<Rightarrow> dhcp_trace list" where
  "told out = (case out of Sent p \<Rightarrow> [Told p] | _ \<Rightarrow> [])"

definition clock_ok :: "iface_context \<Rightarrow> bool" where
  "clock_ok cx \<longleftrightarrow> 0 \<le> cx_now cx \<and> cx_now cx < 2 ^ 62"

text \<open>The latest entry of the history comes first.\<close>

inductive dhcp_run :: "mac \<Rightarrow> dhcp_trace list \<Rightarrow> dhcp_socket \<Rightarrow> bool" for hw where
  run_new: "dhcp_run hw [] dhcp_new"
| run_process: "dhcp_run hw h s \<Longrightarrow> clock_ok cx \<Longrightarrow> dhcp_process cx hw src sport dport data parsed s = Some s' \<Longrightarrow>
    dhcp_run hw (heard src parsed @ h) s'"
| run_dispatch: "dhcp_run hw h s \<Longrightarrow> clock_ok cx \<Longrightarrow> dhcp_dispatch cx hw emit s = (out, s', cx') \<Longrightarrow>
    dhcp_run hw (told out @ h) s'"
| run_poll: "dhcp_run hw h s \<Longrightarrow> dhcp_poll s = (ev, s') \<Longrightarrow> dhcp_run hw h s'"
| run_reset: "dhcp_run hw h s \<Longrightarrow> dhcp_run hw h (dhcp_reset s)"
| run_set: "dhcp_run hw h s \<Longrightarrow> s' \<in> {set_outgoing_options os s, set_receive_packet_buffer b s, set_parameter_request_list l s,
    set_max_lease_duration d s, set_ignore_naks i s, set_ports sp cp s} \<Longrightarrow> dhcp_run hw h s'"
| run_retries: "dhcp_run hw h s \<Longrightarrow> min_renew_timeout c \<le> 2 ^ 60 \<Longrightarrow> dhcp_run hw h (set_retry_config c s)"

section \<open>What a run keeps\<close>

definition lease_ok :: "renew_state \<Rightarrow> bool" where
  "lease_ok n \<longleftrightarrow> 0 \<le> rn_renew_at n \<and> rn_renew_at n \<le> rn_rebind_at n \<and> (\<not> rn_rebinding n \<longrightarrow> rn_rebind_at n \<le> rn_expires_at n) \<and>
     rn_expires_at n < 2 ^ 62 + 2 ^ 53"

text \<open>An offer of this server for this client was heard.\<close>

definition offered :: "mac \<Rightarrow> dhcp_trace list \<Rightarrow> server_info \<Rightarrow> bool" where
  "offered hw h srv \<longleftrightarrow> (\<exists>r. Heard (srv_address srv) r \<in> set h \<and> message_type r = Offer \<and> client_hardware_address r = hw \<and>
     server_identifier r = Some (srv_identifier srv) \<and> addr_unicast (your_ip r))"

definition known_xid :: "dhcp_trace list \<Rightarrow> u32 \<Rightarrow> bool" where
  "known_xid h x \<longleftrightarrow> x = 1 \<or> (\<exists>p. Told p \<in> set h \<and> dhcp_xid (pk_repr p) = x)"

text \<open>The acknowledgement that grants a configuration, in reply to one of this client's messages.\<close>

definition acknowledges :: "mac \<Rightarrow> dhcp_trace list \<Rightarrow> dhcp_repr \<Rightarrow> dhcp_config \<Rightarrow> bool" where
  "acknowledges hw h r c \<longleftrightarrow> message_type r = Ack \<and> client_hardware_address r = hw \<and> known_xid h (dhcp_xid r) \<and>
     server_identifier r \<noteq> None \<and> addr_unicast (your_ip r) \<and> fst (cfg_address c) = your_ip r \<and>
     snd (cfg_address c) \<le> 32 \<and> subnet_mask r = Some (netmask (cfg_address c)) \<and> cfg_router c = dhcp_router r"

definition granted :: "mac \<Rightarrow> dhcp_trace list \<Rightarrow> dhcp_config \<Rightarrow> bool" where
  "granted hw h c \<longleftrightarrow> (\<exists>h2 src r h1. h = h2 @ Heard src r # h1 \<and> offered hw h1 (cfg_server c) \<and> acknowledges hw h1 r c)"

definition dhcp_ok :: "mac \<Rightarrow> dhcp_trace list \<Rightarrow> dhcp_socket \<Rightarrow> bool" where
  "dhcp_ok hw h s \<longleftrightarrow> min_renew_timeout (ds_retry_config s) \<le> 2 ^ 60 \<and> known_xid h (ds_transaction_id s) \<and>
     (case ds_state s of
        Discovering _ \<Rightarrow> True
      | Requesting q \<Rightarrow> offered hw h (rq_server q)
      | Renewing n \<Rightarrow> lease_ok n \<and> granted hw h (rn_config n))"

lemma offered_mono: "offered hw h srv \<Longrightarrow> offered hw (h' @ h) srv"
  by (auto simp: offered_def)

lemma known_xid_mono: "known_xid h x \<Longrightarrow> known_xid (h' @ h) x"
  by (auto simp: known_xid_def)

lemma granted_mono: "granted hw h c \<Longrightarrow> granted hw (h' @ h) c"
  unfolding granted_def by (metis append_assoc)

lemma dhcp_ok_mono: "dhcp_ok hw h s \<Longrightarrow> dhcp_ok hw (h' @ h) s"
  by (auto simp: dhcp_ok_def offered_mono known_xid_mono granted_mono split: client_state.split)

lemma dhcp_ok_new: "dhcp_ok hw [] dhcp_new"
  by (simp add: dhcp_ok_def dhcp_new_def retry_default_def known_xid_def duration_from_secs_def wrap_u64_def)

lemma dhcp_ok_reset: "dhcp_ok hw h s \<Longrightarrow> dhcp_ok hw h (dhcp_reset s)"
  by (auto simp: dhcp_ok_def dhcp_reset_def Let_def split: client_state.splits)

text \<open>A configuration that \<open>parse_ack\<close> accepts.\<close>

lemma parse_ack_ok:
  assumes "parse_ack now r m srv = Some (c, renew, rebind, expires)" "0 \<le> now" "now < 2 ^ 62"
  shows "cfg_server c = srv" "addr_unicast (your_ip r)" "fst (cfg_address c) = your_ip r" "snd (cfg_address c) \<le> 32"
    "subnet_mask r = Some (netmask (cfg_address c))" "cfg_router c = dhcp_router r"
    "lease_ok \<lparr>rn_config = c', rn_renew_at = renew, rn_rebind_at = rebind, rn_rebinding = b, rn_expires_at = expires\<rparr>"
proof -
  obtain mask plen where p: "subnet_mask r = Some mask" "prefix_len mask = Some plen"
    using assms(1) by (auto simp: parse_ack_def split: Option.bind_splits)
  obtain d1 d2 where d: "lease_times (lease_length m r) (map_option (\<lambda>d. duration_from_secs (unat d)) (renew_duration r))
      (map_option (\<lambda>d. duration_from_secs (unat d)) (rebind_duration r)) = (d1, d2)" by force
  have le: "d1 \<le> d2 \<and> d2 \<le> lease_length m r" by (rule lease_times_ordered[OF lease_length_bound d])
  have b: "lease_length m r < 2 ^ 53" by (rule lease_length_bound)
  have i: "instant_add now d = now + int d" if "d \<le> lease_length m r" for d
    using that b assms(2,3) by (intro instant_add_exact) (auto simp: i64_range_def)
  have u: "addr_unicast (your_ip r)" using assms(1) p by (auto simp: parse_ack_def assert_that_def split: if_splits)
  then show "addr_unicast (your_ip r)" .
  show "cfg_server c = srv" "fst (cfg_address c) = your_ip r" "cfg_router c = dhcp_router r"
    using assms(1) p u by (auto simp: parse_ack_def d Let_def)
  have a: "cfg_address c = (your_ip r, plen)" using assms(1) p u by (auto simp: parse_ack_def d Let_def)
  show "snd (cfg_address c) \<le> 32" "subnet_mask r = Some (netmask (cfg_address c))"
    using p prefix_len_mask[of mask plen "your_ip r"] by (simp_all add: a)
  have "renew = instant_add now d1" "rebind = instant_add now d2" "expires = instant_add now (lease_length m r)"
    using assms(1) p u by (auto simp: parse_ack_def d Let_def)
  then show "lease_ok \<lparr>rn_config = c', rn_renew_at = renew, rn_rebind_at = rebind, rn_rebinding = b, rn_expires_at = expires\<rparr>"
    using le b assms(2,3) by (auto simp: lease_ok_def i)
qed

lemma dhcp_ok_frame:
  "dhcp_ok hw h s \<Longrightarrow> ds_state s' = ds_state s \<Longrightarrow> ds_transaction_id s' = ds_transaction_id s \<Longrightarrow> ds_retry_config s' = ds_retry_config s \<Longrightarrow>
   dhcp_ok hw h s'"
  by (simp add: dhcp_ok_def)

lemma granted_now:
  assumes "offered hw h (cfg_server c)" "known_xid h (dhcp_xid r)" "client_hardware_address r = hw" "message_type r = Ack"
    "server_identifier r = Some i" "parse_ack now r m (cfg_server c) = Some (c, renew, rebind, expires)" "0 \<le> now" "now < 2 ^ 62"
  shows "granted hw (Heard src r # h) c"
proof -
  have "acknowledges hw h r c" using parse_ack_ok[OF assms(6-8)] assms(2-5) by (simp add: acknowledges_def)
  then show ?thesis unfolding granted_def using assms(1) by (metis append_Nil)
qed

lemma dhcp_ok_message:
  assumes ok: "dhcp_ok hw h s" and now: "0 \<le> now" "now < 2 ^ 62" and hw: "client_hardware_address r = hw"
    and x: "dhcp_xid r = ds_transaction_id s" and i: "server_identifier r = Some i"
  shows "dhcp_ok hw (Heard src r # h) (process_message now src i r s)"
proof -
  have keep: "dhcp_ok hw (Heard src r # h) s" using dhcp_ok_mono[OF ok, of "[Heard src r]"] by simp
  have k: "known_xid h (dhcp_xid r)" "min_renew_timeout (ds_retry_config s) \<le> 2 ^ 60" "known_xid (Heard src r # h) (ds_transaction_id s)"
    using ok keep x by (auto simp: dhcp_ok_def)
  show ?thesis
  proof (cases "ds_state s")
    case (Discovering t)
    have "offered hw (Heard src r # h) \<lparr>srv_address = src, srv_identifier = i\<rparr>" if "message_type r = Offer" "addr_unicast (your_ip r)"
      using that hw i unfolding offered_def by (intro exI[of _ r]) simp
    then show ?thesis using keep k(2,3) Discovering
      by (cases "message_type r") (auto simp: process_message_def dhcp_ok_def)
  next
    case (Requesting q)
    then have o: "offered hw h (rq_server q)" using ok by (simp add: dhcp_ok_def)
    show ?thesis
    proof (cases "message_type r = Ack \<and> parse_ack now r (ds_max_lease_duration s) (rq_server q) \<noteq> None")
      case True
      then obtain c t1 t2 t3 where p: "parse_ack now r (ds_max_lease_duration s) (rq_server q) = Some (c, t1, t2, t3)" by auto
      have srv: "cfg_server c = rq_server q" by (rule parse_ack_ok(1)[OF p now])
      have "granted hw (Heard src r # h) c"
        using granted_now[of hw h c r, OF _ k(1) hw _ i p[folded srv] now] o True srv by simp
      then show ?thesis using Requesting True p k(2,3) parse_ack_ok(7)[OF p now] by (simp add: process_message_def dhcp_ok_def)
    next
      case False
      then show ?thesis using Requesting keep dhcp_ok_reset[OF keep]
        by (cases "message_type r") (auto simp: process_message_def split: option.split)
    qed
  next
    case (Renewing n)
    then have g: "granted hw h (rn_config n)" using ok by (simp add: dhcp_ok_def)
    then have o: "offered hw h (cfg_server (rn_config n))"
      unfolding granted_def using offered_mono by (metis append.assoc append_Cons append_Nil)
    show ?thesis
    proof (cases "message_type r = Ack \<and> parse_ack now r (ds_max_lease_duration s) (cfg_server (rn_config n)) \<noteq> None")
      case True
      then obtain c t1 t2 t3 where p: "parse_ack now r (ds_max_lease_duration s) (cfg_server (rn_config n)) = Some (c, t1, t2, t3)" by auto
      have srv: "cfg_server c = cfg_server (rn_config n)" by (rule parse_ack_ok(1)[OF p now])
      have "granted hw (Heard src r # h) c"
        using granted_now[of hw h c r, OF _ k(1) hw _ i p[folded srv] now] o True srv by simp
      moreover have "lease_ok (n\<lparr>rn_renew_at := t1, rn_rebind_at := t2, rn_rebinding := False, rn_expires_at := t3, rn_config := c\<rparr>)"
        using parse_ack_ok(7)[OF p now, of c False] by (simp add: lease_ok_def)
      ultimately show ?thesis using Renewing True p k(2,3) by (simp add: process_message_def dhcp_ok_def Let_def)
    next
      case False
      then show ?thesis using Renewing keep dhcp_ok_reset[OF keep]
        by (cases "message_type r") (auto simp: process_message_def split: option.split)
    qed
  qed
qed

lemma dhcp_ok_process:
  assumes ok: "dhcp_ok hw h s" and cx: "clock_ok cx" and p: "dhcp_process cx hw src sport dport data parsed s = Some s'"
  shows "dhcp_ok hw (heard src parsed @ h) s'"
proof (cases parsed)
  case None
  then show ?thesis using ok p by (auto simp: dhcp_process_def heard_def assert_that_def split: if_splits)
next
  case (Some r)
  have keep: "dhcp_ok hw (Heard src r # h) s" using dhcp_ok_mono[OF ok, of "[Heard src r]"] by simp
  have st: "dhcp_ok hw h (store_packet data s)" "ds_transaction_id (store_packet data s) = ds_transaction_id s"
    by (rule dhcp_ok_frame[OF ok]) (auto simp: store_packet_def split: option.split)
  show ?thesis
  proof (cases "client_hardware_address r = hw \<and> dhcp_xid r = ds_transaction_id s \<and> server_identifier r \<noteq> None")
    case True
    then obtain i where i: "server_identifier r = Some i" by auto
    have "s' = process_message (cx_now cx) src i r (store_packet data s)"
      using p Some True i by (auto simp: dhcp_process_def assert_that_def split: if_splits)
    then show ?thesis
      using dhcp_ok_message[OF st(1), of "cx_now cx" r i src] cx True i st(2) Some by (simp add: heard_def clock_ok_def)
  next
    case False
    then have "s' = s" using p Some by (auto simp: dhcp_process_def assert_that_def split: if_splits option.splits)
    then show ?thesis using keep Some by (simp add: heard_def)
  qed
qed

text \<open>The times after a renewal message that was due.\<close>

lemma lease_ok_backoff:
  assumes "lease_ok n" "0 \<le> now" "now < 2 ^ 62" "now < rn_expires_at n" "rn_renew_at n \<le> now"
    "rn_rebinding n \<longrightarrow> rn_rebind_at n \<le> now" "min_renew_timeout c \<le> 2 ^ 60"
    and n1: "n1 = n\<lparr>rn_rebinding := rn_rebinding n \<or> rn_rebind_at n \<le> now\<rparr>"
  shows "lease_ok (renew_backoff now c n1)"
proof (cases "rn_rebinding n1")
  case True
  define d where "d = min (max (min_renew_timeout c) (instant_diff (rn_expires_at n) now div 2)) (max_renew_timeout c)"
  have "instant_diff (rn_expires_at n) now = nat (rn_expires_at n - now)"
    using assms(1,2,4) by (subst instant_diff_exact) (auto simp: i64_range_def lease_ok_def)
  moreover have "nat (rn_expires_at n - now) \<le> 2 ^ 63" using assms(1,2) by (simp add: lease_ok_def nat_le_iff)
  ultimately have "instant_diff (rn_expires_at n) now div 2 \<le> 2 ^ 62" by simp
  then have "d \<le> 2 ^ 62" using assms(7) unfolding d_def by (simp add: min.coboundedI1)
  then have "instant_add now d = now + int d" using assms(2,3) by (intro instant_add_exact) (auto simp: i64_range_def)
  moreover have "rn_renew_at n \<le> now" using assms(5) .
  ultimately show ?thesis using True assms(1) n1 by (auto simp: renew_backoff_def lease_ok_def d_def[symmetric])
next
  case False
  then have f: "\<not> rn_rebinding n" "now < rn_rebind_at n" using n1 by auto
  define d where "d = min (min (max (min_renew_timeout c) (instant_diff (rn_rebind_at n) now div 2))
                       (instant_diff (rn_rebind_at n) now)) (max_renew_timeout c)"
  have "instant_diff (rn_rebind_at n) now = nat (rn_rebind_at n - now)"
    using assms(1,2) f by (subst instant_diff_exact) (auto simp: i64_range_def lease_ok_def)
  then have "int d \<le> rn_rebind_at n - now" using f(2) by (auto simp: d_def)
  moreover from this have "instant_add now d = now + int d" using assms(1-4) f by (intro instant_add_exact) (auto simp: i64_range_def lease_ok_def)
  ultimately show ?thesis using False f assms(1,2) n1 by (auto simp: renew_backoff_def lease_ok_def d_def[symmetric])
qed

lemma random_id_now: "cx_now (snd (random_transaction_id cx)) = cx_now cx"
  by (simp add: random_transaction_id_def split: prod.split)

lemma dhcp_ok_dispatch:
  assumes ok: "dhcp_ok hw h s" and cx: "clock_ok cx" and d: "dhcp_dispatch cx hw emit s = (out, s', cx')"
  shows "dhcp_ok hw (told out @ h) s'"
proof -
  obtain xid cx1 where x: "random_transaction_id cx = (xid, cx1)" by force
  have m: "min_renew_timeout (ds_retry_config s) \<le> 2 ^ 60" "known_xid h (ds_transaction_id s)" using ok by (auto simp: dhcp_ok_def)
  have keep: "dhcp_ok hw (told out @ h) s" "dhcp_ok hw (told out @ h) (dhcp_reset s)"
    by (rule dhcp_ok_mono[OF ok], rule dhcp_ok_mono[OF dhcp_ok_reset[OF ok]])
  have sent: "known_xid (told (Sent p) @ h) (dhcp_xid (pk_repr p))" for p by (auto simp: known_xid_def told_def)
  show ?thesis
  proof (cases "ds_state s")
    case (Discovering t)
    have "out = Sent p \<Longrightarrow> known_xid (told out @ h) (dhcp_xid (pk_repr p))" for p using sent by simp
    then show ?thesis
      using d keep(1) m(1) unfolding dhcp_dispatch_def Let_def Discovering x
      by (auto simp: dhcp_ok_def packet_for_def split: if_splits)
  next
    case (Requesting q)
    have o: "offered hw (told out @ h) (rq_server q)" using keep(1) Requesting by (simp add: dhcp_ok_def)
    show ?thesis
      using d keep m(1) o unfolding dhcp_dispatch_def Let_def Requesting
      by (auto simp: dhcp_ok_def split: if_splits)
  next
    case (Renewing n)
    let ?n = "n\<lparr>rn_rebinding := rn_rebinding n \<or> rn_rebind_at n \<le> cx_now cx\<rparr>"
    have l: "lease_ok n" "granted hw (told out @ h) (rn_config n)" using keep(1) Renewing by (simp_all add: dhcp_ok_def)
    show ?thesis
    proof (cases "rn_expires_at n \<le> cx_now cx \<or> cx_now cx < rn_renew_at n \<or> rn_rebinding n \<and> cx_now cx < rn_rebind_at n")
      case True
      then show ?thesis using d keep unfolding dhcp_dispatch_def Let_def Renewing by (auto split: if_splits)
    next
      case False
      have b: "lease_ok (renew_backoff (cx_now cx) (ds_retry_config s) ?n)"
        by (rule lease_ok_backoff[OF l(1) _ _ _ _ _ m(1) refl]) (use cx False in \<open>auto simp: clock_ok_def\<close>)
      have c: "rn_config (renew_backoff (cx_now cx) (ds_retry_config s) ?n) = rn_config n" by (simp add: renew_backoff_def)
      have n: "lease_ok ?n" using l(1) by (auto simp: lease_ok_def)
      have k: "out = Sent p \<Longrightarrow> known_xid (told out @ h) (dhcp_xid (pk_repr p))" for p using sent by simp
      show ?thesis
        using d False keep(1) k m(1) l(2) b c n unfolding dhcp_dispatch_def Let_def Renewing x
        by (auto simp: dhcp_ok_def packet_for_def split: if_splits)
    qed
  qed
qed

lemma dhcp_ok_run: "dhcp_run hw h s \<Longrightarrow> dhcp_ok hw h s"
proof (induction rule: dhcp_run.induct)
  case (run_poll h s ev s')
  then show ?case by (intro dhcp_ok_frame[OF run_poll.IH]) (auto simp: dhcp_poll_def split: if_splits client_state.splits)
next
  case (run_set h s s' os b l d i sp cp)
  then show ?case by (intro dhcp_ok_frame[OF run_set.IH])
      (auto simp: set_outgoing_options_def set_receive_packet_buffer_def set_parameter_request_list_def
        set_max_lease_duration_def set_ignore_naks_def set_ports_def)
next
  case (run_retries h s c)
  then show ?case by (simp add: dhcp_ok_def set_retry_config_def)
qed (auto intro: dhcp_ok_new dhcp_ok_process dhcp_ok_dispatch dhcp_ok_reset)

section \<open>One exchange\<close>

text \<open>A message for this client about the exchange \<open>xid\<close>.\<close>

definition addressed :: "mac \<Rightarrow> u32 \<Rightarrow> ip_addr \<Rightarrow> dhcp_repr \<Rightarrow> bool" where
  "addressed hw xid i r \<longleftrightarrow> client_hardware_address r = hw \<and> dhcp_xid r = xid \<and> server_identifier r = Some i"

lemma process_addressed:
  assumes "addressed hw (ds_transaction_id s) i r"
  shows "dhcp_process cx hw src (ds_server_port s) (ds_client_port s) data (Some r) s =
    Some (process_message (cx_now cx) src i r (store_packet data s))"
  using assms by (simp add: dhcp_process_def addressed_def)

lemma store_packet_frame [simp]:
  "ds_state (store_packet data s) = ds_state s" "ds_transaction_id (store_packet data s) = ds_transaction_id s"
  "ds_server_port (store_packet data s) = ds_server_port s" "ds_client_port (store_packet data s) = ds_client_port s"
  "ds_retry_config (store_packet data s) = ds_retry_config s" "ds_max_lease_duration (store_packet data s) = ds_max_lease_duration s"
  by (auto simp: store_packet_def split: option.split)

lemma discover_sent:
  assumes "ds_state s = Discovering t" "t \<le> cx_now cx"
  obtains p s1 cx1 where "dhcp_dispatch cx hw (\<lambda>_. True) s = (Sent p, s1, cx1)" "message_type (pk_repr p) = Discover"
    "pk_dst p = 0xffffffff" "ds_transaction_id s1 = dhcp_xid (pk_repr p)" "ds_state s1 = Discovering (instant_add (cx_now cx) (discover_timeout (ds_retry_config s)))"
    "ds_server_port s1 = ds_server_port s" "ds_client_port s1 = ds_client_port s" "ds_retry_config s1 = ds_retry_config s"
proof -
  obtain xid cx1 where x: "random_transaction_id cx = (xid, cx1)" by force
  let ?p = "packet_for s 0 0xffffffff ((dhcp_base_repr cx hw s)\<lparr>dhcp_xid := xid\<rparr>)"
  let ?s = "s\<lparr>ds_state := Discovering (instant_add (cx_now cx) (discover_timeout (ds_retry_config s))), ds_transaction_id := xid\<rparr>"
  have "dhcp_dispatch cx hw (\<lambda>_. True) s = (Sent ?p, ?s, cx1)"
    using assms x by (simp add: dhcp_dispatch_def Let_def)
  then show thesis by (rule that) (simp_all add: packet_for_def dhcp_base_repr_def)
qed

lemma request_sent:
  assumes "ds_state s = Requesting q" "rq_retry_at q \<le> cx_now cx" "rq_retry q < request_retries (ds_retry_config s)"
  obtains p q' where "dhcp_dispatch cx hw (\<lambda>_. True) s = (Sent p, s\<lparr>ds_state := Requesting q'\<rparr>, cx)"
    "message_type (pk_repr p) = Request" "requested_ip (pk_repr p) = Some (rq_requested_ip q)"
    "server_identifier (pk_repr p) = Some (srv_identifier (rq_server q))" "dhcp_xid (pk_repr p) = ds_transaction_id s"
    "rq_server q' = rq_server q" "rq_retry q' = rq_retry q + 1"
    "rq_retry_at q' = instant_add (cx_now cx) (duration_shl (initial_request_timeout (ds_retry_config s)) (unat (rq_retry q) div 2))"
proof -
  let ?q = "q\<lparr>rq_retry_at := instant_add (cx_now cx) (duration_shl (initial_request_timeout (ds_retry_config s)) (unat (rq_retry q) div 2)),
      rq_retry := rq_retry q + 1\<rparr>"
  let ?p = "packet_for s 0 0xffffffff ((dhcp_base_repr cx hw s)\<lparr>message_type := Request, requested_ip := Some (rq_requested_ip q),
                         server_identifier := Some (srv_identifier (rq_server q))\<rparr>)"
  have "dhcp_dispatch cx hw (\<lambda>_. True) s = (Sent ?p, s\<lparr>ds_state := Requesting ?q\<rparr>, cx)"
    using assms by (simp add: dhcp_dispatch_def Let_def)
  then show thesis by (rule that) (simp_all add: packet_for_def dhcp_base_repr_def)
qed

text \<open>A client that hears nothing, dispatched each time at the instant it asks for: when it sends, and what
  becomes of it.\<close>

fun left_alone :: "nat \<Rightarrow> mac \<Rightarrow> iface_context \<Rightarrow> dhcp_socket \<Rightarrow> instant list \<times> dhcp_socket" where
  "left_alone 0 hw cx s = ([], s)"
| "left_alone (Suc n) hw cx s =
     (let t = dhcp_poll_at s;
          (out, s1, cx1) = dhcp_dispatch (cx\<lparr>cx_now := t\<rparr>) hw (\<lambda>_. True) s;
          (ts, s2) = left_alone n hw cx1 s1
      in ((case out of Sent _ \<Rightarrow> t # ts | _ \<Rightarrow> ts), s2))"

definition requesting :: "nat \<Rightarrow> instant \<Rightarrow> dhcp_socket \<Rightarrow> bool" where
  "requesting k t s \<longleftrightarrow> ds_retry_config s = retry_default \<and>
     (\<exists>q. ds_state s = Requesting q \<and> rq_retry q = of_nat k \<and> rq_retry_at q = t)"

lemma left_alone_step:
  assumes "requesting k t s" "k < 5" "0 \<le> t" "t < 2 ^ 62"
    and "k' = k + 1" "t' = t + 5000000 * 2 ^ (k div 2)"
  shows "\<exists>s' cx'. requesting k' t' s' \<and>
    (\<forall>n. left_alone (Suc n) hw cx s = (t # fst (left_alone n hw cx' s'), snd (left_alone n hw cx' s')))"
proof -
  obtain q where q: "ds_state s = Requesting q" "rq_retry q = of_nat k" "rq_retry_at q = t" "ds_retry_config s = retry_default"
    using assms(1) by (auto simp: requesting_def)
  let ?cx = "cx\<lparr>cx_now := t\<rparr>"
  have k: "k = 0 \<or> k = 1 \<or> k = 2 \<or> k = 3 \<or> k = 4" using assms(2) by auto
  then have u: "unat (rq_retry q) = k" and r: "rq_retry q < request_retries (ds_retry_config s)"
    using q(2,4) by (auto simp: retry_default_def)
  have due: "rq_retry_at q \<le> cx_now ?cx" using q(3) by simp
  obtain p q' where d: "dhcp_dispatch ?cx hw (\<lambda>_. True) s = (Sent p, s\<lparr>ds_state := Requesting q'\<rparr>, ?cx)"
    "rq_retry q' = rq_retry q + 1"
    "rq_retry_at q' = instant_add t (duration_shl (initial_request_timeout (ds_retry_config s)) (unat (rq_retry q) div 2))"
    using request_sent[OF q(1) due r, of hw] by (metis iface_context.select_convs(1) iface_context.surjective iface_context.update_convs(1))
  have "duration_shl (initial_request_timeout (ds_retry_config s)) (k div 2) = 5000000 * 2 ^ (k div 2)"
    using k q(4) by (auto simp: retry_default_def duration_shl_def duration_from_secs_def wrap_u64_def push_bit_eq_mult)
  moreover have "instant_add t (5000000 * 2 ^ (k div 2)) = t + 5000000 * 2 ^ (k div 2)"
    using k assms(3,4) by (subst instant_add_exact) (auto simp: i64_range_def)
  ultimately have "requesting (k + 1) (t + 5000000 * 2 ^ (k div 2)) (s\<lparr>ds_state := Requesting q'\<rparr>)"
    using d(2,3) q(2,4) u by (simp add: requesting_def add.commute)
  moreover have "dhcp_poll_at s = t" using q by (simp add: dhcp_poll_at_def)
  ultimately show ?thesis using d(1)
    by (intro exI[of _ "s\<lparr>ds_state := Requesting q'\<rparr>"] exI[of _ ?cx]) (simp add: assms(5,6) case_prod_unfold Let_def)
qed

declare left_alone.simps(2) [simp del]

lemma left_alone_last:
  assumes "requesting 5 t s"
  shows "\<exists>s' u. left_alone (Suc 0) hw cx s = ([], s') \<and> ds_state s' = Discovering u"
  using assms by (auto simp: left_alone.simps(2) requesting_def dhcp_poll_at_def dhcp_dispatch_def Let_def retry_default_def dhcp_reset_def)

text \<open>An offer that can be taken, an acknowledgement that can be used, and what a client makes of the latter.\<close>

definition usable_offer :: "mac \<Rightarrow> u32 \<Rightarrow> ip_addr \<Rightarrow> dhcp_repr \<Rightarrow> bool" where
  "usable_offer hw xid i r \<longleftrightarrow> addressed hw xid i r \<and> message_type r = Offer \<and> addr_unicast (your_ip r)"

definition usable_ack :: "mac \<Rightarrow> u32 \<Rightarrow> nat \<Rightarrow> dhcp_repr \<Rightarrow> bool" where
  "usable_ack hw xid plen r \<longleftrightarrow> (\<exists>i. addressed hw xid i r) \<and> message_type r = Ack \<and> addr_unicast (your_ip r) \<and>
     plen \<le> 32 \<and> subnet_mask r = Some (netmask (your_ip r, plen))"

definition configured_by :: "mac \<Rightarrow> server_info \<Rightarrow> nat \<Rightarrow> dhcp_repr \<Rightarrow> dhcp_socket \<Rightarrow> bool" where
  "configured_by hw srv plen r s \<longleftrightarrow> (\<forall>cx src d. \<exists>s' c.
     dhcp_process cx hw src (ds_server_port s) (ds_client_port s) d (Some r) s = Some s' \<and>
     fst (dhcp_poll s') = Some (dhcp_notice.Configured c) \<and> cfg_address c = (your_ip r, plen) \<and>
     cfg_router c = dhcp_router r \<and> cfg_server c = srv)"

lemma parse_ack_usable:
  assumes "addr_unicast (your_ip r)" "plen \<le> 32" "subnet_mask r = Some (netmask (your_ip r, plen))"
  obtains c t1 t2 t3 where "parse_ack now r m srv = Some (c, t1, t2, t3)"
    "cfg_address c = (your_ip r, plen)" "cfg_router c = dhcp_router r" "cfg_server c = srv"
proof -
  have "prefix_len (netmask (your_ip r, plen)) = Some plen" using prefix_len_mask[of _ plen "your_ip r"] assms(2) by simp
  moreover obtain d1 d2 where "lease_times (lease_length m r) (map_option (\<lambda>d. duration_from_secs (unat d)) (renew_duration r))
      (map_option (\<lambda>d. duration_from_secs (unat d)) (rebind_duration r)) = (d1, d2)" by force
  ultimately show thesis using that assms(1,3) by (simp add: parse_ack_def Let_def)
qed

lemma ack_configures:
  assumes "ds_state s = Requesting q" "usable_ack hw (ds_transaction_id s) plen r"
  shows "configured_by hw (rq_server q) plen r s"
  unfolding configured_by_def
proof (intro allI)
  fix cx :: iface_context and src d
  obtain i where i: "addressed hw (ds_transaction_id s) i r" using assms(2) by (auto simp: usable_ack_def)
  obtain c t1 t2 t3 where p: "parse_ack (cx_now cx) r (ds_max_lease_duration s) (rq_server q) = Some (c, t1, t2, t3)"
    "cfg_address c = (your_ip r, plen)" "cfg_router c = dhcp_router r" "cfg_server c = rq_server q"
    using assms(2) parse_ack_usable[of r plen] unfolding usable_ack_def by metis
  show "\<exists>s' c. dhcp_process cx hw src (ds_server_port s) (ds_client_port s) d (Some r) s = Some s' \<and>
      fst (dhcp_poll s') = Some (dhcp_notice.Configured c) \<and> cfg_address c = (your_ip r, plen) \<and>
      cfg_router c = dhcp_router r \<and> cfg_server c = rq_server q"
    unfolding process_addressed[OF i] using p assms by (simp add: process_message_def dhcp_poll_def usable_ack_def)
qed

section \<open>A small network\<close>

definition demo_reply :: "message_type \<Rightarrow> u32 \<Rightarrow> dhcp_repr" where
  "demo_reply t xid = \<lparr>message_type = t, dhcp_xid = xid, dhcp_secs = 0, client_hardware_address = [2, 0, 0, 0, 0, 9],
     client_ip = 0, your_ip = 0x0a000009, server_ip = 0, dhcp_router = Some 0x0a000001, subnet_mask = Some (netmask (0x0a000009, 24)),
     relay_agent_ip = 0, dhcp_broadcast = False, requested_ip = None, client_identifier = None,
     server_identifier = Some 0x0a000001, parameter_request_list = None, dns_servers = None, max_size = None,
     lease_duration = None, renew_duration = None, rebind_duration = None, additional_options = []\<rparr>"

definition clock_at :: "instant \<Rightarrow> iface_context" where
  "clock_at t = \<lparr>cx_now = t, cx_ip_mtu = 1500, cx_rand = 0, cx_ip_addrs = [], cx_any_ip = False\<rparr>"

definition demo_config :: dhcp_config where
  "demo_config = \<lparr>cfg_server = \<lparr>srv_address = 0x0a000001, srv_identifier = 0x0a000001\<rparr>, cfg_address = (0x0a000009, 24),
     cfg_router = Some 0x0a000001, cfg_dns_servers = [], cfg_packet = None\<rparr>"

definition demo_lease :: renew_state where
  "demo_lease = \<lparr>rn_config = demo_config, rn_renew_at = 60000000, rn_rebind_at = 105000000, rn_rebinding = False,
     rn_expires_at = 120000000\<rparr>"

lemma demo_addressed: "addressed [2, 0, 0, 0, 0, 9] x 0x0a000001 (demo_reply t x)" "addr_unicast (your_ip (demo_reply t x))"
  by (simp_all add: addressed_def demo_reply_def addr_unicast_def)

lemma demo_parse:
  "parse_ack 0 (demo_reply Ack 1) None \<lparr>srv_address = 0x0a000001, srv_identifier = 0x0a000001\<rparr> =
     Some (demo_config, 60000000, 105000000, 120000000)"
proof -
  have "prefix_len (netmask (0x0a000009, 24)) = Some 24" using prefix_len_mask[of _ 24 "0x0a000009"] by simp
  then show ?thesis
    using demo_addressed(2)[of Ack 1]
    by (simp add: parse_ack_def demo_reply_def demo_config_def lease_length_def lease_times_def duration_from_secs_def wrap_u64_def
        duration_mul_def instant_add_def wrap_i64_def)
qed

lemma demo_leased:
  obtains h s where "dhcp_run [2, 0, 0, 0, 0, 9] h s" "ds_state s = Renewing demo_lease"
    "fst (dhcp_poll s) = Some (dhcp_notice.Configured demo_config)" "ds_retry_config s = retry_default"
proof -
  let ?hw = "[2, 0, 0, 0, 0, 9] :: mac"
  define s1 where "s1 = dhcp_new\<lparr>ds_state := Requesting \<lparr>rq_retry_at = 0, rq_retry = 0,
    rq_server = \<lparr>srv_address = 0x0a000001, srv_identifier = 0x0a000001\<rparr>, rq_requested_ip = 0x0a000009\<rparr>\<rparr>"
  define s2 where "s2 = s1\<lparr>ds_state := Renewing demo_lease, ds_config_changed := True\<rparr>"
  have c: "clock_ok (clock_at 0)" by (simp add: clock_ok_def clock_at_def)
  have x: "ds_transaction_id dhcp_new = 1" "ds_transaction_id s1 = 1" by (simp_all add: dhcp_new_def s1_def)
  have b: "store_packet [] dhcp_new = dhcp_new" "store_packet [] s1 = s1" by (simp_all add: store_packet_def dhcp_new_def s1_def)
  have "dhcp_process (clock_at 0) ?hw 0x0a000001 (ds_server_port dhcp_new) (ds_client_port dhcp_new) [] (Some (demo_reply Offer 1)) dhcp_new = Some s1"
    using process_addressed[of ?hw dhcp_new "0x0a000001" "demo_reply Offer 1" "clock_at 0" "0x0a000001" "[]"] demo_addressed(1)[of 1 Offer] demo_addressed(2)[of Offer 1]
    by (simp add: x b process_message_def s1_def) (simp add: dhcp_new_def demo_reply_def clock_at_def)
  then have r1: "dhcp_run ?hw (heard 0x0a000001 (Some (demo_reply Offer 1)) @ []) s1" by (rule run_process[OF run_new c])
  have "dhcp_process (clock_at 0) ?hw 0x0a000001 (ds_server_port s1) (ds_client_port s1) [] (Some (demo_reply Ack 1)) s1 =
      Some (process_message 0 0x0a000001 0x0a000001 (demo_reply Ack 1) s1)"
    using process_addressed[of ?hw s1 "0x0a000001" "demo_reply Ack 1" "clock_at 0" "0x0a000001" "[]"] demo_addressed(1)[of 1 Ack]
    by (simp add: x b) (simp add: clock_at_def)
  moreover have "process_message 0 0x0a000001 0x0a000001 (demo_reply Ack 1) s1 = s2"
  proof -
    have s: "ds_state s1 = Requesting \<lparr>rq_retry_at = 0, rq_retry = 0,
        rq_server = \<lparr>srv_address = 0x0a000001, srv_identifier = 0x0a000001\<rparr>, rq_requested_ip = 0x0a000009\<rparr>"
      "ds_max_lease_duration s1 = None" "message_type (demo_reply Ack 1) = Ack"
      by (simp_all add: s1_def dhcp_new_def demo_reply_def)
    show ?thesis unfolding process_message_def s by (simp add: demo_parse s2_def demo_lease_def)
  qed
  ultimately have r2: "dhcp_run ?hw (heard 0x0a000001 (Some (demo_reply Ack 1)) @ (heard 0x0a000001 (Some (demo_reply Offer 1)) @ [])) s2"
    using run_process[OF r1 c] by metis
  have "ds_state s2 = Renewing demo_lease" "fst (dhcp_poll s2) = Some (dhcp_notice.Configured demo_config)" "ds_retry_config s2 = retry_default"
    by (simp_all add: s2_def s1_def dhcp_new_def dhcp_poll_def demo_lease_def demo_config_def)
  then show thesis using that r2 by blast
qed

text \<open>Once a lease is being rebound, the instant of the next attempt can lie behind its expiry.\<close>

lemma rebind_after_expiry:
  "\<exists>h s n. dhcp_run [2, 0, 0, 0, 0, 9] h s \<and> ds_state s = Renewing n \<and> rn_expires_at n < rn_rebind_at n"
proof -
  let ?hw = "[2, 0, 0, 0, 0, 9] :: mac" and ?cx = "clock_at 110000000"
  obtain h s where s: "dhcp_run ?hw h s" "ds_state s = Renewing demo_lease" "ds_retry_config s = retry_default"
    by (rule demo_leased) blast
  obtain out s' cx' where d: "dhcp_dispatch ?cx ?hw (\<lambda>_. True) s = (out, s', cx')" by (cases "dhcp_dispatch ?cx ?hw (\<lambda>_. True) s")
  have "clock_ok ?cx" by (simp add: clock_ok_def clock_at_def)
  then have r: "dhcp_run ?hw (told out @ h) s'" by (rule run_dispatch[OF s(1) _ d])
  have "ds_state s' = Renewing (renew_backoff 110000000 retry_default (demo_lease\<lparr>rn_rebinding := True\<rparr>))"
    using d s(2,3) by (auto simp: dhcp_dispatch_def Let_def clock_at_def demo_lease_def split: prod.splits)
  moreover have "rn_rebind_at (renew_backoff 110000000 retry_default (demo_lease\<lparr>rn_rebinding := True\<rparr>)) = 170000000"
    "rn_expires_at (renew_backoff 110000000 retry_default (demo_lease\<lparr>rn_rebinding := True\<rparr>)) = 120000000"
    by (simp_all add: renew_backoff_def demo_lease_def retry_default_def duration_from_secs_def wrap_u64_def instant_diff_def
        instant_add_def wrap_i64_def)
  ultimately show ?thesis using r by fastforce
qed

section \<open>Properties\<close>

text \<open>C27: the life of a lease.  Whatever messages arrive and whenever the client is polled, the instants of a
  lease are in order: it is renewed no later than it is rebound, and rebound, until that has started, no
  later than it expires.  Once it has expired the client sends nothing more for it, gives it up and
  reports the loss.\<close>

theorem dhcp_lease_ordered:
  assumes "dhcp_run hw h s" "ds_state s = Renewing n"
  shows "rn_renew_at n \<le> rn_rebind_at n \<and> (\<not> rn_rebinding n \<longrightarrow> rn_rebind_at n \<le> rn_expires_at n) \<and>
    (rn_expires_at n \<le> cx_now cx \<longrightarrow> (\<exists>s'. dhcp_dispatch cx hw emit s = (NothingSent, s', cx) \<and>
       (\<exists>t. ds_state s' = Discovering t) \<and> fst (dhcp_poll s') = Some dhcp_notice.Deconfigured))"
proof -
  have "lease_ok n" using dhcp_ok_run[OF assms(1)] assms(2) by (simp add: dhcp_ok_def)
  then show ?thesis using assms(2) by (simp add: lease_ok_def dhcp_dispatch_def Let_def dhcp_reset_def dhcp_poll_def)
qed

theorem dhcp_lease_ordered_witness:
  "\<exists>h s s'. dhcp_run [2, 0, 0, 0, 0, 9] h s \<and> ds_state s = Renewing demo_lease \<and>
     dhcp_dispatch (clock_at 120000000) [2, 0, 0, 0, 0, 9] (\<lambda>_. True) s = (NothingSent, s', clock_at 120000000) \<and>
     fst (dhcp_poll s') = Some dhcp_notice.Deconfigured"
proof -
  obtain h s where s: "dhcp_run [2, 0, 0, 0, 0, 9] h s" "ds_state s = Renewing demo_lease" by (rule demo_leased) blast
  have "rn_expires_at demo_lease \<le> cx_now (clock_at 120000000)" by (simp add: demo_lease_def clock_at_def)
  then show ?thesis using dhcp_lease_ordered[OF s, of "clock_at 120000000" "\<lambda>_. True"] s by blast
qed

text \<open>C25: no configuration out of nothing.  When the client reports a configuration, it has heard, in this order, an
  offer addressed to it from the server the configuration names and an acknowledgement addressed to it;
  the acknowledgement carries the transaction number of a message the client had sent (or the initial
  number 1), names a server, and its address, mask and router are those reported.\<close>

theorem dhcp_configured_authentic:
  assumes "dhcp_run hw h s" "fst (dhcp_poll s) = Some (dhcp_notice.Configured c)"
  shows "\<exists>h2 src r h1. h = h2 @ Heard src r # h1 \<and> offered hw h1 (cfg_server c) \<and> acknowledges hw h1 r c"
proof -
  obtain n where n: "ds_state s = Renewing n" "c = (rn_config n)\<lparr>cfg_packet := ds_receive_packet_buffer s\<rparr>"
    using assms(2) by (auto simp: dhcp_poll_def split: if_splits client_state.splits)
  have "granted hw h (rn_config n)" using dhcp_ok_run[OF assms(1)] n(1) by (simp add: dhcp_ok_def)
  then show ?thesis unfolding granted_def using n(2) by (simp add: acknowledges_def)
qed

theorem dhcp_configured_authentic_witness:
  "\<exists>h h2 src r h1. h = h2 @ Heard src r # h1 \<and> offered [2, 0, 0, 0, 0, 9] h1 (cfg_server demo_config) \<and>
     acknowledges [2, 0, 0, 0, 0, 9] h1 r demo_config"
proof -
  obtain h s where s: "dhcp_run [2, 0, 0, 0, 0, 9] h s" "fst (dhcp_poll s) = Some (dhcp_notice.Configured demo_config)"
    by (rule demo_leased) blast
  show ?thesis using dhcp_configured_authentic[OF s] by blast
qed

text \<open>C26: progress.  A client in discovery whose turn has come broadcasts a DISCOVER; when an offer for that message
  arrives, it sends a REQUEST for the offered address to that server; and when an acknowledgement with a
  usable address and a proper mask arrives, it reports the configuration: the address, prefix and router
  of the acknowledgement and the server of the offer.\<close>

theorem dhcp_exchange_configures:
  assumes "ds_state s = Discovering t" "t \<le> cx_now cx0" "request_retries (ds_retry_config s) \<noteq> 0" "cx_now cx1 \<le> cx_now cx2"
  shows "\<exists>p1 s1 cx'. dhcp_dispatch cx0 hw (\<lambda>_. True) s = (Sent p1, s1, cx') \<and> message_type (pk_repr p1) = Discover \<and> pk_dst p1 = 0xffffffff \<and>
    (\<forall>r1 i src d. usable_offer hw (dhcp_xid (pk_repr p1)) i r1 \<longrightarrow>
      (\<exists>s2 p2 s3. dhcp_process cx1 hw src (ds_server_port s) (ds_client_port s) d (Some r1) s1 = Some s2 \<and>
        dhcp_dispatch cx2 hw (\<lambda>_. True) s2 = (Sent p2, s3, cx2) \<and> message_type (pk_repr p2) = Request \<and>
        requested_ip (pk_repr p2) = Some (your_ip r1) \<and> server_identifier (pk_repr p2) = Some i \<and>
        (\<forall>r2 plen. usable_ack hw (dhcp_xid (pk_repr p2)) plen r2 \<longrightarrow>
           configured_by hw \<lparr>srv_address = src, srv_identifier = i\<rparr> plen r2 s3)))"
proof -
  obtain p1 s1 cx' where 1: "dhcp_dispatch cx0 hw (\<lambda>_. True) s = (Sent p1, s1, cx')" "message_type (pk_repr p1) = Discover"
    "pk_dst p1 = 0xffffffff" "ds_transaction_id s1 = dhcp_xid (pk_repr p1)" "ds_state s1 = Discovering (instant_add (cx_now cx0) (discover_timeout (ds_retry_config s)))"
    "ds_server_port s1 = ds_server_port s" "ds_client_port s1 = ds_client_port s" "ds_retry_config s1 = ds_retry_config s"
    by (rule discover_sent[OF assms(1,2)])
  have "\<exists>s2 p2 s3. dhcp_process cx1 hw src (ds_server_port s) (ds_client_port s) d (Some r1) s1 = Some s2 \<and>
      dhcp_dispatch cx2 hw (\<lambda>_. True) s2 = (Sent p2, s3, cx2) \<and> message_type (pk_repr p2) = Request \<and>
      requested_ip (pk_repr p2) = Some (your_ip r1) \<and> server_identifier (pk_repr p2) = Some i \<and>
      (\<forall>r2 plen. usable_ack hw (dhcp_xid (pk_repr p2)) plen r2 \<longrightarrow>
         configured_by hw \<lparr>srv_address = src, srv_identifier = i\<rparr> plen r2 s3)"
    if r: "usable_offer hw (dhcp_xid (pk_repr p1)) i r1" for r1 i src d
  proof -
    define q where "q = \<lparr>rq_retry_at = cx_now cx1, rq_retry = 0,
      rq_server = \<lparr>srv_address = src, srv_identifier = i\<rparr>, rq_requested_ip = your_ip r1\<rparr>"
    define s2 where "s2 = (store_packet d s1)\<lparr>ds_state := Requesting q\<rparr>"
    have p: "dhcp_process cx1 hw src (ds_server_port s) (ds_client_port s) d (Some r1) s1 = Some s2"
      using process_addressed[of hw s1 i r1 cx1 src d] r 1 by (simp add: process_message_def s2_def q_def usable_offer_def)
    have st: "ds_state s2 = Requesting q" by (simp add: s2_def)
    have due: "rq_retry_at q \<le> cx_now cx2" "rq_retry q < request_retries (ds_retry_config s2)"
      using assms(3,4) 1(8) by (simp_all add: q_def s2_def word_gt_0)
    obtain p2 q' where 2: "dhcp_dispatch cx2 hw (\<lambda>_. True) s2 = (Sent p2, s2\<lparr>ds_state := Requesting q'\<rparr>, cx2)"
      "message_type (pk_repr p2) = Request" "requested_ip (pk_repr p2) = Some (rq_requested_ip q)"
      "server_identifier (pk_repr p2) = Some (srv_identifier (rq_server q))" "dhcp_xid (pk_repr p2) = ds_transaction_id s2"
      "rq_server q' = rq_server q"
      using request_sent[OF st due] by metis
    let ?s3 = "s2\<lparr>ds_state := Requesting q'\<rparr>"
    have "configured_by hw \<lparr>srv_address = src, srv_identifier = i\<rparr> plen r2 ?s3"
      if "usable_ack hw (dhcp_xid (pk_repr p2)) plen r2" for r2 plen
      using ack_configures[of ?s3 q' hw plen r2] that 2(5,6) by (simp add: q_def)
    then show ?thesis using p 2 by (intro exI[of _ s2] exI[of _ p2] exI[of _ ?s3]) (auto simp: q_def)
  qed
  then show ?thesis using 1(1-3) by blast
qed

theorem dhcp_exchange_configures_witness:
  "\<exists>p1 s1 cx' s2. dhcp_dispatch (clock_at 0) [2, 0, 0, 0, 0, 9] (\<lambda>_. True) dhcp_new = (Sent p1, s1, cx') \<and>
     dhcp_process (clock_at 1) [2, 0, 0, 0, 0, 9] 0x0a000001 67 68 [] (Some (demo_reply Offer (dhcp_xid (pk_repr p1)))) s1 = Some s2 \<and>
     (\<exists>p2 s3. dhcp_dispatch (clock_at 2) [2, 0, 0, 0, 0, 9] (\<lambda>_. True) s2 = (Sent p2, s3, clock_at 2) \<and>
       configured_by [2, 0, 0, 0, 0, 9] (cfg_server demo_config) 24 (demo_reply Ack (dhcp_xid (pk_repr p2))) s3)"
proof -
  have n: "ds_state dhcp_new = Discovering 0" "0 \<le> cx_now (clock_at 0)" "request_retries (ds_retry_config dhcp_new) \<noteq> 0"
    "cx_now (clock_at 1) \<le> cx_now (clock_at 2)" and ports: "ds_server_port dhcp_new = 67" "ds_client_port dhcp_new = 68"
    by (simp_all add: dhcp_new_def clock_at_def retry_default_def instant_from_millis_def wrap_i64_def)
  have "usable_offer [2, 0, 0, 0, 0, 9] x 0x0a000001 (demo_reply Offer x)" "usable_ack [2, 0, 0, 0, 0, 9] x 24 (demo_reply Ack x)" for x
    using demo_addressed by (auto simp: usable_offer_def usable_ack_def) (simp_all add: demo_reply_def)
  moreover have "cfg_server demo_config = \<lparr>srv_address = 0x0a000001, srv_identifier = 0x0a000001\<rparr>" by (simp add: demo_config_def)
  ultimately show ?thesis
    using dhcp_exchange_configures[OF n, of "[2, 0, 0, 0, 0, 9]"] unfolding ports by metis
qed

text \<open>A silent server is given up.  A client that has taken an offer and hears nothing more sends its REQUEST
  five times, at once and 5, 10, 20 and 30 seconds later, and then returns to discovery.\<close>

theorem dhcp_request_gives_up:
  assumes "requesting 0 t s" "0 \<le> t" "t < 2 ^ 61"
  shows "\<exists>s' u. left_alone 6 hw cx s = ([t, t + 5000000, t + 10000000, t + 20000000, t + 30000000], s') \<and>
    ds_state s' = Discovering u"
proof -
  let ?next = "\<lambda>t s hw cx s' cx'. \<forall>n. left_alone (Suc n) hw cx s = (t # fst (left_alone n hw cx' s'), snd (left_alone n hw cx' s'))"
  have step: "\<exists>s' cx'. requesting k' t' s' \<and> ?next t s hw cx s' cx'"
    if "requesting k t s" "k < 5" "0 \<le> t" "t < 2 ^ 62" "k' = k + 1" "t' = t + 5000000 * 2 ^ (k div 2)" for k k' t t' s cx
    by (rule left_alone_step[OF that])
  have "\<exists>s' cx'. requesting 1 (t + 5000000) s' \<and> ?next t s hw cx s' cx'" by (rule step[OF assms(1)]) (use assms in simp_all)
  then obtain s1 c1 where 1: "requesting 1 (t + 5000000) s1" "?next t s hw cx s1 c1" by blast
  have "\<exists>s' cx'. requesting 2 (t + 10000000) s' \<and> ?next (t + 5000000) s1 hw c1 s' cx'" by (rule step[OF 1(1)]) (use assms in simp_all)
  then obtain s2 c2 where 2: "requesting 2 (t + 10000000) s2" "?next (t + 5000000) s1 hw c1 s2 c2" by blast
  have "\<exists>s' cx'. requesting 3 (t + 20000000) s' \<and> ?next (t + 10000000) s2 hw c2 s' cx'" by (rule step[OF 2(1)]) (use assms in simp_all)
  then obtain s3 c3 where 3: "requesting 3 (t + 20000000) s3" "?next (t + 10000000) s2 hw c2 s3 c3" by blast
  have "\<exists>s' cx'. requesting 4 (t + 30000000) s' \<and> ?next (t + 20000000) s3 hw c3 s' cx'" by (rule step[OF 3(1)]) (use assms in simp_all)
  then obtain s4 c4 where 4: "requesting 4 (t + 30000000) s4" "?next (t + 20000000) s3 hw c3 s4 c4" by blast
  have "\<exists>s' cx'. requesting 5 (t + 50000000) s' \<and> ?next (t + 30000000) s4 hw c4 s' cx'" by (rule step[OF 4(1)]) (use assms in simp_all)
  then obtain s5 c5 where 5: "requesting 5 (t + 50000000) s5" "?next (t + 30000000) s4 hw c4 s5 c5" by blast
  obtain s6 u where 6: "left_alone (Suc 0) hw c5 s5 = ([], s6)" "ds_state s6 = Discovering u" using left_alone_last[OF 5(1)] by blast
  have "left_alone (Suc (Suc (Suc (Suc (Suc (Suc 0)))))) hw cx s = ([t, t + 5000000, t + 10000000, t + 20000000, t + 30000000], s6)"
    by (simp only: 1(2) 2(2) 3(2) 4(2) 5(2) 6(1) fst_conv snd_conv)
  moreover have "Suc (Suc (Suc (Suc (Suc (Suc 0))))) = 6" by simp
  ultimately show ?thesis using 6(2) by metis
qed

theorem dhcp_request_gives_up_witness:
  "\<exists>s s' u. left_alone 6 [2, 0, 0, 0, 0, 9] (clock_at 0) s = ([7, 5000007, 10000007, 20000007, 30000007], s') \<and> ds_state s' = Discovering u"
proof -
  have "requesting 0 7 (dhcp_new\<lparr>ds_state := Requesting \<lparr>rq_retry_at = 7, rq_retry = 0,
    rq_server = \<lparr>srv_address = 0x0a000001, srv_identifier = 0x0a000001\<rparr>, rq_requested_ip = 0x0a000009\<rparr>\<rparr>)"
    by (simp add: requesting_def dhcp_new_def)
  from dhcp_request_gives_up[OF this, of "[2, 0, 0, 0, 0, 9]" "clock_at 0"] show ?thesis by (auto simp del: left_alone.simps)
qed

end
