(* ===== verification/App_Lease.thy ===== *)
theory App_Lease
  imports App_Main Dhcp_Lease
begin

text \<open>
  The DHCP client under the benchmark's network discovery: the events \<open>dhcp_acquire\<close> sees are what \<open>poll\<close> of a
  client on an arbitrary network reports.  Shown: the workers the main thread then creates have
  addresses the stack accepts, so that none of them panics while it sets up its device and interface.
\<close>

text \<open>\<open>octets\<close> of the addresses in the event.\<close>

definition lease_event :: "dhcp_notice \<Rightarrow> dhcp_event" where
  "lease_event ev = (case ev of
     dhcp_notice.Configured c \<Rightarrow> App_Arp.Configured (be32 (fst (cfg_address c))) (snd (cfg_address c)) (map_option be32 (cfg_router c))
   | dhcp_notice.Deconfigured \<Rightarrow> App_Arp.Deconfigured)"

lemma be_addr_be32: "be_addr (be32 a) = a"
  by (simp add: be_addr_def be32_def)

lemma learned_from:
  assumes "fst (learn_network events tx_cap rx mac) = Some (ip, plen, gw, hw)"
  obtains k j where "lease_in (events k) = Some ((ip, plen), gw)" "reply_in gw (rx j) = Some hw"
proof -
  let ?lease = "first_in (\<lambda>k. lease_in (events k)) 0 (Suc (ITER_BUDGET div 10 - 0))"
  have d: "fst (dhcp_acquire events 2 \<lparr>ip_addrs = [], default_route = None\<rparr>) = ?lease"
    unfolding dhcp_acquire_def by (rule dhcp_loop_first)
  have l: "?lease = Some ((ip, plen), gw)" and g: "fst (gateway_loop rx gw 0 []) = Some hw"
    using assms unfolding learn_network_def d by (auto simp: Let_def split: option.splits)
  have "first_in (\<lambda>k. reply_in gw (rx k)) 0 (Suc (ITER_BUDGET div 20 - 0)) = Some hw"
    using g unfolding gateway_loop_first fst_conv .
  then show thesis using l that unfolding first_in_Some by blast
qed

lemma reply_is_mac: "reply_in gw x = Some hw \<Longrightarrow> is_mac hw"
  by (auto simp: reply_in_def parse_arp_reply_from_def is_mac_def split: option.splits if_splits)

lemma lease_usable:
  assumes run: "dhcp_run mac h s" and ev: "x = map_option lease_event (fst (dhcp_poll s))"
    and l: "lease_in x = Some ((ip, plen), gw)"
  shows "is_ipv4 ip" "is_ipv4 gw" "plen \<le> 32" "addr_unicast (be_addr ip)"
proof -
  obtain c where c: "fst (dhcp_poll s) = Some (dhcp_notice.Configured c)"
    using ev l by (cases "fst (dhcp_poll s)"; cases "the (fst (dhcp_poll s))") (auto simp: lease_in_def lease_event_def)
  then obtain n where n: "ds_state s = Renewing n" "cfg_address c = cfg_address (rn_config n)"
    by (auto simp: dhcp_poll_def split: if_splits client_state.splits)
  have e: "ip = be32 (fst (cfg_address c))" "plen = snd (cfg_address c)" "gw = (case map_option be32 (cfg_router c) of Some g \<Rightarrow> g | None \<Rightarrow> [0, 0, 0, 0])"
    using ev l c by (auto simp: lease_in_def lease_event_def)
  then show "is_ipv4 ip" "is_ipv4 gw" by (auto simp: is_ipv4_def split: option.split)
  have "granted mac h (rn_config n)" using dhcp_ok_run[OF run] n(1) by (simp add: dhcp_ok_def)
  then show "plen \<le> 32" "addr_unicast (be_addr ip)"
    using e n(2) by (auto simp: granted_def acknowledges_def be_addr_be32)
qed

section \<open>Properties\<close>

text \<open>C28: leased addresses are usable.  When the events of discovery come from the DHCP client, on whatever network,
  and discovery succeeds, every worker the main thread creates has well-formed addresses, a unicast
  address of its own and a prefix of at most 32, and sets up its device and its interface without a panic.\<close>

theorem leased_workers_usable:
  assumes "is_mac mac" "\<forall>k. \<exists>h s. dhcp_run mac h s \<and> events k = map_option lease_event (fst (dhcp_poll s))"
    "fst (learn_network events tx_cap rx mac) = Some net" "make_ctxs e n pools mac net = Some ctxs" "ctx \<in> set ctxs"
  shows "worker_ctx_ok ctx \<and> addr_unicast (be_addr (ctx_ip ctx)) \<and>
    (\<exists>dev icx. worker_device ctx bm = Some dev \<and> worker_iface ctx cx = Some icx)"
proof -
  obtain ip plen gw hw where net: "net = (ip, plen, gw, hw)" by (metis prod_cases4)
  obtain k j where k: "lease_in (events k) = Some ((ip, plen), gw)" "reply_in gw (rx j) = Some hw"
    by (rule learned_from[OF assms(3)[unfolded net]])
  obtain h s where s: "dhcp_run mac h s" "events k = map_option lease_event (fst (dhcp_poll s))" using assms(2) by blast
  note u = lease_usable[OF s k(1)] reply_is_mac[OF k(2)]
  have "map (make_ctx e pools mac ip plen gw hw) [0..<unat n] = map Some ctxs"
    using assms(4) by (simp add: make_ctxs_def net all_some_Some)
  then have "Some ctx \<in> set (map (make_ctx e pools mac ip plen gw hw) [0..<unat n])" using assms(5) by simp
  then have "ctx_mac ctx = mac \<and> ctx_ip ctx = ip \<and> ctx_prefix_len ctx = plen \<and> ctx_gateway_ip ctx = gw \<and> ctx_gateway_mac ctx = hw"
    by (auto simp: make_ctx_def assert_that_def split: if_splits)
  then have ok: "worker_ctx_ok ctx" "addr_unicast (be_addr (ctx_ip ctx))" using u assms(1) by (simp_all add: worker_ctx_ok_def)
  then show ?thesis using worker_ctx_opens[OF ok(1), of bm cx] by metis
qed

theorem leased_workers_usable_witness:
  "\<exists>events rx ctxs. fst (learn_network events (Some 1536) rx [2, 0, 0, 0, 0, 9]) \<noteq> None \<and> length ctxs = 1 \<and> (\<forall>ctx \<in> set ctxs. worker_ctx_ok ctx)"
proof -
  let ?hw = "[2, 0, 0, 0, 0, 9] :: mac" and ?gw = "[10, 0, 0, 1] :: ipv4"
  obtain h s where s: "dhcp_run ?hw h s" "fst (dhcp_poll s) = Some (dhcp_notice.Configured demo_config)" by (rule demo_leased) blast
  define events where "events = (\<lambda>_ :: nat. Some (lease_event (dhcp_notice.Configured demo_config)))"
  have ev: "\<forall>k. \<exists>h s. dhcp_run ?hw h s \<and> events k = map_option lease_event (fst (dhcp_poll s))" 
    unfolding events_def by (intro allI exI[of _ h] exI[of _ s]) (simp add: s)
  have l: "lease_event (dhcp_notice.Configured demo_config) = App_Arp.Configured [10, 0, 0, 9] 24 (Some ?gw)"
    by (simp add: lease_event_def demo_config_def be32_def)
  obtain f where f: "build_arp_reply [2, 0, 0, 0, 0, 1] ?gw ?hw [10, 0, 0, 9] = Some f" "parse_arp_reply_from f ?gw = Some [2, 0, 0, 0, 0, 1]"
    using parse_arp_frame[of ?hw "[2, 0, 0, 0, 0, 1]" ?hw ?gw "[10, 0, 0, 9]" ?gw 2]
    by (auto simp: build_arp_reply_def is_mac_def is_ipv4_def)
  define rx where "rx = (\<lambda>_ :: nat. Some (0 :: nat, f))"
  have d: "fst (dhcp_acquire events 2 \<lparr>ip_addrs = [], default_route = None\<rparr>) = Some (([10, 0, 0, 9], 24), ?gw)"
    unfolding dhcp_acquire_def by (subst dhcp_loop.simps) (simp add: events_def l)
  have g: "fst (gateway_loop rx ?gw 0 []) = Some [2, 0, 0, 0, 0, 1]" by (subst gateway_loop.simps) (simp add: rx_def f)
  obtain req where "build_arp_request ?hw [10, 0, 0, 9] ?gw = Some req"
    by (simp add: build_arp_request_def arp_frame_eq is_mac_def is_ipv4_def)
  then have net: "fst (learn_network events (Some 1536) rx ?hw) = Some ([10, 0, 0, 9], 24, ?gw, [2, 0, 0, 0, 0, 1])"
    unfolding learn_network_def d by (simp add: g Let_def)
  define ctxs where "ctxs = the (make_ctxs demo_small_env 1 [0] ?hw ([10, 0, 0, 9], 24, ?gw, [2, 0, 0, 0, 0, 1]))"
  have c: "make_ctxs demo_small_env 1 [0] ?hw ([10, 0, 0, 9], 24, ?gw, [2, 0, 0, 0, 0, 1]) = Some ctxs" "length ctxs = 1"
    by (simp_all add: ctxs_def make_ctxs_def make_ctx_def)
  have "is_mac ?hw" by (simp add: is_mac_def)
  then have "worker_ctx_ok ctx" if "ctx \<in> set ctxs" for ctx using leased_workers_usable[OF _ ev net c(1) that] by blast
  then show ?thesis using net c(2) by (intro exI[of _ events] exI[of _ rx] exI[of _ ctxs]) simp
qed

end
