(* ===== verification/Spec2Isabelle.thy ===== *)
theory Spec2Isabelle
  imports Ring_Buffer Assembler App_Http App_Config App_Rss App_Console App_Arp App_Device
    Tcp_Segments Iface_Arp App_Alloc App_Probe App_Request App_Conn App_Worker App_Seed App_Serve App_Network App_Lease
begin

text \<open>
  \<^bold>\<open>Verification of the smoltcp-s3 benchmark\<close>

  The repository's Rust program is the unikernel benchmark in \<open>bench/smoltcp-s3\<close>: it opens a NIC through a
  driver shim, predicts how the NIC's RSS hash steers return traffic, learns its address and gateway,
  and then runs one worker per RX queue.  A worker owns the source ports whose return traffic lands on
  its queue, opens a number of TCP connections to an S3 bucket on the vendored smoltcp stack, fetches
  one block of an object over each, with or without TLS, and reports what it received.  The main thread
  adds the reports up and prints whether the run was complete.

  \<^bold>\<open>The theories\<close>, lowest layer first; paths are relative to \<open>bench/smoltcp-s3\<close>.

  \<^item> \<open>Prelude\<close>: words, byte order, slices and copies with their bounds checks, option and list lemmas.
  \<^item> \<open>Ring_Buffer\<close>, \<open>Assembler\<close>: \<open>storage/ring_buffer.rs\<close> and \<open>storage/assembler.rs\<close> of the vendored stack,
    method by method.  The interfaces their clients rely on are the locales \<open>bounded_fifo\<close> and \<open>gap_tracker\<close>,
    both interpreted on the code's own operations.  Shown: a ring buffer carries a byte stream unchanged
    and panic-free, out-of-order writes appear at their offset across the wrap; the assembler keeps its
    invariant, holds the union of the ranges it accepted and never refuses the next segment.
  \<^item> \<open>Smol_Time\<close>, \<open>Tcp_Seq\<close>, \<open>Tcp_Timer\<close>, \<open>Tcp_Repr\<close>: instants and durations (\<open>time.rs\<close>), sequence numbers and
    segment representations (\<open>wire/tcp.rs\<close>), timers and the RTT estimator (\<open>socket/tcp.rs\<close>).  Shown: sequence
    comparison agrees with stream positions less than \<open>2^31\<close> apart; the retransmission timeout stays in its
    bounds; a timer is due exactly from its \<open>poll_at\<close> on.
  \<^item> \<open>Tcp_Socket\<close>, \<open>Tcp_Process\<close>, \<open>Tcp_Dispatch\<close>: the socket and its calls, \<open>process\<close> with its replies, \<open>dispatch\<close>
    and \<open>poll_at\<close> (\<open>socket/tcp.rs\<close>), in stages that follow the source.  \<open>Tcp_States\<close> joins them into the step
    relation of a socket and shows the state diagram, the exact handshake condition and the structural
    invariant of every reachable socket.
  \<^item> \<open>Tcp_Stream\<close>, \<open>Tcp_Progress\<close>, \<open>Tcp_Open\<close>, \<open>Tcp_Send\<close>, \<open>Tcp_Link\<close>: the byte stream over those steps.  Shown: whatever order,
    duplication or overlap the segments arrive in, the bytes read are a prefix of what the peer sent,
    and the next segment in order is always stored; every segment sent carries the transmit stream at its
    sequence number; and, joined through a network that delays, loses and repeats, the bytes one socket
    reads are a prefix of the bytes the other was given.  A run starts with an announced window that fits
    the receive buffer: \<open>Tcp_Open\<close> shows that a socket, that of the worker with its 4 MiB included, is in
    this state once it has acknowledged the SYN-ACK.  Before that the window can end far behind the buffer
    (\<open>syn_window_overruns_buffer\<close>).  Segments start less than \<open>2^28\<close> bytes from the next expected byte and
    carry at most 65535 bytes, buffers hold at most \<open>2^30\<close>.  A FIN ends inside the window; the code takes the
    FIN of a segment whose payload it cuts off at the end of the window, and ends the stream early
    (\<open>fin_behind_window_truncates\<close>).
  \<^item> \<open>Tcp_Poll\<close>: what polling may do to a socket, as steps of \<open>process\<close> and \<open>dispatch\<close>.  Shown: the buffers keep
    their sizes and the transmit queue does not grow.
  \<^item> \<open>Tcp_Wire\<close>, \<open>Tcp_Segments\<close>: header, options and checksum of a segment (\<open>wire/tcp.rs\<close>, \<open>wire/ip.rs\<close>).  The contract
    of a wire format is the locale \<open>wire_format\<close>, interpreted with and without checksums and for ARP.  Shown:
    parsing is total and inverts emitting, a changed byte is detected, and what a socket dispatches fits
    the MTU and is read back unchanged.
  \<^item> \<open>Iface_Tables\<close>, \<open>Iface_Arp\<close>: subnets, routes and the neighbour cache (\<open>wire/ipv4.rs\<close>, \<open>iface/route.rs\<close>,
    \<open>iface/neighbor.rs\<close>), Ethernet and ARP frames, and the parts of \<open>iface/interface\<close> that use them.  The cache's
    contract is the locale \<open>neighbour_table\<close>.  Shown: a route lookup is a longest-prefix match over the routes that have not expired, and a cache
    entry is found for its lifetime unless it is the oldest of a full cache.
  \<^item> \<open>Dhcp_Client\<close>, \<open>Dhcp_Lease\<close>: the DHCP client (\<open>socket/dhcpv4.rs\<close>) and its runs on an arbitrary network.  Shown: a
    configuration is what an acknowledgement to this client says, an answered client is configured, an
    unanswered one starts again, and the times of a lease are ordered until it expires.
  \<^item> \<open>App_Config\<close>, \<open>App_Rss\<close>, \<open>App_Console\<close>, \<open>App_Arp\<close>, \<open>App_Device\<close>, \<open>App_Http\<close>, \<open>App_Alloc\<close>, \<open>App_Probe\<close>, \<open>App_Request\<close>: the
    parts of \<open>src/lib.rs\<close> in that order of use.  Shown: what the configuration parsers accept; the hash is
    the Toeplitz hash, every ephemeral port is owned by exactly one queue and return traffic passes the
    filter of its worker's device; lines never mix on the console; discovery returns the first lease and
    the first reply of its gateway within its budget; every mbuf and every pool is freed exactly once;
    the response counter counts the body however it is cut; over-aligned blocks are aligned, inside
    their raw block and freed once; the request fits its buffer and blocks lie inside the object.
  \<^item> \<open>App_Conn\<close>, \<open>App_Worker\<close>: \<open>conn_step\<close> and \<open>worker_thread\<close>.  Shown: a connection counts exactly the body of
    what it took from its socket, or over TLS of the plaintext its session handed out, and is marked
    clean only when its request is out, the peer has ended and nothing is left; it is accounted once; a
    worker opens all its connections, and over plain HTTP gives up on a dead network; and a connection
    reset before its request was queued makes it loop forever.
  \<^item> \<open>App_Serve\<close>, \<open>App_Network\<close>: a worker over plain HTTP against servers that answer.  The servers follow a plan
    (\<open>plan\<close>): per connection, the round of the handshake, the bytes each round adds to the receive buffer, and
    the round of the FIN; \<open>serving_network\<close> says that polling keeps to the plan, by steps of \<open>Tcp_Poll\<close>, in every
    round of a run of this worker.  Shown: every connection counts the body of what arrived over all the
    rounds and closes cleanly.  \<open>App_Network\<close> builds such a network from \<open>dispatch\<close>, a scaling peer's SYN-ACK
    and a short response, on the worker's own sockets.
  \<^item> \<open>App_Seed\<close>: the worker's fabricated ARP reply in the interface it builds.  Shown: the gateway is resolved
    without an ARP request for 60 seconds, and not longer without a packet sent by the gateway itself.
  \<^item> \<open>App_Main\<close>: \<open>osv_app_main\<close> and \<open>build.rs\<close>.  The contract of the workers is the locale \<open>reporting_workers\<close>,
    interpreted on \<open>worker_thread\<close>.  Shown: COMPLETE is printed only for a complete run, a run in which
    everything works completes, work is divided without gap or overlap, and each fatal error is reported
    exactly when its check is the first to fail.  \<open>App_Lease\<close> puts the DHCP client under discovery: the workers
    it leads to have usable addresses.

  \<^bold>\<open>Conventions.\<close>  Integers keep their width as words where the code can wrap (the crate is built in
  release mode: \<open>+\<close>, \<open>-\<close> and \<open>*\<close> wrap, debug assertions are off) and are \<open>nat\<close> where a length bounds them; \<open>i64\<close>
  milliseconds and microseconds are \<open>int\<close> with the wrap written out.  \<open>None\<close> of an operation is a panic:
  an index out of bounds, a failed assertion.  Errors the code returns are values of a sum.  Code that
  is not in the repository is an argument: the driver (results of its calls, with traces of what was
  called and freed), \<open>write(2)\<close>, the allocator below \<open>ShimAllocator\<close>, rustls and the clock.

  \<^bold>\<open>Loops and fuel.\<close>  Loops are recursive functions with a measure.  The receive loop of a connection takes
  the length of the receive queue as fuel, which is enough because a round removes at least a byte.  The
  TLS pump and the worker loop may run forever; they take a number of rounds.  The rounds suffice for a
  worker when the clock passes the SYN timeout, or every FIN arrives, within them; of the TLS pump it is
  only said what a connection has counted when its steps return.

  \<^bold>\<open>Not modelled.\<close>  \<open>Interface::poll\<close> and the dispatch between device and sockets, and the IPv4, UDP and
  DHCP wire formats: the segments, messages and socket states they produce are arguments.  The properties of a worker
  that need its stack say what polling does to the sockets: any steps of the TCP model that keep to the
  servers' plan, or none on a dead network.  Of \<open>process_ipv4\<close> only the
  checks up to the neighbour cache are modelled.  Congestion control is not compiled in.  TLS configuration
  and cryptography are library calls.  Lines that only print are left out, with the statistics that only
  feed them.  Workers run concurrently but share only counters and the console; the console's interleavings
  are modelled in \<open>App_Console\<close>, and \<open>App_Main\<close> runs the workers one by one.  The C++ shim and the PMC
  programs are other languages.
\<close>

end
